(* ===== verification/Prelude.thy ===== *)
theory Prelude
  imports Main "HOL-Library.Word"
begin

text \<open>
  What every component of the development shares: names for the C integer types, the outcome of
  running kernel code (it returns, it panics, or the calling thread goes to sleep), sequencing of
  such runs, the identities of the kernel's spinlocks, sleep-locks and sleep channels, the
  spinlocks the executing hart holds, and the lemmas on those that the component proofs use.

  A kernel function is a function from the kernel state to an outcome. The kernel state is an
  extensible record: each component adds its fields to the record of the component it is built on,
  and the operations of a component are polymorphic in the fields that are added later.
\<close>

unbundle bit_operations_syntax

section \<open>C integer types\<close>

type_synonym u8 = "8 word"
type_synonym u16 = "16 word"
type_synonym u32 = "32 word"
type_synonym u64 = "64 word"

text \<open>
  A C \<open>int\<close> is a \<^typ>\<open>32 word\<close> too: it is compared through \<^const>\<open>sint\<close>, and its arithmetic
  wraps, as the RISC-V instructions the kernel is compiled to do.
\<close>

type_synonym i32 = "32 word"

section \<open>Outcomes of kernel code\<close>

text \<open>
  \<open>Ret r s\<close>: the code returned \<open>r\<close> in state \<open>s\<close>. \<open>Panic m\<close>: \<open>panic(m)\<close> was called, which never
  returns. \<open>Blocked s\<close>: the calling thread gave up its hart inside \<open>sleep()\<close>; \<open>s\<close> is the state in
  which the scheduler gets control.
\<close>

datatype ('s, 'a) outcome = Ret 'a 's | Panic string | Blocked 's

type_synonym ('s, 'a) prog = "'s \<Rightarrow> ('s, 'a) outcome"

definition return :: "'a \<Rightarrow> ('s, 'a) prog" where
  "return x = (\<lambda>s. Ret x s)"

definition panic :: "string \<Rightarrow> ('s, 'a) prog" where
  "panic m = (\<lambda>s. Panic m)"

definition bind :: "('s, 'a) prog \<Rightarrow> ('a \<Rightarrow> ('s, 'b) prog) \<Rightarrow> ('s, 'b) prog" where
  "bind f g = (\<lambda>s. case f s of Ret x t \<Rightarrow> g x t | Panic m \<Rightarrow> Panic m | Blocked t \<Rightarrow> Blocked t)"

abbreviation andthen :: "('s, 'a) prog \<Rightarrow> ('s, 'b) prog \<Rightarrow> ('s, 'b) prog" where
  "andthen f g \<equiv> bind f (\<lambda>_. g)"

definition gets :: "('s \<Rightarrow> 'a) \<Rightarrow> ('s, 'a) prog" where
  "gets f = (\<lambda>s. Ret (f s) s)"

definition modify :: "('s \<Rightarrow> 's) \<Rightarrow> ('s, unit) prog" where
  "modify f = (\<lambda>s. Ret () (f s))"

text \<open>\<open>onlyif b f\<close> is \<open>if(b) f;\<close>; \<open>panic_if b m\<close> is \<open>if(b) panic(m);\<close>.\<close>

definition onlyif :: "bool \<Rightarrow> ('s, unit) prog \<Rightarrow> ('s, unit) prog" where
  "onlyif b f = (if b then f else return ())"

definition panic_if :: "bool \<Rightarrow> string \<Rightarrow> ('s, unit) prog" where
  "panic_if b m = (if b then panic m else return ())"

text \<open>\<open>for_each xs f\<close> is a \<open>for\<close> loop over the indices \<open>xs\<close> that is never left early.\<close>

primrec for_each :: "'i list \<Rightarrow> ('i \<Rightarrow> ('s, unit) prog) \<Rightarrow> ('s, unit) prog" where
  "for_each [] f = return ()"
| "for_each (x # xs) f = andthen (f x) (for_each xs f)"

named_theorems prog_simps \<open>unfolding of the basic program constructs\<close>

lemma bind_apply [prog_simps]:
  "bind f g s = (case f s of Ret x t \<Rightarrow> g x t | Panic m \<Rightarrow> Panic m | Blocked t \<Rightarrow> Blocked t)"
  by (simp add: bind_def)

lemma return_apply [prog_simps]: "return x s = Ret x s"
  by (simp add: return_def)

lemma panic_apply [prog_simps]: "panic m s = Panic m"
  by (simp add: panic_def)

lemma gets_apply [prog_simps]: "gets f s = Ret (f s) s"
  by (simp add: gets_def)

lemma modify_apply [prog_simps]: "modify f s = Ret () (f s)"
  by (simp add: modify_def)

lemma onlyif_apply [prog_simps]: "onlyif b f s = (if b then f s else Ret () s)"
  by (simp add: onlyif_def prog_simps)

lemma panic_if_apply [prog_simps]: "panic_if b m s = (if b then Panic m else Ret () s)"
  by (simp add: panic_if_def prog_simps)

lemma bind_RetE:
  assumes "bind f g s = Ret y u"
  obtains x t where "f s = Ret x t" and "g x t = Ret y u"
  using assms by (auto simp: bind_def split: outcome.splits)

lemma bind_Ret: "f s = Ret x t \<Longrightarrow> bind f g s = g x t"
  by (simp add: bind_def)

lemma bind_assoc: "bind (bind f g) h = bind f (\<lambda>x. bind (g x) h)"
  by (auto simp: bind_def fun_eq_iff split: outcome.splits)

lemma bind_return [simp]: "bind f return = f"
  by (auto simp: bind_def return_def fun_eq_iff split: outcome.splits)

lemma return_bind [simp]: "bind (return x) g = g x"
  by (auto simp: bind_def return_def fun_eq_iff)

text \<open>The loop over a list of indices is the loop over its parts, one after the other.\<close>

lemma for_each_append: "for_each (xs @ ys) f = andthen (for_each xs f) (for_each ys f)"
  by (induction xs) (simp_all add: bind_assoc)

text \<open>
  A predicate on states is kept by a program when every state in which the program returns or
  blocks satisfies it.
\<close>

definition keeps :: "('s \<Rightarrow> bool) \<Rightarrow> ('s, 'a) prog \<Rightarrow> bool" where
  "keeps P f \<longleftrightarrow> (\<forall>s. P s \<longrightarrow> (case f s of Ret x t \<Rightarrow> P t | Panic m \<Rightarrow> True | Blocked t \<Rightarrow> P t))"

named_theorems keeps_intros \<open>rules that show a program keeps a predicate\<close>

lemma keepsI:
  assumes "\<And>s x t. P s \<Longrightarrow> f s = Ret x t \<Longrightarrow> P t"
    and "\<And>s t. P s \<Longrightarrow> f s = Blocked t \<Longrightarrow> P t"
  shows "keeps P f"
  unfolding keeps_def
proof (intro allI impI)
  fix s
  assume "P s"
  from assms(1) [OF this] assms(2) [OF this]
  show "case f s of Ret x t \<Rightarrow> P t | Panic m \<Rightarrow> True | Blocked t \<Rightarrow> P t"
    by (cases "f s") simp_all
qed

lemma keepsD:
  "keeps P f \<Longrightarrow> P s \<Longrightarrow> (case f s of Ret x t \<Rightarrow> P t | Panic m \<Rightarrow> True | Blocked t \<Rightarrow> P t)"
  by (simp add: keeps_def)

lemma keepsD_Ret: "keeps P f \<Longrightarrow> P s \<Longrightarrow> f s = Ret x t \<Longrightarrow> P t"
  using keepsD [of P f s] by simp

lemma keepsD_Blocked: "keeps P f \<Longrightarrow> P s \<Longrightarrow> f s = Blocked t \<Longrightarrow> P t"
  using keepsD [of P f s] by simp

lemma keeps_bind [keeps_intros]:
  assumes f: "keeps P f" and g: "\<And>x. keeps P (g x)"
  shows "keeps P (bind f g)"
  unfolding keeps_def
proof (intro allI impI)
  fix s
  assume "P s"
  show "case bind f g s of Ret x t \<Rightarrow> P t | Panic m \<Rightarrow> True | Blocked t \<Rightarrow> P t"
  proof (cases "f s")
    case (Ret x t)
    with keepsD [OF f \<open>P s\<close>] have "P t" by simp
    from keepsD [OF g this, of x] Ret show ?thesis by (simp add: bind_apply)
  next
    case (Panic m)
    then show ?thesis by (simp add: bind_apply)
  next
    case (Blocked t)
    with keepsD [OF f \<open>P s\<close>] show ?thesis by (simp add: bind_apply)
  qed
qed

lemma keeps_return [keeps_intros]: "keeps P (return x)"
  by (simp add: keeps_def return_def)

lemma keeps_panic [keeps_intros]: "keeps P (panic m)"
  by (simp add: keeps_def panic_def)

lemma keeps_gets [keeps_intros]: "keeps P (gets f)"
  by (simp add: keeps_def gets_def)

lemma keeps_onlyif [keeps_intros]: "keeps P f \<Longrightarrow> keeps P (onlyif b f)"
  by (simp add: onlyif_def keeps_return)

lemma keeps_panic_if [keeps_intros]: "keeps P (panic_if b m)"
  by (simp add: panic_if_def keeps_return keeps_panic)

lemma keeps_modify: "(\<And>s. P s \<Longrightarrow> P (f s)) \<Longrightarrow> keeps P (modify f)"
  by (simp add: keeps_def modify_def)

lemma keeps_if [keeps_intros]:
  "(b \<Longrightarrow> keeps P f) \<Longrightarrow> (\<not> b \<Longrightarrow> keeps P g) \<Longrightarrow> keeps P (if b then f else g)"
  by simp

lemma keeps_for_each [keeps_intros]:
  "(\<And>i. i \<in> set xs \<Longrightarrow> keeps P (f i)) \<Longrightarrow> keeps P (for_each xs f)"
  by (induction xs) (auto intro: keeps_return keeps_bind)

section \<open>Locks and channels\<close>

text \<open>
  A sleep-lock is named after the object that contains it: the buffer or the in-memory inode with
  the given index. A spinlock is named after the global it is, or after the object it is a field
  of; the inner spinlock of a sleep-lock is \<open>SleepLk\<close>.
\<close>

datatype sleeplock_id = BufLock nat | InodeLock nat

datatype lock =
    KmemLock | PidLock | WaitLock | TicksLock | ProcLock nat | BcacheLock | LogLock
  | ItableLock | FtableLock | PipeLock u64 | ConsLock | UartLock | VdiskLock | PrLock
  | SleepLk sleeplock_id

text \<open>
  The addresses that are used as sleep channels; \<open>NoChan\<close> is the null pointer.
\<close>

datatype chan =
    NoChan | ChanProc nat | ChanTicks | ChanSleepLock sleeplock_id | ChanPipeNread u64
  | ChanPipeNwrite u64 | ChanLog | ChanConsR | ChanUartTxR | ChanBuf nat | ChanDiskFree

text \<open>
  The bottom record of the kernel state: the spinlocks that the executing hart holds. The lock
  words in memory, the other harts and the interrupt flags are modelled in theory Spinlock, which
  shows that on the hart that calls them \<open>acquire\<close> and \<open>release\<close> act on the set of held locks as
  the following two definitions do.
\<close>

record kbase =
  held :: "lock set"

definition acquire :: "lock \<Rightarrow> ('z kbase_scheme, unit) prog" where
  "acquire lk = (\<lambda>s. if lk \<in> held s then Panic ''acquire''
     else Ret () (s\<lparr>held := insert lk (held s)\<rparr>))"

definition release :: "lock \<Rightarrow> ('z kbase_scheme, unit) prog" where
  "release lk = (\<lambda>s. if lk \<notin> held s then Panic ''release''
     else Ret () (s\<lparr>held := held s - {lk}\<rparr>))"

text \<open>A critical section: \<open>acquire(&lk); ...; release(&lk);\<close>.\<close>

definition with_lock :: "lock \<Rightarrow> ('z kbase_scheme, 'a) prog \<Rightarrow> ('z kbase_scheme, 'a) prog" where
  "with_lock lk f = andthen (acquire lk) (bind f (\<lambda>x. andthen (release lk) (return x)))"

lemma acquire_Ret [simp]: "lk \<notin> held s \<Longrightarrow> acquire lk s = Ret () (s\<lparr>held := insert lk (held s)\<rparr>)"
  by (simp add: acquire_def)

lemma acquire_Panic [simp]: "lk \<in> held s \<Longrightarrow> acquire lk s = Panic ''acquire''"
  by (simp add: acquire_def)

lemma release_Ret [simp]: "lk \<in> held s \<Longrightarrow> release lk s = Ret () (s\<lparr>held := held s - {lk}\<rparr>)"
  by (simp add: release_def)

lemma release_Panic [simp]: "lk \<notin> held s \<Longrightarrow> release lk s = Panic ''release''"
  by (simp add: release_def)

lemma with_lock_apply:
  "with_lock lk f s =
     (if lk \<in> held s then Panic ''acquire''
      else case f (s\<lparr>held := insert lk (held s)\<rparr>) of
             Ret x t \<Rightarrow> if lk \<in> held t then Ret x (t\<lparr>held := held t - {lk}\<rparr>) else Panic ''release''
           | Panic m \<Rightarrow> Panic m
           | Blocked t \<Rightarrow> Blocked t)"
  by (simp add: with_lock_def prog_simps acquire_def release_def split: outcome.splits)

text \<open>
  A critical section whose body only updates state outside the lock set leaves exactly that update:
  the lock set is what it was before.
\<close>

lemma with_lock_modify:
  assumes "lk \<notin> held s" and "\<And>t. held (f t) = held t"
    and "\<And>t h. f (t\<lparr>held := h\<rparr>) = (f t)\<lparr>held := h\<rparr>"
  shows "with_lock lk (modify f) s = Ret () (f s)"
proof -
  have "(f s)\<lparr>held := held s\<rparr> = f (s\<lparr>held := held s\<rparr>)"
    by (simp only: assms(3))
  then have "(f s)\<lparr>held := held s\<rparr> = f s" by simp
  moreover have "held s \<union> {lk} - {lk} = held s"
    using assms(1) by auto
  ultimately show ?thesis
    using assms by (simp add: with_lock_apply prog_simps)
qed

lemma with_lock_gets:
  assumes "lk \<notin> held s" and "\<And>t h. f (t\<lparr>held := h\<rparr>) = f t"
  shows "with_lock lk (gets f) s = Ret (f s) s"
  using assms by (simp add: with_lock_apply prog_simps)

text \<open>
  Every update of a component's own field commutes with an update of the lock set and leaves the
  lock set alone; the two facts are collected per component.
\<close>

named_theorems held_simps \<open>component updates and the set of held locks\<close>

section \<open>Lemmas on words\<close>

lemma unat_lt_exp: "unat (x :: 'a::len word) < 2 ^ LENGTH('a)"
  by (rule unsigned_less)

lemma unat_lt_u32 [simp]: "unat (x :: u32) < 4294967296"
  using unat_lt_exp [of x] by simp

lemma unat_lt_u64: "unat (x :: u64) < 18446744073709551616"
  using unat_lt_exp [of x] by simp

lemma unat_add_no_wrap:
  fixes x y :: "'a::len word"
  shows "unat x + unat y < 2 ^ LENGTH('a) \<Longrightarrow> unat (x + y) = unat x + unat y"
  by (simp add: unat_add_lem)

text \<open>The unsigned overflow test \<open>x + y < x\<close> of C.\<close>

lemma word_overflow_iff:
  fixes x y :: "'a::len word"
  shows "x + y < x \<longleftrightarrow> 2 ^ LENGTH('a) \<le> unat x + unat y"
proof
  assume "x + y < x"
  show "2 ^ LENGTH('a) \<le> unat x + unat y"
  proof (rule ccontr)
    assume "\<not> ?thesis"
    then have "unat (x + y) = unat x + unat y" by (simp add: unat_add_no_wrap)
    with \<open>x + y < x\<close> show False by (simp add: word_less_nat_alt)
  qed
next
  assume ge: "2 ^ LENGTH('a) \<le> unat x + unat y"
  have small: "unat x + unat y - 2 ^ LENGTH('a) < 2 ^ LENGTH('a)"
    using unat_lt_exp [of x] unat_lt_exp [of y] by linarith
  have "unat (x + y) = (unat x + unat y) mod 2 ^ LENGTH('a)"
    by (simp add: unat_word_ariths)
  also have "\<dots> = unat x + unat y - 2 ^ LENGTH('a)"
    using ge small by (simp add: le_mod_geq)
  also have "\<dots> < unat x"
    using ge unat_lt_exp [of y] by linarith
  finally show "x + y < x" by (simp add: word_less_nat_alt)
qed

end
