(* ===== verification/Layout.thy ===== *)
theory Layout
  imports Prelude
begin

text \<open>
  The constants and address macros of kernel/param.h, kernel/memlayout.h and kernel/riscv.h:
  page rounding, the fields of a page-table entry, the three page-table indices of a virtual
  address, and the fixed virtual addresses of trampoline, trap frame and kernel stacks.
\<close>

section \<open>Definitions\<close>

abbreviation (input) NPROC :: nat where "NPROC \<equiv> 64"
abbreviation (input) NCPU :: nat where "NCPU \<equiv> 8"
abbreviation (input) NOFILE :: nat where "NOFILE \<equiv> 16"
abbreviation (input) NFILE :: nat where "NFILE \<equiv> 100"
abbreviation (input) NINODE :: nat where "NINODE \<equiv> 50"
abbreviation (input) NDEV :: nat where "NDEV \<equiv> 10"
abbreviation (input) ROOTDEV :: u32 where "ROOTDEV \<equiv> 1"
abbreviation (input) MAXARG :: nat where "MAXARG \<equiv> 32"
abbreviation (input) MAXOPBLOCKS :: nat where "MAXOPBLOCKS \<equiv> 10"
abbreviation (input) LOGSIZE :: nat where "LOGSIZE \<equiv> 30"
abbreviation (input) NBUF :: nat where "NBUF \<equiv> 30"
abbreviation (input) MAXPATH :: nat where "MAXPATH \<equiv> 128"
abbreviation (input) NPQ :: nat where "NPQ \<equiv> 5"
abbreviation (input) MAXAGE :: u32 where "MAXAGE \<equiv> 15"

abbreviation (input) PGSIZE :: u64 where "PGSIZE \<equiv> 4096"

definition PGROUNDUP :: "u64 \<Rightarrow> u64" where
  "PGROUNDUP sz = (sz + PGSIZE - 1) AND NOT (PGSIZE - 1)"

definition PGROUNDDOWN :: "u64 \<Rightarrow> u64" where
  "PGROUNDDOWN a = a AND NOT (PGSIZE - 1)"

abbreviation (input) PTE_V :: u64 where "PTE_V \<equiv> 1"
abbreviation (input) PTE_R :: u64 where "PTE_R \<equiv> 2"
abbreviation (input) PTE_W :: u64 where "PTE_W \<equiv> 4"
abbreviation (input) PTE_X :: u64 where "PTE_X \<equiv> 8"
abbreviation (input) PTE_U :: u64 where "PTE_U \<equiv> 16"

definition PA2PTE :: "u64 \<Rightarrow> u64" where
  "PA2PTE pa = push_bit 10 (drop_bit 12 pa)"

definition PTE2PA :: "u64 \<Rightarrow> u64" where
  "PTE2PA pte = push_bit 12 (drop_bit 10 pte)"

definition PTE_FLAGS :: "u64 \<Rightarrow> u64" where
  "PTE_FLAGS pte = pte AND 1023"

definition PX :: "nat \<Rightarrow> u64 \<Rightarrow> u64" where
  "PX level va = drop_bit (12 + 9 * level) va AND 511"

abbreviation (input) MAXVA :: u64 where "MAXVA \<equiv> 274877906944"
abbreviation (input) KERNBASE :: u64 where "KERNBASE \<equiv> 2147483648"
abbreviation (input) PHYSTOP :: u64 where "PHYSTOP \<equiv> 2281701376"
abbreviation (input) TRAMPOLINE :: u64 where "TRAMPOLINE \<equiv> MAXVA - PGSIZE"
abbreviation (input) TRAPFRAME :: u64 where "TRAPFRAME \<equiv> TRAMPOLINE - PGSIZE"

definition KSTACK :: "nat \<Rightarrow> u64" where
  "KSTACK p = TRAMPOLINE - (of_nat p + 1) * 2 * PGSIZE"

text \<open>The literals above are the values of the macros that define them.\<close>

lemma MAXVA_macro: "MAXVA = push_bit (9 + 9 + 9 + 12 - 1) 1"
  by simp

lemma PHYSTOP_macro: "PHYSTOP = KERNBASE + 128 * 1024 * 1024"
  by simp

section \<open>Page rounding\<close>

lemma bit_low_mask:
  "bit (4095 :: int) n \<longleftrightarrow> n < 12" "bit (1023 :: int) n \<longleftrightarrow> n < 10" "bit (511 :: int) n \<longleftrightarrow> n < 9"
proof -
  have m: "(4095 :: int) = mask 12" "(1023 :: int) = mask 10" "(511 :: int) = mask 9"
    by (simp_all add: mask_eq_exp_minus_1)
  show "bit (4095 :: int) n \<longleftrightarrow> n < 12" "bit (1023 :: int) n \<longleftrightarrow> n < 10" "bit (511 :: int) n \<longleftrightarrow> n < 9"
    unfolding m bit_mask_iff by auto
qed

lemma PGROUNDDOWN_mask: "PGROUNDDOWN a = push_bit 12 (drop_bit 12 a)"
  unfolding PGROUNDDOWN_def
proof (rule bit_word_eqI)
  fix n
  assume "n < LENGTH(64)"
  have "(PGSIZE - 1 :: u64) = 4095" by simp
  with \<open>n < LENGTH(64)\<close>
  show "bit (a AND NOT (PGSIZE - 1)) n = bit (push_bit 12 (drop_bit 12 a)) n"
    by (auto simp: bit_simps bit_low_mask not_le)
qed

lemma unat_PGROUNDDOWN: "unat (PGROUNDDOWN a) = unat a div 4096 * 4096"
proof -
  have "unat a div 4096 * 4096 < 18446744073709551616"
    using unat_lt_u64 [of a] by simp
  then show ?thesis
    by (simp add: PGROUNDDOWN_mask push_bit_eq_mult unat_word_ariths unat_drop_bit_eq drop_bit_eq_div)
qed

lemma PGROUNDDOWN_le: "PGROUNDDOWN a \<le> a"
  by (simp add: word_le_nat_alt unat_PGROUNDDOWN)

lemma PGROUNDDOWN_offset: "unat (a - PGROUNDDOWN a) = unat a mod 4096"
proof -
  have "unat (a - PGROUNDDOWN a) = unat a - unat (PGROUNDDOWN a)"
    using PGROUNDDOWN_le by (rule unat_sub)
  also have "\<dots> = unat a mod 4096"
    by (simp add: unat_PGROUNDDOWN minus_div_mult_eq_mod)
  finally show ?thesis .
qed

lemma PGROUNDDOWN_idem [simp]: "PGROUNDDOWN (PGROUNDDOWN a) = PGROUNDDOWN a"
  by (simp add: word_unat_eq_iff unat_PGROUNDDOWN)

lemma PGROUNDUP_PGROUNDDOWN: "PGROUNDUP a = PGROUNDDOWN (a + 4095)"
  by (simp add: PGROUNDUP_def PGROUNDDOWN_def add.commute)

text \<open>\<open>PGROUNDUP\<close> gives the least page boundary that is not below its argument, when there is one.\<close>

lemma unat_PGROUNDUP:
  assumes "unat a + 4095 < 2 ^ 64"
  shows "unat (PGROUNDUP a) = (unat a + 4095) div 4096 * 4096"
proof -
  have "unat (a + 4095) = unat a + 4095"
    using assms by (subst unat_add_no_wrap) simp_all
  then show ?thesis by (simp add: PGROUNDUP_PGROUNDDOWN unat_PGROUNDDOWN)
qed

section \<open>Page-table entries and indices\<close>

lemma PTE2PA_PA2PTE: "PTE2PA (PA2PTE pa) = PGROUNDDOWN pa"
  unfolding PTE2PA_def PA2PTE_def PGROUNDDOWN_mask
  by (rule bit_word_eqI) (auto simp: bit_simps)

lemma PGROUNDDOWN_aligned: "unat a mod 4096 = 0 \<Longrightarrow> PGROUNDDOWN a = a"
  by (auto simp: word_unat_eq_iff unat_PGROUNDDOWN)

text \<open>
  A leaf entry \<open>PA2PTE(pa) | perm | PTE_V\<close> gives back both the page and the permission bits.
\<close>

lemma PTE2PA_leaf:
  assumes "perm < 1024"
  shows "PTE2PA (PA2PTE pa OR perm) = PGROUNDDOWN pa"
proof -
  have "take_bit 10 perm = perm"
    using assms by (simp add: take_bit_eq_mod word_unat_eq_iff unat_mod word_less_nat_alt)
  then have high: "\<not> bit perm n" if "10 \<le> n" for n
    using that by (metis bit_take_bit_iff not_le)
  show ?thesis
    unfolding PTE2PA_def PA2PTE_def PGROUNDDOWN_mask
    by (rule bit_word_eqI) (auto simp: bit_simps high)
qed

lemma PTE_FLAGS_leaf:
  assumes "perm < 1024"
  shows "PTE_FLAGS (PA2PTE pa OR perm) = perm"
proof -
  have tb: "take_bit 10 perm = perm"
    using assms by (simp add: take_bit_eq_mod word_unat_eq_iff unat_mod word_less_nat_alt)
  have "(1023 :: u64) = mask 10" by (simp add: mask_eq_exp_minus_1)
  then have "PTE_FLAGS (PA2PTE pa OR perm) = take_bit 10 (PA2PTE pa OR perm)"
    by (simp add: PTE_FLAGS_def take_bit_eq_mask)
  also have "\<dots> = take_bit 10 (PA2PTE pa) OR take_bit 10 perm"
    by simp
  also have "take_bit 10 (PA2PTE pa) = 0"
    unfolding PA2PTE_def by (rule bit_word_eqI) (auto simp: bit_simps)
  finally show ?thesis by (simp add: tb)
qed

lemma PX_lt: "unat (PX level va) < 512"
proof -
  have "PX level va \<le> 511"
    unfolding PX_def by (rule word_and_le1)
  then show ?thesis by (simp add: word_le_nat_alt)
qed

lemma bit_PX: "bit (PX level va) n \<longleftrightarrow> n < 9 \<and> bit va (12 + 9 * level + n)"
  unfolding PX_def by (auto simp: bit_simps bit_low_mask)

text \<open>
  Two addresses below \<open>MAXVA\<close> with the same three indices are on the same page, so a page table
  never gives one entry to two pages.
\<close>

lemma PX_injective:
  assumes "va < MAXVA" and "vb < MAXVA"
    and "\<And>l. l < 3 \<Longrightarrow> PX l va = PX l vb"
  shows "PGROUNDDOWN va = PGROUNDDOWN vb"
proof (rule bit_word_eqI)
  fix n
  assume "n < LENGTH(64)"
  have small: "\<not> bit v m" if "v < MAXVA" and "38 \<le> m" for v :: u64 and m
  proof -
    have "take_bit 38 v = v"
      using that(1) by (simp add: take_bit_eq_mod word_unat_eq_iff unat_mod word_less_nat_alt)
    then show ?thesis using that(2) by (metis bit_take_bit_iff not_le)
  qed
  have same: "bit va m = bit vb m" if "12 \<le> m" for m
  proof (cases "m < 39")
    case True
    define l where "l = (m - 12) div 9"
    define k where "k = (m - 12) mod 9"
    have m: "m = 12 + 9 * l + k" and "k < 9"
      using that by (simp_all add: l_def k_def)
    have "l < 3" using True that by (simp add: l_def)
    then have "bit (PX l va) k = bit (PX l vb) k" using assms(3) by simp
    then show ?thesis using \<open>k < 9\<close> by (simp add: bit_PX m)
  next
    case False
    then show ?thesis using small [OF assms(1)] small [OF assms(2)] by simp
  qed
  show "bit (PGROUNDDOWN va) n = bit (PGROUNDDOWN vb) n"
    using same by (auto simp: PGROUNDDOWN_mask bit_simps)
qed

section \<open>Kernel stacks\<close>

lemma unat_KSTACK:
  assumes "p < NPROC"
  shows "unat (KSTACK p) = 274877902848 - (p + 1) * 8192"
proof -
  have p: "unat (of_nat p :: u64) = p"
    using assms by (simp add: unat_of_nat)
  have "unat ((of_nat p + 1) * 2 * PGSIZE :: u64) = (p + 1) * 8192"
    using assms p by (simp add: unat_word_ariths)
  moreover have "(of_nat p + 1) * 2 * PGSIZE \<le> TRAMPOLINE"
    using assms calculation by (simp add: word_le_nat_alt)
  ultimately show ?thesis
    unfolding KSTACK_def by (subst unat_sub) simp_all
qed

text \<open>
  Kernel stacks of different processes are at least two pages apart: there is an unmapped guard
  page between any two of them.
\<close>

lemma KSTACK_guard:
  assumes "p < NPROC" and "q < NPROC" and "p < q"
  shows "unat (KSTACK q) + 8192 \<le> unat (KSTACK p)"
  using assms by (simp add: unat_KSTACK)

end
