(* ===== verification/CString.thy ===== *)
theory CString
  imports Layout
begin

text \<open>
  kernel/string.c over byte memory. A pointer that is only read through is given by the bytes seen
  from it (\<^typ>\<open>nat \<Rightarrow> u8\<close>: the byte at each offset); \<open>memset\<close> and \<open>memmove\<close>, where the position of
  the regions matters, work on addresses of a memory. The counts are the values of the \<open>uint\<close> or
  \<open>int\<close> arguments. The last section reads and writes 64-bit little-endian words, which is how
  the kernel's C code accesses page tables and the free list.
\<close>

type_synonym mem = "u64 \<Rightarrow> u8"
type_synonym bytes = "nat \<Rightarrow> u8"

definition from_ptr :: "mem \<Rightarrow> u64 \<Rightarrow> bytes" where
  "from_ptr m a = (\<lambda>i. m (a + of_nat i))"

section \<open>Definitions\<close>

primrec memset :: "mem \<Rightarrow> u64 \<Rightarrow> u8 \<Rightarrow> nat \<Rightarrow> mem" where
  "memset m dst c 0 = m"
| "memset m dst c (Suc n) = memset (m(dst := c)) (dst + 1) c n"

fun memcmp :: "bytes \<Rightarrow> bytes \<Rightarrow> nat \<Rightarrow> int" where
  "memcmp s1 s2 0 = 0"
| "memcmp s1 s2 (Suc n) =
     (if s1 0 \<noteq> s2 0 then uint (s1 0) - uint (s2 0)
      else memcmp (\<lambda>i. s1 (Suc i)) (\<lambda>i. s2 (Suc i)) n)"

text \<open>The two loops of \<open>memmove\<close>: from the low end upwards and from the high end downwards.\<close>

primrec copy_up :: "mem \<Rightarrow> u64 \<Rightarrow> u64 \<Rightarrow> nat \<Rightarrow> mem" where
  "copy_up m d s 0 = m"
| "copy_up m d s (Suc n) = copy_up (m(d := m s)) (d + 1) (s + 1) n"

primrec copy_down :: "mem \<Rightarrow> u64 \<Rightarrow> u64 \<Rightarrow> nat \<Rightarrow> mem" where
  "copy_down m d s 0 = m"
| "copy_down m d s (Suc n) = copy_down (m(d - 1 := m (s - 1))) (d - 1) (s - 1) n"

definition memmove :: "mem \<Rightarrow> u64 \<Rightarrow> u64 \<Rightarrow> nat \<Rightarrow> mem" where
  "memmove m dst src n =
     (if n = 0 then m
      else if src < dst \<and> src + of_nat n > dst then copy_down m (dst + of_nat n) (src + of_nat n) n
      else copy_up m dst src n)"

definition memcpy :: "mem \<Rightarrow> u64 \<Rightarrow> u64 \<Rightarrow> nat \<Rightarrow> mem" where
  "memcpy m dst src n = memmove m dst src n"

fun strncmp :: "bytes \<Rightarrow> bytes \<Rightarrow> nat \<Rightarrow> int" where
  "strncmp p q 0 = 0"
| "strncmp p q (Suc n) =
     (if p 0 \<noteq> 0 \<and> p 0 = q 0 then strncmp (\<lambda>i. p (Suc i)) (\<lambda>i. q (Suc i)) n
      else uint (p 0) - uint (q 0))"

text \<open>
  \<open>strncpy(s, t, n)\<close>: \<open>i\<close> is how far \<open>s\<close> and \<open>t\<close> have advanced. After the terminating NUL is
  copied the second loop writes zeros.
\<close>

primrec zero_fill :: "bytes \<Rightarrow> nat \<Rightarrow> nat \<Rightarrow> bytes" where
  "zero_fill s i 0 = s"
| "zero_fill s i (Suc n) = zero_fill (s(i := 0)) (Suc i) n"

primrec strncpy_loop :: "bytes \<Rightarrow> bytes \<Rightarrow> nat \<Rightarrow> nat \<Rightarrow> bytes" where
  "strncpy_loop s t i 0 = s"
| "strncpy_loop s t i (Suc n) =
     (if t i \<noteq> 0 then strncpy_loop (s(i := t i)) t (Suc i) n
      else zero_fill (s(i := t i)) (Suc i) n)"

definition strncpy :: "bytes \<Rightarrow> bytes \<Rightarrow> nat \<Rightarrow> bytes" where
  "strncpy s t n = strncpy_loop s t 0 n"

text \<open>
  \<open>safestrcpy(s, t, n)\<close> with \<open>n\<close> at least 1: \<open>k\<close> is the value \<open>n - 1\<close> the loop counts down. The
  NUL that ends a shorter source has been copied and skipped when \<open>*s = 0\<close> is run, so a second NUL
  is written behind it.
\<close>

primrec safestrcpy_loop :: "bytes \<Rightarrow> bytes \<Rightarrow> nat \<Rightarrow> nat \<Rightarrow> bytes" where
  "safestrcpy_loop s t i 0 = s(i := 0)"
| "safestrcpy_loop s t i (Suc k) =
     (if t i \<noteq> 0 then safestrcpy_loop (s(i := t i)) t (Suc i) k
      else s(i := t i, Suc i := 0))"

definition safestrcpy :: "bytes \<Rightarrow> bytes \<Rightarrow> int \<Rightarrow> bytes" where
  "safestrcpy s t n = (if n \<le> 0 then s else safestrcpy_loop s t 0 (nat n - 1))"

text \<open>\<open>strlen\<close> does not return on bytes with no NUL.\<close>

partial_function (option) strlen_from :: "bytes \<Rightarrow> nat \<Rightarrow> nat option" where
  "strlen_from s n = (if s n \<noteq> 0 then strlen_from s (Suc n) else Some n)"

definition strlen :: "bytes \<Rightarrow> nat option" where
  "strlen s = strlen_from s 0"

section \<open>What the loops compute\<close>

lemma of_nat_Suc_word: "(of_nat (Suc i) :: u64) = of_nat i + 1"
  by simp

text \<open>\<open>in_region a dst n\<close>: the address \<open>a\<close> is one of the \<open>n\<close> addresses from \<open>dst\<close> on.\<close>

definition in_region :: "u64 \<Rightarrow> u64 \<Rightarrow> nat \<Rightarrow> bool" where
  "in_region a dst n \<longleftrightarrow> unat (a - dst) < n"

lemma in_region_0 [simp]: "\<not> in_region a dst 0"
  by (simp add: in_region_def)

lemma in_region_Suc:
  assumes "n < 2 ^ 64 - 1"
  shows "in_region a dst (Suc n) \<longleftrightarrow> a = dst \<or> a \<noteq> dst \<and> in_region a (dst + 1) n"
proof (cases "a = dst")
  case True
  then show ?thesis by (simp add: in_region_def)
next
  case False
  then have "a - dst \<noteq> 0" by simp
  then have "unat (a - dst) = Suc (unat (a - dst - 1))"
    by (metis Suc_pred' unat_gt_0 unat_minus_one)
  moreover have "a - dst - 1 = a - (dst + 1)" by simp
  ultimately show ?thesis using False by (simp add: in_region_def)
qed

lemma not_in_region_next:
  assumes "n < 2 ^ 64 - 1"
  shows "\<not> in_region dst (dst + 1) n"
proof -
  have "dst - (dst + 1) = (- 1 :: u64)" by simp
  moreover have "unat (- 1 :: u64) = 2 ^ 64 - 1" by (simp add: unsigned_minus_1_eq_mask mask_eq_exp_minus_1)
  ultimately show ?thesis using assms by (simp add: in_region_def)
qed

lemma memset_eq:
  assumes "n < 2 ^ 64"
  shows "memset m dst c n = (\<lambda>a. if in_region a dst n then c else m a)"
  using assms
proof (induction n arbitrary: m dst)
  case 0
  then show ?case by simp
next
  case (Suc n)
  then have IH: "memset (m(dst := c)) (dst + 1) c n =
      (\<lambda>a. if in_region a (dst + 1) n then c else (m(dst := c)) a)"
    by simp
  have "n < 2 ^ 64 - 1" using Suc.prems by simp
  then show ?case
    by (auto simp: IH fun_eq_iff in_region_Suc)
qed

lemma copy_up_eq:
  assumes "n < 2 ^ 64" and "\<And>i j. i < n \<Longrightarrow> j < n \<Longrightarrow> i < j \<Longrightarrow> d + of_nat i \<noteq> s + of_nat j"
  shows "copy_up m d s n = (\<lambda>a. if in_region a d n then m (s + (a - d)) else m a)"
  using assms
proof (induction n arbitrary: m d s)
  case 0
  then show ?case by simp
next
  case (Suc n)
  have sep: "d + 1 + of_nat i \<noteq> s + 1 + of_nat j" if "i < n" "j < n" "i < j" for i j
    using Suc.prems(2) [of "Suc i" "Suc j"] that by (simp add: ac_simps)
  have IH: "copy_up (m(d := m s)) (d + 1) (s + 1) n =
      (\<lambda>a. if in_region a (d + 1) n then (m(d := m s)) (s + 1 + (a - (d + 1))) else (m(d := m s)) a)"
    by (rule Suc.IH) (use Suc.prems(1) sep in simp_all)
  have n: "n < 2 ^ 64 - 1" using Suc.prems by simp
  have not_hit: "s + 1 + (a - (d + 1)) \<noteq> d" if a: "in_region a (d + 1) n" for a
  proof -
    define j where "j = unat (a - (d + 1))"
    have "j < n" using a by (simp add: in_region_def j_def)
    have "of_nat j = a - (d + 1)" by (simp add: j_def)
    moreover have "d + of_nat 0 \<noteq> s + of_nat (Suc j)"
      using Suc.prems(2) [of 0 "Suc j"] \<open>j < n\<close> by simp
    ultimately show ?thesis by (auto simp: ac_simps)
  qed
  show ?case
  proof
    fix a
    have "s + 1 + (a - (d + 1)) = s + (a - d)" by simp
    then show "copy_up m d s (Suc n) a = (if in_region a d (Suc n) then m (s + (a - d)) else m a)"
      using not_hit [of a] not_in_region_next [OF n, of d]
      by (auto simp: IH in_region_Suc [OF n])
  qed
qed

text \<open>The region that ends at \<open>dst + n\<close>, seen from its last address.\<close>

lemma in_region_Suc_last:
  assumes "n < 2 ^ 64 - 1"
  shows "in_region a d (Suc n) \<longleftrightarrow> a = d + of_nat n \<or> in_region a d n"
proof -
  have "unat (a - d) = n \<longleftrightarrow> a - d = of_nat n"
    using assms by (simp add: word_unat_eq_iff [of "a - d"] unat_of_nat)
  also have "\<dots> \<longleftrightarrow> a = d + of_nat n"
    by (auto simp: diff_eq_eq add.commute)
  finally have "a = d + of_nat n \<longleftrightarrow> unat (a - d) = n" by blast
  then show ?thesis by (auto simp: in_region_def)
qed

lemma copy_down_eq:
  assumes "n < 2 ^ 64" and "\<And>i j. i < n \<Longrightarrow> j < n \<Longrightarrow> j < i \<Longrightarrow> d + of_nat i \<noteq> s + of_nat j"
  shows "copy_down m (d + of_nat n) (s + of_nat n) n =
    (\<lambda>a. if in_region a d n then m (s + (a - d)) else m a)"
  using assms
proof (induction n arbitrary: m)
  case 0
  then show ?case by simp
next
  case (Suc n)
  define m' where "m' = m(d + of_nat n := m (s + of_nat n))"
  have step: "copy_down m (d + of_nat (Suc n)) (s + of_nat (Suc n)) (Suc n) =
      copy_down m' (d + of_nat n) (s + of_nat n) n"
    by (simp add: m'_def algebra_simps)
  have IH: "copy_down m' (d + of_nat n) (s + of_nat n) n =
      (\<lambda>a. if in_region a d n then m' (s + (a - d)) else m' a)"
    by (rule Suc.IH) (use Suc.prems in simp_all)
  have n: "n < 2 ^ 64 - 1" using Suc.prems by simp
  have not_hit: "s + (a - d) \<noteq> d + of_nat n" if a: "in_region a d n" for a
  proof -
    define j where "j = unat (a - d)"
    have "j < n" using a by (simp add: in_region_def j_def)
    moreover have "of_nat j = a - d" by (simp add: j_def)
    ultimately show ?thesis using Suc.prems(2) [of n j] by auto
  qed
  have last: "\<not> in_region (d + of_nat n) d n"
    using n by (simp add: in_region_def unat_of_nat)
  show ?case
  proof
    fix a
    show "copy_down m (d + of_nat (Suc n)) (s + of_nat (Suc n)) (Suc n) a =
        (if in_region a d (Suc n) then m (s + (a - d)) else m a)"
      unfolding step IH using not_hit [of a] last
      by (auto simp: m'_def in_region_Suc_last [OF n])
  qed
qed

text \<open>
  Addresses of a region that does not wrap around the end of the address space are compared by
  their offsets.
\<close>

lemma add_of_nat_eq_iff:
  fixes d s :: u64
  assumes "unat d + i < 2 ^ 64" and "unat s + j < 2 ^ 64"
  shows "d + of_nat i = s + of_nat j \<longleftrightarrow> unat d + i = unat s + j"
proof -
  have "unat (d + of_nat i) = unat d + i"
    using assms(1) by (subst unat_add_no_wrap) (simp_all add: unat_of_nat)
  moreover have "unat (s + of_nat j) = unat s + j"
    using assms(2) by (subst unat_add_no_wrap) (simp_all add: unat_of_nat)
  ultimately show ?thesis by (simp add: word_unat_eq_iff)
qed

lemma unat_add_of_nat:
  fixes s :: u64
  assumes "unat s + n < 2 ^ 64"
  shows "unat (s + of_nat n) = unat s + n"
  using assms by (subst unat_add_no_wrap) (simp_all add: unat_of_nat)

text \<open>
  \<open>memmove\<close> gives the destination the bytes the source had before the call, also when the two
  regions overlap, and changes nothing else. It needs only that neither region wraps around the end
  of the address space.
\<close>

lemma memmove_eq:
  assumes d: "unat dst + n < 2 ^ 64" and s: "unat src + n < 2 ^ 64"
  shows "memmove m dst src n = (\<lambda>a. if in_region a dst n then m (src + (a - dst)) else m a)"
proof (cases "src < dst \<and> src + of_nat n > dst")
  case True
  have "copy_down m (dst + of_nat n) (src + of_nat n) n =
      (\<lambda>a. if in_region a dst n then m (src + (a - dst)) else m a)"
  proof (rule copy_down_eq)
    show "n < 2 ^ 64" using d by simp
    fix i j
    assume "i < n" "j < n" "j < i"
    then show "dst + of_nat i \<noteq> src + of_nat j"
      using True d s by (subst add_of_nat_eq_iff) (simp_all add: word_less_nat_alt)
  qed
  then show ?thesis using True by (auto simp: memmove_def)
next
  case False
  have "copy_up m dst src n = (\<lambda>a. if in_region a dst n then m (src + (a - dst)) else m a)"
  proof (rule copy_up_eq)
    show "n < 2 ^ 64" using d by simp
    fix i j
    assume "i < n" "j < n" "i < j"
    then show "dst + of_nat i \<noteq> src + of_nat j"
      using False d s unat_add_of_nat [OF s]
      by (subst add_of_nat_eq_iff) (auto simp: word_less_nat_alt)
  qed
  then show ?thesis using False by (auto simp: memmove_def)
qed

text \<open>\<open>memcmp\<close> returns 0 exactly when the first \<open>n\<close> bytes agree.\<close>

lemma memcmp_0_iff: "memcmp s1 s2 n = 0 \<longleftrightarrow> (\<forall>i<n. s1 i = s2 i)"
proof (induction s1 s2 n rule: memcmp.induct)
  case (2 s1 s2 n)
  then show ?case
    by (auto simp: less_Suc_eq_0_disj word_uint_eq_iff)
qed simp

text \<open>
  \<open>strncmp\<close> returns 0 exactly when the strings agree up to and including the first NUL, or in
  their first \<open>n\<close> bytes.
\<close>

lemma strncmp_0_iff:
  "strncmp p q n = 0 \<longleftrightarrow> (\<forall>i<n. (\<forall>j<i. p j \<noteq> 0) \<longrightarrow> p i = q i)"
proof (induction p q n rule: strncmp.induct)
  case (1 p q)
  then show ?case by simp
next
  case (2 p q n)
  have split: "(\<forall>i<Suc n. (\<forall>j<i. p j \<noteq> 0) \<longrightarrow> p i = q i) \<longleftrightarrow>
      p 0 = q 0 \<and> (p 0 \<noteq> 0 \<longrightarrow> (\<forall>i<n. (\<forall>j<i. p (Suc j) \<noteq> 0) \<longrightarrow> p (Suc i) = q (Suc i)))"
    unfolding All_less_Suc2 by auto
  show ?case
    using 2 unfolding split by (auto simp: word_uint_eq_iff)
qed

lemma zero_fill_eq: "zero_fill s i n = (\<lambda>j. if i \<le> j \<and> j < i + n then 0 else s j)"
  by (induction n arbitrary: s i) (auto simp: fun_eq_iff)

text \<open>
  \<open>strncpy\<close> fills all \<open>n\<close> bytes of the destination: the source up to its NUL, then zeros.
\<close>

lemma strncpy_loop_eq:
  "strncpy_loop s t i n =
     (\<lambda>j. if i \<le> j \<and> j < i + n then (if \<forall>k. i \<le> k \<and> k < j \<longrightarrow> t k \<noteq> 0 then t j else 0) else s j)"
proof (induction n arbitrary: s i)
  case 0
  then show ?case by (intro ext) auto
next
  case (Suc n)
  show ?case
  proof
    fix j
    have le: "i \<le> k \<longleftrightarrow> k = i \<or> Suc i \<le> k" for k by auto
    have step: "(\<forall>k. i \<le> k \<and> k < j \<longrightarrow> t k \<noteq> 0) \<longleftrightarrow>
        t i \<noteq> 0 \<and> (\<forall>k. Suc i \<le> k \<and> k < j \<longrightarrow> t k \<noteq> 0)" if "i < j"
      unfolding le using that by blast
    consider "j < i" | "j = i" | "i < j" by linarith
    then show "strncpy_loop s t i (Suc n) j =
        (if i \<le> j \<and> j < i + Suc n
         then if \<forall>k. i \<le> k \<and> k < j \<longrightarrow> t k \<noteq> 0 then t j else 0 else s j)"
    proof cases
      case 3
      show ?thesis unfolding step [OF 3] using 3 by (simp add: Suc.IH zero_fill_eq)
    qed (simp_all add: Suc.IH zero_fill_eq)
  qed
qed

lemma strncpy_eq:
  "strncpy s t n = (\<lambda>j. if j < n then (if \<forall>k<j. t k \<noteq> 0 then t j else 0) else s j)"
  by (simp add: strncpy_def strncpy_loop_eq fun_eq_iff)

text \<open>What \<open>strncpy\<close> wrote into an array of \<open>n\<close> bytes compares equal to its source.\<close>

lemma strncmp_strncpy: "strncmp t (strncpy s t n) n = 0"
  by (auto simp: strncmp_0_iff strncpy_eq)

text \<open>\<open>safestrcpy\<close> always leaves a NUL among the first \<open>n\<close> bytes.\<close>

lemma safestrcpy_loop_NUL: "\<exists>j. i \<le> j \<and> j \<le> i + k \<and> safestrcpy_loop s t i k j = 0"
proof (induction k arbitrary: s i)
  case 0
  then show ?case by auto
next
  case (Suc k)
  show ?case
  proof (cases "t i = 0")
    case True
    then show ?thesis by (intro exI [of _ "Suc i"]) simp
  next
    case False
    obtain j where "Suc i \<le> j" "j \<le> Suc i + k" "safestrcpy_loop (s(i := t i)) t (Suc i) k j = 0"
      using Suc.IH by blast
    with False show ?thesis by (intro exI [of _ j]) simp
  qed
qed

lemma safestrcpy_NUL:
  assumes "0 < n"
  shows "\<exists>j. int j < n \<and> safestrcpy s t n j = 0"
proof -
  obtain j where "j \<le> nat n - 1" "safestrcpy_loop s t 0 (nat n - 1) j = 0"
    using safestrcpy_loop_NUL [of 0 "nat n - 1" s t] by auto
  with assms show ?thesis
    by (intro exI [of _ j]) (simp add: safestrcpy_def)
qed

text \<open>
  Where \<open>safestrcpy\<close> writes: never at or behind offset \<open>n\<close>.
\<close>

lemma safestrcpy_loop_frame: "i + k < j \<Longrightarrow> safestrcpy_loop s t i k j = s j"
  by (induction k arbitrary: s i) auto

lemma safestrcpy_frame: "n \<le> int j \<Longrightarrow> safestrcpy s t n j = s j"
  by (simp add: safestrcpy_def safestrcpy_loop_frame)

text \<open>\<open>strlen\<close> returns the offset of the first NUL when there is one.\<close>

lemma strlen_from_eq:
  assumes "s k = 0" and "n \<le> k" and "\<And>i. n \<le> i \<Longrightarrow> i < k \<Longrightarrow> s i \<noteq> 0"
  shows "strlen_from s n = Some k"
  using assms
proof (induction "k - n" arbitrary: n)
  case 0
  then show ?case by (simp add: strlen_from.simps)
next
  case (Suc d)
  then have "n < k" by simp
  then have "s n \<noteq> 0" using Suc.prems by simp
  moreover have "strlen_from s (Suc n) = Some k"
    using Suc \<open>n < k\<close> by (intro Suc.hyps(1)) simp_all
  ultimately show ?case by (subst strlen_from.simps) simp
qed

lemma strlen_eq: "s k = 0 \<Longrightarrow> (\<And>i. i < k \<Longrightarrow> s i \<noteq> 0) \<Longrightarrow> strlen s = Some k"
  unfolding strlen_def by (rule strlen_from_eq) simp_all

section \<open>64-bit words in memory\<close>

definition load64 :: "mem \<Rightarrow> u64 \<Rightarrow> u64" where
  "load64 m a = horner_sum of_bool 2 (map (\<lambda>n. bit (m (a + of_nat (n div 8))) (n mod 8)) [0..<64])"

definition store64 :: "mem \<Rightarrow> u64 \<Rightarrow> u64 \<Rightarrow> mem" where
  "store64 m a v =
     (\<lambda>b. if in_region b a 8 then ucast (drop_bit (8 * unat (b - a)) v) else m b)"

lemma bit_load64: "bit (load64 m a) n \<longleftrightarrow> n < 64 \<and> bit (m (a + of_nat (n div 8))) (n mod 8)"
  by (auto simp: load64_def bit_horner_sum_bit_word_iff)

lemma load64_cong:
  assumes "\<And>i. i < 8 \<Longrightarrow> m (a + of_nat i) = m' (a + of_nat i)"
  shows "load64 m a = load64 m' a"
  by (rule bit_word_eqI) (auto simp: bit_load64 assms)

lemma load64_store64 [simp]: "load64 (store64 m a v) a = v"
proof (rule bit_word_eqI)
  fix n
  assume "n < LENGTH(64)"
  then have "n div 8 < 8" by simp
  then have u: "unat (of_nat (n div 8) :: u64) = n div 8" by (simp add: unat_of_nat)
  have "8 * (n div 8) + n mod 8 = n" by simp
  moreover have "bit (ucast (drop_bit (8 * (n div 8)) v) :: u8) (n mod 8) = bit v (8 * (n div 8) + n mod 8)"
    by (simp add: bit_simps)
  ultimately have "bit (ucast (drop_bit (8 * (n div 8)) v) :: u8) (n mod 8) = bit v n" by simp
  with \<open>n < LENGTH(64)\<close> \<open>n div 8 < 8\<close> show "bit (load64 (store64 m a v) a) n = bit v n"
    by (simp add: bit_load64 store64_def in_region_def u)
qed

lemma load64_store64_other:
  assumes "\<And>i. i < 8 \<Longrightarrow> \<not> in_region (b + of_nat i) a 8"
  shows "load64 (store64 m a v) b = load64 m b"
  by (rule load64_cong) (simp add: store64_def assms)

text \<open>Aligned words at different addresses do not overlap.\<close>

lemma aligned8_disjoint:
  assumes "unat a mod 8 = 0" and "unat b mod 8 = 0" and "a \<noteq> b" and "i < 8"
  shows "\<not> in_region (b + of_nat i) a 8"
proof
  assume r: "in_region (b + of_nat i) a 8"
  define j where "j = unat (b + of_nat i - a)"
  have "j < 8" using r by (simp add: in_region_def j_def)
  have "b + of_nat i = a + of_nat j" by (simp add: j_def)
  have room: "u mod 8 = 0 \<Longrightarrow> u < 18446744073709551616 \<Longrightarrow> k < 8 \<Longrightarrow> u + k < 18446744073709551616"
    for u k :: nat by presburger
  have fit: "unat x + k < 2 ^ 64" if "unat x mod 8 = 0" "k < 8" for x :: u64 and k
    using room [OF that(1) unat_lt_u64 that(2)] by simp
  have "unat b + i = unat a + j"
    using \<open>b + of_nat i = a + of_nat j\<close> add_of_nat_eq_iff [OF fit fit, of b i a j] assms \<open>j < 8\<close>
    by simp
  then have "unat b = unat a"
    using assms(1,2,4) \<open>j < 8\<close> by presburger
  with assms(3) show False by (simp add: word_unat_eq_iff)
qed

end
