(* ===== verification/Kalloc.thy ===== *)
theory Kalloc
  imports CString
begin

text \<open>
  kernel/kalloc.c: the allocator of physical pages. The free pages form a list that is linked
  through their own first eight bytes. The model keeps that representation: \<open>pmem\<close> is physical
  memory, \<open>freelist\<close> the pointer \<open>kmem.freelist\<close>, and \<open>kend\<close> the address \<open>end\<close> that the linker
  script gives to the first byte behind the kernel. The abstraction is the list of free pages.
\<close>

section \<open>State and operations\<close>

record kmem = kbase +
  pmem :: mem
  freelist :: u64
  kend :: u64

definition kfree :: "u64 \<Rightarrow> ('z kmem_scheme, unit) prog" where
  "kfree pa =
     bind (gets kend) (\<lambda>e.
     andthen (panic_if (pa mod PGSIZE \<noteq> 0 \<or> pa < e \<or> pa \<ge> PHYSTOP) ''kfree'')
     (andthen (modify (\<lambda>s. s\<lparr>pmem := memset (pmem s) pa 1 4096\<rparr>))
     (with_lock KmemLock
       (modify (\<lambda>s. s\<lparr>pmem := store64 (pmem s) pa (freelist s), freelist := pa\<rparr>)))))"

definition kalloc :: "('z kmem_scheme, u64) prog" where
  "kalloc =
     bind (with_lock KmemLock
       (bind (gets freelist) (\<lambda>r.
        andthen (onlyif (r \<noteq> 0) (modify (\<lambda>s. s\<lparr>freelist := load64 (pmem s) r\<rparr>)))
        (return r))))
     (\<lambda>r. andthen (onlyif (r \<noteq> 0) (modify (\<lambda>s. s\<lparr>pmem := memset (pmem s) r 5 4096\<rparr>)))
     (return r))"

text \<open>
  The pages that the loop of \<open>freerange\<close> visits; \<open>page_range_loop\<close> below shows that the list
  unfolds as the loop does.
\<close>

definition page_range :: "u64 \<Rightarrow> u64 \<Rightarrow> u64 list" where
  "page_range p pa_end =
     map (\<lambda>i. p + of_nat i * PGSIZE) [0..<(unat pa_end - unat p) div 4096]"

definition freerange :: "u64 \<Rightarrow> u64 \<Rightarrow> ('z kmem_scheme, unit) prog" where
  "freerange pa_start pa_end = for_each (page_range (PGROUNDUP pa_start) pa_end) kfree"

definition kinit :: "('z kmem_scheme, unit) prog" where
  "kinit = bind (gets kend) (\<lambda>e. freerange e PHYSTOP)"

section \<open>Pages and the memory inside them\<close>

definition page_ok :: "u64 \<Rightarrow> u64 \<Rightarrow> bool" where
  "page_ok e p \<longleftrightarrow> p mod PGSIZE = 0 \<and> e \<le> p \<and> p < PHYSTOP"

lemma mod_PGSIZE_iff: "(p :: u64) mod PGSIZE = 0 \<longleftrightarrow> unat p mod 4096 = 0"
  by (simp only: word_unat_eq_iff unat_mod) simp

lemma page_room:
  assumes "(x :: u64) mod PGSIZE = 0" and "k < 4096"
  shows "unat x + k < 2 ^ 64"
proof -
  have "4096 dvd unat x" using assms(1) by (simp add: mod_PGSIZE_iff mod_eq_0_iff_dvd)
  then obtain w where w: "unat x = 4096 * w" by (rule dvdE)
  then have "w < 4503599627370496" using unat_lt_u64 [of x] by simp
  with w assms(2) show ?thesis by simp
qed

text \<open>Two page-aligned regions of one page each are the same or disjoint.\<close>

lemma pages_disjoint:
  assumes "p mod PGSIZE = 0" and "q mod PGSIZE = 0" and "p \<noteq> q" and "i < 4096"
  shows "\<not> in_region (q + of_nat i) p 4096"
proof
  assume r: "in_region (q + of_nat i) p 4096"
  define j where "j = unat (q + of_nat i - p)"
  have "j < 4096" using r by (simp add: in_region_def j_def)
  have eq: "q + of_nat i = p + of_nat j" by (simp add: j_def)
  have "unat q + i = unat p + j"
    using eq add_of_nat_eq_iff [OF page_room page_room] assms \<open>j < 4096\<close> by simp
  moreover obtain v w where "unat q = 4096 * v" "unat p = 4096 * w"
    using assms(1,2) unfolding mod_PGSIZE_iff mod_eq_0_iff_dvd by (elim dvdE)
  ultimately have "(4096 * v + i) div 4096 = (4096 * w + j) div 4096" by simp
  with assms(4) \<open>j < 4096\<close> have "v = w" by simp
  with \<open>unat q = _\<close> \<open>unat p = _\<close> have "unat q = unat p" by simp
  with assms(3) show False by (simp add: word_unat_eq_iff)
qed

lemma page_own: "i < 4096 \<Longrightarrow> in_region (p + of_nat i) p 4096"
  by (simp add: in_region_def unat_of_nat)

text \<open>Writing inside one page leaves the words at the start of the other pages alone.\<close>

lemma load64_memset_other_page:
  assumes "p mod PGSIZE = 0" and "q mod PGSIZE = 0" and "p \<noteq> q"
  shows "load64 (memset m p c 4096) q = load64 m q"
  by (rule load64_cong) (use pages_disjoint [OF assms] in \<open>simp add: memset_eq\<close>)

lemma load64_store64_other_page:
  assumes "p mod PGSIZE = 0" and "q mod PGSIZE = 0" and "p \<noteq> q"
  shows "load64 (store64 m p v) q = load64 m q"
proof (rule load64_store64_other)
  fix i :: nat
  assume "i < 8"
  then have "\<not> in_region (q + of_nat i) p 4096" using pages_disjoint [OF assms] by simp
  then show "\<not> in_region (q + of_nat i) p 8" by (simp add: in_region_def)
qed

section \<open>The list of free pages\<close>

primrec free_list :: "mem \<Rightarrow> u64 \<Rightarrow> u64 list \<Rightarrow> bool" where
  "free_list m x [] \<longleftrightarrow> x = 0"
| "free_list m x (p # ps) \<longleftrightarrow> x = p \<and> p \<noteq> 0 \<and> free_list m (load64 m p) ps"

definition kmem_inv :: "'z kmem_scheme \<Rightarrow> u64 list \<Rightarrow> bool" where
  "kmem_inv s ps \<longleftrightarrow>
     0 < kend s \<and> free_list (pmem s) (freelist s) ps \<and> distinct ps \<and> (\<forall>p \<in> set ps. page_ok (kend s) p)"

lemma free_list_cong:
  "(\<And>p. p \<in> set ps \<Longrightarrow> load64 m p = load64 m' p) \<Longrightarrow> free_list m x ps = free_list m' x ps"
  by (induction ps arbitrary: x) auto

lemma free_list_memset:
  assumes "p mod PGSIZE = 0" and "\<And>q. q \<in> set ps \<Longrightarrow> q mod PGSIZE = 0" and "p \<notin> set ps"
  shows "free_list (memset m p c 4096) x ps = free_list m x ps"
  by (rule free_list_cong) (metis assms load64_memset_other_page)

lemma free_list_store64:
  assumes "p mod PGSIZE = 0" and "\<And>q. q \<in> set ps \<Longrightarrow> q mod PGSIZE = 0" and "p \<notin> set ps"
  shows "free_list (store64 m p v) x ps = free_list m x ps"
  by (rule free_list_cong) (metis assms load64_store64_other_page)

lemma kmem_inv_held [simp]: "kmem_inv (s\<lparr>held := h\<rparr>) ps = kmem_inv s ps"
  by (simp add: kmem_inv_def)

text \<open>The list is determined by the state: it is a function of it on the states that have one.\<close>

lemma free_list_unique: "free_list m x ps \<Longrightarrow> free_list m x qs \<Longrightarrow> ps = qs"
proof (induction ps arbitrary: x qs)
  case Nil
  then show ?case by (cases qs) auto
next
  case (Cons p ps)
  then show ?case by (cases qs) auto
qed

lemma kmem_inv_unique: "kmem_inv s ps \<Longrightarrow> kmem_inv s qs \<Longrightarrow> ps = qs"
  unfolding kmem_inv_def by (blast intro: free_list_unique)

section \<open>What the operations do\<close>

lemma kfree_eq:
  assumes "page_ok (kend s) p" and "KmemLock \<notin> held s"
  shows "kfree p s = Ret ()
    (s\<lparr>pmem := store64 (memset (pmem s) p 1 4096) p (freelist s), freelist := p\<rparr>)"
proof -
  have "\<not> (p mod PGSIZE \<noteq> 0 \<or> p < kend s \<or> p \<ge> PHYSTOP)"
    using assms(1) by (auto simp: page_ok_def)
  then show ?thesis
    using assms(2) by (simp add: kfree_def prog_simps with_lock_modify)
qed

lemma kfree_bad:
  assumes "\<not> page_ok (kend s) p"
  shows "kfree p s = Panic ''kfree''"
  using assms by (auto simp: kfree_def prog_simps page_ok_def not_le not_less)

lemma kmem_inv_kfree:
  assumes inv: "kmem_inv s ps" and p: "page_ok (kend s) p" and "p \<notin> set ps"
  shows "kmem_inv (s\<lparr>pmem := store64 (memset (pmem s) p 1 4096) p (freelist s), freelist := p\<rparr>) (p # ps)"
proof -
  have al: "p mod PGSIZE = 0" "\<And>q. q \<in> set ps \<Longrightarrow> q mod PGSIZE = 0"
    using inv p by (auto simp: kmem_inv_def page_ok_def)
  moreover have "p \<noteq> 0" using inv p by (auto simp: kmem_inv_def page_ok_def)
  ultimately show ?thesis
    using assms by (simp add: kmem_inv_def free_list_store64 free_list_memset)
qed

lemma kalloc_Nil:
  assumes "kmem_inv s []" and "KmemLock \<notin> held s"
  shows "kalloc s = Ret 0 s"
proof -
  have "freelist s = 0" using assms(1) by (simp add: kmem_inv_def)
  then show ?thesis
    using assms(2) by (simp add: kalloc_def prog_simps with_lock_apply)
qed

lemma kalloc_Cons:
  assumes "kmem_inv s (p # ps)" and "KmemLock \<notin> held s"
  shows "kalloc s = Ret p (s\<lparr>freelist := load64 (pmem s) p, pmem := memset (pmem s) p 5 4096\<rparr>)"
proof -
  have "freelist s = p" "p \<noteq> 0" using assms(1) by (auto simp: kmem_inv_def)
  then show ?thesis
    using assms(2) by (simp add: kalloc_def prog_simps with_lock_apply)
qed

lemma kmem_inv_kalloc:
  assumes inv: "kmem_inv s (p # ps)"
  shows "kmem_inv (s\<lparr>freelist := load64 (pmem s) p, pmem := memset (pmem s) p 5 4096\<rparr>) ps"
proof -
  have "p mod PGSIZE = 0" "\<And>q. q \<in> set ps \<Longrightarrow> q mod PGSIZE = 0" "p \<notin> set ps"
    using inv by (auto simp: kmem_inv_def page_ok_def)
  then show ?thesis
    using inv by (simp add: kmem_inv_def free_list_memset)
qed


text \<open>Freeing a list of pages one after the other.\<close>

lemma for_each_kfree:
  assumes "kmem_inv s ps" and "KmemLock \<notin> held s" and "distinct xs"
    and "\<forall>p \<in> set xs. page_ok (kend s) p" and "set xs \<inter> set ps = {}"
  shows "\<exists>t. for_each xs kfree s = Ret () t \<and> kmem_inv t (rev xs @ ps)
    \<and> held t = held s \<and> kend t = kend s"
  using assms
proof (induction xs arbitrary: s ps)
  case Nil
  then show ?case by (simp add: prog_simps)
next
  case (Cons p xs)
  let ?t = "s\<lparr>pmem := store64 (memset (pmem s) p 1 4096) p (freelist s), freelist := p\<rparr>"
  have "kfree p s = Ret () ?t" using Cons.prems by (simp add: kfree_eq)
  moreover have "kmem_inv ?t (p # ps)" using Cons.prems by (intro kmem_inv_kfree) auto
  from Cons.IH [OF this] Cons.prems obtain u
    where "for_each xs kfree ?t = Ret () u" "kmem_inv u (rev xs @ p # ps)"
      "held u = held s" "kend u = kend s" by auto
  ultimately show ?case by (simp add: bind_Ret)
qed

section \<open>The pages that boot puts on the list\<close>

text \<open>The list of pages unfolds as the loop \<open>for(; p + PGSIZE <= pa_end; p += PGSIZE)\<close>.\<close>

lemma unat_add_PGSIZE: "unat (p :: u64) + 4096 < 2 ^ 64 \<Longrightarrow> unat (p + PGSIZE) = unat p + 4096"
  using unat_add_of_nat [of p 4096] by simp

lemma page_range_loop:
  assumes "unat pa_end \<le> 2 ^ 64 - 8192" and "unat p < 2 ^ 64 - 4096"
  shows "page_range p pa_end =
    (if p + PGSIZE \<le> pa_end then p # page_range (p + PGSIZE) pa_end else [])"
proof -
  have u: "unat (p + PGSIZE) = unat p + 4096"
    using assms(2) by (intro unat_add_PGSIZE) simp
  show ?thesis
  proof (cases "p + PGSIZE \<le> pa_end")
    case True
    then have le: "unat p + 4096 \<le> unat pa_end" using u by (simp add: word_le_nat_alt)
    define k where "k = (unat pa_end - unat (p + PGSIZE)) div 4096"
    have "(unat pa_end - unat p) = 4096 + (unat pa_end - unat (p + PGSIZE))" using le u by simp
    then have k: "(unat pa_end - unat p) div 4096 = Suc k" by (simp add: k_def)
    have "map f [0..<Suc k] = f 0 # map (\<lambda>i. f (Suc i)) [0..<k]" for f :: "nat \<Rightarrow> u64"
      by (simp add: map_upt_Suc del: upt_Suc)
    then show ?thesis
      using True by (simp add: page_range_def k algebra_simps flip: k_def del: upt_Suc)
  next
    case False
    then have "unat pa_end - unat p < 4096" using u by (simp add: word_le_nat_alt)
    then show ?thesis using False by (simp add: page_range_def)
  qed
qed

lemma page_range_element:
  fixes p pa_end :: u64
  assumes "i < (unat pa_end - unat p) div 4096"
  shows "unat (p + of_nat i * PGSIZE) = unat p + i * 4096" and "unat p + i * 4096 + 4096 \<le> unat pa_end"
proof -
  have "Suc i * 4096 \<le> unat pa_end - unat p" using assms by (simp add: less_eq_div_iff_mult_less_eq Suc_le_eq)
  then show "unat p + i * 4096 + 4096 \<le> unat pa_end" by simp
  then have "unat p + i * 4096 < 2 ^ 64" using unat_lt_u64 [of pa_end] by simp
  then show "unat (p + of_nat i * PGSIZE) = unat p + i * 4096"
    using unat_add_of_nat [of p "i * 4096"] by (simp only: of_nat_mult of_nat_numeral)
qed

lemma distinct_page_range: "distinct (page_range p pa_end)"
proof -
  have "inj_on (\<lambda>i. p + of_nat i * PGSIZE) {0..<(unat pa_end - unat p) div 4096}"
  proof (rule inj_onI)
    fix i j
    assume "i \<in> {0..<(unat pa_end - unat p) div 4096}" "j \<in> {0..<(unat pa_end - unat p) div 4096}"
      and eq: "p + of_nat i * PGSIZE = p + of_nat j * PGSIZE"
    then have ij: "i < (unat pa_end - unat p) div 4096" "j < (unat pa_end - unat p) div 4096" by simp_all
    from eq have "unat p + i * 4096 = unat p + j * 4096"
      unfolding page_range_element(1) [OF ij(1), symmetric] page_range_element(1) [OF ij(2), symmetric]
      by (rule arg_cong)
    then show "i = j" by simp
  qed
  then show ?thesis by (simp add: page_range_def distinct_map)
qed

lemma set_page_range:
  assumes "p mod PGSIZE = 0" and "pa_end mod PGSIZE = 0"
  shows "set (page_range p pa_end) = {q. q mod PGSIZE = 0 \<and> p \<le> q \<and> q < pa_end}"
proof (intro equalityI subsetI CollectI)
  fix q
  assume "q \<in> set (page_range p pa_end)"
  then obtain i where i: "i < (unat pa_end - unat p) div 4096" and q: "q = p + of_nat i * PGSIZE"
    by (auto simp: page_range_def)
  note e = page_range_element [OF i]
  have "unat q mod 4096 = 0" using assms(1) e(1) q by (simp add: mod_PGSIZE_iff)
  then show "q mod PGSIZE = 0 \<and> p \<le> q \<and> q < pa_end"
    using e q by (simp add: mod_PGSIZE_iff word_le_nat_alt word_less_nat_alt)
next
  fix q
  assume q: "q \<in> {q. q mod PGSIZE = 0 \<and> p \<le> q \<and> q < pa_end}"
  then obtain a b c where abc: "unat q = 4096 * a" "unat p = 4096 * b" "unat pa_end = 4096 * c"
    using assms unfolding mod_PGSIZE_iff mod_eq_0_iff_dvd by (auto elim!: dvdE)
  then have "b \<le> a" "a < c" using q by (auto simp: word_le_nat_alt word_less_nat_alt)
  then have i: "a - b < (unat pa_end - unat p) div 4096" using abc by (simp flip: diff_mult_distrib2)
  have "unat (p + of_nat (a - b) * PGSIZE) = unat q"
    using page_range_element(1) [OF i] abc \<open>b \<le> a\<close> by (simp add: diff_mult_distrib)
  then have "q = p + of_nat (a - b) * PGSIZE" by (simp only: word_unat_eq_iff)
  then show "q \<in> set (page_range p pa_end)" using i by (auto simp: page_range_def)
qed

lemma page_ok_PGROUNDUP:
  assumes "unat e < 2 ^ 63"
  shows "page_ok e q \<longleftrightarrow> q mod PGSIZE = 0 \<and> PGROUNDUP e \<le> q \<and> q < PHYSTOP"
proof -
  have "e \<le> q \<longleftrightarrow> PGROUNDUP e \<le> q" if q: "q mod PGSIZE = 0"
  proof -
    obtain k where k: "unat q = k * 4096"
      using q unfolding mod_PGSIZE_iff by (metis mod_0_imp_dvd dvd_div_mult_self)
    have "unat e \<le> k * 4096 \<longleftrightarrow> unat e + 4095 < Suc k * 4096" by (simp add: less_Suc_eq_le)
    also have "\<dots> \<longleftrightarrow> (unat e + 4095) div 4096 \<le> k"
      by (simp only: div_less_iff_less_mult [symmetric] less_Suc_eq_le zero_less_numeral)
    finally show ?thesis
      using assms by (simp add: word_le_nat_alt unat_PGROUNDUP k)
  qed
  then show ?thesis unfolding page_ok_def by (intro conj_cong) simp_all
qed

section \<open>The contract of a pool of pages\<close>

text \<open>
  What the rest of the kernel relies on: the allocator hands out a page that was free, and returns
  0 only when no page is free; a page that is given back is free again. \<open>pool s A\<close> says that in
  state \<open>s\<close> exactly the pages in \<open>A\<close> are free.
\<close>

datatype pool_op = Alloc | Free u64

text \<open>
  A client's run of calls, together with the set of pages it owns: the result of a run that is not
  cut short is the set of pages owned at its end. The client does not free a page it does not own;
  such an element of the list of operations is skipped.
\<close>

fun pool_run :: "('s, u64) prog \<Rightarrow> (u64 \<Rightarrow> ('s, unit) prog) \<Rightarrow> pool_op list \<Rightarrow> u64 set \<Rightarrow> ('s, u64 set) prog" where
  "pool_run alloc free [] U = return U"
| "pool_run alloc free (Alloc # ops) U =
     bind alloc (\<lambda>p. pool_run alloc free ops (if p = 0 then U else insert p U))"
| "pool_run alloc free (Free p # ops) U =
     (if p \<in> U then andthen (free p) (pool_run alloc free ops (U - {p}))
      else pool_run alloc free ops U)"

locale page_pool =
  fixes pool :: "'s \<Rightarrow> u64 set \<Rightarrow> bool"
    and usable :: "u64 set"
    and alloc :: "('s, u64) prog"
    and free :: "u64 \<Rightarrow> ('s, unit) prog"
  assumes pool_usable: "pool s A \<Longrightarrow> A \<subseteq> usable"
    and zero_unusable: "pool s A \<Longrightarrow> 0 \<notin> usable"
    and alloc_none: "pool s {} \<Longrightarrow> alloc s = Ret 0 s"
    and alloc_some: "pool s A \<Longrightarrow> A \<noteq> {} \<Longrightarrow> \<exists>p t. alloc s = Ret p t \<and> p \<in> A \<and> pool t (A - {p})"
    and free_ok: "pool s A \<Longrightarrow> p \<in> usable \<Longrightarrow> p \<notin> A \<Longrightarrow> \<exists>t. free p s = Ret () t \<and> pool t (insert p A)"
begin

lemma alloc_fails_iff:
  assumes "pool s A" and "alloc s = Ret p t"
  shows "p = 0 \<longleftrightarrow> A = {}"
proof (cases "A = {}")
  case True
  then show ?thesis using assms alloc_none [of s] by simp
next
  case False
  from alloc_some [OF assms(1) this] assms(2) have "p \<in> A" by auto
  then show ?thesis using False pool_usable [OF assms(1)] zero_unusable [OF assms(1)] by auto
qed

text \<open>
  However a client interleaves its calls, no call panics or blocks, and at the end every page is
  either free or owned by the client, never both: no page is handed out twice and none is lost.
\<close>

lemma run_ownership:
  assumes "pool s A" and "A \<inter> U = {}" and "U \<subseteq> usable"
  shows "\<exists>B V t. pool_run alloc free ops U s = Ret V t \<and> pool t B \<and> B \<inter> V = {} \<and> B \<union> V = A \<union> U"
  using assms
proof (induction ops arbitrary: s A U)
  case Nil
  then show ?case by (auto simp: prog_simps)
next
  case (Cons op ops)
  show ?case
  proof (cases op)
    case Alloc
    show ?thesis
    proof (cases "A = {}")
      case True
      then show ?thesis
        using Cons.IH [OF Cons.prems] Cons.prems Alloc alloc_none [of s] by (simp add: bind_Ret)
    next
      case False
      from alloc_some [OF Cons.prems(1) this] obtain p t
        where t: "alloc s = Ret p t" "p \<in> A" "pool t (A - {p})" by auto
      have "p \<in> usable" "p \<noteq> 0"
        using pool_usable [OF Cons.prems(1)] zero_unusable [OF Cons.prems(1)] t(2) by auto
      moreover have "A - {p} \<union> insert p U = A \<union> U" "(A - {p}) \<inter> insert p U = {}"
        using t(2) Cons.prems(2) by blast+
      ultimately show ?thesis
        using Cons.IH [OF t(3), of "insert p U"] Cons.prems(2,3) Alloc t(1) by (auto simp: bind_Ret)
    qed
  next
    case (Free p)
    show ?thesis
    proof (cases "p \<in> U")
      case True
      from free_ok [OF Cons.prems(1)] True Cons.prems(2,3) obtain t
        where t: "free p s = Ret () t" "pool t (insert p A)" by blast
      have "insert p A \<union> (U - {p}) = A \<union> U" using True by blast
      moreover have "insert p A \<inter> (U - {p}) = {}" "U - {p} \<subseteq> usable" using Cons.prems(2,3) by auto
      ultimately show ?thesis
        using Cons.IH [OF t(2), of "U - {p}"] Free t(1) True by (simp add: bind_Ret)
    next
      case False
      then show ?thesis using Cons.IH [OF Cons.prems] Free by simp
    qed
  qed
qed

end

definition kmem_pool :: "u64 \<Rightarrow> 'z kmem_scheme \<Rightarrow> u64 set \<Rightarrow> bool" where
  "kmem_pool e s A \<longleftrightarrow> kend s = e \<and> KmemLock \<notin> held s \<and> (\<exists>ps. kmem_inv s ps \<and> set ps = A)"

lemma kmem_pool_kalloc:
  assumes "kmem_pool e s A" and "A \<noteq> {}"
  shows "\<exists>p t. kalloc s = Ret p t \<and> p \<in> A \<and> kmem_pool e t (A - {p})"
proof -
  from assms obtain p ps where ps: "kmem_inv s (p # ps)" "A = set (p # ps)"
    and s: "kend s = e" "KmemLock \<notin> held s"
    unfolding kmem_pool_def by (metis list.exhaust set_empty)
  have "A - {p} = set ps" using ps by (auto simp: kmem_inv_def)
  then show ?thesis
    using kalloc_Cons [OF ps(1) s(2)] kmem_inv_kalloc [OF ps(1)] s ps(2)
    by (auto simp: kmem_pool_def)
qed

lemma kmem_pool_kfree:
  assumes "kmem_pool e s A" and "page_ok e p" and "p \<notin> A"
  shows "\<exists>t. kfree p s = Ret () t \<and> kmem_pool e t (insert p A)"
proof -
  from assms(1) obtain ps where ps: "kmem_inv s ps" "A = set ps"
    and s: "kend s = e" "KmemLock \<notin> held s"
    by (auto simp: kmem_pool_def)
  have "set (p # ps) = insert p A" using ps by simp
  moreover have "kmem_inv (s\<lparr>pmem := store64 (memset (pmem s) p 1 4096) p (freelist s), freelist := p\<rparr>) (p # ps)"
    using kmem_inv_kfree [OF ps(1)] assms s ps by simp
  ultimately show ?thesis
    using kfree_eq [of s p] assms(2) s by (auto simp: kmem_pool_def)
qed

interpretation kmem_pages: page_pool "kmem_pool e" "{p. page_ok e p}" kalloc kfree for e
proof
  fix s :: "'a kmem_scheme" and A
  assume pool: "kmem_pool e s A"
  then show "A \<subseteq> {p. page_ok e p}" by (auto simp: kmem_pool_def kmem_inv_def)
  show "0 \<notin> {p. page_ok e p}" using pool by (auto simp: kmem_pool_def kmem_inv_def page_ok_def)
next
  fix s :: "'a kmem_scheme"
  assume "kmem_pool e s {}"
  then show "kalloc s = Ret 0 s" by (auto simp: kmem_pool_def intro: kalloc_Nil)
next
  fix s :: "'a kmem_scheme" and A
  assume "kmem_pool e s A" "A \<noteq> {}"
  then show "\<exists>p t. kalloc s = Ret p t \<and> p \<in> A \<and> kmem_pool e t (A - {p})"
    by (rule kmem_pool_kalloc)
next
  fix s :: "'a kmem_scheme" and A p
  assume "kmem_pool e s A" "p \<in> {p. page_ok e p}" "p \<notin> A"
  then show "\<exists>t. kfree p s = Ret () t \<and> kmem_pool e t (insert p A)"
    by (simp add: kmem_pool_kfree)
qed

section \<open>Properties\<close>

text \<open>
  C5: however a client interleaves calls of kalloc with calls of kfree on pages it owns, no call
  panics or blocks, and at the end each page that was free at the start is either on the free list
  or owned by the client and never both: no page is handed out twice and none is lost.
\<close>

theorem kalloc_kfree_ownership:
  assumes "kmem_pool e s A"
  shows "\<exists>B V t. pool_run kalloc kfree ops {} s = Ret V t \<and> kmem_pool e t B \<and> B \<inter> V = {} \<and> B \<union> V = A"
  using kmem_pages.run_ownership [OF assms, of "{}" ops] by simp

definition boot_kmem :: kmem where
  "boot_kmem = \<lparr>held = {}, pmem = \<lambda>_. 0, freelist = 0, kend = 0x87FFD123\<rparr>"

lemma load64_zero [simp]: "load64 (\<lambda>_. 0) a = 0"
  by (rule bit_word_eqI) (simp add: bit_load64)

lemma one_page_pool: "kmem_pool 0x87FFD123 (boot_kmem\<lparr>freelist := 0x87FFF000\<rparr>) {0x87FFF000}"
proof -
  have "kmem_inv (boot_kmem\<lparr>freelist := 0x87FFF000\<rparr>) [0x87FFF000]"
    by (simp add: boot_kmem_def kmem_inv_def page_ok_def)
  then show ?thesis unfolding kmem_pool_def by (intro conjI exI) (auto simp: boot_kmem_def)
qed

theorem kalloc_kfree_ownership_witness:
  "\<exists>B V t. pool_run kalloc kfree [Alloc, Alloc, Free 0x87FFF000, Alloc] {}
       (boot_kmem\<lparr>freelist := 0x87FFF000\<rparr>) = Ret V t
     \<and> kmem_pool 0x87FFD123 t B \<and> B \<inter> V = {} \<and> B \<union> V = {0x87FFF000}"
  by (rule kalloc_kfree_ownership [OF one_page_pool])

text \<open>
  Kinit returns, and puts every page-aligned page from the end of the kernel up to PHYSTOP on
  the free list, each once and nothing else.
\<close>

theorem kinit_frees_all:
  assumes "0 < kend s" and "kend s < PHYSTOP" and "freelist s = 0" and "KmemLock \<notin> held s"
  shows "\<exists>t. kinit s = Ret () t \<and> kmem_pool (kend s) t {p. page_ok (kend s) p}"
proof -
  have e: "unat (kend s) < 2281701376" using assms(2) by (simp add: word_less_nat_alt)
  have "page_ok (kend s) = (\<lambda>q. q mod PGSIZE = 0 \<and> PGROUNDUP (kend s) \<le> q \<and> q < PHYSTOP)"
    using e by (intro ext page_ok_PGROUNDUP) simp
  with e have pages: "set (page_range (PGROUNDUP (kend s)) PHYSTOP) = {p. page_ok (kend s) p}"
    by (subst set_page_range) (simp_all add: mod_PGSIZE_iff unat_PGROUNDUP)
  have "kmem_inv s []" using assms by (simp add: kmem_inv_def)
  from for_each_kfree [OF this assms(4) distinct_page_range [of "PGROUNDUP (kend s)" PHYSTOP]]
  obtain t where "for_each (page_range (PGROUNDUP (kend s)) PHYSTOP) kfree s = Ret () t"
    and "kmem_inv t (rev (page_range (PGROUNDUP (kend s)) PHYSTOP))"
    and "held t = held s" "kend t = kend s"
    unfolding pages by auto
  then show ?thesis
    using assms(4) pages by (auto simp: kinit_def freerange_def prog_simps kmem_pool_def)
qed

theorem kinit_frees_all_witness:
  "\<exists>t. kinit boot_kmem = Ret () t \<and> kmem_pool (kend boot_kmem) t {p. page_ok (kend boot_kmem) p}"
  by (rule kinit_frees_all) (simp_all add: boot_kmem_def)

text \<open>
  A page that has just been freed is the page the next kalloc returns, filled with the byte 5;
  the free list is then what it was, and no byte outside the page has changed.
\<close>

theorem kfree_kalloc_roundtrip:
  assumes "kmem_inv s ps" and "page_ok (kend s) p" and "p \<notin> set ps" and "KmemLock \<notin> held s"
  shows "\<exists>t. andthen (kfree p) kalloc s = Ret p t \<and> kmem_inv t ps \<and>
    (\<forall>a. pmem t a = (if in_region a p 4096 then 5 else pmem s a))"
proof -
  let ?u = "s\<lparr>pmem := store64 (memset (pmem s) p 1 4096) p (freelist s), freelist := p\<rparr>"
  let ?t = "?u\<lparr>freelist := load64 (pmem ?u) p, pmem := memset (pmem ?u) p 5 4096\<rparr>"
  have inv: "kmem_inv ?u (p # ps)" using assms by (intro kmem_inv_kfree)
  have "andthen (kfree p) kalloc s = Ret p ?t"
    using kfree_eq [OF assms(2,4)] kalloc_Cons [OF inv] assms(4) by (simp add: bind_Ret)
  moreover have "kmem_inv ?t ps" using kmem_inv_kalloc [OF inv] by simp
  moreover have "pmem ?t a = (if in_region a p 4096 then 5 else pmem s a)" for a
    by (auto simp: memset_eq store64_def in_region_def)
  ultimately show ?thesis by blast
qed

theorem kfree_kalloc_roundtrip_witness:
  "\<exists>t. andthen (kfree 0x87FFF000) kalloc boot_kmem = Ret 0x87FFF000 t \<and> kmem_inv t [] \<and>
    (\<forall>a. pmem t a = (if in_region a 0x87FFF000 4096 then 5 else pmem boot_kmem a))"
  by (rule kfree_kalloc_roundtrip) (simp_all add: boot_kmem_def kmem_inv_def page_ok_def)

end
