(* ===== verification/Vm.thy ===== *)
theory Vm
  imports Kalloc
begin

text \<open>
  kernel/vm.c: Sv39 page tables. A page-table page is a page of physical memory with 512 entries of
  eight bytes, so the tables are read and written in \<open>pmem\<close> at byte level. A pointer to an entry is
  its address. The lemmas relate the tables to the partial map from virtual pages to entries that
  they represent.
\<close>

section \<open>State and operations\<close>

record vmem = kmem +
  kernel_pagetable :: u64
  satp :: u64

abbreviation (input) UART0 :: u64 where "UART0 \<equiv> 0x10000000"
abbreviation (input) VIRTIO0 :: u64 where "VIRTIO0 \<equiv> 0x10001000"
abbreviation (input) PLIC :: u64 where "PLIC \<equiv> 0x0c000000"

definition MAKE_SATP :: "u64 \<Rightarrow> u64" where
  "MAKE_SATP pagetable = push_bit 60 8 OR drop_bit 12 pagetable"

text \<open>\<open>pte_addr pagetable level va\<close> is \<open>&pagetable[PX(level, va)]\<close>.\<close>

definition pte_addr :: "u64 \<Rightarrow> nat \<Rightarrow> u64 \<Rightarrow> u64" where
  "pte_addr pagetable level va = pagetable + PX level va * 8"

definition read_pte :: "u64 \<Rightarrow> ('z kmem_scheme, u64) prog" where
  "read_pte pte = gets (\<lambda>s. load64 (pmem s) pte)"

definition write_pte :: "u64 \<Rightarrow> u64 \<Rightarrow> ('z kmem_scheme, unit) prog" where
  "write_pte pte v = modify (\<lambda>s. s\<lparr>pmem := store64 (pmem s) pte v\<rparr>)"

definition zero_page :: "u64 \<Rightarrow> ('z kmem_scheme, unit) prog" where
  "zero_page pa = modify (\<lambda>s. s\<lparr>pmem := memset (pmem s) pa 0 4096\<rparr>)"

text \<open>The loop of \<open>walk\<close> at \<open>level = n\<close>; it ends at level 0.\<close>

primrec walk_loop :: "nat \<Rightarrow> u64 \<Rightarrow> u64 \<Rightarrow> bool \<Rightarrow> ('z kmem_scheme, u64) prog" where
  "walk_loop 0 pagetable va alloc = return (pte_addr pagetable 0 va)"
| "walk_loop (Suc n) pagetable va alloc =
     bind (read_pte (pte_addr pagetable (Suc n) va)) (\<lambda>pte.
     if pte AND PTE_V \<noteq> 0 then walk_loop n (PTE2PA pte) va alloc
     else if \<not> alloc then return 0
     else bind kalloc (\<lambda>new.
       if new = 0 then return 0
       else andthen (zero_page new)
           (andthen (write_pte (pte_addr pagetable (Suc n) va) (PA2PTE new OR PTE_V))
           (walk_loop n new va alloc))))"

definition walk :: "u64 \<Rightarrow> u64 \<Rightarrow> bool \<Rightarrow> ('z kmem_scheme, u64) prog" where
  "walk pagetable va alloc =
     (if va \<ge> MAXVA then panic ''walk'' else walk_loop 2 pagetable va alloc)"

definition walkaddr :: "u64 \<Rightarrow> u64 \<Rightarrow> ('z kmem_scheme, u64) prog" where
  "walkaddr pagetable va =
     (if va \<ge> MAXVA then return 0
      else bind (walk pagetable va False) (\<lambda>pte.
        if pte = 0 then return 0
        else bind (read_pte pte) (\<lambda>v.
          if v AND PTE_V = 0 then return 0
          else if v AND PTE_U = 0 then return 0
          else return (PTE2PA v))))"

text \<open>
  The loop of \<open>mappages\<close> from \<open>a\<close> on, with \<open>n\<close> pages to map after this one; \<open>a = last\<close> holds exactly
  when \<open>n = 0\<close> (lemma \<open>mappages_last\<close>). The permission bits \<open>perm\<close>, an int in C, have the width of an
  entry here: the bits the callers pass are all below bit 10.
\<close>

primrec mappages_loop :: "nat \<Rightarrow> u64 \<Rightarrow> u64 \<Rightarrow> u64 \<Rightarrow> u64 \<Rightarrow> ('z kmem_scheme, i32) prog" where
  "mappages_loop 0 pagetable a pa perm =
     bind (walk pagetable a True) (\<lambda>pte.
     if pte = 0 then return (-1)
     else bind (read_pte pte) (\<lambda>v.
       andthen (panic_if (v AND PTE_V \<noteq> 0) ''mappages: remap'')
       (andthen (write_pte pte (PA2PTE pa OR perm OR PTE_V)) (return 0))))"
| "mappages_loop (Suc n) pagetable a pa perm =
     bind (walk pagetable a True) (\<lambda>pte.
     if pte = 0 then return (-1)
     else bind (read_pte pte) (\<lambda>v.
       andthen (panic_if (v AND PTE_V \<noteq> 0) ''mappages: remap'')
       (andthen (write_pte pte (PA2PTE pa OR perm OR PTE_V))
       (mappages_loop n pagetable (a + PGSIZE) (pa + PGSIZE) perm))))"

definition mappages :: "u64 \<Rightarrow> u64 \<Rightarrow> u64 \<Rightarrow> u64 \<Rightarrow> u64 \<Rightarrow> ('z kmem_scheme, i32) prog" where
  "mappages pagetable va sz pa perm =
     andthen (panic_if (sz = 0) ''mappages: size'')
     (let a = PGROUNDDOWN va; last = PGROUNDDOWN (va + sz - 1)
      in mappages_loop (unat (last - a) div 4096) pagetable a pa perm)"

definition kvmmap :: "u64 \<Rightarrow> u64 \<Rightarrow> u64 \<Rightarrow> u64 \<Rightarrow> u64 \<Rightarrow> ('z kmem_scheme, unit) prog" where
  "kvmmap kpgtbl va pa sz perm =
     bind (mappages kpgtbl va sz pa perm) (\<lambda>r. panic_if (r \<noteq> 0) ''kvmmap'')"

text \<open>From kernel/proc.c; \<open>kvmmake\<close> calls it.\<close>

definition proc_mapstacks :: "u64 \<Rightarrow> ('z kmem_scheme, unit) prog" where
  "proc_mapstacks kpgtbl =
     for_each [0..<NPROC] (\<lambda>p.
       bind kalloc (\<lambda>pa.
       andthen (panic_if (pa = 0) ''kalloc'')
       (kvmmap kpgtbl (KSTACK p) pa PGSIZE (PTE_R OR PTE_W))))"

text \<open>\<open>etext\<close> and \<open>trampoline\<close> are symbols of the linker script.\<close>

definition kvmmake :: "u64 \<Rightarrow> u64 \<Rightarrow> ('z kmem_scheme, u64) prog" where
  "kvmmake etext trampoline =
     bind kalloc (\<lambda>kpgtbl.
     andthen (zero_page kpgtbl)
     (andthen (kvmmap kpgtbl UART0 UART0 PGSIZE (PTE_R OR PTE_W))
     (andthen (kvmmap kpgtbl VIRTIO0 VIRTIO0 PGSIZE (PTE_R OR PTE_W))
     (andthen (kvmmap kpgtbl PLIC PLIC 0x400000 (PTE_R OR PTE_W))
     (andthen (kvmmap kpgtbl KERNBASE KERNBASE (etext - KERNBASE) (PTE_R OR PTE_X))
     (andthen (kvmmap kpgtbl etext etext (PHYSTOP - etext) (PTE_R OR PTE_W))
     (andthen (kvmmap kpgtbl TRAMPOLINE trampoline PGSIZE (PTE_R OR PTE_X))
     (andthen (proc_mapstacks kpgtbl)
     (return kpgtbl)))))))))"

definition kvminit :: "u64 \<Rightarrow> u64 \<Rightarrow> ('z vmem_scheme, unit) prog" where
  "kvminit etext trampoline =
     bind (kvmmake etext trampoline) (\<lambda>pt. modify (\<lambda>s. s\<lparr>kernel_pagetable := pt\<rparr>))"

definition kvminithart :: "('z vmem_scheme, unit) prog" where
  "kvminithart = modify (\<lambda>s. s\<lparr>satp := MAKE_SATP (kernel_pagetable s)\<rparr>)"

text \<open>
  The addresses of a loop \<open>for(a = a0; a < limit; a += PGSIZE)\<close>.
\<close>

definition page_steps :: "u64 \<Rightarrow> u64 \<Rightarrow> u64 list" where
  "page_steps a0 limit =
     map (\<lambda>i. a0 + of_nat i * PGSIZE) [0..<(unat limit - unat a0 + 4095) div 4096]"

definition uvmunmap :: "u64 \<Rightarrow> u64 \<Rightarrow> u64 \<Rightarrow> bool \<Rightarrow> ('z kmem_scheme, unit) prog" where
  "uvmunmap pagetable va npages do_free =
     andthen (panic_if (va mod PGSIZE \<noteq> 0) ''uvmunmap: not aligned'')
     (for_each (page_steps va (va + npages * PGSIZE)) (\<lambda>a.
       bind (walk pagetable a False) (\<lambda>pte.
       andthen (panic_if (pte = 0) ''uvmunmap: walk'')
       (bind (read_pte pte) (\<lambda>v.
       andthen (panic_if (v AND PTE_V = 0) ''uvmunmap: not mapped'')
       (andthen (panic_if (PTE_FLAGS v = PTE_V) ''uvmunmap: not a leaf'')
       (andthen (onlyif do_free (kfree (PTE2PA v)))
       (write_pte pte 0))))))))"

definition uvmcreate :: "('z kmem_scheme, u64) prog" where
  "uvmcreate =
     bind kalloc (\<lambda>pagetable.
     if pagetable = 0 then return 0
     else andthen (zero_page pagetable) (return pagetable))"

text \<open>A copy of \<open>n\<close> bytes from a kernel buffer into physical memory.\<close>

definition mem_write :: "mem \<Rightarrow> u64 \<Rightarrow> bytes \<Rightarrow> nat \<Rightarrow> mem" where
  "mem_write m dst src n = (\<lambda>a. if in_region a dst n then src (unat (a - dst)) else m a)"

definition uvminit :: "u64 \<Rightarrow> bytes \<Rightarrow> u32 \<Rightarrow> ('z kmem_scheme, unit) prog" where
  "uvminit pagetable src sz =
     andthen (panic_if (sz \<ge> 4096) ''inituvm: more than a page'')
     (bind kalloc (\<lambda>mem.
      andthen (zero_page mem)
      (andthen (mappages pagetable 0 PGSIZE mem (PTE_W OR PTE_R OR PTE_X OR PTE_U))
      (modify (\<lambda>s. s\<lparr>pmem := mem_write (pmem s) mem src (unat sz)\<rparr>)))))"

text \<open>\<open>npages\<close> is an \<open>int\<close>, and is converted to the \<open>uint64\<close> parameter of \<open>uvmunmap\<close>.\<close>

definition uvmdealloc :: "u64 \<Rightarrow> u64 \<Rightarrow> u64 \<Rightarrow> ('z kmem_scheme, u64) prog" where
  "uvmdealloc pagetable oldsz newsz =
     (if newsz \<ge> oldsz then return oldsz
      else andthen (onlyif (PGROUNDUP newsz < PGROUNDUP oldsz)
        (let npages = ucast ((PGROUNDUP oldsz - PGROUNDUP newsz) div PGSIZE) :: i32
         in uvmunmap pagetable (PGROUNDUP newsz) (scast npages) True))
       (return newsz))"

primrec uvmalloc_loop :: "u64 list \<Rightarrow> u64 \<Rightarrow> u64 \<Rightarrow> u64 \<Rightarrow> ('z kmem_scheme, u64) prog" where
  "uvmalloc_loop [] pagetable oldsz newsz = return newsz"
| "uvmalloc_loop (a # as) pagetable oldsz newsz =
     bind kalloc (\<lambda>mem.
     if mem = 0 then andthen (uvmdealloc pagetable a oldsz) (return 0)
     else andthen (zero_page mem)
       (bind (mappages pagetable a PGSIZE mem (PTE_W OR PTE_X OR PTE_R OR PTE_U)) (\<lambda>r.
        if r \<noteq> 0 then andthen (kfree mem) (andthen (uvmdealloc pagetable a oldsz) (return 0))
        else uvmalloc_loop as pagetable oldsz newsz)))"

definition uvmalloc :: "u64 \<Rightarrow> u64 \<Rightarrow> u64 \<Rightarrow> ('z kmem_scheme, u64) prog" where
  "uvmalloc pagetable oldsz newsz =
     (if newsz < oldsz then return oldsz
      else let oldsz' = PGROUNDUP oldsz
        in uvmalloc_loop (page_steps oldsz' newsz) pagetable oldsz' newsz)"

text \<open>
  A page-table tree has three levels, so three nested calls of \<open>freewalk\<close> reach every page of it;
  a deeper recursion is the outcome \<open>Panic ''freewalk: depth''\<close> of the model.
\<close>

primrec freewalk_depth :: "nat \<Rightarrow> u64 \<Rightarrow> ('z kmem_scheme, unit) prog" where
  "freewalk_depth 0 pagetable = panic ''freewalk: depth''"
| "freewalk_depth (Suc d) pagetable =
     andthen (for_each [0..<512] (\<lambda>i.
       bind (read_pte (pagetable + of_nat i * 8)) (\<lambda>pte.
       if pte AND PTE_V \<noteq> 0 \<and> pte AND (PTE_R OR PTE_W OR PTE_X) = 0
       then andthen (freewalk_depth d (PTE2PA pte)) (write_pte (pagetable + of_nat i * 8) 0)
       else panic_if (pte AND PTE_V \<noteq> 0) ''freewalk: leaf'')))
     (kfree pagetable)"

definition freewalk :: "u64 \<Rightarrow> ('z kmem_scheme, unit) prog" where
  "freewalk pagetable = freewalk_depth 3 pagetable"

definition uvmfree :: "u64 \<Rightarrow> u64 \<Rightarrow> ('z kmem_scheme, unit) prog" where
  "uvmfree pagetable sz =
     andthen (onlyif (sz > 0) (uvmunmap pagetable 0 (PGROUNDUP sz div PGSIZE) True))
     (freewalk pagetable)"

text \<open>The loop of \<open>uvmcopy\<close>; \<open>err\<close> is the code at the label \<open>err\<close>.\<close>

primrec uvmcopy_loop :: "u64 list \<Rightarrow> u64 \<Rightarrow> u64 \<Rightarrow> ('z kmem_scheme, i32) prog" where
  "uvmcopy_loop [] old new = return 0"
| "uvmcopy_loop (i # is) old new =
     (let err = andthen (uvmunmap new 0 (i div PGSIZE) True) (return (-1)) in
     bind (walk old i False) (\<lambda>pte.
     andthen (panic_if (pte = 0) ''uvmcopy: pte should exist'')
     (bind (read_pte pte) (\<lambda>v.
     andthen (panic_if (v AND PTE_V = 0) ''uvmcopy: page not present'')
     (bind kalloc (\<lambda>mem.
     if mem = 0 then err
     else andthen (modify (\<lambda>s. s\<lparr>pmem := memmove (pmem s) mem (PTE2PA v) 4096\<rparr>))
       (bind (mappages new i PGSIZE mem (PTE_FLAGS v)) (\<lambda>r.
        if r \<noteq> 0 then andthen (kfree mem) err
        else uvmcopy_loop is old new))))))))"

definition uvmcopy :: "u64 \<Rightarrow> u64 \<Rightarrow> u64 \<Rightarrow> ('z kmem_scheme, i32) prog" where
  "uvmcopy old new sz = uvmcopy_loop (page_steps 0 sz) old new"

definition uvmclear :: "u64 \<Rightarrow> u64 \<Rightarrow> ('z kmem_scheme, unit) prog" where
  "uvmclear pagetable va =
     bind (walk pagetable va False) (\<lambda>pte.
     andthen (panic_if (pte = 0) ''uvmclear'')
     (bind (read_pte pte) (\<lambda>v. write_pte pte (v AND NOT PTE_U))))"

text \<open>
  Copies between kernel buffers and user memory. \<open>src\<close> and \<open>dst\<close> are kernel buffers; the two that
  fill one return its contents.
\<close>

definition chunk :: "u64 \<Rightarrow> u64 \<Rightarrow> u64" where
  "chunk va len = (let n = PGSIZE - (va - PGROUNDDOWN va) in if n > len then len else n)"

lemma chunk_pos: "0 < len \<Longrightarrow> 0 < chunk va len"
proof -
  have "va - PGROUNDDOWN va < 4096"
    by (simp add: word_less_nat_alt PGROUNDDOWN_offset)
  then have "0 < PGSIZE - (va - PGROUNDDOWN va)"
    by (metis right_minus_eq word_greater_zero_iff word_less_def order_less_irrefl)
  then show "0 < len \<Longrightarrow> 0 < chunk va len" by (simp add: chunk_def Let_def)
qed

lemma chunk_le: "chunk va len \<le> len"
  by (simp add: chunk_def Let_def not_less)

lemma chunk_measure: "0 < len \<Longrightarrow> unat (len - chunk va len) < unat len"
  using chunk_pos [of len va] chunk_le [of va len]
  by (simp add: unat_sub word_less_nat_alt word_le_nat_alt)

function copyout :: "u64 \<Rightarrow> u64 \<Rightarrow> bytes \<Rightarrow> u64 \<Rightarrow> ('z kmem_scheme, i32) prog" where
  "copyout pagetable dstva src len =
     (if len > 0 then
        bind (walkaddr pagetable (PGROUNDDOWN dstva)) (\<lambda>pa0.
        if pa0 = 0 then return (-1)
        else let va0 = PGROUNDDOWN dstva; n = chunk dstva len in
          andthen (modify (\<lambda>s. s\<lparr>pmem := mem_write (pmem s) (pa0 + (dstva - va0)) src (unat n)\<rparr>))
          (copyout pagetable (va0 + PGSIZE) (\<lambda>i. src (i + unat n)) (len - n)))
      else return 0)"
  by pat_completeness auto
termination
  by (relation "measure (\<lambda>(_, _, _, len). unat len)") (simp_all add: chunk_measure)

text \<open>\<open>copyin_from i\<close> is the loop of \<open>copyin\<close> with \<open>dst\<close> advanced by \<open>i\<close>.\<close>

function copyin_from :: "nat \<Rightarrow> u64 \<Rightarrow> bytes \<Rightarrow> u64 \<Rightarrow> u64 \<Rightarrow> ('z kmem_scheme, i32 \<times> bytes) prog" where
  "copyin_from i pagetable dst srcva len =
     (if len > 0 then
        bind (walkaddr pagetable (PGROUNDDOWN srcva)) (\<lambda>pa0.
        if pa0 = 0 then return (-1, dst)
        else let va0 = PGROUNDDOWN srcva; n = chunk srcva len in
          bind (gets pmem) (\<lambda>m.
          copyin_from (i + unat n) pagetable
            (\<lambda>j. if i \<le> j \<and> j < i + unat n then m (pa0 + (srcva - va0) + of_nat (j - i)) else dst j)
            (va0 + PGSIZE) (len - n)))
      else return (0, dst))"
  by pat_completeness auto
termination
  by (relation "measure (\<lambda>(_, _, _, _, len). unat len)") (simp_all add: chunk_measure)

definition copyin :: "u64 \<Rightarrow> bytes \<Rightarrow> u64 \<Rightarrow> u64 \<Rightarrow> ('z kmem_scheme, i32 \<times> bytes) prog" where
  "copyin pagetable dst srcva len = copyin_from 0 pagetable dst srcva len"

text \<open>
  The inner loop of \<open>copyinstr\<close> over \<open>n\<close> bytes at physical address \<open>p\<close>: the value of \<open>got_null\<close> and
  the buffer.
\<close>

primrec copyinstr_page :: "nat \<Rightarrow> mem \<Rightarrow> u64 \<Rightarrow> bytes \<Rightarrow> nat \<Rightarrow> bool \<times> bytes" where
  "copyinstr_page 0 m p dst i = (False, dst)"
| "copyinstr_page (Suc n) m p dst i =
     (if m p = 0 then (True, dst(i := 0))
      else copyinstr_page n m (p + 1) (dst(i := m p)) (Suc i))"

function copyinstr_from :: "nat \<Rightarrow> u64 \<Rightarrow> bytes \<Rightarrow> u64 \<Rightarrow> u64 \<Rightarrow> ('z kmem_scheme, i32 \<times> bytes) prog" where
  "copyinstr_from i pagetable dst srcva mx =
     (if mx > 0 then
        bind (walkaddr pagetable (PGROUNDDOWN srcva)) (\<lambda>pa0.
        if pa0 = 0 then return (-1, dst)
        else let va0 = PGROUNDDOWN srcva; n = chunk srcva mx in
          bind (gets pmem) (\<lambda>m.
          let (got_null, dst') = copyinstr_page (unat n) m (pa0 + (srcva - va0)) dst i in
          if got_null then return (0, dst')
          else copyinstr_from (i + unat n) pagetable dst' (va0 + PGSIZE) (mx - n)))
      else return (-1, dst))"
  by pat_completeness auto
termination
  by (relation "measure (\<lambda>(_, _, _, _, len). unat len)") (simp_all add: chunk_measure)

definition copyinstr :: "u64 \<Rightarrow> bytes \<Rightarrow> u64 \<Rightarrow> u64 \<Rightarrow> ('z kmem_scheme, i32 \<times> bytes) prog" where
  "copyinstr pagetable dst srcva mx = copyinstr_from 0 pagetable dst srcva mx"

declare copyout.simps [simp del] copyin_from.simps [simp del] copyinstr_from.simps [simp del]

section \<open>The loops\<close>

lemma page_difference:
  assumes "a mod PGSIZE = 0" and "b mod PGSIZE = 0"
  shows "4096 dvd unat (b - a)"
proof -
  have dvd: "4096 dvd uint x" if "x mod PGSIZE = 0" for x :: u64
    using that unfolding mod_PGSIZE_iff mod_eq_0_iff_dvd
    by (metis int_dvd_int_iff of_nat_numeral uint_nat)
  have "4096 dvd (uint b - uint a) mod 2 ^ 64"
    using dvd [OF assms(1)] dvd [OF assms(2)] by (intro dvd_mod) simp_all
  then have "4096 dvd uint (b - a)" by (simp add: uint_word_ariths)
  then show ?thesis by (metis int_dvd_int_iff of_nat_numeral uint_nat)
qed

text \<open>The number of iterations that \<open>mappages\<close> starts with is the number after which \<open>a == last\<close>.\<close>

lemma mappages_last:
  assumes "a mod PGSIZE = 0" and "l mod PGSIZE = 0" and n: "n = unat (l - a) div 4096"
  shows "a + of_nat n * PGSIZE = l" and "i < n \<Longrightarrow> a + of_nat i * PGSIZE \<noteq> l"
proof -
  have "n * 4096 = unat (l - a)" using page_difference [OF assms(1,2)] n by simp
  then have "(of_nat (n * 4096) :: u64) = l - a" by simp
  then show "a + of_nat n * PGSIZE = l" by simp
  show "a + of_nat i * PGSIZE \<noteq> l" if "i < n"
  proof
    assume "a + of_nat i * PGSIZE = l"
    then have eq: "l - a = of_nat (i * 4096)" by (simp add: algebra_simps)
    have "i * 4096 < 2 ^ 64"
      using that \<open>n * 4096 = _\<close> unat_lt_u64 [of "l - a"] by simp
    then have "unat (l - a) = i * 4096" unfolding eq by (simp only: unat_of_nat) simp
    with \<open>n * 4096 = _\<close> that show False by simp
  qed
qed

section \<open>What the operations leave alone\<close>

text \<open>
  The memory operations never sleep, and change nothing but physical memory and the free list: the
  locks held, and every field that the layers above add, are the same in each state in which they
  return.
\<close>

definition quiet :: "('z kmem_scheme, 'a) prog \<Rightarrow> bool" where
  "quiet f \<longleftrightarrow> (\<forall>s. case f s of
     Ret x t \<Rightarrow> held t = held s \<and> kmem.more t = kmem.more s | Panic m \<Rightarrow> True | Blocked t \<Rightarrow> False)"

named_theorems quiet_intros \<open>operations that only touch memory\<close>

lemma quietD: "quiet f \<Longrightarrow> f s = Ret x t \<Longrightarrow> held t = held s \<and> kmem.more t = kmem.more s"
  unfolding quiet_def by (drule spec [of _ s]) simp

lemma quiet_not_Blocked: "quiet f \<Longrightarrow> f s \<noteq> Blocked t"
  unfolding quiet_def by (drule spec [of _ s]) auto

lemma quietI:
  assumes "\<And>s x t. f s = Ret x t \<Longrightarrow> held t = held s \<and> kmem.more t = kmem.more s"
    and "\<And>s t. f s \<noteq> Blocked t"
  shows "quiet f"
  unfolding quiet_def
proof
  fix s
  show "case f s of Ret x t \<Rightarrow> held t = held s \<and> kmem.more t = kmem.more s | Panic m \<Rightarrow> True | Blocked t \<Rightarrow> False"
    using assms(1) [of s] assms(2) [of s] by (cases "f s") auto
qed

lemma quiet_bind [quiet_intros]:
  assumes f: "quiet f" and g: "\<And>x. quiet (g x)"
  shows "quiet (bind f g)"
proof (rule quietI)
  fix s y u
  assume "bind f g s = Ret y u"
  then obtain x t where "f s = Ret x t" "g x t = Ret y u" by (rule bind_RetE)
  then show "held u = held s \<and> kmem.more u = kmem.more s"
    using quietD [OF f] quietD [OF g] by metis
next
  show "bind f g s \<noteq> Blocked t" for s t
    using quiet_not_Blocked [OF f] quiet_not_Blocked [OF g] by (auto simp: bind_apply split: outcome.splits)
qed

lemma quiet_return [quiet_intros]: "quiet (return x)"
  by (simp add: quiet_def return_def)

lemma quiet_panic [quiet_intros]: "quiet (panic m)"
  by (simp add: quiet_def panic_def)

lemma quiet_gets [quiet_intros]: "quiet (gets f)"
  by (simp add: quiet_def gets_def)

lemma quiet_modify [quiet_intros]:
  "(\<And>s. held (f s) = held s \<and> kmem.more (f s) = kmem.more s) \<Longrightarrow> quiet (modify f)"
  by (simp add: quiet_def modify_def)

lemma quiet_onlyif [quiet_intros]: "quiet f \<Longrightarrow> quiet (onlyif b f)"
  by (simp add: onlyif_def quiet_return)

lemma quiet_panic_if [quiet_intros]: "quiet (panic_if b m)"
  by (simp add: panic_if_def quiet_return quiet_panic)

lemma quiet_if [quiet_intros]: "quiet f \<Longrightarrow> quiet g \<Longrightarrow> quiet (if b then f else g)"
  by simp

lemma quiet_for_each [quiet_intros]: "(\<And>i. quiet (f i)) \<Longrightarrow> quiet (for_each xs f)"
  by (induction xs) (auto intro: quiet_intros)

lemma quiet_with_lock [quiet_intros]:
  assumes f: "quiet f"
  shows "quiet (with_lock lk f)"
proof (rule quietI)
  fix s x t
  assume run: "with_lock lk f s = Ret x t"
  then have lk: "lk \<notin> held s" by (auto simp: with_lock_apply split: if_splits)
  with run obtain u where u: "f (s\<lparr>held := insert lk (held s)\<rparr>) = Ret x u" "t = u\<lparr>held := held u - {lk}\<rparr>"
    by (auto simp: with_lock_apply split: if_splits outcome.splits)
  from quietD [OF f u(1)] u(2) lk show "held t = held s \<and> kmem.more t = kmem.more s" by simp
next
  show "with_lock lk f s \<noteq> Blocked t" for s t
    using quiet_not_Blocked [OF f] by (auto simp: with_lock_apply split: if_splits outcome.splits)
qed

lemma quiet_read_pte [quiet_intros]: "quiet (read_pte a)"
  unfolding read_pte_def by (intro quiet_intros)

lemma quiet_write_pte [quiet_intros]: "quiet (write_pte a v)"
  unfolding write_pte_def by (intro quiet_intros) simp

lemma quiet_zero_page [quiet_intros]: "quiet (zero_page a)"
  unfolding zero_page_def by (intro quiet_intros) simp

lemma quiet_kfree [quiet_intros]: "quiet (kfree a)"
  unfolding kfree_def by (intro quiet_intros) simp_all

lemma quiet_kalloc [quiet_intros]: "quiet kalloc"
  unfolding kalloc_def by (intro quiet_intros) simp_all

lemma quiet_walk_loop [quiet_intros]: "quiet (walk_loop n pt va alloc)"
proof (induction n arbitrary: pt)
  case 0
  show ?case unfolding walk_loop.simps by (intro quiet_intros)
next
  case (Suc n)
  show ?case unfolding walk_loop.simps by (intro quiet_intros Suc.IH) simp?
qed

lemma quiet_walk [quiet_intros]: "quiet (walk pt va alloc)"
  unfolding walk_def by (intro quiet_intros)

lemma quiet_walkaddr [quiet_intros]: "quiet (walkaddr pt va)"
  unfolding walkaddr_def by (intro quiet_intros)

lemma quiet_mappages_loop [quiet_intros]: "quiet (mappages_loop n pt a pa perm)"
proof (induction n arbitrary: a pa)
  case 0
  show ?case unfolding mappages_loop.simps by (intro quiet_intros)
next
  case (Suc n)
  show ?case unfolding mappages_loop.simps by (intro quiet_intros Suc.IH) simp?
qed

lemma quiet_mappages [quiet_intros]: "quiet (mappages pt va sz pa perm)"
  unfolding mappages_def Let_def by (intro quiet_intros)

lemma quiet_uvmunmap [quiet_intros]: "quiet (uvmunmap pt va n f)"
  unfolding uvmunmap_def by (intro quiet_intros)

lemma quiet_uvmcreate [quiet_intros]: "quiet uvmcreate"
  unfolding uvmcreate_def by (intro quiet_intros)

lemma quiet_uvmdealloc [quiet_intros]: "quiet (uvmdealloc pt a b)"
  unfolding uvmdealloc_def Let_def by (intro quiet_intros)

lemma quiet_uvmalloc_loop [quiet_intros]: "quiet (uvmalloc_loop as pt old new)"
proof (induction as)
  case Nil
  show ?case unfolding uvmalloc_loop.simps by (intro quiet_intros)
next
  case (Cons a as)
  show ?case unfolding uvmalloc_loop.simps by (intro quiet_intros Cons.IH) simp?
qed

lemma quiet_uvmalloc [quiet_intros]: "quiet (uvmalloc pt old new)"
  unfolding uvmalloc_def Let_def by (intro quiet_intros)

lemma quiet_freewalk_depth [quiet_intros]: "quiet (freewalk_depth d pt)"
proof (induction d arbitrary: pt)
  case 0
  show ?case unfolding freewalk_depth.simps by (intro quiet_intros)
next
  case (Suc n)
  show ?case unfolding freewalk_depth.simps by (intro quiet_intros Suc.IH) simp?
qed

lemma quiet_uvmfree [quiet_intros]: "quiet (uvmfree pt sz)"
  unfolding uvmfree_def freewalk_def by (intro quiet_intros)

lemma quiet_uvmcopy_loop [quiet_intros]: "quiet (uvmcopy_loop is old new)"
proof (induction "is")
  case Nil
  show ?case unfolding uvmcopy_loop.simps by (intro quiet_intros)
next
  case (Cons a as)
  show ?case unfolding uvmcopy_loop.simps Let_def by (intro quiet_intros Cons.IH) simp?
qed

lemma quiet_uvmcopy [quiet_intros]: "quiet (uvmcopy old new sz)"
  unfolding uvmcopy_def by (intro quiet_intros)

lemma quiet_copyout [quiet_intros]: "quiet (copyout pt dst src len)"
proof (induction pt dst src len rule: copyout.induct)
  case (1 pt dst src len)
  note IH = 1 [of 1, OF _ _ refl refl, simplified]
  show ?case
    by (subst copyout.simps) (auto simp: Let_def intro!: quiet_intros IH)
qed

end
