(* ===== verification/Pagetable.thy ===== *)
theory Pagetable
  imports Vm "HOL-Library.Sublist"
begin

text \<open>
  What the page tables of theory Vm represent. The tables of one address space form a tree of
  pages; \<open>pte_of\<close> is the map from virtual addresses to page-table entries that the tree stands
  for. The lemmas show that the operations of kernel/vm.c act on that map as their comments say,
  and that they keep the tree well-formed and apart from the free pages.
\<close>

section \<open>Entries of a table\<close>

definition entry :: "mem \<Rightarrow> u64 \<Rightarrow> nat \<Rightarrow> u64" where
  "entry m t i = load64 m (t + of_nat i * 8)"

definition idx :: "nat \<Rightarrow> u64 \<Rightarrow> nat" where
  "idx level va = unat (PX level va)"

abbreviation (input) valid :: "u64 \<Rightarrow> bool" where
  "valid v \<equiv> v AND PTE_V \<noteq> 0"

lemma idx_lt [simp]: "idx level va < 512"
  by (simp add: idx_def PX_lt)

lemma pte_addr_idx: "pte_addr t level va = t + of_nat (idx level va) * 8"
  by (simp add: pte_addr_def idx_def)

lemma unat_entry_addr:
  assumes "t mod PGSIZE = 0" and "i < 512"
  shows "unat (t + of_nat i * 8) = unat t + i * 8"
proof -
  have "unat t + i * 8 < 2 ^ 64" using page_room [OF assms(1), of "i * 8"] assms(2) by simp
  from unat_add_of_nat [OF this] show ?thesis by (simp only: of_nat_mult of_nat_numeral)
qed

lemma entry_addr_inj:
  assumes "t mod PGSIZE = 0" "u mod PGSIZE = 0" "i < 512" "j < 512"
    and "t + of_nat i * 8 = u + of_nat j * 8"
  shows "t = u \<and> i = j"
proof -
  have eq: "unat t + i * 8 = unat u + j * 8"
    unfolding unat_entry_addr [OF assms(1,3), symmetric] unat_entry_addr [OF assms(2,4), symmetric]
    using assms(5) by (rule arg_cong)
  obtain v w where vw: "unat t = 4096 * v" "unat u = 4096 * w"
    using assms(1,2) unfolding mod_PGSIZE_iff mod_eq_0_iff_dvd by (elim dvdE)
  with eq have "(4096 * v + i * 8) div 4096 = (4096 * w + j * 8) div 4096" by simp
  with assms(3,4) have "v = w" by simp
  with vw eq show ?thesis by (simp add: word_unat_eq_iff)
qed

lemma entry_addr_mod8:
  assumes "t mod PGSIZE = 0" and "i < 512"
  shows "unat (t + of_nat i * 8) mod 8 = 0"
proof -
  obtain v where "unat t = 4096 * v"
    using assms(1) unfolding mod_PGSIZE_iff mod_eq_0_iff_dvd by (elim dvdE)
  then show ?thesis
    unfolding unat_entry_addr [OF assms] mod_eq_0_iff_dvd by (intro dvd_add) auto
qed

lemma entry_store_same [simp]: "entry (store64 m (t + of_nat i * 8) v) t i = v"
  by (simp add: entry_def)

lemma entry_store_other:
  assumes "t mod PGSIZE = 0" "u mod PGSIZE = 0" "i < 512" "j < 512" "t \<noteq> u \<or> i \<noteq> j"
  shows "entry (store64 m (t + of_nat i * 8) v) u j = entry m u j"
proof -
  have "t + of_nat i * 8 \<noteq> u + of_nat j * 8" 
    using entry_addr_inj [OF assms(1-4)] assms(5) by metis
  then have "\<not> in_region (u + of_nat j * 8 + of_nat k) (t + of_nat i * 8) 8" if "k < 8" for k
    using that assms by (intro aligned8_disjoint entry_addr_mod8) auto
  then show ?thesis unfolding entry_def by (intro load64_store64_other)
qed

text \<open>An entry depends only on the bytes of its page.\<close>

lemma entry_cong:
  assumes "j < 512" and "\<And>a. in_region a u 4096 \<Longrightarrow> m a = m' a"
  shows "entry m u j = entry m' u j"
  unfolding entry_def
proof (rule load64_cong)
  fix i :: nat
  assume "i < 8"
  then have "in_region (u + of_nat (j * 8 + i)) u 4096" using assms(1) by (intro page_own) simp
  then show "m (u + of_nat j * 8 + of_nat i) = m' (u + of_nat j * 8 + of_nat i)"
    using assms(2) by (simp add: add.assoc)
qed

lemma pages_apart:
  assumes "t mod PGSIZE = 0" "u mod PGSIZE = 0" "t \<noteq> u" "in_region a u 4096"
  shows "\<not> in_region a t 4096"
proof -
  have "a = u + of_nat (unat (a - u))" by simp
  moreover have "unat (a - u) < 4096" using assms(4) by (simp add: in_region_def)
  ultimately show ?thesis using pages_disjoint [OF assms(1-3)] by metis
qed

lemma entry_memset_other:
  assumes "t mod PGSIZE = 0" "u mod PGSIZE = 0" "t \<noteq> u" "j < 512"
  shows "entry (memset m t c 4096) u j = entry m u j"
  by (rule entry_cong [OF assms(4)]) (use pages_apart [OF assms(1-3)] in \<open>simp add: memset_eq\<close>)

lemma entry_memset_zero:
  assumes "j < 512"
  shows "entry (memset m t 0 4096) t j = 0"
proof -
  have "entry (memset m t 0 4096) t j = entry (\<lambda>_. 0) t j"
    by (rule entry_cong [OF assms]) (simp add: memset_eq)
  then show ?thesis by (simp add: entry_def)
qed

section \<open>The tree of tables\<close>

text \<open>\<open>node m t is\<close> is the table that is reached from \<open>t\<close> through the valid entries \<open>is\<close>.\<close>

primrec node :: "mem \<Rightarrow> u64 \<Rightarrow> nat list \<Rightarrow> u64 option" where
  "node m t [] = Some t"
| "node m t (i # is) =
     (if valid (entry m t i) then node m (PTE2PA (entry m t i)) is else None)"

lemma node_snoc:
  "node m t (p @ [i]) = (case node m t p of None \<Rightarrow> None | Some u \<Rightarrow>
     if valid (entry m u i) then Some (PTE2PA (entry m u i)) else None)"
  by (induction p arbitrary: t) auto

definition path_ok :: "nat list \<Rightarrow> bool" where
  "path_ok p \<longleftrightarrow> length p \<le> 2 \<and> (\<forall>i \<in> set p. i < 512)"

lemma path_ok_Nil [simp]: "path_ok []"
  by (simp add: path_ok_def)

lemma path_ok_snocD: "path_ok (p @ [i]) \<Longrightarrow> path_ok p \<and> i < 512"
  by (auto simp: path_ok_def)

text \<open>
  The tree rooted at \<open>root\<close> is well-formed and \<open>T\<close> is the set of its pages: they are page-aligned,
  none is at address 0, and no page is reached along two paths.
\<close>

definition pt_inv :: "mem \<Rightarrow> u64 \<Rightarrow> u64 set \<Rightarrow> bool" where
  "pt_inv m root T \<longleftrightarrow>
     T = {t. \<exists>p. path_ok p \<and> node m root p = Some t} \<and>
     (\<forall>t \<in> T. t mod PGSIZE = 0 \<and> t \<noteq> 0) \<and>
     (\<forall>p q t. path_ok p \<longrightarrow> path_ok q \<longrightarrow> node m root p = Some t \<longrightarrow> node m root q = Some t \<longrightarrow> p = q)"

lemma pt_invI:
  assumes "T = {t. \<exists>p. path_ok p \<and> node m root p = Some t}"
    and "\<And>t. t \<in> T \<Longrightarrow> t mod PGSIZE = 0 \<and> t \<noteq> 0"
    and "\<And>p q t. path_ok p \<Longrightarrow> path_ok q \<Longrightarrow> node m root p = Some t \<Longrightarrow> node m root q = Some t \<Longrightarrow> p = q"
  shows "pt_inv m root T"
  unfolding pt_inv_def
  by (intro conjI allI impI ballI; (rule assms(1) conjunct1 [OF assms(2)] conjunct2 [OF assms(2)] assms(3))?; assumption?)

lemma pt_inv_pages: "pt_inv m root T \<Longrightarrow> T = {t. \<exists>p. path_ok p \<and> node m root p = Some t}"
  unfolding pt_inv_def by (elim conjE)

lemma pt_inv_page: "pt_inv m root T \<Longrightarrow> t \<in> T \<Longrightarrow> t mod PGSIZE = 0 \<and> t \<noteq> 0"
  unfolding pt_inv_def by (elim conjE) (rule bspec)

lemma pt_inv_node: "pt_inv m root T \<Longrightarrow> path_ok p \<Longrightarrow> node m root p = Some t \<Longrightarrow> t \<in> T"
  by (auto simp: pt_inv_def)

lemma pt_inv_aligned: "pt_inv m root T \<Longrightarrow> t \<in> T \<Longrightarrow> t mod PGSIZE = 0"
  by (rule conjunct1 [OF pt_inv_page])

lemma pt_inv_inj:
  "pt_inv m root T \<Longrightarrow> path_ok p \<Longrightarrow> path_ok q \<Longrightarrow> node m root p = Some t \<Longrightarrow>
    node m root q = Some t \<Longrightarrow> p = q"
  unfolding pt_inv_def by blast

text \<open>The tree depends only on the bytes of its own pages.\<close>

lemma node_cong:
  assumes inv: "pt_inv m root T" and "path_ok p"
    and same: "\<And>t a. t \<in> T \<Longrightarrow> in_region a t 4096 \<Longrightarrow> m a = m' a"
  shows "node m' root p = node m root p"
  using assms(2)
proof (induction p rule: rev_induct)
  case (snoc i p)
  then have p: "path_ok p" "i < 512" using path_ok_snocD by blast+
  show ?case
  proof (cases "node m root p")
    case (Some u)
    have "entry m u i = entry m' u i"
      using pt_inv_node [OF inv p(1) Some] same by (intro entry_cong [OF p(2)])
    then show ?thesis using snoc p Some by (simp add: node_snoc)
  qed (use snoc p in \<open>simp add: node_snoc\<close>)
qed simp

lemma pt_inv_cong:
  assumes inv: "pt_inv m root T" and same: "\<And>t a. t \<in> T \<Longrightarrow> in_region a t 4096 \<Longrightarrow> m a = m' a"
  shows "pt_inv m' root T"
proof -
  have eq: "node m' root p = node m root p" if "path_ok p" for p
    by (rule node_cong [OF inv that]) (rule same)
  show ?thesis
  proof (rule pt_invI)
    show "T = {t. \<exists>p. path_ok p \<and> node m' root p = Some t}"
      using pt_inv_pages [OF inv] eq by auto
    show "t \<in> T \<Longrightarrow> t mod PGSIZE = 0 \<and> t \<noteq> 0" for t by (rule pt_inv_page [OF inv])
  next
    fix p q t
    assume p: "path_ok p" and q: "path_ok q"
    assume "node m' root p = Some t" "node m' root q = Some t"
    then show "p = q" unfolding eq [OF p] eq [OF q] by (rule pt_inv_inj [OF inv p q])
  qed
qed

text \<open>
  Writing entry \<open>i\<close> of the table at path \<open>p\<close> changes no other path than those through that entry.
\<close>

lemma node_store:
  assumes inv: "pt_inv m root T" and p: "path_ok p" "i < 512" "node m root p = Some t"
    and "path_ok q" and "\<not> prefix (p @ [i]) q"
  shows "node (store64 m (t + of_nat i * 8) v) root q = node m root q"
  using assms(5,6)
proof (induction q rule: rev_induct)
  case (snoc j q)
  from path_ok_snocD [OF this(2)] have q: "path_ok q" "j < 512" by simp_all
  have qi: "\<not> prefix (p @ [i]) q" using snoc.prems(2) by auto
  show ?case
  proof (cases "node m root q")
    case (Some u)
    have "t \<noteq> u \<or> i \<noteq> j"
    proof (rule ccontr)
      assume "\<not> ?thesis"
      then have "q = p" using pt_inv_inj [OF inv q(1) p(1) Some] p(3) by simp
      with \<open>\<not> (t \<noteq> u \<or> i \<noteq> j)\<close> snoc.prems(2) show False by simp
    qed
    moreover have "t mod PGSIZE = 0" "u mod PGSIZE = 0"
      using pt_inv_aligned [OF inv pt_inv_node [OF inv p(1,3)]]
        pt_inv_aligned [OF inv pt_inv_node [OF inv q(1) Some]] by simp_all
    ultimately have "entry (store64 m (t + of_nat i * 8) v) u j = entry m u j"
      using p q by (intro entry_store_other)
    then show ?thesis using snoc.IH [OF q(1) qi] Some by (simp add: node_snoc)
  qed (use snoc.IH [OF q(1) qi] in \<open>simp add: node_snoc\<close>)
qed simp

section \<open>The map that a tree represents\<close>

definition lookup_pte :: "mem \<Rightarrow> u64 \<Rightarrow> u64 \<Rightarrow> u64 option" where
  "lookup_pte m root va =
     map_option (\<lambda>t. t + of_nat (idx 0 va) * 8) (node m root [idx 2 va, idx 1 va])"

definition pte_of :: "mem \<Rightarrow> u64 \<Rightarrow> u64 \<Rightarrow> u64" where
  "pte_of m root va = (case lookup_pte m root va of None \<Rightarrow> 0 | Some a \<Rightarrow> load64 m a)"

lemma pte_of_node:
  "pte_of m root va = (case node m root [idx 2 va, idx 1 va] of None \<Rightarrow> 0 | Some t \<Rightarrow> entry m t (idx 0 va))"
  by (simp add: pte_of_def lookup_pte_def entry_def split: option.splits)

lemma path_ok_va [simp]: "path_ok [idx 2 va, idx 1 va]"
  by (simp add: path_ok_def)

lemma pte_of_cong:
  assumes inv: "pt_inv m root T" and same: "\<And>t a. t \<in> T \<Longrightarrow> in_region a t 4096 \<Longrightarrow> m a = m' a"
  shows "pte_of m' root va = pte_of m root va"
proof -
  have n: "node m' root [idx 2 va, idx 1 va] = node m root [idx 2 va, idx 1 va]"
    by (rule node_cong [OF inv path_ok_va]) (rule same)
  show ?thesis
  proof (cases "node m root [idx 2 va, idx 1 va]")
    case (Some t)
    have "entry m t (idx 0 va) = entry m' t (idx 0 va)"
      using pt_inv_node [OF inv path_ok_va Some] same by (intro entry_cong) auto
    then show ?thesis using n Some by (simp add: pte_of_node)
  qed (use n in \<open>simp add: pte_of_node\<close>)
qed

text \<open>The walk that allocates nothing finds the entry that the map names.\<close>

lemma walk_loop_2:
  "walk_loop 2 root va False s =
     Ret (case lookup_pte (pmem s) root va of None \<Rightarrow> 0 | Some a \<Rightarrow> a) s"
  by (simp add: numeral_2_eq_2 prog_simps read_pte_def lookup_pte_def pte_addr_idx entry_def)

lemma walk_lookup:
  assumes "va < MAXVA"
  shows "walk root va False s = Ret (case lookup_pte (pmem s) root va of None \<Rightarrow> 0 | Some a \<Rightarrow> a) s"
proof -
  have "\<not> MAXVA \<le> va" using assms by (simp add: not_le)
  then show ?thesis by (simp add: walk_def walk_loop_2)
qed

section \<open>Growing the tree\<close>

lemma node_append: "node m t (p @ q) = Option.bind (node m t p) (\<lambda>u. node m u q)"
  by (induction p arbitrary: t) auto

lemma PA2PTE_valid: "valid (PA2PTE pa OR PTE_V)"
proof -
  have "bit (PA2PTE pa OR PTE_V) 0" by (simp add: PA2PTE_def bit_simps)
  then show ?thesis by (simp add: bit_0 and_one_eq odd_iff_mod_2_eq_one del: even_or_iff)
qed

lemma PTE2PA_table: "n mod PGSIZE = 0 \<Longrightarrow> PTE2PA (PA2PTE n OR PTE_V) = n"
  using PTE2PA_leaf [of PTE_V n] PGROUNDDOWN_aligned [of n] by (simp add: mod_PGSIZE_iff)

text \<open>
  The step of \<open>walk\<close> that hooks a zeroed page \<open>n\<close> into the invalid entry \<open>i\<close> of the table \<open>t\<close>.
\<close>

definition hook :: "mem \<Rightarrow> u64 \<Rightarrow> nat \<Rightarrow> u64 \<Rightarrow> mem" where
  "hook m t i n = store64 (memset m n 0 4096) (t + of_nat i * 8) (PA2PTE n OR PTE_V)"

text \<open>What that step requires of the table, of the path \<open>p\<close> that leads to it, and of the new page.\<close>

definition growable :: "mem \<Rightarrow> u64 \<Rightarrow> u64 set \<Rightarrow> nat list \<Rightarrow> nat \<Rightarrow> u64 \<Rightarrow> u64 \<Rightarrow> bool" where
  "growable m root T p i t n \<longleftrightarrow>
     pt_inv m root T \<and> path_ok (p @ [i]) \<and> node m root p = Some t \<and> \<not> valid (entry m t i) \<and>
     n mod PGSIZE = 0 \<and> n \<noteq> 0 \<and> n \<notin> T"

lemma growableD:
  assumes "growable m root T p i t n"
  shows "pt_inv m root T" "path_ok p" "i < 512" "path_ok (p @ [i])" "node m root p = Some t"
    "\<not> valid (entry m t i)" "n mod PGSIZE = 0" "n \<noteq> 0" "n \<notin> T"
    "t \<in> T" "t mod PGSIZE = 0" "t \<noteq> n" "node m root (p @ [i]) = None"
proof -
  show g: "pt_inv m root T" "path_ok (p @ [i])" "node m root p = Some t" "\<not> valid (entry m t i)"
    "n mod PGSIZE = 0" "n \<noteq> 0" "n \<notin> T"
    using assms unfolding growable_def by blast+
  show p: "path_ok p" "i < 512" using path_ok_snocD [OF g(2)] by simp_all
  show t: "t \<in> T" by (rule pt_inv_node [OF g(1) p(1) g(3)])
  then show "t mod PGSIZE = 0" by (rule pt_inv_aligned [OF g(1)])
  show "t \<noteq> n" using t g(7) by auto
  show "node m root (p @ [i]) = None" using g(3,4) by (simp add: node_snoc)
qed

lemma zeroed_same:
  assumes g: "growable m root T p i t n" and "u \<in> T" and "in_region a u 4096"
  shows "m a = memset m n 0 4096 a"
proof -
  have "u \<noteq> n" using assms(2) growableD(9) [OF g] by auto
  then have "\<not> in_region a n 4096"
    using pages_apart [OF growableD(7) [OF g] pt_inv_aligned [OF growableD(1) [OF g] assms(2)] _ assms(3)]
    by simp
  then show ?thesis by (simp add: memset_eq)
qed

lemma zeroed_inv:
  assumes g: "growable m root T p i t n"
  shows "pt_inv (memset m n 0 4096) root T"
  by (rule pt_inv_cong [OF growableD(1) [OF g]]) (rule zeroed_same [OF g])

lemma zeroed_node:
  assumes g: "growable m root T p i t n" and "path_ok q"
  shows "node (memset m n 0 4096) root q = node m root q"
  by (rule node_cong [OF growableD(1) [OF g] assms(2)]) (rule zeroed_same [OF g])

lemma hook_entry_new:
  assumes g: "growable m root T p i t n" and "j < 512"
  shows "entry (hook m t i n) n j = 0"
  unfolding hook_def entry_store_other
    [OF growableD(11,7,3) [OF g] assms(2) disjI1 [OF growableD(12) [OF g]]]
  by (rule entry_memset_zero [OF assms(2)])

lemma hook_entry_other:
  assumes g: "growable m root T p i t n" and "u \<in> T" and "j < 512" and "t \<noteq> u \<or> i \<noteq> j"
  shows "entry (hook m t i n) u j = entry m u j"
proof -
  have u: "u mod PGSIZE = 0" by (rule pt_inv_aligned [OF growableD(1) [OF g] assms(2)])
  have "n \<noteq> u" using assms(2) growableD(9) [OF g] by auto
  then show ?thesis
    unfolding hook_def entry_store_other [OF growableD(11) [OF g] u growableD(3) [OF g] assms(3,4)]
    by (intro entry_memset_other growableD(7) [OF g] u assms(3))
qed

lemma hook_node:
  assumes g: "growable m root T p i t n" and "path_ok q"
  shows "node (hook m t i n) root q = (if q = p @ [i] then Some n else node m root q)"
proof -
  have at: "node (memset m n 0 4096) root p = Some t"
    unfolding zeroed_node [OF g growableD(2) [OF g]] by (rule growableD(5) [OF g])
  have keep: "node (hook m t i n) root q = node m root q" if "path_ok q" "\<not> prefix (p @ [i]) q" for q
    unfolding hook_def node_store [OF zeroed_inv [OF g] growableD(2,3) [OF g] at that]
    by (rule zeroed_node [OF g that(1)])
  have "node (hook m t i n) root p = Some t"
    using keep [OF growableD(2) [OF g]] growableD(5) [OF g] by auto
  then have pn: "node (hook m t i n) root (p @ [i]) = Some n"
    using PA2PTE_valid [of n] PTE2PA_table [OF growableD(7) [OF g]] by (simp add: node_snoc hook_def)
  show ?thesis
  proof (cases "prefix (p @ [i]) q")
    case True
    then obtain r where q: "q = (p @ [i]) @ r" by (rule prefixE)
    show ?thesis
    proof (cases r)
      case Nil
      then show ?thesis using q pn by simp
    next
      case (Cons j r')
      have "j < 512" using assms(2) q Cons by (simp add: path_ok_def)
      have "node (hook m t i n) root q = None"
        unfolding q node_append [of _ _ "p @ [i]"] pn using Cons hook_entry_new [OF g \<open>j < 512\<close>] by simp
      moreover have "node m root q = None"
        unfolding q node_append [of _ _ "p @ [i]"] growableD(13) [OF g] by simp
      ultimately show ?thesis using q Cons by simp
    qed
  next
    case False
    then show ?thesis using keep [OF assms(2)] by auto
  qed
qed

lemma hook_inv:
  assumes g: "growable m root T p i t n"
  shows "pt_inv (hook m t i n) root (insert n T)"
proof (rule pt_invI)
  have "(\<exists>q. path_ok q \<and> node (hook m t i n) root q = Some u) \<longleftrightarrow>
      u = n \<or> (\<exists>q. path_ok q \<and> node m root q = Some u)" for u
    using growableD(4,13) [OF g] hook_node [OF g] by (metis option.inject option.distinct(1))
  then show "insert n T = {u. \<exists>q. path_ok q \<and> node (hook m t i n) root q = Some u}"
    unfolding pt_inv_pages [OF growableD(1) [OF g]] by auto
  show "u mod PGSIZE = 0 \<and> u \<noteq> 0" if "u \<in> insert n T" for u
    using that
  proof (rule insertE)
    assume "u = n"
    then show ?thesis using growableD(7,8) [OF g] by simp
  qed (rule pt_inv_page [OF growableD(1) [OF g]])
next
  fix q r u
  assume q: "path_ok q" and r: "path_ok r"
    and u: "node (hook m t i n) root q = Some u" "node (hook m t i n) root r = Some u"
  have "\<not> node m root x = Some n" if "path_ok x" for x
    using pt_inv_node [OF growableD(1) [OF g] that] growableD(9) [OF g] by auto
  then show "q = r"
    using u q r pt_inv_inj [OF growableD(1) [OF g] q r, of u]
    unfolding hook_node [OF g q] hook_node [OF g r] by (auto split: if_splits)
qed

lemma hook_pte_of:
  assumes g: "growable m root T p i t n"
  shows "pte_of (hook m t i n) root va = pte_of m root va"
proof (cases "[idx 2 va, idx 1 va] = p @ [i]")
  case True
  then show ?thesis
    unfolding pte_of_node hook_node [OF g path_ok_va]
    unfolding True growableD(13) [OF g] using hook_entry_new [OF g, of "idx 0 va"] by simp
next
  case False
  show ?thesis
  proof (cases "node m root [idx 2 va, idx 1 va]")
    case (Some u)
    have "t \<noteq> u"
    proof
      assume "t = u"
      then have "p = [idx 2 va, idx 1 va]"
        using pt_inv_inj [OF growableD(1,2) [OF g] path_ok_va growableD(5) [OF g]] Some by simp
      then show False using growableD(4) [OF g] by (simp add: path_ok_def)
    qed
    then have "entry (hook m t i n) u (idx 0 va) = entry m u (idx 0 va)"
      using pt_inv_node [OF growableD(1) [OF g] path_ok_va Some] by (intro hook_entry_other [OF g]) simp_all
    then show ?thesis
      unfolding pte_of_node hook_node [OF g path_ok_va] if_not_P [OF False] Some by simp
  next
    case None
    then show ?thesis unfolding pte_of_node hook_node [OF g path_ok_va] if_not_P [OF False] by simp
  qed
qed

section \<open>Page tables and free pages\<close>

text \<open>The free list depends only on the bytes of the free pages.\<close>

lemma kmem_pool_cong:
  assumes "kmem_pool e s A" and "\<And>q a. q \<in> A \<Longrightarrow> in_region a q 4096 \<Longrightarrow> pmem s a = m' a"
  shows "kmem_pool e (s\<lparr>pmem := m'\<rparr>) A"
proof -
  from assms(1) obtain ps where ps: "kmem_inv s ps" "set ps = A" and s: "kend s = e" "KmemLock \<notin> held s"
    by (auto simp: kmem_pool_def)
  have "load64 m' q = load64 (pmem s) q" if "q \<in> set ps" for q
    using entry_cong [of 0 q "pmem s" m'] assms(2) ps(2) that by (simp add: entry_def)
  then have "free_list m' (freelist s) ps = free_list (pmem s) (freelist s) ps"
    by (rule free_list_cong)
  then have "kmem_inv (s\<lparr>pmem := m'\<rparr>) ps" using ps(1) by (simp add: kmem_inv_def)
  then show ?thesis unfolding kmem_pool_def using ps(2) s by auto
qed

definition vm_inv :: "u64 \<Rightarrow> 'z kmem_scheme \<Rightarrow> u64 \<Rightarrow> u64 set \<Rightarrow> u64 set \<Rightarrow> bool" where
  "vm_inv e s root T A \<longleftrightarrow> pt_inv (pmem s) root T \<and> kmem_pool e s A \<and> A \<inter> T = {}"

text \<open>
  What the operations that add to a tree may change: they move pages from the free list into the
  tree and change no byte of any other page and no other part of the kernel state. \<open>walk\<close> with
  \<open>alloc\<close> in addition changes no entry of the map.
\<close>

definition evolves :: "u64 \<Rightarrow> u64 \<Rightarrow> 'z kmem_scheme \<Rightarrow> u64 set \<Rightarrow> u64 set \<Rightarrow> 'z kmem_scheme \<Rightarrow> u64 set \<Rightarrow> u64 set \<Rightarrow> bool" where
  "evolves e root s T A s' T' A' \<longleftrightarrow>
     vm_inv e s' root T' A' \<and> T \<subseteq> T' \<and> T' \<union> A' = T \<union> A \<and>
     (\<forall>a. (\<forall>t \<in> T \<union> A. \<not> in_region a t 4096) \<longrightarrow> pmem s' a = pmem s a) \<and>
     held s' = held s \<and> kend s' = kend s \<and> kmem.more s' = kmem.more s"

definition grown :: "u64 \<Rightarrow> u64 \<Rightarrow> 'z kmem_scheme \<Rightarrow> u64 set \<Rightarrow> u64 set \<Rightarrow> 'z kmem_scheme \<Rightarrow> u64 set \<Rightarrow> u64 set \<Rightarrow> bool" where
  "grown e root s T A s' T' A' \<longleftrightarrow>
     evolves e root s T A s' T' A' \<and> pte_of (pmem s') root = pte_of (pmem s) root"

lemma evolves_refl: "vm_inv e s root T A \<Longrightarrow> evolves e root s T A s T A"
  by (simp add: evolves_def)

lemma evolves_trans:
  assumes 1: "evolves e root s T A s' T' A'" and 2: "evolves e root s' T' A' s'' T'' A''"
  shows "evolves e root s T A s'' T'' A''"
proof -
  have "T \<subseteq> T''" "T'' \<union> A'' = T \<union> A" "vm_inv e s'' root T'' A''"
    "held s'' = held s" "kend s'' = kend s" "kmem.more s'' = kmem.more s"
    using 1 2 by (auto simp: evolves_def)
  moreover have "pmem s'' a = pmem s a" if "\<forall>t \<in> T \<union> A. \<not> in_region a t 4096" for a
    using 1 2 that by (simp add: evolves_def)
  ultimately show ?thesis by (simp add: evolves_def)
qed

lemma grown_refl: "vm_inv e s root T A \<Longrightarrow> grown e root s T A s T A"
  by (simp add: grown_def evolves_refl)

lemma grown_trans:
  "grown e root s T A s' T' A' \<Longrightarrow> grown e root s' T' A' s'' T'' A'' \<Longrightarrow> grown e root s T A s'' T'' A''"
  unfolding grown_def by (auto intro: evolves_trans)

lemma hook_frame: "\<not> in_region a n 4096 \<Longrightarrow> \<not> in_region a (t + of_nat i * 8) 8 \<Longrightarrow> hook m t i n a = m a"
  by (simp add: hook_def store64_def memset_eq)

lemma entry_in_page:
  assumes "i < 512" and "in_region a (t + of_nat i * 8) 8"
  shows "in_region a t 4096"
proof -
  have "a = t + of_nat (i * 8 + unat (a - (t + of_nat i * 8)))" by simp
  moreover have "i * 8 + unat (a - (t + of_nat i * 8)) < 4096"
    using assms by (simp add: in_region_def)
  ultimately show ?thesis using page_own by metis
qed

lemma hook_frame_page:
  "i < 512 \<Longrightarrow> \<not> in_region a n 4096 \<Longrightarrow> \<not> in_region a t 4096 \<Longrightarrow> hook m t i n a = m a"
  using entry_in_page by (auto intro: hook_frame)

text \<open>One step of \<open>walk\<close> that allocates: the state after \<open>kalloc\<close>, \<open>memset\<close> and the write of the entry.\<close>

definition alloc_table :: "u64 \<Rightarrow> nat \<Rightarrow> ('z kmem_scheme, u64) prog" where
  "alloc_table t i =
     bind kalloc (\<lambda>new.
       if new = 0 then return 0
       else andthen (zero_page new)
           (andthen (write_pte (t + of_nat i * 8) (PA2PTE new OR PTE_V)) (return new)))"

lemma alloc_table_full:
  assumes "kmem_pool e s {}"
  shows "alloc_table t i s = Ret 0 s"
  using kmem_pages.alloc_none [OF assms] by (simp add: alloc_table_def bind_Ret prog_simps)

lemma memset_memset: "memset (memset m n c 4096) n d 4096 = memset m n d 4096"
  by (intro ext) (simp add: memset_eq)

lemma pool_page: "kmem_pool e s A \<Longrightarrow> q \<in> A \<Longrightarrow> q mod PGSIZE = 0 \<and> q \<noteq> 0"
  using kmem_pages.pool_usable [of e s A] kmem_pages.zero_unusable [of e s A] by (auto simp: page_ok_def)

lemma alloc_table_grown:
  assumes "vm_inv e s root T A" and "A \<noteq> {}" and "path_ok (p @ [i])" and "node (pmem s) root p = Some t"
    and "\<not> valid (entry (pmem s) t i)"
  shows "\<exists>n s'. alloc_table t i s = Ret n s' \<and> n \<noteq> 0 \<and> n \<in> A \<and>
    grown e root s T A s' (insert n T) (A - {n}) \<and> node (pmem s') root (p @ [i]) = Some n"
proof -
  from assms(1,2) obtain n ps where ps: "kmem_inv s (n # ps)" "A = set (n # ps)"
    and s: "kend s = e" "KmemLock \<notin> held s"
    unfolding vm_inv_def kmem_pool_def by (metis list.exhaust set_empty)
  have inv: "pt_inv (pmem s) root T" and pool: "kmem_pool e s A" and dis: "A \<inter> T = {}"
    using assms(1) by (auto simp: vm_inv_def)
  let ?m = "hook (pmem s) t i n"
  let ?u = "s\<lparr>freelist := load64 (pmem s) n, pmem := memset (pmem s) n 5 4096\<rparr>"
  let ?s = "?u\<lparr>pmem := ?m\<rparr>"
  have n: "n mod PGSIZE = 0" "n \<noteq> 0" using pool_page [OF pool, of n] ps(2) by auto
  have g: "growable (pmem s) root T p i t n"
    unfolding growable_def using inv assms(3-5) n ps(2) dis by auto
  have run: "alloc_table t i s = Ret n ?s"
    using n by (simp add: alloc_table_def kalloc_Cons [OF ps(1) s(2)] prog_simps zero_page_def
        write_pte_def memset_memset hook_def)
  have "A - {n} = set ps" using ps by (auto simp: kmem_inv_def)
  then have pu: "kmem_pool e ?u (A - {n})"
    unfolding kmem_pool_def using kmem_inv_kalloc [OF ps(1)] s by auto
  have same: "?m a = pmem s a" if "q \<in> A - {n}" "in_region a q 4096" for q a
  proof (rule hook_frame_page [OF growableD(3) [OF g]])
    have q: "q mod PGSIZE = 0" "q \<noteq> n" "q \<noteq> t" "n \<noteq> q" "t \<noteq> q"
      using pool_page [OF pool, of q] that(1) dis growableD(10) [OF g] by auto
    show "\<not> in_region a n 4096" by (rule pages_apart [OF n(1) q(1,4) that(2)])
    show "\<not> in_region a t 4096" by (rule pages_apart [OF growableD(11) [OF g] q(1,5) that(2)])
  qed
  have "pmem ?u a = ?m a" if "q \<in> A - {n}" "in_region a q 4096" for q a
    using same [OF that] pages_apart [OF n(1) _ _ that(2)] pool_page [OF pool, of q] that(1)
    by (auto simp: memset_eq)
  then have "kmem_pool e ?s (A - {n})" by (rule kmem_pool_cong [OF pu])
  then have "vm_inv e ?s root (insert n T) (A - {n})"
    using hook_inv [OF g] dis by (auto simp: vm_inv_def)
  moreover have "?m a = pmem s a" if "\<forall>t \<in> T \<union> A. \<not> in_region a t 4096" for a
    using that growableD(10) [OF g] ps(2) by (intro hook_frame_page [OF growableD(3) [OF g]]) auto
  moreover have "insert n T \<union> (A - {n}) = T \<union> A" using ps(2) by auto
  ultimately have "grown e root s T A ?s (insert n T) (A - {n})"
    unfolding grown_def evolves_def using hook_pte_of [OF g] by (simp add: fun_eq_iff subset_insertI)
  moreover have "node ?m root (p @ [i]) = Some n"
    using hook_node [OF g growableD(4) [OF g]] by simp
  ultimately show ?thesis using run n(2) ps(2) by auto
qed

lemma walk_loop_alloc_step:
  "walk_loop (Suc n) t va True s =
     (let v = entry (pmem s) t (idx (Suc n) va) in
      if valid v then walk_loop n (PTE2PA v) va True s
      else bind (alloc_table t (idx (Suc n) va))
        (\<lambda>new. if new = 0 then return 0 else walk_loop n new va True) s)"
  by (simp add: prog_simps read_pte_def entry_def pte_addr_idx alloc_table_def zero_page_def
      write_pte_def Let_def split: outcome.splits)

lemma entry_addr_nonzero:
  assumes "t mod PGSIZE = 0" and "t \<noteq> 0" and "i < 512"
  shows "t + of_nat i * 8 \<noteq> 0"
proof
  assume "t + of_nat i * 8 = 0"
  then have "unat t + i * 8 = 0" unfolding unat_entry_addr [OF assms(1,3), symmetric] by (simp only: unat_0)
  with assms(2) show False by (simp add: unat_eq_0)
qed

lemma lookup_pte_nonzero:
  assumes "pt_inv m root T" and "lookup_pte m root va = Some a"
  shows "a \<noteq> 0"
proof -
  from assms(2) obtain t where t: "node m root [idx 2 va, idx 1 va] = Some t" "a = t + of_nat (idx 0 va) * 8"
    unfolding lookup_pte_def by (elim map_option_eq_Some [THEN iffD1, elim_format] exE conjE) simp
  have "t mod PGSIZE = 0 \<and> t \<noteq> 0" by (rule pt_inv_page [OF assms(1) pt_inv_node [OF assms(1) path_ok_va t(1)]])
  then show ?thesis unfolding t(2) by (elim conjE) (rule entry_addr_nonzero [OF _ _ idx_lt])
qed

lemma walk_loop_alloc:
  assumes "vm_inv e s root T A" and "path_ok p" and "node (pmem s) root p = Some t"
    and "p @ map (\<lambda>l. idx l va) (rev [1..<Suc n]) = [idx 2 va, idx 1 va]"
  shows "\<exists>a s' T' A'. walk_loop n t va True s = Ret a s' \<and> grown e root s T A s' T' A' \<and>
    (if a = 0 then A' = {} else lookup_pte (pmem s') root va = Some a)"
  using assms
proof (induction n arbitrary: p t s T A)
  case 0
  have "lookup_pte (pmem s) root va = Some (t + of_nat (idx 0 va) * 8)"
    using 0 unfolding lookup_pte_def by simp
  moreover from this have "t + of_nat (idx 0 va) * 8 \<noteq> 0"
    using 0(1) by (intro lookup_pte_nonzero [of "pmem s" root T va]) (simp_all add: vm_inv_def)
  ultimately show ?case
    using grown_refl [OF 0(1)] by (auto simp: prog_simps pte_addr_idx)
next
  case (Suc n)
  let ?i = "idx (Suc n) va"
  have path: "(p @ [?i]) @ map (\<lambda>l. idx l va) (rev [1..<Suc n]) = [idx 2 va, idx 1 va]"
    using Suc.prems(4) by simp
  have "length (p @ [?i]) \<le> 2" using arg_cong [OF path, of length] by simp
  then have ok: "path_ok (p @ [?i])" using Suc.prems(2) by (auto simp: path_ok_def)
  show ?case
  proof (cases "valid (entry (pmem s) t ?i)")
    case True
    then have "node (pmem s) root (p @ [?i]) = Some (PTE2PA (entry (pmem s) t ?i))"
      using Suc.prems(3) by (simp add: node_snoc)
    from Suc.IH [OF Suc.prems(1) ok this path] show ?thesis
      using True by (simp add: walk_loop_alloc_step del: walk_loop.simps)
  next
    case invalid: False
    show ?thesis
    proof (cases "A = {}")
      case True
      then have "alloc_table t ?i s = Ret 0 s"
        using Suc.prems(1) by (intro alloc_table_full [of e]) (simp add: vm_inv_def)
      then have "walk_loop (Suc n) t va True s = Ret 0 s"
        using invalid by (simp add: walk_loop_alloc_step bind_Ret return_apply del: walk_loop.simps)
      moreover have "grown e root s T A s T {}" using grown_refl [OF Suc.prems(1)] True by simp
      ultimately show ?thesis by auto
    next
      case False
      from alloc_table_grown [OF Suc.prems(1) False ok Suc.prems(3) invalid] obtain n' s1
        where n': "alloc_table t ?i s = Ret n' s1" "n' \<noteq> 0"
          and g1: "grown e root s T A s1 (insert n' T) (A - {n'})"
          and at: "node (pmem s1) root (p @ [?i]) = Some n'" by auto
      have "vm_inv e s1 root (insert n' T) (A - {n'})" using g1 by (simp add: grown_def evolves_def)
      from Suc.IH [OF this ok at path] obtain a s2 T2 A2
        where w: "walk_loop n n' va True s1 = Ret a s2"
          and g2: "grown e root s1 (insert n' T) (A - {n'}) s2 T2 A2"
          and r: "if a = 0 then A2 = {} else lookup_pte (pmem s2) root va = Some a" by auto
      have "walk_loop (Suc n) t va True s = Ret a s2"
        using w invalid n' by (simp add: walk_loop_alloc_step bind_Ret del: walk_loop.simps)
      with grown_trans [OF g1 g2] r show ?thesis by blast
    qed
  qed
qed

lemma walk_alloc:
  assumes "vm_inv e s root T A" and "va < MAXVA"
  shows "\<exists>a s' T' A'. walk root va True s = Ret a s' \<and> grown e root s T A s' T' A' \<and>
    (if a = 0 then A' = {} else lookup_pte (pmem s') root va = Some a)"
proof -
  have "\<not> MAXVA \<le> va" using assms(2) by (simp add: not_le)
  moreover have "[] @ map (\<lambda>l. idx l va) (rev [1..<Suc 2]) = [idx 2 va, idx 1 va]"
    by (simp add: numeral_2_eq_2 upt_rec)
  note walk_loop_alloc [OF assms(1) path_ok_Nil _ this]
  ultimately show ?thesis by (simp add: walk_def)
qed

section \<open>Writing a leaf entry\<close>

lemma lookup_pteD:
  assumes "lookup_pte m root va = Some a"
  obtains t where "node m root [idx 2 va, idx 1 va] = Some t" and "a = t + of_nat (idx 0 va) * 8"
  using assms unfolding lookup_pte_def by (elim map_option_eq_Some [THEN iffD1, elim_format] exE conjE) simp

lemma leaf_node:
  assumes inv: "pt_inv m root T" and a: "lookup_pte m root va = Some a" and q: "path_ok q"
  shows "node (store64 m a v) root q = node m root q"
proof -
  from a obtain t where t: "node m root [idx 2 va, idx 1 va] = Some t" "a = t + of_nat (idx 0 va) * 8"
    by (rule lookup_pteD)
  have "\<not> prefix ([idx 2 va, idx 1 va] @ [idx 0 va]) q"
    using q by (auto simp: path_ok_def dest!: prefix_length_le)
  then show ?thesis unfolding t(2) by (rule node_store [OF inv path_ok_va idx_lt t(1) q])
qed

lemma leaf_inv:
  assumes inv: "pt_inv m root T" and a: "lookup_pte m root va = Some a"
  shows "pt_inv (store64 m a v) root T"
proof (rule pt_invI)
  note eq = leaf_node [OF inv a]
  show "T = {t. \<exists>p. path_ok p \<and> node (store64 m a v) root p = Some t}"
    using pt_inv_pages [OF inv] eq by auto
  show "t \<in> T \<Longrightarrow> t mod PGSIZE = 0 \<and> t \<noteq> 0" for t by (rule pt_inv_page [OF inv])
  fix p q t
  assume p: "path_ok p" and q: "path_ok q"
  assume "node (store64 m a v) root p = Some t" "node (store64 m a v) root q = Some t"
  then show "p = q" unfolding eq [OF p] eq [OF q] by (rule pt_inv_inj [OF inv p q])
qed

text \<open>On virtual addresses below MAXVA the three indices determine the page.\<close>

lemma idx_injective:
  assumes "va < MAXVA" and "vb < MAXVA" and "idx 2 va = idx 2 vb" "idx 1 va = idx 1 vb" "idx 0 va = idx 0 vb"
  shows "PGROUNDDOWN va = PGROUNDDOWN vb"
  using assms by (intro PX_injective) (auto simp: idx_def word_unat_eq_iff less_Suc_eq numeral_3_eq_3 numeral_2_eq_2)

lemma idx_PGROUNDDOWN: "idx level (PGROUNDDOWN va) = idx level va"
proof -
  have "PX level (PGROUNDDOWN va) = PX level va"
    by (rule bit_word_eqI) (auto simp: bit_PX PGROUNDDOWN_mask bit_simps add.assoc dest: bit_imp_le_length)
  then show ?thesis by (simp add: idx_def)
qed

definition set_page :: "u64 \<Rightarrow> u64 \<Rightarrow> (u64 \<Rightarrow> u64) \<Rightarrow> u64 \<Rightarrow> u64" where
  "set_page a v f = (\<lambda>va. if PGROUNDDOWN va = PGROUNDDOWN a then v else f va)"

lemma leaf_pte_of:
  assumes inv: "pt_inv m root T" and a: "lookup_pte m root va = Some a" and "va < MAXVA" and "vb < MAXVA"
  shows "pte_of (store64 m a v) root vb = set_page va v (pte_of m root) vb"
proof -
  from a obtain t where t: "node m root [idx 2 va, idx 1 va] = Some t" "a = t + of_nat (idx 0 va) * 8"
    by (rule lookup_pteD)
  show ?thesis
  proof (cases "PGROUNDDOWN vb = PGROUNDDOWN va")
    case True
    then have i: "idx l vb = idx l va" for l by (metis idx_PGROUNDDOWN)
    show ?thesis
      unfolding pte_of_node i leaf_node [OF inv a path_ok_va] set_page_def if_P [OF True]
      unfolding t by simp
  next
    case False
    show ?thesis
    proof (cases "node m root [idx 2 vb, idx 1 vb]")
      case None
      then show ?thesis
        unfolding pte_of_node leaf_node [OF inv a path_ok_va] set_page_def if_not_P [OF False] by simp
    next
      case (Some u)
      have "t \<noteq> u \<or> idx 0 va \<noteq> idx 0 vb"
      proof (rule ccontr)
        assume same: "\<not> ?thesis"
        then have "[idx 2 va, idx 1 va] = [idx 2 vb, idx 1 vb]"
          using pt_inv_inj [OF inv path_ok_va path_ok_va t(1)] Some by simp
        then have "PGROUNDDOWN va = PGROUNDDOWN vb"
          using idx_injective [OF assms(3,4)] same by simp
        with False show False by simp
      qed
      then have "entry (store64 m a v) u (idx 0 vb) = entry m u (idx 0 vb)"
        unfolding t(2) using pt_inv_aligned [OF inv pt_inv_node [OF inv path_ok_va t(1)]]
          pt_inv_aligned [OF inv pt_inv_node [OF inv path_ok_va Some]]
        by (intro entry_store_other idx_lt)
      then show ?thesis
        unfolding pte_of_node leaf_node [OF inv a path_ok_va] set_page_def if_not_P [OF False] Some by simp
    qed
  qed
qed

lemma write_leaf:
  assumes inv: "vm_inv e s root T A" and a: "lookup_pte (pmem s) root va = Some a"
  shows "evolves e root s T A (s\<lparr>pmem := store64 (pmem s) a v\<rparr>) T A"
proof -
  have pt: "pt_inv (pmem s) root T" and pool: "kmem_pool e s A" and dis: "A \<inter> T = {}"
    using inv by (auto simp: vm_inv_def)
  from a obtain t where t: "node (pmem s) root [idx 2 va, idx 1 va] = Some t" "a = t + of_nat (idx 0 va) * 8"
    by (rule lookup_pteD)
  have tT: "t \<in> T" by (rule pt_inv_node [OF pt path_ok_va t(1)])
  have frame: "store64 (pmem s) a v b = pmem s b" if "\<not> in_region b t 4096" for b
    using that entry_in_page [OF idx_lt, of b t 0 va] by (auto simp: store64_def t(2))
  have "kmem_pool e (s\<lparr>pmem := store64 (pmem s) a v\<rparr>) A"
  proof (rule kmem_pool_cong [OF pool])
    fix q b
    assume q: "q \<in> A" "in_region b q 4096"
    have "t \<noteq> q" using q(1) tT dis by auto
    then have "\<not> in_region b t 4096"
      using pages_apart [OF pt_inv_aligned [OF pt tT] _ _ q(2)] pool_page [OF pool q(1)] by simp
    then show "pmem s b = store64 (pmem s) a v b" using frame by simp
  qed
  moreover have "pt_inv (store64 (pmem s) a v) root T" by (rule leaf_inv [OF pt a])
  moreover have "store64 (pmem s) a v b = pmem s b" if "\<forall>t \<in> T \<union> A. \<not> in_region b t 4096" for b
    using that tT by (intro frame) simp
  ultimately show ?thesis using dis by (simp add: evolves_def vm_inv_def)
qed

section \<open>The specification of mappages\<close>

text \<open>What mapping \<open>k\<close> pages from \<open>a\<close> on does to the map.\<close>

primrec map_pages :: "nat \<Rightarrow> u64 \<Rightarrow> u64 \<Rightarrow> u64 \<Rightarrow> (u64 \<Rightarrow> u64) \<Rightarrow> u64 \<Rightarrow> u64" where
  "map_pages 0 a pa perm f = f"
| "map_pages (Suc k) a pa perm f =
     map_pages k (a + PGSIZE) (pa + PGSIZE) perm (set_page a (PA2PTE pa OR perm OR PTE_V) f)"

lemma map_pages_cong: "f va = g va \<Longrightarrow> map_pages k a pa perm f va = map_pages k a pa perm g va"
proof (induction k arbitrary: a pa f g)
  case (Suc k)
  show ?case unfolding map_pages.simps by (rule Suc.IH) (simp only: set_page_def Suc.prems)
qed simp

text \<open>The part of \<open>mappages_loop\<close> that maps one page; its result is 0 or -1.\<close>

definition map_one :: "u64 \<Rightarrow> u64 \<Rightarrow> u64 \<Rightarrow> u64 \<Rightarrow> ('z kmem_scheme, i32) prog" where
  "map_one pagetable a pa perm =
     bind (walk pagetable a True) (\<lambda>pte.
     if pte = 0 then return (-1)
     else bind (read_pte pte) (\<lambda>v.
       andthen (panic_if (v AND PTE_V \<noteq> 0) ''mappages: remap'')
       (andthen (write_pte pte (PA2PTE pa OR perm OR PTE_V)) (return 0))))"

lemma mappages_loop_0: "mappages_loop 0 pagetable a pa perm = map_one pagetable a pa perm"
  by (simp add: map_one_def)

lemma mappages_loop_Suc:
  "mappages_loop (Suc n) pagetable a pa perm s =
     bind (map_one pagetable a pa perm) (\<lambda>r. if r = 0
       then mappages_loop n pagetable (a + PGSIZE) (pa + PGSIZE) perm else return r) s"
  by (simp add: map_one_def prog_simps write_pte_def read_pte_def del: mappages_loop.simps(2)
      split: outcome.splits) (auto simp: prog_simps write_pte_def read_pte_def)

lemma map_one_spec:
  assumes "vm_inv e s root T A" and "a < MAXVA" and "\<not> valid (pte_of (pmem s) root a)"
  shows "\<exists>r s' T' A'. map_one root a pa perm s = Ret r s' \<and> evolves e root s T A s' T' A' \<and>
    (if r = 0 then \<forall>va < MAXVA. pte_of (pmem s') root va =
        set_page a (PA2PTE pa OR perm OR PTE_V) (pte_of (pmem s) root) va
     else r = -1 \<and> A' = {} \<and> pte_of (pmem s') root = pte_of (pmem s) root)"
proof -
  from walk_alloc [OF assms(1,2)] obtain b s1 T1 A1
    where w: "walk root a True s = Ret b s1" and g: "grown e root s T A s1 T1 A1"
      and r: "if b = 0 then A1 = {} else lookup_pte (pmem s1) root a = Some b" by blast
  have ev: "evolves e root s T A s1 T1 A1" and f: "pte_of (pmem s1) root = pte_of (pmem s) root"
    using g by (simp_all add: grown_def)
  have inv: "vm_inv e s1 root T1 A1" using ev by (simp add: evolves_def)
  show ?thesis
  proof (cases "b = 0")
    case True
    then have "map_one root a pa perm s = Ret (-1) s1"
      by (simp add: map_one_def prog_simps w)
    with ev f True r show ?thesis by auto
  next
    case False
    then have l: "lookup_pte (pmem s1) root a = Some b" using r by simp
    let ?s = "s1\<lparr>pmem := store64 (pmem s1) b (PA2PTE pa OR perm OR PTE_V)\<rparr>"
    have "load64 (pmem s1) b = pte_of (pmem s) root a" using l unfolding f [symmetric] by (simp add: pte_of_def)
    then have "map_one root a pa perm s = Ret 0 ?s"
      using False assms(3) by (simp add: map_one_def w prog_simps read_pte_def write_pte_def)
    moreover have "evolves e root s T A ?s T1 A1"
      by (rule evolves_trans [OF ev write_leaf [OF inv l]])
    moreover have "pte_of (pmem ?s) root va = set_page a (PA2PTE pa OR perm OR PTE_V) (pte_of (pmem s) root) va"
      if "va < MAXVA" for va
    proof -
      have "pt_inv (pmem s1) root T1" using inv by (simp add: vm_inv_def)
      from leaf_pte_of [OF this l assms(2) that] f show ?thesis by simp
    qed
    ultimately show ?thesis by auto
  qed
qed

lemma page_add:
  assumes "unat (a :: u64) + Suc n * 4096 < 2 ^ 38" and "i \<le> n"
  shows "unat (a + PGSIZE) = unat a + 4096" and "(a + PGSIZE) + of_nat i * PGSIZE = a + of_nat (Suc i) * PGSIZE"
    and "unat (a + of_nat (Suc i) * PGSIZE) = unat a + Suc i * 4096"
proof -
  show "unat (a + PGSIZE) = unat a + 4096" using assms by (intro unat_add_PGSIZE) simp
  show "(a + PGSIZE) + of_nat i * PGSIZE = a + of_nat (Suc i) * PGSIZE" by (simp add: algebra_simps)
  have "unat a + Suc i * 4096 \<le> unat a + Suc n * 4096" using assms(2) by simp
  then have "unat a + Suc i * 4096 < 2 ^ 64" using assms(1) by simp
  from unat_add_of_nat [OF this] show "unat (a + of_nat (Suc i) * PGSIZE) = unat a + Suc i * 4096"
    by (simp only: of_nat_mult of_nat_numeral)
qed

lemma later_page_differs:
  assumes "unat (a :: u64) + Suc n * 4096 < 2 ^ 38" and "i \<le> n" and "a mod PGSIZE = 0"
  shows "PGROUNDDOWN (a + of_nat (Suc i) * PGSIZE) \<noteq> PGROUNDDOWN a"
proof
  assume eq: "PGROUNDDOWN (a + of_nat (Suc i) * PGSIZE) = PGROUNDDOWN a"
  obtain w where w: "unat a = 4096 * w"
    using assms(3) unfolding mod_PGSIZE_iff mod_eq_0_iff_dvd by (elim dvdE)
  then have "unat a + Suc i * 4096 = (w + Suc i) * 4096" by simp
  then have "unat (PGROUNDDOWN (a + of_nat (Suc i) * PGSIZE)) = unat a + Suc i * 4096"
    unfolding unat_PGROUNDDOWN page_add(3) [OF assms(1,2)] by (simp only: nonzero_mult_div_cancel_right zero_neq_numeral)
  moreover have "unat (PGROUNDDOWN a) \<le> unat a" by (simp add: unat_PGROUNDDOWN)
  ultimately show False using eq by simp
qed

lemma mappages_loop_spec:
  assumes "vm_inv e s root T A" and "unat a + n * 4096 < 2 ^ 38" and "a mod PGSIZE = 0"
    and "\<And>i. i \<le> n \<Longrightarrow> \<not> valid (pte_of (pmem s) root (a + of_nat i * PGSIZE))"
  shows "\<exists>r k s' T' A'. mappages_loop n root a pa perm s = Ret r s' \<and> evolves e root s T A s' T' A' \<and>
    (\<forall>va < MAXVA. pte_of (pmem s') root va = map_pages k a pa perm (pte_of (pmem s) root) va) \<and>
    (if r = 0 then k = Suc n else r = -1 \<and> k \<le> n \<and> A' = {})"
  using assms
proof (induction n arbitrary: s T A a pa)
  case 0
  then have a: "a < MAXVA" by (simp add: word_less_nat_alt)
  have "\<not> valid (pte_of (pmem s) root a)" using 0(4) [of 0] by simp
  from map_one_spec [OF 0(1) a this, of pa perm] obtain r s' T' A'
    where m: "map_one root a pa perm s = Ret r s'" "evolves e root s T A s' T' A'"
      and r: "if r = 0 then \<forall>va < MAXVA. pte_of (pmem s') root va =
        set_page a (PA2PTE pa OR perm OR PTE_V) (pte_of (pmem s) root) va
     else r = -1 \<and> A' = {} \<and> pte_of (pmem s') root = pte_of (pmem s) root" by blast
  have "\<exists>k. (\<forall>va < MAXVA. pte_of (pmem s') root va = map_pages k a pa perm (pte_of (pmem s) root) va) \<and>
      (if r = 0 then k = Suc 0 else r = -1 \<and> k \<le> 0 \<and> A' = {})"
    using r by (intro exI [of _ "if r = 0 then 1 else 0"]) auto
  then show ?case unfolding mappages_loop_0 using m by blast
next
  case (Suc n)
  have a: "a < MAXVA" using Suc.prems(2) by (simp add: word_less_nat_alt)
  have "\<not> valid (pte_of (pmem s) root a)" using Suc.prems(4) [of 0] by simp
  from map_one_spec [OF Suc.prems(1) a this, of pa perm] obtain r s1 T1 A1
    where m: "map_one root a pa perm s = Ret r s1" and ev: "evolves e root s T A s1 T1 A1"
      and r: "if r = 0 then \<forall>va < MAXVA. pte_of (pmem s1) root va =
        set_page a (PA2PTE pa OR perm OR PTE_V) (pte_of (pmem s) root) va
     else r = -1 \<and> A1 = {} \<and> pte_of (pmem s1) root = pte_of (pmem s) root" by blast
  show ?case
  proof (cases "r = 0")
    case False
    then have "mappages_loop (Suc n) root a pa perm s = Ret r s1"
      unfolding mappages_loop_Suc by (simp add: prog_simps m)
    moreover have "(\<forall>va < MAXVA. pte_of (pmem s1) root va = map_pages 0 a pa perm (pte_of (pmem s) root) va) \<and>
        (if r = 0 then 0 = Suc (Suc n) else r = -1 \<and> 0 \<le> Suc n \<and> A1 = {})"
      using r False by simp
    ultimately show ?thesis using ev by blast
  next
    case True
    then have f1: "pte_of (pmem s1) root va = set_page a (PA2PTE pa OR perm OR PTE_V) (pte_of (pmem s) root) va"
      if "va < MAXVA" for va using r that by simp
    have inv1: "vm_inv e s1 root T1 A1" using ev by (simp add: evolves_def)
    have room: "unat (a + PGSIZE) + n * 4096 < 2 ^ 38"
      using page_add(1) [OF Suc.prems(2), of 0] Suc.prems(2) by simp
    have al: "(a + PGSIZE) mod PGSIZE = 0"
      using Suc.prems(3) unfolding mod_PGSIZE_iff page_add(1) [OF Suc.prems(2) le0] by simp
    have "\<not> valid (pte_of (pmem s1) root (a + PGSIZE + of_nat i * PGSIZE))" if "i \<le> n" for i
    proof -
      have "Suc i \<le> Suc n" using that by simp
      then have "unat a + Suc i * 4096 < 2 ^ 38" using Suc.prems(2) by (meson add_left_mono mult_le_mono1 le_less_trans)
      then have "a + of_nat (Suc i) * PGSIZE < MAXVA"
        unfolding word_less_nat_alt page_add(3) [OF Suc.prems(2) that] by simp
      from f1 [OF this] later_page_differs [OF Suc.prems(2) that Suc.prems(3)] Suc.prems(4) [OF \<open>Suc i \<le> Suc n\<close>]
      show ?thesis unfolding page_add(2) [OF Suc.prems(2) that] by (simp only: set_page_def if_False simp_thms)
    qed
    from Suc.IH [OF inv1 room al this] obtain r2 k s2 T2 A2
      where l: "mappages_loop n root (a + PGSIZE) (pa + PGSIZE) perm s1 = Ret r2 s2"
        and ev2: "evolves e root s1 T1 A1 s2 T2 A2"
        and f2: "\<forall>va < MAXVA. pte_of (pmem s2) root va =
          map_pages k (a + PGSIZE) (pa + PGSIZE) perm (pte_of (pmem s1) root) va"
        and r2: "if r2 = 0 then k = Suc n else r2 = -1 \<and> k \<le> n \<and> A2 = {}" by blast
    have "mappages_loop (Suc n) root a pa perm s = Ret r2 s2"
      unfolding mappages_loop_Suc using True by (simp add: prog_simps m l)
    moreover have "pte_of (pmem s2) root va = map_pages (Suc k) a pa perm (pte_of (pmem s) root) va"
      if "va < MAXVA" for va
      unfolding map_pages.simps map_pages_cong [where f = "set_page a _ _" and g = "pte_of (pmem s1) root",
          OF f1 [OF that, symmetric]] using f2 that by simp
    moreover have "if r2 = 0 then Suc k = Suc (Suc n) else r2 = -1 \<and> Suc k \<le> Suc n \<and> A2 = {}"
      using r2 by simp
    ultimately show ?thesis using evolves_trans [OF ev ev2] by blast
  qed
qed

section \<open>Looking up user addresses\<close>

definition user_pa :: "mem \<Rightarrow> u64 \<Rightarrow> u64 \<Rightarrow> u64" where
  "user_pa m root va =
     (let v = pte_of m root va in
      if va < MAXVA \<and> valid v \<and> v AND PTE_U \<noteq> 0 then PTE2PA v else 0)"

lemma walkaddr_eq:
  assumes "pt_inv (pmem s) root T"
  shows "walkaddr root va s = Ret (user_pa (pmem s) root va) s"
proof (cases "va < MAXVA")
  case False
  then have "MAXVA \<le> va" by (simp add: not_less)
  with False show ?thesis by (simp add: walkaddr_def user_pa_def prog_simps Let_def)
next
  case True
  then have lt: "\<not> MAXVA \<le> va" by (simp add: not_le)
  show ?thesis
  proof (cases "lookup_pte (pmem s) root va")
    case None
    then show ?thesis using lt by (simp add: walkaddr_def walk_lookup [OF True] user_pa_def pte_of_def prog_simps)
  next
    case (Some a)
    then show ?thesis
      using lt True lookup_pte_nonzero [OF assms Some]
      by (simp add: walkaddr_def walk_lookup user_pa_def pte_of_def prog_simps read_pte_def Let_def)
  qed
qed

lemma perm_or_V:
  assumes "(perm :: u64) < 1024"
  shows "perm OR PTE_V < 1024"
proof -
  have "take_bit 10 perm = perm"
    using assms by (simp add: take_bit_eq_mod word_unat_eq_iff unat_mod word_less_nat_alt)
  then have "take_bit 10 (perm OR PTE_V) = perm OR PTE_V" by (simp add: take_bit_or)
  then have "unat (perm OR PTE_V) = take_bit 10 (unat (perm OR PTE_V))" by (metis unsigned_take_bit_eq)
  then have "unat (perm OR PTE_V) < 2 ^ 10" by (metis take_bit_nat_less_exp)
  then show ?thesis by (simp add: word_less_nat_alt)
qed

text \<open>The three things a lookup reads from a leaf entry.\<close>

lemma leaf_bits:
  assumes "perm < 1024"
  shows "valid (PA2PTE pa OR perm OR PTE_V)"
    and "PTE2PA (PA2PTE pa OR perm OR PTE_V) = PGROUNDDOWN pa"
    and "perm AND PTE_U \<noteq> 0 \<Longrightarrow> (PA2PTE pa OR perm OR PTE_V) AND PTE_U \<noteq> 0"
proof -
  show "valid (PA2PTE pa OR perm OR PTE_V)" by (simp add: bit.conj_disj_distrib2 or_eq_0_iff)
  show "PTE2PA (PA2PTE pa OR perm OR PTE_V) = PGROUNDDOWN pa"
    using PTE2PA_leaf [OF perm_or_V [OF assms]] by (simp add: ac_simps)
  show "(PA2PTE pa OR perm OR PTE_V) AND PTE_U \<noteq> 0" if "perm AND PTE_U \<noteq> 0"
    using that by (simp add: bit.conj_disj_distrib2 or_eq_0_iff)
qed

section \<open>Properties\<close>

lemma mappages_count:
  assumes "sz \<noteq> 0" and "unat va + unat sz \<le> 2 ^ 38"
  shows "unat (PGROUNDDOWN (va + sz - 1) - PGROUNDDOWN va) div 4096 =
    (unat va + unat sz - 1) div 4096 - unat va div 4096"
proof -
  have 1: "0 < unat sz" using assms(1) by (simp add: unat_gt_0)
  have "va + sz - 1 = va + of_nat (unat sz - 1)" using 1 by (simp add: of_nat_diff)
  moreover have "unat va + (unat sz - 1) < 2 ^ 64" using assms(2) by simp
  ultimately have u: "unat (va + sz - 1) = unat va + unat sz - 1"
    using unat_add_of_nat [of va "unat sz - 1"] 1 by (simp add: add_diff_eq)
  have "unat va div 4096 * 4096 \<le> (unat va + unat sz - 1) div 4096 * 4096"
    using 1 by (intro mult_right_mono div_le_mono) simp_all
  then have "unat (PGROUNDDOWN (va + sz - 1) - PGROUNDDOWN va) =
      (unat va + unat sz - 1) div 4096 * 4096 - unat va div 4096 * 4096"
    by (subst unat_sub) (simp_all add: word_le_nat_alt unat_PGROUNDDOWN u)
  then show ?thesis by (simp flip: diff_mult_distrib)
qed

lemma mappages_run:
  assumes "vm_inv e s root T A" and "sz \<noteq> 0" and "unat va + unat sz \<le> 2 ^ 38"
    and "npages = (unat va + unat sz - 1) div 4096 - unat va div 4096 + 1"
    and "\<forall>i < npages. pte_of (pmem s) root (PGROUNDDOWN va + of_nat i * PGSIZE) AND PTE_V = 0"
  shows "\<exists>r k s' T' A'. mappages root va sz pa perm s = Ret r s' \<and> evolves e root s T A s' T' A' \<and>
    (\<forall>v < MAXVA. pte_of (pmem s') root v = map_pages k (PGROUNDDOWN va) pa perm (pte_of (pmem s) root) v) \<and>
    (if r = 0 then k = npages else r = -1 \<and> k < npages \<and> A' = {})"
proof -
  define n where "n = (unat va + unat sz - 1) div 4096 - unat va div 4096"
  have np: "npages = Suc n" by (simp add: n_def assms(4))
  have 1: "0 < unat sz" using assms(2) by (simp add: unat_gt_0)
  have "unat va div 4096 \<le> (unat va + unat sz - 1) div 4096" using 1 by (intro div_le_mono) simp
  then have "unat (PGROUNDDOWN va) + n * 4096 = (unat va + unat sz - 1) div 4096 * 4096"
    by (simp add: unat_PGROUNDDOWN n_def diff_mult_distrib div_le_mono)
  also have "\<dots> \<le> unat va + unat sz - 1" by simp
  also have "\<dots> < 2 ^ 38" using assms(3) 1 by linarith
  finally have room: "unat (PGROUNDDOWN va) + n * 4096 < 2 ^ 38" .
  have al: "PGROUNDDOWN va mod PGSIZE = 0" by (simp only: mod_PGSIZE_iff unat_PGROUNDDOWN) simp
  have "\<And>i. i \<le> n \<Longrightarrow> \<not> valid (pte_of (pmem s) root (PGROUNDDOWN va + of_nat i * PGSIZE))"
    using assms(5) np by (simp add: less_Suc_eq_le)
  from mappages_loop_spec [OF assms(1) room al this, of pa perm] obtain r k s' T' A'
    where l: "mappages_loop n root (PGROUNDDOWN va) pa perm s = Ret r s'"
      and rest: "evolves e root s T A s' T' A'"
        "\<forall>v < MAXVA. pte_of (pmem s') root v = map_pages k (PGROUNDDOWN va) pa perm (pte_of (pmem s) root) v"
        "if r = 0 then k = Suc n else r = -1 \<and> k \<le> n \<and> A' = {}" by blast
  have "mappages root va sz pa perm s = Ret r s'"
    using assms(2) l unfolding n_def by (simp add: mappages_def prog_simps mappages_count [OF assms(2,3)])
  moreover have "if r = 0 then k = npages else r = -1 \<and> k < npages \<and> A' = {}"
    using rest(3) np by (simp add: less_Suc_eq_le)
  ultimately show ?thesis using rest(1,2) by blast
qed

text \<open>A kernel state with an empty page table at \<open>0x87FFD000\<close> and two free pages behind it.\<close>

definition two_pages :: kmem where
  "two_pages = \<lparr>held = {}, pmem = store64 (\<lambda>_. 0) 0x87FFE000 0x87FFF000, freelist = 0x87FFE000,
     kend = 0x87FFD123\<rparr>"

lemma two_pages_zero: "in_region a 0x87FFD000 4096 \<Longrightarrow> pmem two_pages a = 0"
  using pages_apart [of "0x87FFE000" "0x87FFD000" a]
  by (auto simp: two_pages_def store64_def in_region_def)

lemma empty_pt_inv:
  assumes "root mod PGSIZE = 0" and "root \<noteq> 0"
  shows "pt_inv (\<lambda>_. 0) root {root}"
proof -
  have n: "node (\<lambda>_. 0) root p = (if p = [] then Some root else None)" for p
    by (cases p) (simp_all add: entry_def)
  have "{t. \<exists>p. path_ok p \<and> node (\<lambda>_. 0) root p = Some t} = {root}"
    by (auto simp: n split: if_splits)
  then show ?thesis
    by (intro pt_invI) (use assms in \<open>simp_all add: n split: if_splits\<close>)
qed

lemma two_pages_inv: "vm_inv 0x87FFD123 two_pages 0x87FFD000 {0x87FFD000} {0x87FFE000, 0x87FFF000}"
proof -
  have "load64 (pmem two_pages) 0x87FFF000 = 0"
    using load64_store64_other_page [of "0x87FFE000" "0x87FFF000"] by (simp add: two_pages_def)
  then have "kmem_inv two_pages [0x87FFE000, 0x87FFF000]"
    by (simp add: two_pages_def kmem_inv_def page_ok_def)
  moreover have "kend two_pages = 0x87FFD123" "held two_pages = {}" by (simp_all add: two_pages_def)
  ultimately have "kmem_pool 0x87FFD123 two_pages {0x87FFE000, 0x87FFF000}"
    unfolding kmem_pool_def by (intro conjI exI) auto
  moreover have "pt_inv (pmem two_pages) 0x87FFD000 {0x87FFD000}"
    by (rule pt_inv_cong [OF empty_pt_inv]) (auto simp: two_pages_zero)
  ultimately show ?thesis by (simp add: vm_inv_def)
qed

lemma two_pages_pte: "pte_of (pmem two_pages) 0x87FFD000 va = 0"
proof -
  have "pt_inv (\<lambda>_. 0) 0x87FFD000 {0x87FFD000}" by (simp add: empty_pt_inv)
  then have "pte_of (pmem two_pages) 0x87FFD000 va = pte_of (\<lambda>_. 0) 0x87FFD000 va"
    by (rule pte_of_cong) (auto simp: two_pages_zero)
  then show ?thesis by (simp add: pte_of_def lookup_pte_def entry_def split: option.splits)
qed

text \<open>
  C3: mappages on a well-formed tree, for a range of virtual pages that are not mapped: it returns 0
  and the map then has exactly the entries \<open>PA2PTE(pa) | perm | PTE_V\<close> for the pages of the range in
  addition, or it returns -1 with the free list exhausted and a proper part of the range mapped. In
  both cases the tree stays well-formed and apart from the free pages, no page is lost, no other
  virtual page changes its entry, and no byte outside the tree and the free pages is touched.
\<close>

theorem mappages_spec:
  assumes "vm_inv e s root T A" and "sz \<noteq> 0" and "unat va + unat sz \<le> 2 ^ 38"
    and "npages = (unat va + unat sz - 1) div 4096 - unat va div 4096 + 1"
    and "\<forall>i < npages. pte_of (pmem s) root (PGROUNDDOWN va + of_nat i * PGSIZE) AND PTE_V = 0"
  shows "\<exists>r k s' T' A'. mappages root va sz pa perm s = Ret r s' \<and> evolves e root s T A s' T' A' \<and>
    (\<forall>v < MAXVA. pte_of (pmem s') root v = map_pages k (PGROUNDDOWN va) pa perm (pte_of (pmem s) root) v) \<and>
    (if r = 0 then k = npages else r = -1 \<and> k < npages \<and> A' = {})"
  by (rule mappages_run [OF assms])

theorem mappages_spec_witness:
  "\<exists>r k s' T' A'. mappages 0x87FFD000 0x1234 0x2000 0x87000000 (PTE_R OR PTE_U) two_pages = Ret r s' \<and>
    evolves 0x87FFD123 0x87FFD000 two_pages {0x87FFD000} {0x87FFE000, 0x87FFF000} s' T' A' \<and>
    (\<forall>v < MAXVA. pte_of (pmem s') 0x87FFD000 v = map_pages k (PGROUNDDOWN 0x1234) 0x87000000 (PTE_R OR PTE_U)
       (pte_of (pmem two_pages) 0x87FFD000) v) \<and>
    (if r = 0 then k = 3 else r = -1 \<and> k < 3 \<and> A' = {})"
  by (rule mappages_spec [OF two_pages_inv]) (simp_all add: two_pages_pte)

text \<open>
  C4: after mappages has mapped one user page at a page-aligned address, walkaddr finds the physical
  page for every address in that virtual page, and gives what it gave before for all others.
\<close>

theorem mappages_walkaddr:
  assumes "vm_inv e s root T A" and "va mod PGSIZE = 0" and "unat va + 4096 \<le> 2 ^ 38"
    and "pte_of (pmem s) root va AND PTE_V = 0"
    and "pa mod PGSIZE = 0" and "perm < 1024" and "perm AND PTE_U \<noteq> 0"
  shows "\<exists>r s'. mappages root va PGSIZE pa perm s = Ret r s' \<and> (r = 0 \<or> r = -1) \<and>
    (r = 0 \<longrightarrow> (\<forall>v. walkaddr root v s' =
       Ret (if PGROUNDDOWN v = va then pa else user_pa (pmem s) root v) s'))"
proof -
  have va: "PGROUNDDOWN va = va" using assms(2) by (intro PGROUNDDOWN_aligned) (simp only: mod_PGSIZE_iff)
  have pa: "PGROUNDDOWN pa = pa" using assms(5) by (intro PGROUNDDOWN_aligned) (simp only: mod_PGSIZE_iff)
  have "(unat va + 4096 - 1) div 4096 = unat va div 4096"
    using assms(2) unfolding mod_PGSIZE_iff mod_eq_0_iff_dvd by (auto elim!: dvdE)
  then have np: "1 = (unat va + unat PGSIZE - 1) div 4096 - unat va div 4096 + 1" by simp
  have sz: "PGSIZE \<noteq> 0" "unat va + unat PGSIZE \<le> 2 ^ 38" using assms(3) by simp_all
  have un: "\<forall>i < 1. pte_of (pmem s) root (PGROUNDDOWN va + of_nat i * PGSIZE) AND PTE_V = 0"
    using assms(4) va by simp
  from mappages_run [OF assms(1) sz np un, of pa perm, unfolded va] obtain r k s' T' A'
    where run: "mappages root va PGSIZE pa perm s = Ret r s'"
      and ev: "evolves e root s T A s' T' A'"
      and f: "\<forall>v < MAXVA. pte_of (pmem s') root v = map_pages k va pa perm (pte_of (pmem s) root) v"
      and r: "if r = 0 then k = 1 else r = -1 \<and> k < 1 \<and> A' = {}" by blast
  have "walkaddr root v s' = Ret (if PGROUNDDOWN v = va then pa else user_pa (pmem s) root v) s'"
    if "r = 0" for v
  proof -
    have "pt_inv (pmem s') root T'" using ev by (simp add: evolves_def vm_inv_def)
    note w = walkaddr_eq [OF this, of v]
    show ?thesis
    proof (cases "v < MAXVA")
      case True
      then have "pte_of (pmem s') root v = set_page va (PA2PTE pa OR perm OR PTE_V) (pte_of (pmem s) root) v"
        using f r that by simp
      then show ?thesis
        unfolding w using True leaf_bits [OF assms(6)] assms(7) va pa
        by (simp add: user_pa_def set_page_def Let_def)
    next
      case False
      have "unat v < unat (PGROUNDDOWN v) + 4096" by (simp add: unat_PGROUNDDOWN)
      then have "PGROUNDDOWN v \<noteq> va" using False assms(3) by (auto simp: word_less_nat_alt)
      then show ?thesis unfolding w using False by (simp add: user_pa_def Let_def)
    qed
  qed
  with run r show ?thesis by (auto split: if_splits)
qed

theorem mappages_walkaddr_witness:
  "\<exists>r s'. mappages 0x87FFD000 0x3000 PGSIZE 0x87000000 (PTE_R OR PTE_U) two_pages = Ret r s' \<and> (r = 0 \<or> r = -1) \<and>
    (r = 0 \<longrightarrow> (\<forall>v. walkaddr 0x87FFD000 v s' =
       Ret (if PGROUNDDOWN v = 0x3000 then 0x87000000 else user_pa (pmem two_pages) 0x87FFD000 v) s'))"
  by (rule mappages_walkaddr [OF two_pages_inv]) (simp_all add: two_pages_pte)

end
