(* ===== verification/Spinlock.thy ===== *)
theory Spinlock
  imports Prelude
begin

text \<open>
  The spinlocks of kernel/spinlock.c on a machine with any number of harts: the lock words in shared
  memory, the interrupt flag of each hart with the nesting of \<open>push_off\<close> and \<open>pop_off\<close>, and the
  interleaving of the harts at every access to shared memory. The results are mutual exclusion, the
  agreement of \<open>noff\<close> with the number of locks held, that a hart with a lock or on the way to one has its interrupts off,
  and that \<open>acquire\<close> and \<open>release\<close> implement the operations on the set of held locks that the rest
  of the kernel model uses.
\<close>

section \<open>Lock words and harts\<close>

text \<open>
  \<open>lk_cpu\<close> is the pointer \<open>cpu\<close> of the lock, as the number of the hart. \<open>noff\<close> is an \<open>int\<close> in C; it
  counts locks and nested calls of \<open>push_off\<close>, of which there are far fewer than $2^{31}$, so it is a HOL
  integer here. \<open>hpc\<close> and \<open>pushes\<close> are not in the C code: where the hart is, and how many calls of
  \<open>push_off\<close> outside of \<open>acquire\<close> (in \<open>myproc\<close> and \<open>uartputc_sync\<close>) it has not yet undone.
\<close>

record spinlock =
  locked :: u32
  lk_name :: string
  lk_cpu :: "nat option"

text \<open>
  Where a hart is inside \<open>acquire\<close> or \<open>release\<close>: in the loop of the atomic swap, after the swap that
  returned 0, after the assignment of 0 to \<open>cpu\<close>, after the store of 0 to \<open>locked\<close>, or \<open>Outside\<close>.
\<close>

datatype hpc = Outside | Spinning lock | Won lock | Dropping lock | Popping

record hart =
  noff :: int
  intena :: bool
  sie :: bool
  hpc :: hpc
  pushes :: nat

record machine =
  spins :: "lock \<Rightarrow> spinlock"
  harts :: "nat \<Rightarrow> hart"

definition upd_hart :: "nat \<Rightarrow> (hart \<Rightarrow> hart) \<Rightarrow> machine \<Rightarrow> machine" where
  "upd_hart h f m = m\<lparr>harts := (harts m)(h := f (harts m h))\<rparr>"

definition upd_spin :: "lock \<Rightarrow> (spinlock \<Rightarrow> spinlock) \<Rightarrow> machine \<Rightarrow> machine" where
  "upd_spin lk f m = m\<lparr>spins := (spins m)(lk := f (spins m lk))\<rparr>"

section \<open>The operations\<close>

definition initlock :: "lock \<Rightarrow> string \<Rightarrow> machine \<Rightarrow> machine" where
  "initlock lk name = upd_spin lk (\<lambda>l. l\<lparr>lk_name := name, locked := 0, lk_cpu := None\<rparr>)"

definition holding :: "nat \<Rightarrow> lock \<Rightarrow> machine \<Rightarrow> bool" where
  "holding h lk m \<longleftrightarrow> locked (spins m lk) \<noteq> 0 \<and> lk_cpu (spins m lk) = Some h"

definition push_off :: "nat \<Rightarrow> (machine, unit) prog" where
  "push_off h = modify (upd_hart h (\<lambda>c.
     let old = sie c; c = c\<lparr>sie := False\<rparr>;
         c = (if noff c = 0 then c\<lparr>intena := old\<rparr> else c)
     in c\<lparr>noff := noff c + 1\<rparr>))"

definition pop_off :: "nat \<Rightarrow> (machine, unit) prog" where
  "pop_off h =
     bind (gets (\<lambda>m. harts m h)) (\<lambda>c.
     andthen (panic_if (sie c) ''pop_off - interruptible'')
     (andthen (panic_if (noff c < 1) ''pop_off'')
     (modify (upd_hart h (\<lambda>c.
        let c = c\<lparr>noff := noff c - 1\<rparr> in if noff c = 0 \<and> intena c then c\<lparr>sie := True\<rparr> else c)))))"

text \<open>
  \<open>acquire\<close> is cut at the accesses to shared memory: \<open>acquire_enter\<close> up to the loop, one
  \<open>acquire_swap\<close> per iteration of the loop, whose result is the old value of the lock word, and
  \<open>acquire_own\<close> after it. \<open>release\<close> is cut in the same way. The two words that \<open>holding\<close> reads
  are read in one step: no other hart can write this hart into \<open>cpu\<close>, or take it out.
\<close>

definition acquire_enter :: "nat \<Rightarrow> lock \<Rightarrow> (machine, unit) prog" where
  "acquire_enter h lk =
     andthen (push_off h)
     (bind (gets (holding h lk)) (\<lambda>b.
     andthen (panic_if b ''acquire'')
     (modify (upd_hart h (\<lambda>c. c\<lparr>hpc := Spinning lk\<rparr>)))))"

definition acquire_swap :: "nat \<Rightarrow> lock \<Rightarrow> (machine, u32) prog" where
  "acquire_swap h lk =
     bind (gets (\<lambda>m. locked (spins m lk))) (\<lambda>old.
     andthen (modify (upd_spin lk (\<lambda>l. l\<lparr>locked := 1\<rparr>)))
     (andthen (onlyif (old = 0) (modify (upd_hart h (\<lambda>c. c\<lparr>hpc := Won lk\<rparr>))))
     (return old)))"

definition acquire_own :: "nat \<Rightarrow> lock \<Rightarrow> (machine, unit) prog" where
  "acquire_own h lk =
     andthen (modify (upd_spin lk (\<lambda>l. l\<lparr>lk_cpu := Some h\<rparr>)))
     (modify (upd_hart h (\<lambda>c. c\<lparr>hpc := Outside\<rparr>)))"

definition release_disown :: "nat \<Rightarrow> lock \<Rightarrow> (machine, unit) prog" where
  "release_disown h lk =
     bind (gets (holding h lk)) (\<lambda>b.
     andthen (panic_if (\<not> b) ''release'')
     (andthen (modify (upd_spin lk (\<lambda>l. l\<lparr>lk_cpu := None\<rparr>)))
     (modify (upd_hart h (\<lambda>c. c\<lparr>hpc := Dropping lk\<rparr>)))))"

definition release_store :: "nat \<Rightarrow> lock \<Rightarrow> (machine, unit) prog" where
  "release_store h lk =
     andthen (modify (upd_spin lk (\<lambda>l. l\<lparr>locked := 0\<rparr>)))
     (modify (upd_hart h (\<lambda>c. c\<lparr>hpc := Popping\<rparr>)))"

definition release_leave :: "nat \<Rightarrow> (machine, unit) prog" where
  "release_leave h = andthen (pop_off h) (modify (upd_hart h (\<lambda>c. c\<lparr>hpc := Outside\<rparr>)))"

text \<open>
  The whole functions, run by one hart while the others stand still. The loop of \<open>acquire\<close> is given
  \<open>n\<close> iterations; a hart that is still spinning after them is \<open>Blocked\<close>.
\<close>

primrec spin_loop :: "nat \<Rightarrow> nat \<Rightarrow> lock \<Rightarrow> (machine, unit) prog" where
  "spin_loop 0 h lk = (\<lambda>m. Blocked m)"
| "spin_loop (Suc n) h lk = bind (acquire_swap h lk) (\<lambda>old. if old \<noteq> 0 then spin_loop n h lk else return ())"

definition acquire_hart :: "nat \<Rightarrow> nat \<Rightarrow> lock \<Rightarrow> (machine, unit) prog" where
  "acquire_hart n h lk = andthen (acquire_enter h lk) (andthen (spin_loop n h lk) (acquire_own h lk))"

definition release_hart :: "nat \<Rightarrow> lock \<Rightarrow> (machine, unit) prog" where
  "release_hart h lk = andthen (release_disown h lk) (andthen (release_store h lk) (release_leave h))"

section \<open>Interleaving\<close>

text \<open>
  One step of one hart. Apart from the steps of the two functions, a hart may call \<open>push_off\<close>, and later
  \<open>pop_off\<close>, directly; and a hart with \<open>noff\<close> 0 may switch its interrupts on or off (\<open>intr_on\<close>, \<open>intr_off\<close>,
  the entry to and the return from a trap).
\<close>

inductive hart_step :: "machine \<Rightarrow> machine \<Rightarrow> bool" where
  enter: "hpc (harts m h) = Outside \<Longrightarrow> acquire_enter h lk m = Ret () m' \<Longrightarrow> hart_step m m'"
| swap: "hpc (harts m h) = Spinning lk \<Longrightarrow> acquire_swap h lk m = Ret old m' \<Longrightarrow> hart_step m m'"
| own: "hpc (harts m h) = Won lk \<Longrightarrow> acquire_own h lk m = Ret () m' \<Longrightarrow> hart_step m m'"
| disown: "hpc (harts m h) = Outside \<Longrightarrow> release_disown h lk m = Ret () m' \<Longrightarrow> hart_step m m'"
| store: "hpc (harts m h) = Dropping lk \<Longrightarrow> release_store h lk m = Ret () m' \<Longrightarrow> hart_step m m'"
| leave: "hpc (harts m h) = Popping \<Longrightarrow> release_leave h m = Ret () m' \<Longrightarrow> hart_step m m'"
| push: "hpc (harts m h) = Outside \<Longrightarrow> push_off h m = Ret () m' \<Longrightarrow>
    hart_step m (upd_hart h (\<lambda>c. c\<lparr>pushes := pushes c + 1\<rparr>) m')"
| pop: "hpc (harts m h) = Outside \<Longrightarrow> 0 < pushes (harts m h) \<Longrightarrow> pop_off h m = Ret () m' \<Longrightarrow>
    hart_step m (upd_hart h (\<lambda>c. c\<lparr>pushes := pushes c - 1\<rparr>) m')"
| intr: "hpc (harts m h) = Outside \<Longrightarrow> noff (harts m h) = 0 \<Longrightarrow>
    hart_step m (upd_hart h (\<lambda>c. c\<lparr>sie := b\<rparr>) m)"

inductive hart_reach :: "machine \<Rightarrow> machine \<Rightarrow> bool" for m where
  start: "hart_reach m m"
| step: "hart_reach m m' \<Longrightarrow> hart_step m' m'' \<Longrightarrow> hart_reach m m''"

text \<open>After \<open>initlock\<close> on every lock, with every hart outside.\<close>

definition fresh_machine :: "machine \<Rightarrow> bool" where
  "fresh_machine m \<longleftrightarrow> (\<forall>lk. locked (spins m lk) = 0 \<and> lk_cpu (spins m lk) = None) \<and>
     (\<forall>h. hpc (harts m h) = Outside \<and> noff (harts m h) = 0 \<and> pushes (harts m h) = 0)"

section \<open>Invariant\<close>

definition held_by :: "nat \<Rightarrow> machine \<Rightarrow> lock set" where
  "held_by h m = {lk. lk_cpu (spins m lk) = Some h}"

text \<open>The harts between a successful swap and the store that frees the lock.\<close>

definition inside :: "lock \<Rightarrow> machine \<Rightarrow> nat set" where
  "inside lk m = {h. hpc (harts m h) = Won lk \<or> hpc (harts m h) = Dropping lk \<or> lk_cpu (spins m lk) = Some h}"

definition mutex_inv :: "machine \<Rightarrow> bool" where
  "mutex_inv m \<longleftrightarrow> (\<forall>lk.
     (\<forall>h h'. h \<in> inside lk m \<longrightarrow> h' \<in> inside lk m \<longrightarrow> h = h') \<and>
     (inside lk m \<noteq> {} \<longleftrightarrow> locked (spins m lk) \<noteq> 0) \<and>
     (\<forall>h. hpc (harts m h) = Won lk \<or> hpc (harts m h) = Dropping lk \<longrightarrow> lk_cpu (spins m lk) = None))"

definition depth_inv :: "machine \<Rightarrow> bool" where
  "depth_inv m \<longleftrightarrow> (\<forall>h. finite (held_by h m) \<and>
     noff (harts m h) = int (card (held_by h m) + pushes (harts m h)) + (if hpc (harts m h) = Outside then 0 else 1) \<and>
     (0 < noff (harts m h) \<longrightarrow> \<not> sie (harts m h)))"

lemmas hart_defs = acquire_enter_def acquire_swap_def acquire_own_def release_disown_def release_store_def
  release_leave_def push_off_def pop_off_def upd_hart_def upd_spin_def prog_simps Let_def

lemma held_by_unchanged: "(\<And>lk. lk_cpu (spins m' lk) = lk_cpu (spins m lk)) \<Longrightarrow> held_by h m' = held_by h m"
  by (simp add: held_by_def)

text \<open>The state after each step, with what the step has checked.\<close>

lemma acquire_enter_Ret:
  "acquire_enter h lk m = Ret () m' \<longleftrightarrow> \<not> holding h lk m \<and>
     m' = m\<lparr>harts := (harts m)(h := (harts m h)\<lparr>sie := False,
       intena := (if noff (harts m h) = 0 then sie (harts m h) else intena (harts m h)),
       noff := noff (harts m h) + 1, hpc := Spinning lk\<rparr>)\<rparr>"
  by (auto simp: hart_defs holding_def)

lemma acquire_swap_Ret:
  "acquire_swap h lk m = Ret old m' \<longleftrightarrow> old = locked (spins m lk) \<and>
     m' = m\<lparr>spins := (spins m)(lk := (spins m lk)\<lparr>locked := 1\<rparr>),
       harts := (if old = 0 then (harts m)(h := (harts m h)\<lparr>hpc := Won lk\<rparr>) else harts m)\<rparr>"
  by (auto simp: hart_defs)

lemma acquire_own_Ret:
  "acquire_own h lk m = Ret () m' \<longleftrightarrow>
     m' = m\<lparr>spins := (spins m)(lk := (spins m lk)\<lparr>lk_cpu := Some h\<rparr>),
       harts := (harts m)(h := (harts m h)\<lparr>hpc := Outside\<rparr>)\<rparr>"
  by (auto simp: hart_defs)

lemma release_disown_Ret:
  "release_disown h lk m = Ret () m' \<longleftrightarrow> holding h lk m \<and>
     m' = m\<lparr>spins := (spins m)(lk := (spins m lk)\<lparr>lk_cpu := None\<rparr>),
       harts := (harts m)(h := (harts m h)\<lparr>hpc := Dropping lk\<rparr>)\<rparr>"
  by (auto simp: hart_defs)

lemma release_store_Ret:
  "release_store h lk m = Ret () m' \<longleftrightarrow>
     m' = m\<lparr>spins := (spins m)(lk := (spins m lk)\<lparr>locked := 0\<rparr>),
       harts := (harts m)(h := (harts m h)\<lparr>hpc := Popping\<rparr>)\<rparr>"
  by (auto simp: hart_defs)

lemma release_leave_Ret:
  "release_leave h m = Ret () m' \<longleftrightarrow> \<not> sie (harts m h) \<and> 1 \<le> noff (harts m h) \<and>
     m' = m\<lparr>harts := (harts m)(h := (harts m h)\<lparr>noff := noff (harts m h) - 1,
       sie := noff (harts m h) = 1 \<and> intena (harts m h), hpc := Outside\<rparr>)\<rparr>"
  by (cases "harts m h") (auto simp: hart_defs)

lemma push_off_Ret:
  "push_off h m = Ret () m' \<longleftrightarrow> m' = m\<lparr>harts := (harts m)(h := (harts m h)\<lparr>sie := False,
     intena := (if noff (harts m h) = 0 then sie (harts m h) else intena (harts m h)), noff := noff (harts m h) + 1\<rparr>)\<rparr>"
  by (auto simp: hart_defs)

lemma pop_off_Ret:
  "pop_off h m = Ret () m' \<longleftrightarrow> \<not> sie (harts m h) \<and> 1 \<le> noff (harts m h) \<and>
     m' = m\<lparr>harts := (harts m)(h := (harts m h)\<lparr>noff := noff (harts m h) - 1, sie := noff (harts m h) = 1 \<and> intena (harts m h)\<rparr>)\<rparr>"
  by (cases "harts m h") (auto simp: hart_defs)

lemma mutex_step:
  assumes "hart_step m m'" and "mutex_inv m"
  shows "mutex_inv m'"
  using assms
proof (cases rule: hart_step.cases)
  case (enter h lk)
  then have "inside l m' = inside l m" for l by (auto simp: acquire_enter_Ret inside_def)
  with enter assms(2) show ?thesis by (auto simp: mutex_inv_def acquire_enter_Ret)
next
  case (swap h lk old)
  then have "inside l m' = (if l = lk \<and> old = 0 then insert h (inside l m) else inside l m)" for l
    by (auto simp: acquire_swap_Ret inside_def)
  with swap assms(2) show ?thesis by (auto simp: mutex_inv_def acquire_swap_Ret inside_def)
next
  case (own h lk)
  then have "inside l m' = inside l m" for l using assms(2) by (auto simp: acquire_own_Ret inside_def mutex_inv_def)
  moreover have "ha = h" if "hpc (harts m ha) = Won lk \<or> hpc (harts m ha) = Dropping lk" for ha
    using that own(1) assms(2) unfolding mutex_inv_def inside_def by blast
  ultimately show ?thesis using own assms(2) by (auto simp: mutex_inv_def acquire_own_Ret)
next
  case (disown h lk)
  then have "inside l m' = inside l m" for l
    using assms(2) by (auto simp: release_disown_Ret holding_def inside_def mutex_inv_def)
  with disown assms(2) show ?thesis by (auto simp: mutex_inv_def release_disown_Ret)
next
  case (store h lk)
  then have "inside l m' = (if l = lk then {} else inside l m)" for l
    using assms(2) by (auto simp: release_store_Ret inside_def mutex_inv_def)
  with store assms(2) show ?thesis by (auto simp: mutex_inv_def release_store_Ret)
next
  case (leave h)
  then have "inside l m' = inside l m" for l by (auto simp: release_leave_Ret inside_def)
  with leave assms(2) show ?thesis by (auto simp: mutex_inv_def release_leave_Ret)
next
  case (push h m1)
  then have "inside l m' = inside l m" for l by (auto simp: push_off_Ret upd_hart_def inside_def)
  with push assms(2) show ?thesis by (auto simp: mutex_inv_def push_off_Ret upd_hart_def)
next
  case (pop h m1)
  then have "inside l m' = inside l m" for l by (auto simp: pop_off_Ret upd_hart_def inside_def)
  with pop assms(2) show ?thesis by (auto simp: mutex_inv_def pop_off_Ret upd_hart_def)
next
  case (intr h b)
  then have "inside l m' = inside l m" for l by (auto simp: upd_hart_def inside_def)
  with intr assms(2) show ?thesis by (auto simp: mutex_inv_def upd_hart_def)
qed

lemma depthI:
  assumes "depth_inv m" and "\<And>k. k \<noteq> h \<Longrightarrow> harts m' k = harts m k"
    and "\<And>k. k \<noteq> h \<Longrightarrow> held_by k m' = held_by k m" and "finite (held_by h m')"
    and "noff (harts m' h) = int (card (held_by h m') + pushes (harts m' h)) + (if hpc (harts m' h) = Outside then 0 else 1)"
    and "0 < noff (harts m' h) \<Longrightarrow> \<not> sie (harts m' h)"
  shows "depth_inv m'"
  unfolding depth_inv_def
proof
  fix k
  show "finite (held_by k m') \<and>
     noff (harts m' k) = int (card (held_by k m') + pushes (harts m' k)) + (if hpc (harts m' k) = Outside then 0 else 1) \<and>
     (0 < noff (harts m' k) \<longrightarrow> \<not> sie (harts m' k))"
    using assms by (cases "k = h") (simp_all add: depth_inv_def)
qed

lemma depthD:
  assumes "depth_inv m"
  shows "finite (held_by h m)"
    and "noff (harts m h) = int (card (held_by h m) + pushes (harts m h)) + (if hpc (harts m h) = Outside then 0 else 1)"
    and "0 < noff (harts m h) \<Longrightarrow> \<not> sie (harts m h)"
  using assms by (simp_all add: depth_inv_def)

lemma depth_step:
  assumes "hart_step m m'" and "mutex_inv m" and d: "depth_inv m"
  shows "depth_inv m'"
  using assms(1)
proof (cases rule: hart_step.cases)
  case (enter h lk)
  then have "held_by k m' = held_by k m" for k by (auto simp: acquire_enter_Ret held_by_def)
  then show ?thesis using enter depthD [OF d, of h] by (intro depthI [OF d, of h]) (auto simp: acquire_enter_Ret)
next
  case (swap h lk old)
  then have "held_by k m' = held_by k m" for k by (auto simp: acquire_swap_Ret held_by_def)
  then show ?thesis using swap depthD [OF d, of h] by (intro depthI [OF d, of h]) (auto simp: acquire_swap_Ret)
next
  case (own h lk)
  then have "lk_cpu (spins m lk) = None" using assms(2) by (auto simp: mutex_inv_def)
  then have free: "lk \<notin> held_by h m" by (simp add: held_by_def)
  from \<open>lk_cpu (spins m lk) = None\<close> own have "held_by k m' = (if k = h then insert lk (held_by k m) else held_by k m)" for k
    by (auto simp: acquire_own_Ret held_by_def)
  then show ?thesis using own free depthD [OF d, of h] by (intro depthI [OF d, of h]) (auto simp: acquire_own_Ret)
next
  case (disown h lk)
  then have have_lk: "lk \<in> held_by h m" by (simp add: release_disown_Ret holding_def held_by_def)
  with disown have "held_by k m' = (if k = h then held_by k m - {lk} else held_by k m)" for k
    by (auto simp: release_disown_Ret held_by_def)
  moreover have "int (card (held_by h m - {lk})) + 1 = int (card (held_by h m))"
    using card_Suc_Diff1 [OF depthD(1) [OF d] have_lk] by simp
  ultimately show ?thesis
    using disown depthD [OF d, of h] by (intro depthI [OF d, of h]) (auto simp: release_disown_Ret)
next
  case (store h lk)
  then have "held_by k m' = held_by k m" for k by (auto simp: release_store_Ret held_by_def)
  then show ?thesis using store depthD [OF d, of h] by (intro depthI [OF d, of h]) (auto simp: release_store_Ret)
next
  case (leave h)
  then have "held_by k m' = held_by k m" for k by (auto simp: release_leave_Ret held_by_def)
  then show ?thesis using leave depthD [OF d, of h] by (intro depthI [OF d, of h]) (auto simp: release_leave_Ret)
next
  case (push h m1)
  then have "held_by k m' = held_by k m" for k by (auto simp: push_off_Ret upd_hart_def held_by_def)
  then show ?thesis using push depthD [OF d, of h] by (intro depthI [OF d, of h]) (auto simp: push_off_Ret upd_hart_def)
next
  case (pop h m1)
  then have "held_by k m' = held_by k m" for k by (auto simp: pop_off_Ret upd_hart_def held_by_def)
  then show ?thesis using pop depthD [OF d, of h] by (intro depthI [OF d, of h]) (auto simp: pop_off_Ret upd_hart_def)
next
  case (intr h b)
  then have "held_by k m' = held_by k m" for k by (auto simp: upd_hart_def held_by_def)
  then show ?thesis using intr depthD [OF d, of h] by (intro depthI [OF d, of h]) (auto simp: upd_hart_def)
qed

lemma hart_reach_inv:
  assumes "hart_reach m m'" and "fresh_machine m"
  shows "mutex_inv m' \<and> depth_inv m'"
  using assms
proof (induction rule: hart_reach.induct)
  case start
  then show ?case by (auto simp: fresh_machine_def mutex_inv_def depth_inv_def inside_def held_by_def)
next
  case (step m' m'')
  then show ?case using mutex_step depth_step by blast
qed

section \<open>The functions as a whole\<close>

text \<open>\<open>pop_off\<close> undoes a matching \<open>push_off\<close>: the interrupt flag is what it was before.\<close>

lemma push_off_pop_off:
  assumes "0 \<le> noff (harts m h)" and "0 < noff (harts m h) \<Longrightarrow> \<not> sie (harts m h)"
  shows "\<exists>b. andthen (push_off h) (pop_off h) m = Ret () (upd_hart h (\<lambda>c. c\<lparr>intena := b\<rparr>) m)"
  using assms by (cases "harts m h") (auto simp: hart_defs intro!: exI)

lemma spin_loop_free:
  "locked (spins m lk) = 0 \<Longrightarrow> spin_loop (Suc n) h lk m =
     Ret () (m\<lparr>spins := (spins m)(lk := (spins m lk)\<lparr>locked := 1\<rparr>), harts := (harts m)(h := (harts m h)\<lparr>hpc := Won lk\<rparr>)\<rparr>)"
  by (simp add: hart_defs)

lemma spin_loop_taken:
  "locked (spins m lk) \<noteq> 0 \<Longrightarrow> \<exists>m'. spin_loop n h lk m = Blocked m'"
  by (induction n arbitrary: m) (auto simp: hart_defs)

lemma mutex_invD:
  assumes "mutex_inv m"
  shows "h \<in> inside lk m \<Longrightarrow> h' \<in> inside lk m \<Longrightarrow> h = h'"
    and "locked (spins m lk) \<noteq> 0 \<longleftrightarrow> inside lk m \<noteq> {}"
  using assms unfolding mutex_inv_def by blast+

lemma holding_held_by:
  assumes "mutex_inv m"
  shows "holding h lk m \<longleftrightarrow> lk \<in> held_by h m"
proof -
  have "lk_cpu (spins m lk) = Some h \<Longrightarrow> locked (spins m lk) \<noteq> 0"
    using mutex_invD(2) [OF assms, of lk] by (auto simp: inside_def)
  then show ?thesis by (auto simp: holding_def held_by_def)
qed

lemma acquire_hart_free:
  assumes "locked (spins m lk) = 0" and "lk_cpu (spins m lk) = None"
  shows "\<exists>m'. acquire_hart (Suc n) h lk m = Ret () m' \<and>
    held_by h m' = insert lk (held_by h m) \<and> (\<forall>k. k \<noteq> h \<longrightarrow> held_by k m' = held_by k m)"
proof -
  obtain m1 where m1: "acquire_enter h lk m = Ret () m1" "spins m1 = spins m"
    using assms by (simp add: hart_defs holding_def)
  then show ?thesis
    using assms spin_loop_free [of m1 lk n h]
    by (auto simp: acquire_hart_def bind_apply acquire_own_def upd_spin_def upd_hart_def modify_apply held_by_def
        simp del: spin_loop.simps)
qed

lemma acquire_hart_taken:
  assumes "locked (spins m lk) \<noteq> 0" and "\<not> holding h lk m"
  shows "\<exists>m'. acquire_hart n h lk m = Blocked m'"
proof -
  obtain m1 where m1: "acquire_enter h lk m = Ret () m1" "spins m1 = spins m"
    using assms by (simp add: hart_defs holding_def)
  then obtain m2 where "spin_loop n h lk m1 = Blocked m2" using assms(1) spin_loop_taken [of m1 lk n h] by auto
  with m1 show ?thesis by (simp add: acquire_hart_def bind_apply)
qed

lemma acquire_refines:
  assumes "mutex_inv m" and "hpc (harts m h) = Outside"
  shows "case acquire_hart (Suc n) h lk m of
      Ret _ m' \<Rightarrow> acquire lk \<lparr>held = held_by h m\<rparr> = Ret () \<lparr>held = held_by h m'\<rparr> \<and>
        (\<forall>k. k \<noteq> h \<longrightarrow> held_by k m' = held_by k m)
    | Panic e \<Rightarrow> acquire lk \<lparr>held = held_by h m\<rparr> = Panic e
    | Blocked _ \<Rightarrow> \<exists>k. k \<noteq> h \<and> k \<in> inside lk m"
proof -
  note hold = holding_held_by [OF assms(1), of h lk]
  consider "holding h lk m" | "\<not> holding h lk m" "locked (spins m lk) \<noteq> 0"
    | "locked (spins m lk) = 0" by blast
  then show ?thesis
  proof cases
    case 1
    then show ?thesis using hold by (simp add: acquire_hart_def hart_defs holding_def)
  next
    case 2
    then obtain k where k: "k \<in> inside lk m" using mutex_invD(2) [OF assms(1), of lk] by blast
    have "k \<noteq> h" using 2 k assms(2) by (auto simp: inside_def holding_def)
    moreover obtain m' where "acquire_hart (Suc n) h lk m = Blocked m'" using acquire_hart_taken [OF 2(2,1)] ..
    ultimately show ?thesis using k by auto
  next
    case 3
    then have "inside lk m = {}" using mutex_invD(2) [OF assms(1), of lk] by blast
    then have "lk_cpu (spins m lk) = None" by (cases "lk_cpu (spins m lk)") (auto simp: inside_def)
    moreover from this have "lk \<notin> held_by h m" by (simp add: held_by_def)
    ultimately show ?thesis using acquire_hart_free [OF 3, of n h] by auto
  qed
qed

lemma release_refines:
  assumes "mutex_inv m" and "depth_inv m"
  shows "case release_hart h lk m of
      Ret _ m' \<Rightarrow> release lk \<lparr>held = held_by h m\<rparr> = Ret () \<lparr>held = held_by h m'\<rparr> \<and>
        (\<forall>k. k \<noteq> h \<longrightarrow> held_by k m' = held_by k m)
    | Panic e \<Rightarrow> release lk \<lparr>held = held_by h m\<rparr> = Panic e
    | Blocked _ \<Rightarrow> False"
proof (cases "holding h lk m")
  case False
  then show ?thesis using holding_held_by [OF assms(1)] by (simp add: release_hart_def hart_defs)
next
  case True
  then have lk: "lk \<in> held_by h m" using holding_held_by [OF assms(1)] by simp
  then have "0 < card (held_by h m)" using depthD(1) [OF assms(2), of h] by (auto simp: card_gt_0_iff)
  then have "1 \<le> noff (harts m h)" "\<not> sie (harts m h)" using depthD [OF assms(2), of h] by simp_all
  then show ?thesis using True lk by (auto simp: release_hart_def hart_defs held_by_def holding_def)
qed

section \<open>Properties\<close>

text \<open>
  C28: mutual exclusion. Whatever the interleaving of the harts, no two of them are at once between
  the swap that took a lock and the store that frees it; and a lock word is non-zero exactly as long
  as some hart is there, so that a lock nobody is inside of can be taken.
\<close>

theorem spinlock_mutex:
  assumes "fresh_machine m" and "hart_reach m m'"
  shows "(h \<in> inside lk m' \<longrightarrow> h' \<in> inside lk m' \<longrightarrow> h = h') \<and>
    (locked (spins m' lk) \<noteq> 0 \<longleftrightarrow> (\<exists>k. k \<in> inside lk m'))"
  using mutex_invD [of m'] hart_reach_inv [OF assms(2,1)] by blast

text \<open>A machine after initialisation, and after hart 2 has taken the lock of the page allocator.\<close>

definition boot_machine :: machine where
  "boot_machine = \<lparr>spins = (\<lambda>_. \<lparr>locked = 0, lk_name = [], lk_cpu = None\<rparr>),
     harts = (\<lambda>_. \<lparr>noff = 0, intena = False, sie = True, hpc = Outside, pushes = 0\<rparr>)\<rparr>"

definition busy_machine :: machine where
  "busy_machine = \<lparr>spins = (\<lambda>_. \<lparr>locked = 0, lk_name = [], lk_cpu = None\<rparr>)
       (KmemLock := \<lparr>locked = 1, lk_name = [], lk_cpu = Some 2\<rparr>),
     harts = (\<lambda>_. \<lparr>noff = 0, intena = False, sie = True, hpc = Outside, pushes = 0\<rparr>)
       (2 := \<lparr>noff = 1, intena = True, sie = False, hpc = Outside, pushes = 0\<rparr>)\<rparr>"

lemma boot_busy: "fresh_machine boot_machine" "hart_reach boot_machine busy_machine"
proof -
  show "fresh_machine boot_machine" by (simp add: fresh_machine_def boot_machine_def)
  obtain m1 where m1: "acquire_enter 2 KmemLock boot_machine = Ret () m1" "hpc (harts m1 2) = Spinning KmemLock"
    by (simp add: hart_defs boot_machine_def holding_def)
  obtain m2 where m2: "acquire_swap 2 KmemLock m1 = Ret 0 m2" "hpc (harts m2 2) = Won KmemLock"
    using m1 by (auto simp: acquire_enter_Ret acquire_swap_Ret boot_machine_def)
  have m3: "acquire_own 2 KmemLock m2 = Ret () busy_machine"
    using m1 m2 by (auto simp: acquire_enter_Ret acquire_swap_Ret acquire_own_Ret boot_machine_def busy_machine_def)
  have "hpc (harts boot_machine 2) = Outside" by (simp add: boot_machine_def)
  from hart_step.enter [OF this m1(1)] hart_step.swap [OF m1(2) m2(1)] hart_step.own [OF m2(2) m3]
  show "hart_reach boot_machine busy_machine" by (meson hart_reach.intros)
qed

theorem spinlock_mutex_witness:
  "(3 \<in> inside KmemLock busy_machine) = False \<and> (locked (spins busy_machine KmemLock) \<noteq> 0)"
proof -
  have "2 \<in> inside KmemLock busy_machine" by (simp add: inside_def busy_machine_def)
  then show ?thesis using spinlock_mutex [OF boot_busy, of 2 KmemLock 3] by auto
qed

text \<open>
  C29: a hart that holds a spinlock, that waits for one in the loop of \<open>acquire\<close>, that is anywhere else
  inside \<open>acquire\<close> or \<open>release\<close>, or that has called \<open>push_off\<close> and not yet \<open>pop_off\<close> has its interrupts off;
  and \<open>noff\<close> is the number of locks it holds and of calls of \<open>push_off\<close> that are open. So for a hart that is
  outside of these functions, the tests of \<open>sched\<close> that no other lock is held and that interrupts are off
  are tests on the set of held locks.
\<close>

theorem spinlock_interrupts_off:
  assumes "fresh_machine m" and "hart_reach m m'"
  shows "noff (harts m' h) = int (card {lk. holding h lk m'} + pushes (harts m' h)) + (if hpc (harts m' h) = Outside then 0 else 1) \<and>
    ((\<exists>lk. holding h lk m') \<or> (\<exists>lk. hpc (harts m' h) = Spinning lk) \<or> hpc (harts m' h) \<noteq> Outside \<or> 0 < pushes (harts m' h) \<longrightarrow>
      \<not> sie (harts m' h))"
proof -
  have i: "mutex_inv m'" "depth_inv m'" using hart_reach_inv [OF assms(2,1)] by simp_all
  have eq: "{lk. holding h lk m'} = held_by h m'" using holding_held_by [OF i(1)] by auto
  have "0 < noff (harts m' h)" if "holding h lk m'" for lk
  proof -
    have "0 < card (held_by h m')" using that eq depthD(1) [OF i(2), of h] by (auto simp: card_gt_0_iff)
    then show ?thesis using depthD(2) [OF i(2), of h] by simp
  qed
  moreover have "0 < noff (harts m' h)" if "hpc (harts m' h) \<noteq> Outside \<or> 0 < pushes (harts m' h)"
    using that depthD(2) [OF i(2), of h] by auto
  ultimately show ?thesis unfolding eq using depthD(2,3) [OF i(2), of h] by auto
qed

theorem spinlock_interrupts_off_witness: "noff (harts busy_machine 2) = 1 \<and> \<not> sie (harts busy_machine 2)"
proof -
  have "holding 2 KmemLock busy_machine" by (simp add: holding_def busy_machine_def)
  then have "\<not> sie (harts busy_machine 2)" using spinlock_interrupts_off [OF boot_busy, of 2] by blast
  then show ?thesis by (simp add: busy_machine_def)
qed

text \<open>
  C30: \<open>acquire\<close> and \<open>release\<close> on the lock words refine the operations on the set of locks that a
  hart holds: they return with the same change of that set, and panic with the same message. Only
  \<open>acquire\<close> may also spin without end, and only while another hart is inside the lock; when the
  lock is free, one iteration of its loop is enough. The locks of the other harts do not change.
\<close>

theorem spinlock_refines:
  assumes "mutex_inv m" and "depth_inv m" and "hpc (harts m h) = Outside"
  shows "(case acquire_hart (Suc n) h lk m of
      Ret _ m' \<Rightarrow> acquire lk \<lparr>held = held_by h m\<rparr> = Ret () \<lparr>held = held_by h m'\<rparr> \<and>
        (\<forall>k. k \<noteq> h \<longrightarrow> held_by k m' = held_by k m)
    | Panic e \<Rightarrow> acquire lk \<lparr>held = held_by h m\<rparr> = Panic e
    | Blocked _ \<Rightarrow> \<exists>k. k \<noteq> h \<and> k \<in> inside lk m) \<and>
   (case release_hart h lk m of
      Ret _ m' \<Rightarrow> release lk \<lparr>held = held_by h m\<rparr> = Ret () \<lparr>held = held_by h m'\<rparr> \<and>
        (\<forall>k. k \<noteq> h \<longrightarrow> held_by k m' = held_by k m)
    | Panic e \<Rightarrow> release lk \<lparr>held = held_by h m\<rparr> = Panic e
    | Blocked _ \<Rightarrow> False)"
  using acquire_refines [OF assms(1,3)] release_refines [OF assms(1,2)] by (rule conjI)

theorem spinlock_refines_witness:
  "\<exists>m'. acquire_hart 1 2 KmemLock boot_machine = Ret () m' \<and>
    acquire KmemLock \<lparr>held = held_by 2 boot_machine\<rparr> = Ret () \<lparr>held = held_by 2 m'\<rparr>"
proof -
  have "mutex_inv boot_machine" "depth_inv boot_machine"
    using hart_reach_inv [OF hart_reach.start boot_busy(1)] by simp_all
  moreover have "hpc (harts boot_machine 2) = Outside" by (simp add: boot_machine_def)
  moreover obtain m' where "acquire_hart 1 2 KmemLock boot_machine = Ret () m'"
    using acquire_hart_free [of boot_machine KmemLock 0 2] by (auto simp: boot_machine_def)
  ultimately show ?thesis using spinlock_refines [of boot_machine 2 KmemLock 0] by simp
qed

end
