(* ===== verification/Proc.thy ===== *)
theory Proc
  imports Vm
begin

text \<open>
  kernel/proc.h and the part of kernel/proc.c that needs no files: the process table, allocation and
  release of its slots, \<open>sched\<close>, \<open>yield\<close>, \<open>sleep\<close> and \<open>wakeup\<close>, \<open>wait\<close> and \<open>waitx\<close>, \<open>kill\<close>,
  \<open>setpriority\<close>, \<open>growproc\<close> and the copies to user or kernel addresses. The schedulers are in
  theory Scheduler.

  A process is named by its index in \<open>proc[]\<close>. The state is seen from one hart: \<open>cpu_proc\<close> is the
  field \<open>proc\<close> of its \<open>struct cpu\<close>. A call of \<open>swtch\<close> that leaves the process ends in \<open>Blocked\<close>;
  the code that runs when the process is switched to again is a definition of its own, with the
  suffix \<open>_resume\<close>.
\<close>

section \<open>Data\<close>

datatype reg = RA | SP | GP | TP | T0 | T1 | T2 | T3 | T4 | T5 | T6
  | S0 | S1 | S2 | S3 | S4 | S5 | S6 | S7 | S8 | S9 | S10 | S11
  | A0 | A1 | A2 | A3 | A4 | A5 | A6 | A7

record trapframe =
  kernel_satp :: u64
  kernel_sp :: u64
  kernel_trap :: u64
  epc :: u64
  kernel_hartid :: u64
  tf_reg :: "reg \<Rightarrow> u64"

text \<open>The saved registers \<open>ra\<close>, \<open>sp\<close> and \<open>s0\<close> to \<open>s11\<close> of a kernel thread.\<close>

record ctxt =
  ctx_ra :: u64
  ctx_sp :: u64
  ctx_s :: "nat \<Rightarrow> u64"

datatype procstate = UNUSED | USED | SLEEPING | RUNNABLE | RUNNING | ZOMBIE

record proc =
  p_state :: procstate
  p_chan :: chan
  p_killed :: i32
  p_xstate :: i32
  p_pid :: i32
  p_parent :: "nat option"
  p_kstack :: u64
  p_sz :: u64
  p_pagetable :: u64
  p_trapframe :: u64
  p_context :: ctxt
  p_ofile :: "nat \<Rightarrow> nat option"
  p_cwd :: "nat option"
  p_name :: bytes
  p_rtime :: u32
  p_ctime :: u32
  p_etime :: u32
  p_stime :: u32
  p_ntime :: u32
  p_mask :: u32
  p_priority :: i32
  p_queue :: i32
  p_last_qtime :: i32
  p_qticks :: "nat \<Rightarrow> i32"

text \<open>
  \<open>tframes\<close> gives the trap frame that is stored in a physical page; \<open>trampoline\<close> and \<open>forkret_addr\<close>
  are the addresses of code.
\<close>

record kproc = vmem +
  ptable :: "nat \<Rightarrow> proc"
  initproc :: "nat option"
  nextpid :: i32
  cpu_proc :: "nat option"
  ticks :: u32
  tframes :: "u64 \<Rightarrow> trapframe"
  trampoline :: u64
  forkret_addr :: u64

definition upd :: "nat \<Rightarrow> (proc \<Rightarrow> proc) \<Rightarrow> ('z kproc_scheme, unit) prog" where
  "upd p f = modify (\<lambda>s. s\<lparr>ptable := (ptable s)(p := f (ptable s p))\<rparr>)"

definition get_proc :: "nat \<Rightarrow> ('z kproc_scheme, proc) prog" where
  "get_proc p = gets (\<lambda>s. ptable s p)"

text \<open>
  \<open>myproc\<close> may be null; code that dereferences it then takes a page fault in the kernel, which
  ends in the panic of \<open>kerneltrap\<close>.
\<close>

definition myproc :: "('z kproc_scheme, nat option) prog" where
  "myproc = gets cpu_proc"

definition curproc :: "('z kproc_scheme, nat) prog" where
  "curproc = bind myproc (\<lambda>r. case r of None \<Rightarrow> panic ''kerneltrap'' | Some p \<Rightarrow> return p)"

section \<open>Slots of the table\<close>

definition procinit :: "('z kproc_scheme, unit) prog" where
  "procinit = for_each [0..<NPROC] (\<lambda>p. upd p (\<lambda>q. q\<lparr>p_kstack := KSTACK p\<rparr>))"

definition allocpid :: "('z kproc_scheme, i32) prog" where
  "allocpid = with_lock PidLock
     (bind (gets nextpid) (\<lambda>pid. andthen (modify (\<lambda>s. s\<lparr>nextpid := nextpid s + 1\<rparr>)) (return pid)))"

definition proc_freepagetable :: "u64 \<Rightarrow> u64 \<Rightarrow> ('z kproc_scheme, unit) prog" where
  "proc_freepagetable pagetable sz =
     andthen (uvmunmap pagetable TRAMPOLINE 1 False)
     (andthen (uvmunmap pagetable TRAPFRAME 1 False)
     (uvmfree pagetable sz))"

definition proc_pagetable :: "nat \<Rightarrow> ('z kproc_scheme, u64) prog" where
  "proc_pagetable p =
     bind uvmcreate (\<lambda>pagetable.
     if pagetable = 0 then return 0
     else bind (gets trampoline) (\<lambda>tr.
       bind (mappages pagetable TRAMPOLINE PGSIZE tr (PTE_R OR PTE_X)) (\<lambda>r.
       if sint r < 0 then andthen (uvmfree pagetable 0) (return 0)
       else bind (get_proc p) (\<lambda>q.
         bind (mappages pagetable TRAPFRAME PGSIZE (p_trapframe q) (PTE_R OR PTE_W)) (\<lambda>r.
         if sint r < 0 then
           andthen (uvmunmap pagetable TRAMPOLINE 1 False) (andthen (uvmfree pagetable 0) (return 0))
         else return pagetable)))))"

definition freeproc :: "nat \<Rightarrow> ('z kproc_scheme, unit) prog" where
  "freeproc p =
     bind (get_proc p) (\<lambda>q.
     andthen (onlyif (p_trapframe q \<noteq> 0) (kfree (p_trapframe q)))
     (andthen (upd p (\<lambda>q. q\<lparr>p_trapframe := 0\<rparr>))
     (andthen (onlyif (p_pagetable q \<noteq> 0) (proc_freepagetable (p_pagetable q) (p_sz q)))
     (upd p (\<lambda>q. q\<lparr>p_pagetable := 0, p_sz := 0, p_pid := 0, p_parent := None,
        p_name := (p_name q)(0 := 0), p_chan := NoChan, p_killed := 0, p_xstate := 0,
        p_state := UNUSED\<rparr>)))))"

text \<open>The search of \<open>allocproc\<close>: it ends with the lock of the unused slot held.\<close>

primrec allocproc_scan :: "nat list \<Rightarrow> ('z kproc_scheme, nat option) prog" where
  "allocproc_scan [] = return None"
| "allocproc_scan (p # ps) =
     andthen (acquire (ProcLock p))
     (bind (get_proc p) (\<lambda>q.
      if p_state q = UNUSED then return (Some p)
      else andthen (release (ProcLock p)) (allocproc_scan ps)))"

definition allocproc :: "('z kproc_scheme, nat option) prog" where
  "allocproc =
     bind (allocproc_scan [0..<NPROC]) (\<lambda>r. case r of None \<Rightarrow> return None | Some p \<Rightarrow>
     bind allocpid (\<lambda>pid.
     andthen (upd p (\<lambda>q. q\<lparr>p_pid := pid, p_state := USED\<rparr>))
     (bind kalloc (\<lambda>tf.
      andthen (upd p (\<lambda>q. q\<lparr>p_trapframe := tf\<rparr>))
      (if tf = 0 then andthen (freeproc p) (andthen (release (ProcLock p)) (return None))
       else bind (proc_pagetable p) (\<lambda>pt.
         andthen (upd p (\<lambda>q. q\<lparr>p_pagetable := pt\<rparr>))
         (if pt = 0 then andthen (freeproc p) (andthen (release (ProcLock p)) (return None))
          else bind (gets (\<lambda>s. (ticks s, forkret_addr s))) (\<lambda>(now, forkret).
            andthen (upd p (\<lambda>q. q\<lparr>
               p_context := \<lparr>ctx_ra = forkret, ctx_sp = p_kstack q + PGSIZE, ctx_s = (\<lambda>_. 0)\<rparr>,
               p_rtime := 0, p_etime := -1, p_ctime := now, p_ntime := 0, p_priority := 60,
               p_last_qtime := now, p_queue := 0, p_qticks := (\<lambda>x. if x < NPQ then 0 else p_qticks q x)\<rparr>))
            (return (Some p))))))))))"

definition growproc :: "i32 \<Rightarrow> ('z kproc_scheme, i32) prog" where
  "growproc n =
     bind curproc (\<lambda>p.
     bind (get_proc p) (\<lambda>q.
     let sz = ucast (p_sz q) :: u32 in
     if sint n > 0 then
       bind (uvmalloc (p_pagetable q) (ucast sz) (ucast (sz + n))) (\<lambda>r.
       if (ucast r :: u32) = 0 then return (-1)
       else andthen (upd p (\<lambda>q. q\<lparr>p_sz := ucast (ucast r :: u32)\<rparr>)) (return 0))
     else if sint n < 0 then
       bind (uvmdealloc (p_pagetable q) (ucast sz) (ucast (sz + n))) (\<lambda>r.
       andthen (upd p (\<lambda>q. q\<lparr>p_sz := ucast (ucast r :: u32)\<rparr>)) (return 0))
     else andthen (upd p (\<lambda>q. q\<lparr>p_sz := ucast sz\<rparr>)) (return 0)))"

section \<open>Giving up the hart, sleeping and waking\<close>

text \<open>
  The checks of \<open>sched\<close>. \<open>noff\<close> counts the spinlocks the hart holds, and interrupts are off as
  long as it holds one; theory Spinlock shows both.
\<close>

definition sched :: "('z kproc_scheme, 'a) prog" where
  "sched =
     bind curproc (\<lambda>p.
     bind (gets held) (\<lambda>h.
     bind (get_proc p) (\<lambda>q.
     andthen (panic_if (ProcLock p \<notin> h) ''sched p->lock'')
     (andthen (panic_if (card h \<noteq> 1) ''sched locks'')
     (andthen (panic_if (p_state q = RUNNING) ''sched running'')
     (\<lambda>s. Blocked s))))))"

definition yield :: "('z kproc_scheme, unit) prog" where
  "yield =
     bind curproc (\<lambda>p.
     andthen (acquire (ProcLock p))
     (andthen (upd p (\<lambda>q. q\<lparr>p_state := RUNNABLE\<rparr>)) sched))"

definition yield_resume :: "nat \<Rightarrow> ('z kproc_scheme, unit) prog" where
  "yield_resume p = release (ProcLock p)"

definition sleep :: "chan \<Rightarrow> lock \<Rightarrow> ('z kproc_scheme, 'a) prog" where
  "sleep c lk =
     bind curproc (\<lambda>p.
     andthen (acquire (ProcLock p))
     (andthen (release lk)
     (bind (gets ticks) (\<lambda>now.
     andthen (upd p (\<lambda>q. q\<lparr>p_chan := c, p_state := SLEEPING, p_stime := now\<rparr>))
     sched))))"

definition sleep_resume :: "nat \<Rightarrow> lock \<Rightarrow> ('z kproc_scheme, unit) prog" where
  "sleep_resume p lk =
     andthen (upd p (\<lambda>q. q\<lparr>p_chan := NoChan\<rparr>))
     (andthen (release (ProcLock p)) (acquire lk))"

definition wakeup1 :: "chan \<Rightarrow> nat \<Rightarrow> ('z kproc_scheme, unit) prog" where
  "wakeup1 c p =
     bind myproc (\<lambda>me.
     onlyif (me \<noteq> Some p)
       (andthen (acquire (ProcLock p))
       (bind (gets (\<lambda>s. (ptable s p, ticks s))) (\<lambda>(q, now).
        andthen (onlyif (p_state q = SLEEPING \<and> p_chan q = c)
          (upd p (\<lambda>q. q\<lparr>p_state := RUNNABLE, p_stime := now - p_stime q\<rparr>)))
        (release (ProcLock p))))))"

definition wakeup :: "chan \<Rightarrow> ('z kproc_scheme, unit) prog" where
  "wakeup c = for_each [0..<NPROC] (wakeup1 c)"

primrec kill_scan :: "i32 \<Rightarrow> nat list \<Rightarrow> ('z kproc_scheme, i32) prog" where
  "kill_scan pid [] = return (-1)"
| "kill_scan pid (p # ps) =
     andthen (acquire (ProcLock p))
     (bind (get_proc p) (\<lambda>q.
      if p_pid q = pid then
        andthen (upd p (\<lambda>q. q\<lparr>p_killed := 1\<rparr>))
        (andthen (onlyif (p_state q = SLEEPING) (upd p (\<lambda>q. q\<lparr>p_state := RUNNABLE\<rparr>)))
        (andthen (release (ProcLock p)) (return 0)))
      else andthen (release (ProcLock p)) (kill_scan pid ps)))"

definition kill :: "i32 \<Rightarrow> ('z kproc_scheme, i32) prog" where
  "kill pid = kill_scan pid [0..<NPROC]"

definition reparent :: "nat \<Rightarrow> ('z kproc_scheme, unit) prog" where
  "reparent p =
     for_each [0..<NPROC] (\<lambda>pp.
       bind (get_proc pp) (\<lambda>q.
       onlyif (p_parent q = Some p)
         (bind (gets initproc) (\<lambda>ini.
          andthen (upd pp (\<lambda>q. q\<lparr>p_parent := ini\<rparr>))
          (wakeup (case ini of None \<Rightarrow> NoChan | Some i \<Rightarrow> ChanProc i))))))"

text \<open>The end of \<open>exit\<close>, from \<open>acquire(&wait_lock)\<close> on; it never returns.\<close>

definition exit_finish :: "nat \<Rightarrow> i32 \<Rightarrow> ('z kproc_scheme, 'a) prog" where
  "exit_finish p status =
     andthen (acquire WaitLock)
     (andthen (reparent p)
     (bind (get_proc p) (\<lambda>q.
     andthen (wakeup (case p_parent q of None \<Rightarrow> NoChan | Some pp \<Rightarrow> ChanProc pp))
     (andthen (acquire (ProcLock p))
     (bind (gets ticks) (\<lambda>now.
     andthen (upd p (\<lambda>q. q\<lparr>p_xstate := status, p_state := ZOMBIE, p_etime := now\<rparr>))
     (andthen (release WaitLock) sched)))))))"

section \<open>Waiting for children\<close>

text \<open>The four bytes of an \<open>int\<close>.\<close>

definition bytes32 :: "u32 \<Rightarrow> bytes" where
  "bytes32 v = (\<lambda>i. ucast (drop_bit (8 * i) v))"

text \<open>
  The scan of \<open>wait\<close> and of \<open>waitx\<close> over the table. The result is \<open>Inl havekids\<close> when no child has
  exited, with \<open>wait_lock\<close> still held. Otherwise it is \<open>Inr\<close> of the return value and, for the
  out-parameters of \<open>waitx\<close>, the times of the child that was found.
\<close>

primrec wait_scan :: "nat \<Rightarrow> u64 \<Rightarrow> bool \<Rightarrow> nat list
    \<Rightarrow> ('z kproc_scheme, bool + i32 \<times> u32 \<times> u32) prog" where
  "wait_scan p addr havekids [] = return (Inl havekids)"
| "wait_scan p addr havekids (np # nps) =
     bind (get_proc np) (\<lambda>q.
     if p_parent q = Some p then
       andthen (acquire (ProcLock np))
       (bind (get_proc np) (\<lambda>q.
        if p_state q = ZOMBIE then
          let ts = (p_rtime q, p_etime q - p_ctime q - p_rtime q) in
          bind (get_proc p) (\<lambda>me.
          bind (if addr \<noteq> 0 then copyout (p_pagetable me) addr (bytes32 (p_xstate q)) 4 else return 0) (\<lambda>r.
          if sint r < 0 then
            andthen (release (ProcLock np)) (andthen (release WaitLock) (return (Inr (-1, ts))))
          else
            andthen (freeproc np) (andthen (release (ProcLock np))
            (andthen (release WaitLock) (return (Inr (p_pid q, ts)))))))
        else andthen (release (ProcLock np)) (wait_scan p addr True nps)))
     else wait_scan p addr havekids nps)"

text \<open>
  One round of the loop of \<open>waitx\<close>. Its second result is what \<open>*rtime\<close> and \<open>*wtime\<close> were set to,
  if they were set.
\<close>

definition waitx_round :: "nat \<Rightarrow> u64 \<Rightarrow> ('z kproc_scheme, i32 \<times> (u32 \<times> u32) option) prog" where
  "waitx_round p addr =
     bind (wait_scan p addr False [0..<NPROC]) (\<lambda>r. case r of
       Inr (pid, ts) \<Rightarrow> return (pid, Some ts)
     | Inl havekids \<Rightarrow>
         bind (get_proc p) (\<lambda>q.
         if \<not> havekids \<or> p_killed q \<noteq> 0 then andthen (release WaitLock) (return (-1, None))
         else sleep (ChanProc p) WaitLock))"

definition waitx :: "u64 \<Rightarrow> ('z kproc_scheme, i32 \<times> (u32 \<times> u32) option) prog" where
  "waitx addr = bind curproc (\<lambda>p. andthen (acquire WaitLock) (waitx_round p addr))"

definition waitx_resume :: "nat \<Rightarrow> u64 \<Rightarrow> ('z kproc_scheme, i32 \<times> (u32 \<times> u32) option) prog" where
  "waitx_resume p addr = andthen (sleep_resume p WaitLock) (waitx_round p addr)"

definition wait_round :: "nat \<Rightarrow> u64 \<Rightarrow> ('z kproc_scheme, i32) prog" where
  "wait_round p addr =
     bind (wait_scan p addr False [0..<NPROC]) (\<lambda>r. case r of
       Inr (pid, _) \<Rightarrow> return pid
     | Inl havekids \<Rightarrow>
         bind (get_proc p) (\<lambda>q.
         if \<not> havekids \<or> p_killed q \<noteq> 0 then andthen (release WaitLock) (return (-1))
         else sleep (ChanProc p) WaitLock))"

definition wait :: "u64 \<Rightarrow> ('z kproc_scheme, i32) prog" where
  "wait addr = bind curproc (\<lambda>p. andthen (acquire WaitLock) (wait_round p addr))"

definition wait_resume :: "nat \<Rightarrow> u64 \<Rightarrow> ('z kproc_scheme, i32) prog" where
  "wait_resume p addr = andthen (sleep_resume p WaitLock) (wait_round p addr)"

section \<open>Times and priorities\<close>

definition update_time :: "('z kproc_scheme, unit) prog" where
  "update_time =
     for_each [0..<NPROC] (\<lambda>p. with_lock (ProcLock p)
       (bind (get_proc p) (\<lambda>q.
        onlyif (p_state q = RUNNING) (upd p (\<lambda>q. q\<lparr>p_rtime := p_rtime q + 1\<rparr>)))))"

text \<open>
  \<open>niceness\<close> and \<open>dp\<close>, computed as in the PBS scheduler, in \<open>setpriority\<close> and in \<open>procdump\<close>: the
  quotient is one of unsigned ints, the difference one of ints.
\<close>

definition niceness :: "proc \<Rightarrow> i32" where
  "niceness q = (if p_rtime q + p_stime q \<noteq> 0 then p_stime q * 10 div (p_rtime q + p_stime q) else 5)"

definition dynamic_priority :: "proc \<Rightarrow> i32" where
  "dynamic_priority q =
     (let dp = p_priority q - niceness q + 5;
          dp = (if sint dp > 100 then 100 else dp)
      in if sint dp < 0 then 0 else dp)"

text \<open>
  \<open>setpriority\<close> yields inside its loop, after the assignments; \<open>setpriority_resume\<close> is what the
  caller does when it runs again.
\<close>

primrec setpriority_scan :: "i32 \<Rightarrow> i32 \<Rightarrow> nat list \<Rightarrow> ('z kproc_scheme, i32) prog" where
  "setpriority_scan prio pid [] = return (-1)"
| "setpriority_scan prio pid (p # ps) =
     bind (get_proc p) (\<lambda>q.
     if p_pid q = pid then
       andthen (upd p (\<lambda>q. q\<lparr>p_rtime := 0, p_stime := 0, p_priority := prio\<rparr>))
       (bind (get_proc p) (\<lambda>q'.
        andthen (onlyif (sint (dynamic_priority q') < sint (dynamic_priority q)) yield)
        (return (p_priority q))))
     else setpriority_scan prio pid ps)"

definition setpriority :: "i32 \<Rightarrow> i32 \<Rightarrow> ('z kproc_scheme, i32) prog" where
  "setpriority prio pid = setpriority_scan prio pid [0..<NPROC]"

definition setpriority_resume :: "nat \<Rightarrow> i32 \<Rightarrow> ('z kproc_scheme, i32) prog" where
  "setpriority_resume me old_priority = andthen (yield_resume me) (return old_priority)"

section \<open>Copies to user or kernel addresses\<close>

definition either_copyout :: "bool \<Rightarrow> u64 \<Rightarrow> bytes \<Rightarrow> u64 \<Rightarrow> ('z kproc_scheme, i32) prog" where
  "either_copyout user_dst dst src len =
     (if user_dst then bind curproc (\<lambda>p. bind (get_proc p) (\<lambda>q. copyout (p_pagetable q) dst src len))
      else andthen (modify (\<lambda>s. s\<lparr>pmem := mem_write (pmem s) dst src (unat len)\<rparr>)) (return 0))"

definition either_copyin :: "bytes \<Rightarrow> bool \<Rightarrow> u64 \<Rightarrow> u64 \<Rightarrow> ('z kproc_scheme, i32 \<times> bytes) prog" where
  "either_copyin dst user_src src len =
     (if user_src then bind curproc (\<lambda>p. bind (get_proc p) (\<lambda>q. copyin (p_pagetable q) dst src len))
      else bind (gets pmem) (\<lambda>m.
        return (0, \<lambda>i. if i < unat len then m (src + of_nat i) else dst i)))"

end
