(* ===== verification/Scheduler.thy ===== *)
theory Scheduler
  imports Proc
begin

text \<open>
  The function \<open>scheduler\<close> of kernel/proc.c in its four versions, which the Makefile chooses with
  the macros RR, FCFS, PBS and MLFQ. Each version is a pass over the process table that is repeated
  forever. What a process does from the \<open>swtch\<close> that starts it to the \<open>swtch\<close> that comes back is
  the argument \<open>run\<close> of the passes.
\<close>

section \<open>The four versions\<close>

text \<open>\<open>c->proc = p; swtch(&c->context, &p->context); c->proc = 0;\<close>\<close>

definition switch_to :: "(nat \<Rightarrow> ('z kproc_scheme, unit) prog) \<Rightarrow> nat \<Rightarrow> ('z kproc_scheme, unit) prog" where
  "switch_to run p =
     andthen (modify (\<lambda>s. s\<lparr>cpu_proc := Some p\<rparr>))
     (andthen (run p) (modify (\<lambda>s. s\<lparr>cpu_proc := None\<rparr>)))"

definition rr_visit :: "(nat \<Rightarrow> ('z kproc_scheme, unit) prog) \<Rightarrow> nat \<Rightarrow> ('z kproc_scheme, unit) prog" where
  "rr_visit run p =
     andthen (acquire (ProcLock p))
     (bind (get_proc p) (\<lambda>q.
      andthen (onlyif (p_state q = RUNNABLE)
        (andthen (upd p (\<lambda>q. q\<lparr>p_state := RUNNING\<rparr>)) (switch_to run p)))
      (release (ProcLock p))))"

definition rr_pass :: "(nat \<Rightarrow> ('z kproc_scheme, unit) prog) \<Rightarrow> ('z kproc_scheme, unit) prog" where
  "rr_pass run = for_each [0..<NPROC] (rr_visit run)"

primrec fcfs_scan :: "nat list \<Rightarrow> nat option \<Rightarrow> ('z kproc_scheme, nat option) prog" where
  "fcfs_scan [] selectedProc = return selectedProc"
| "fcfs_scan (p # ps) selectedProc =
     andthen (acquire (ProcLock p))
     (bind (gets ptable) (\<lambda>tab.
      let sel = (if p_state (tab p) = RUNNABLE then
                   (case selectedProc of None \<Rightarrow> Some p | Some q \<Rightarrow>
                      if p_ctime (tab p) < p_ctime (tab q) then Some p else selectedProc)
                 else selectedProc)
      in andthen (release (ProcLock p)) (fcfs_scan ps sel)))"

definition fcfs_dispatch :: "(nat \<Rightarrow> ('z kproc_scheme, unit) prog) \<Rightarrow> nat \<Rightarrow> ('z kproc_scheme, unit) prog" where
  "fcfs_dispatch run p =
     andthen (acquire (ProcLock p))
     (bind (get_proc p) (\<lambda>q.
      andthen (onlyif (p_state q = RUNNABLE)
        (andthen (upd p (\<lambda>q. q\<lparr>p_state := RUNNING\<rparr>)) (switch_to run p)))
      (release (ProcLock p))))"

definition fcfs_pass :: "(nat \<Rightarrow> ('z kproc_scheme, unit) prog) \<Rightarrow> ('z kproc_scheme, unit) prog" where
  "fcfs_pass run =
     bind (fcfs_scan [0..<NPROC] None) (\<lambda>sel. case sel of None \<Rightarrow> return () | Some p \<Rightarrow> fcfs_dispatch run p)"

text \<open>The scan of PBS carries \<open>max_dp\<close> along with the process that is selected so far.\<close>

primrec pbs_scan :: "nat list \<Rightarrow> i32 \<Rightarrow> nat option \<Rightarrow> ('z kproc_scheme, nat option) prog" where
  "pbs_scan [] max_dp selectedProc = return selectedProc"
| "pbs_scan (p # ps) max_dp selectedProc =
     andthen (acquire (ProcLock p))
     (bind (gets ptable) (\<lambda>tab.
      if p_state (tab p) = RUNNABLE then
        let dp = dynamic_priority (tab p) in
        if sint dp < sint max_dp then andthen (release (ProcLock p)) (pbs_scan ps dp (Some p))
        else if dp = max_dp then
          (case selectedProc of None \<Rightarrow> panic ''kerneltrap'' | Some q \<Rightarrow>
             let sel = (if p_ntime (tab p) < p_ntime (tab q) then Some p
                        else if p_ntime (tab p) = p_ntime (tab q) \<and> p_ctime (tab p) < p_ctime (tab q)
                        then Some p else selectedProc)
             in andthen (release (ProcLock p)) (pbs_scan ps max_dp sel))
        else andthen (release (ProcLock p)) (pbs_scan ps max_dp selectedProc)
      else andthen (release (ProcLock p)) (pbs_scan ps max_dp selectedProc)))"

definition pbs_dispatch :: "(nat \<Rightarrow> ('z kproc_scheme, unit) prog) \<Rightarrow> nat \<Rightarrow> ('z kproc_scheme, unit) prog" where
  "pbs_dispatch run p =
     andthen (acquire (ProcLock p))
     (bind (get_proc p) (\<lambda>q.
      andthen (onlyif (p_state q = RUNNABLE)
        (andthen (upd p (\<lambda>q. q\<lparr>p_state := RUNNING, p_ntime := p_ntime q + 1\<rparr>)) (switch_to run p)))
      (release (ProcLock p))))"

definition pbs_pass :: "(nat \<Rightarrow> ('z kproc_scheme, unit) prog) \<Rightarrow> ('z kproc_scheme, unit) prog" where
  "pbs_pass run =
     bind (pbs_scan [0..<NPROC] 101 None) (\<lambda>sel. case sel of None \<Rightarrow> return () | Some p \<Rightarrow> pbs_dispatch run p)"

text \<open>\<open>ticks - p->last_qtime\<close> is a difference of unsigned ints.\<close>

definition mlfq_age1 :: "nat \<Rightarrow> ('z kproc_scheme, unit) prog" where
  "mlfq_age1 p = with_lock (ProcLock p)
     (bind (gets (\<lambda>s. (ptable s p, ticks s))) (\<lambda>(q, now).
      onlyif (p_state q = RUNNABLE \<and> p_queue q \<noteq> 0 \<and> now - p_last_qtime q > MAXAGE)
        (upd p (\<lambda>q. q\<lparr>p_queue := p_queue q - 1, p_last_qtime := now\<rparr>))))"

definition mlfq_ageing :: "('z kproc_scheme, unit) prog" where
  "mlfq_ageing = for_each [0..<NPROC] mlfq_age1"

primrec mlfq_scan :: "nat list \<Rightarrow> nat option \<Rightarrow> ('z kproc_scheme, nat option) prog" where
  "mlfq_scan [] selectedProc = return selectedProc"
| "mlfq_scan (p # ps) selectedProc =
     andthen (acquire (ProcLock p))
     (bind (gets ptable) (\<lambda>tab.
      let sel = (if p_state (tab p) = RUNNABLE then
                   (case selectedProc of None \<Rightarrow> Some p | Some q \<Rightarrow>
                      if sint (p_queue (tab p)) < sint (p_queue (tab q)) \<or>
                         p_queue (tab p) = p_queue (tab q) \<and>
                         sint (p_last_qtime (tab p)) < sint (p_last_qtime (tab q))
                      then Some p else selectedProc)
                 else selectedProc)
      in andthen (release (ProcLock p)) (mlfq_scan ps sel)))"

definition mlfq_dispatch :: "(nat \<Rightarrow> ('z kproc_scheme, unit) prog) \<Rightarrow> nat \<Rightarrow> ('z kproc_scheme, unit) prog" where
  "mlfq_dispatch run p =
     andthen (acquire (ProcLock p))
     (bind (gets (\<lambda>s. (ptable s p, ticks s))) (\<lambda>(q, now).
      andthen (onlyif (p_state q = RUNNABLE)
        (andthen (upd p (\<lambda>q. q\<lparr>p_last_qtime := now,
            p_qticks := (p_qticks q)(unat (p_queue q) := p_qticks q (unat (p_queue q)) + push_bit (unat (p_queue q)) 1),
            p_ntime := p_ntime q + 1, p_state := RUNNING\<rparr>))
        (switch_to run p)))
      (release (ProcLock p))))"

definition mlfq_pass :: "(nat \<Rightarrow> ('z kproc_scheme, unit) prog) \<Rightarrow> ('z kproc_scheme, unit) prog" where
  "mlfq_pass run =
     andthen mlfq_ageing
     (bind (mlfq_scan [0..<NPROC] None) (\<lambda>sel. case sel of None \<Rightarrow> return () | Some p \<Rightarrow> mlfq_dispatch run p))"

text \<open>The first \<open>n\<close> rounds of \<open>scheduler\<close>; \<open>pass\<close> is one of the four passes above.\<close>

primrec scheduler_rounds :: "nat \<Rightarrow> ('z kproc_scheme, unit) prog \<Rightarrow> ('z kproc_scheme, unit) prog" where
  "scheduler_rounds 0 pass = return ()"
| "scheduler_rounds (Suc n) pass = andthen pass (scheduler_rounds n pass)"

definition scheduler :: "nat \<Rightarrow> ('z kproc_scheme, unit) prog \<Rightarrow> ('z kproc_scheme, unit) prog" where
  "scheduler n pass = andthen (modify (\<lambda>s. s\<lparr>cpu_proc := None\<rparr>)) (scheduler_rounds n pass)"

section \<open>Choosing the best runnable process\<close>

text \<open>
  FCFS, PBS and MLFQ choose in the same way: they go through the table once and keep the first
  process that no later one is better than. \<open>best\<close> is that search for an arbitrary comparison.
\<close>

definition pick :: "(proc \<Rightarrow> proc \<Rightarrow> bool) \<Rightarrow> (nat \<Rightarrow> proc) \<Rightarrow> nat \<Rightarrow> nat option \<Rightarrow> nat option" where
  "pick better tab p sel =
     (if p_state (tab p) = RUNNABLE then
        (case sel of None \<Rightarrow> Some p | Some q \<Rightarrow> if better (tab p) (tab q) then Some p else sel)
      else sel)"

definition best :: "(proc \<Rightarrow> proc \<Rightarrow> bool) \<Rightarrow> (nat \<Rightarrow> proc) \<Rightarrow> nat list \<Rightarrow> nat option" where
  "best better tab ps = fold (pick better tab) ps None"

text \<open>
  \<open>chosen better tab ps r\<close>: \<open>r\<close> is the right choice from the processes \<open>ps\<close>, which are in table order.
  Nothing is chosen only if nothing is runnable; otherwise the choice is runnable, no runnable
  process is better, and the runnable ones before it in the table are all worse.
\<close>

definition chosen :: "(proc \<Rightarrow> proc \<Rightarrow> bool) \<Rightarrow> (nat \<Rightarrow> proc) \<Rightarrow> nat list \<Rightarrow> nat option \<Rightarrow> bool" where
  "chosen better tab ps r = (case r of
     None \<Rightarrow> \<forall>p \<in> set ps. p_state (tab p) \<noteq> RUNNABLE
   | Some q \<Rightarrow> p_state (tab q) = RUNNABLE \<and>
       (\<forall>p \<in> set ps. p_state (tab p) = RUNNABLE \<longrightarrow> \<not> better (tab p) (tab q)) \<and>
       (\<exists>as bs. ps = as @ q # bs \<and> (\<forall>p \<in> set as. p_state (tab p) = RUNNABLE \<longrightarrow> better (tab q) (tab p))))"

locale ranking =
  fixes better :: "proc \<Rightarrow> proc \<Rightarrow> bool"
  assumes better_asym: "better a b \<Longrightarrow> \<not> better b a"
    and better_trans: "better a b \<Longrightarrow> better b c \<Longrightarrow> better a c"
    and worse_trans: "\<not> better a b \<Longrightarrow> \<not> better b c \<Longrightarrow> \<not> better a c"
begin

lemma chosen_last:
  assumes "p_state (tab p) = RUNNABLE"
    and "\<And>x. x \<in> set ps \<Longrightarrow> p_state (tab x) = RUNNABLE \<Longrightarrow> better (tab p) (tab x)"
  shows "chosen better tab (ps @ [p]) (Some p)"
proof -
  have "\<exists>as bs. ps @ [p] = as @ p # bs \<and> (\<forall>x \<in> set as. p_state (tab x) = RUNNABLE \<longrightarrow> better (tab p) (tab x))"
    using assms(2) by blast
  then show ?thesis using assms better_asym by (auto simp: chosen_def)
qed

lemma chosen_keep:
  assumes c: "chosen better tab ps (Some q)" and "p_state (tab p) = RUNNABLE \<Longrightarrow> \<not> better (tab p) (tab q)"
  shows "chosen better tab (ps @ [p]) (Some q)"
proof -
  from c obtain as bs where ps: "ps = as @ q # bs"
    "\<forall>x \<in> set as. p_state (tab x) = RUNNABLE \<longrightarrow> better (tab q) (tab x)"
    by (auto simp: chosen_def)
  then have "ps @ [p] = as @ q # (bs @ [p])" by simp
  with ps(2) have "\<exists>as bs. ps @ [p] = as @ q # bs \<and>
      (\<forall>x \<in> set as. p_state (tab x) = RUNNABLE \<longrightarrow> better (tab q) (tab x))" by blast
  with c assms(2) show ?thesis by (simp add: chosen_def)
qed

lemma chosen_snoc:
  assumes "chosen better tab ps r"
  shows "chosen better tab (ps @ [p]) (pick better tab p r)"
proof (cases "p_state (tab p) = RUNNABLE")
  case False
  then have "pick better tab p r = r" by (simp add: pick_def)
  moreover have "chosen better tab (ps @ [p]) r"
  proof (cases r)
    case None
    then show ?thesis using assms False by (auto simp: chosen_def)
  next
    case (Some q)
    then show ?thesis using assms False by (auto intro: chosen_keep)
  qed
  ultimately show ?thesis by simp
next
  case True
  show ?thesis
  proof (cases r)
    case None
    then have "chosen better tab (ps @ [p]) (Some p)"
      using assms True by (intro chosen_last) (auto simp: chosen_def)
    then show ?thesis using None True by (simp add: pick_def)
  next
    case (Some q)
    show ?thesis
    proof (cases "better (tab p) (tab q)")
      case better: True
      have "better (tab p) (tab x)" if "x \<in> set ps" "p_state (tab x) = RUNNABLE" for x
      proof -
        have "\<not> better (tab x) (tab q)" using assms Some that by (simp add: chosen_def)
        then show ?thesis using worse_trans [of "tab p" "tab x" "tab q"] better by blast
      qed
      with True have "chosen better tab (ps @ [p]) (Some p)" by (intro chosen_last)
      then show ?thesis using Some True better by (simp add: pick_def)
    next
      case False
      then have "pick better tab p r = Some q" using Some True by (simp add: pick_def)
      with assms Some False show ?thesis by (auto intro: chosen_keep)
    qed
  qed
qed

lemma best_chosen: "chosen better tab ps (best better tab ps)"
proof (induction ps rule: rev_induct)
  case Nil
  then show ?case by (simp add: best_def chosen_def)
next
  case (snoc p ps)
  from chosen_snoc [OF this, of p] show ?case by (simp add: best_def)
qed

end

section \<open>The scans compute the best process\<close>

definition fcfs_better :: "proc \<Rightarrow> proc \<Rightarrow> bool" where
  "fcfs_better a b \<longleftrightarrow> p_ctime a < p_ctime b"

definition pbs_better :: "proc \<Rightarrow> proc \<Rightarrow> bool" where
  "pbs_better a b \<longleftrightarrow>
     sint (dynamic_priority a) < sint (dynamic_priority b) \<or>
     dynamic_priority a = dynamic_priority b \<and>
       (p_ntime a < p_ntime b \<or> p_ntime a = p_ntime b \<and> p_ctime a < p_ctime b)"

definition mlfq_better :: "proc \<Rightarrow> proc \<Rightarrow> bool" where
  "mlfq_better a b \<longleftrightarrow>
     sint (p_queue a) < sint (p_queue b) \<or>
     p_queue a = p_queue b \<and> sint (p_last_qtime a) < sint (p_last_qtime b)"

lemma sint_eq_iff: "sint (x :: i32) = sint y \<longleftrightarrow> x = y"
  by (auto intro: signed_word_eqI)

interpretation fcfs: ranking fcfs_better
  by unfold_locales (auto simp: fcfs_better_def)

interpretation pbs: ranking pbs_better
  by unfold_locales (auto simp: pbs_better_def sint_eq_iff [of "dynamic_priority _" "dynamic_priority _", symmetric])

interpretation mlfq: ranking mlfq_better
  by unfold_locales (auto simp: mlfq_better_def sint_eq_iff [of "p_queue _" "p_queue _", symmetric])

text \<open>Taking a lock and releasing it again leaves the state as it was.\<close>

lemma held_restore: "lk \<notin> held s \<Longrightarrow> s\<lparr>held := insert lk (held s) - {lk}\<rparr> = s"
  by simp

lemma fcfs_scan_eq:
  assumes "\<forall>p \<in> set ps. ProcLock p \<notin> held s"
  shows "fcfs_scan ps sel s = Ret (fold (pick fcfs_better (ptable s)) ps sel) s"
  using assms
proof (induction ps arbitrary: sel)
  case (Cons p ps)
  have "fcfs_scan (p # ps) sel s = fcfs_scan ps (pick fcfs_better (ptable s) p sel) s"
    using Cons.prems by (simp add: prog_simps Let_def pick_def fcfs_better_def split: option.splits)
  then show ?case using Cons by simp
qed (simp add: prog_simps)

lemma mlfq_scan_eq:
  assumes "\<forall>p \<in> set ps. ProcLock p \<notin> held s"
  shows "mlfq_scan ps sel s = Ret (fold (pick mlfq_better (ptable s)) ps sel) s"
  using assms
proof (induction ps arbitrary: sel)
  case (Cons p ps)
  have "mlfq_scan (p # ps) sel s = mlfq_scan ps (pick mlfq_better (ptable s) p sel) s"
    using Cons.prems by (simp add: prog_simps Let_def pick_def mlfq_better_def split: option.splits)
  then show ?case using Cons by simp
qed (simp add: prog_simps)

lemma dynamic_priority_bounds: "0 \<le> sint (dynamic_priority q)" "sint (dynamic_priority q) \<le> 100"
  by (simp_all add: dynamic_priority_def Let_def)

lemma pbs_scan_eq:
  assumes "\<forall>p \<in> set ps. ProcLock p \<notin> held s"
    and "max_dp = (case sel of None \<Rightarrow> 101 | Some q \<Rightarrow> dynamic_priority (ptable s q))"
  shows "pbs_scan ps max_dp sel s = Ret (fold (pick pbs_better (ptable s)) ps sel) s"
  using assms
proof (induction ps arbitrary: max_dp sel)
  case (Cons p ps)
  let ?sel = "pick pbs_better (ptable s) p sel"
  let ?dp = "case ?sel of None \<Rightarrow> 101 | Some q \<Rightarrow> dynamic_priority (ptable s q)"
  have dp: "sint (dynamic_priority (ptable s p)) < 101"
    using dynamic_priority_bounds(2) [of "ptable s p"] by linarith
  then have "dynamic_priority (ptable s p) \<noteq> 101" by auto
  with dp have "pbs_scan (p # ps) max_dp sel s = pbs_scan ps ?dp ?sel s"
    using Cons.prems
    by (simp add: prog_simps Let_def pick_def pbs_better_def split: option.splits)
  then show ?case using Cons.IH [of ?dp ?sel] Cons.prems(1) by simp
qed (simp add: prog_simps)

text \<open>
  Unless the counters overflow, \<open>dp\<close> is the value \<open>max(0, min(SP - niceness + 5, 100))\<close> with the
  niceness \<open>10 * sleeping / (running + sleeping)\<close>, which is between 0 and 10.
\<close>

lemma sint_small: "unat (x :: i32) < 2 ^ 31 \<Longrightarrow> sint x = int (unat x)"
proof -
  assume "unat x < 2 ^ 31"
  then have "unat x < 2147483648" by simp
  then have "int (unat x) < 2147483648" by linarith
  then have "uint x < 2 ^ 31" by simp
  moreover have "- (2 ^ 31) \<le> (0 :: int)" by simp
  then have "- (2 ^ 31) \<le> uint x" using uint_ge_0 by (rule order_trans)
  ultimately have this: "uint x < 2 ^ 31" "- (2 ^ 31) \<le> uint x" by simp_all
  from signed_take_bit_int_eq_self [OF this(2,1)] show ?thesis by (simp add: sint_uint)
qed

lemma niceness_eq:
  assumes "10 * unat (p_stime q) < 2 ^ 31" and "unat (p_rtime q) + unat (p_stime q) < 2 ^ 31"
  shows "sint (niceness q) =
    (if unat (p_rtime q) + unat (p_stime q) = 0 then 5
     else int (10 * unat (p_stime q) div (unat (p_rtime q) + unat (p_stime q))))"
proof -
  have sum: "unat (p_rtime q + p_stime q) = unat (p_rtime q) + unat (p_stime q)"
    using assms(2) by (intro unat_add_no_wrap) simp
  have ten: "unat (p_stime q * 10) = 10 * unat (p_stime q)"
    using assms(1) by (simp add: unat_word_ariths)
  show ?thesis
  proof (cases "p_rtime q + p_stime q = 0")
    case True
    then show ?thesis using sum by (simp add: niceness_def)
  next
    case False
    then have nz: "unat (p_rtime q) + unat (p_stime q) \<noteq> 0" using sum by (simp add: unat_eq_0 flip: sum)
    have "unat (niceness q) = 10 * unat (p_stime q) div (unat (p_rtime q) + unat (p_stime q))"
      using False by (simp add: niceness_def unat_div sum ten)
    moreover from this have "unat (niceness q) \<le> 10 * unat (p_stime q)" by simp
    then have "unat (niceness q) < 2 ^ 31" using assms(1) by linarith
    ultimately show ?thesis using nz by (simp add: sint_small)
  qed
qed

lemma niceness_bounds:
  assumes "10 * unat (p_stime q) < 2 ^ 31" and "unat (p_rtime q) + unat (p_stime q) < 2 ^ 31"
  shows "0 \<le> sint (niceness q)" and "sint (niceness q) \<le> 10"
proof -
  show "0 \<le> sint (niceness q)" by (simp add: niceness_eq [OF assms])
  have "10 * a div (b + a) \<le> 10" for a b :: nat
    using div_le_mono2 [of a "b + a" "10 * a"] by (cases "a = 0") auto
  then show "sint (niceness q) \<le> 10" by (simp add: niceness_eq [OF assms])
qed

section \<open>Loops over the process table\<close>

text \<open>
  A loop whose body changes only the slot it is at changes all the slots it visits, each on its own.
\<close>

lemma for_each_table:
  assumes "distinct xs"
    and "\<And>p tab. p \<in> set xs \<Longrightarrow> f p (s\<lparr>ptable := tab\<rparr>) = Ret () (s\<lparr>ptable := tab(p := g p (tab p))\<rparr>)"
  shows "for_each xs f s = Ret () (s\<lparr>ptable := \<lambda>p. if p \<in> set xs then g p (ptable s p) else ptable s p\<rparr>)"
proof -
  have "for_each xs f (s\<lparr>ptable := tab\<rparr>) = Ret () (s\<lparr>ptable := \<lambda>p. if p \<in> set xs then g p (tab p) else tab p\<rparr>)"
    for tab using assms
  proof (induction xs arbitrary: tab)
    case (Cons p xs)
    have "for_each (p # xs) f (s\<lparr>ptable := tab\<rparr>) = for_each xs f (s\<lparr>ptable := tab(p := g p (tab p))\<rparr>)"
      using Cons.prems(2) [of p tab] by (simp add: prog_simps fun_upd_def)
    also have "\<dots> = Ret () (s\<lparr>ptable := \<lambda>q. if q \<in> set xs then g q ((tab(p := g p (tab p))) q)
        else (tab(p := g p (tab p))) q\<rparr>)"
      using Cons.prems by (intro Cons.IH) simp_all
    also have "(\<lambda>q. if q \<in> set xs then g q ((tab(p := g p (tab p))) q) else (tab(p := g p (tab p))) q) =
        (\<lambda>q. if q \<in> set (p # xs) then g q (tab q) else tab q)"
      using Cons.prems(1) by auto
    finally show ?case .
  qed (simp add: prog_simps)
  from this [of "ptable s"] show ?thesis by simp
qed

definition age :: "u32 \<Rightarrow> proc \<Rightarrow> proc" where
  "age now q =
     (if p_state q = RUNNABLE \<and> p_queue q \<noteq> 0 \<and> now - p_last_qtime q > MAXAGE
      then q\<lparr>p_queue := p_queue q - 1, p_last_qtime := now\<rparr> else q)"

lemma mlfq_ageing_eq:
  assumes "\<forall>p < NPROC. ProcLock p \<notin> held s"
  shows "mlfq_ageing s = Ret () (s\<lparr>ptable := \<lambda>p. if p < NPROC then age (ticks s) (ptable s p) else ptable s p\<rparr>)"
proof -
  have "mlfq_age1 p (s\<lparr>ptable := tab\<rparr>) = Ret () (s\<lparr>ptable := tab(p := age (ticks s) (tab p))\<rparr>)"
    if "p \<in> set [0..<NPROC]" for p tab
    using that assms by (simp add: mlfq_age1_def with_lock_apply prog_simps upd_def age_def)
  from for_each_table [OF distinct_upt this] show ?thesis
    by (simp add: mlfq_ageing_def)
qed

section \<open>Round robin\<close>

text \<open>
  The state in which process \<open>p\<close> starts to run, and the state after it has given the hart back. A round
  is a sequence of turns: each process that gets one is runnable then, and runs.
\<close>

definition given_turn :: "nat \<Rightarrow> 'z kproc_scheme \<Rightarrow> 'z kproc_scheme" where
  "given_turn p s = s\<lparr>held := insert (ProcLock p) (held s), ptable := (ptable s)(p := (ptable s p)\<lparr>p_state := RUNNING\<rparr>), cpu_proc := Some p\<rparr>"

definition turn_over :: "nat \<Rightarrow> 'z kproc_scheme \<Rightarrow> 'z kproc_scheme" where
  "turn_over p u = u\<lparr>held := held u - {ProcLock p}, cpu_proc := None\<rparr>"

primrec turns :: "(nat \<Rightarrow> ('z kproc_scheme, unit) prog) \<Rightarrow> nat list \<Rightarrow> 'z kproc_scheme \<Rightarrow> 'z kproc_scheme \<Rightarrow> bool" where
  "turns run [] s t \<longleftrightarrow> t = s"
| "turns run (p # ps) s t \<longleftrightarrow> p_state (ptable s p) = RUNNABLE \<and>
     (\<exists>u. run p (given_turn p s) = Ret () u \<and> turns run ps (turn_over p u) t)"

text \<open>
  A process that runs comes back to the scheduler with the locks it got, its own among them. It may
  wake, create and kill other processes, but no process that is runnable ceases to be so.
\<close>

definition gives_back :: "(nat \<Rightarrow> ('z kproc_scheme, unit) prog) \<Rightarrow> bool" where
  "gives_back run \<longleftrightarrow> (\<forall>p u. cpu_proc u = Some p \<longrightarrow> p_state (ptable u p) = RUNNING \<longrightarrow> ProcLock p \<in> held u \<longrightarrow>
     (\<exists>t. run p u = Ret () t \<and> held t = held u \<and>
       (\<forall>q. q \<noteq> p \<longrightarrow> p_state (ptable u q) = RUNNABLE \<longrightarrow> p_state (ptable t q) = RUNNABLE)))"

lemma rr_visit_idle:
  assumes "p_state (ptable s p) \<noteq> RUNNABLE" and "ProcLock p \<notin> held s"
  shows "rr_visit run p s = Ret () s"
  using assms by (simp add: rr_visit_def get_proc_def prog_simps)

lemma rr_visit_turn:
  assumes "gives_back run" and r: "p_state (ptable s p) = RUNNABLE" and l: "ProcLock p \<notin> held s"
  obtains u where "run p (given_turn p s) = Ret () u" and "rr_visit run p s = Ret () (turn_over p u)"
    and "held (turn_over p u) = held s"
    and "\<And>q. q \<noteq> p \<Longrightarrow> p_state (ptable s q) = RUNNABLE \<Longrightarrow> p_state (ptable (turn_over p u) q) = RUNNABLE"
proof -
  let ?g = "given_turn p s"
  have g: "cpu_proc ?g = Some p" "p_state (ptable ?g p) = RUNNING" "held ?g = insert (ProcLock p) (held s)"
    "\<And>q. q \<noteq> p \<Longrightarrow> ptable ?g q = ptable s q" by (simp_all add: given_turn_def)
  then have "\<exists>t. run p ?g = Ret () t \<and> held t = held ?g \<and>
      (\<forall>q. q \<noteq> p \<longrightarrow> p_state (ptable ?g q) = RUNNABLE \<longrightarrow> p_state (ptable t q) = RUNNABLE)"
    using assms(1) [unfolded gives_back_def, rule_format, of ?g p] by simp
  then obtain u where u: "run p ?g = Ret () u" "held u = insert (ProcLock p) (held s)"
    "\<And>q. q \<noteq> p \<Longrightarrow> p_state (ptable s q) = RUNNABLE \<Longrightarrow> p_state (ptable u q) = RUNNABLE"
    using g(3,4) by auto
  have "rr_visit run p s = Ret () (turn_over p u)"
    using r l u(1,2) by (simp add: rr_visit_def get_proc_def upd_def switch_to_def prog_simps given_turn_def turn_over_def)
  with u l show thesis by (intro that [of u]) (simp_all add: turn_over_def)
qed

lemma rr_turns:
  assumes run: "gives_back run" and "sorted_wrt (<) xs" and "\<forall>p \<in> set xs. ProcLock p \<notin> held s"
  shows "\<exists>ps t. for_each xs (rr_visit run) s = Ret () t \<and> turns run ps s t \<and> sorted_wrt (<) ps \<and> set ps \<subseteq> set xs \<and>
    {p \<in> set xs. p_state (ptable s p) = RUNNABLE} \<subseteq> set ps"
  using assms(2,3)
proof (induction xs arbitrary: s)
  case Nil
  then show ?case by (intro exI [of _ "[]"]) (simp add: return_apply)
next
  case (Cons p xs)
  show ?case
  proof (cases "p_state (ptable s p) = RUNNABLE")
    case False
    then have "rr_visit run p s = Ret () s" using Cons.prems by (intro rr_visit_idle) simp_all
    moreover obtain ps t where "for_each xs (rr_visit run) s = Ret () t" "turns run ps s t" "sorted_wrt (<) ps" "set ps \<subseteq> set xs"
      "{p \<in> set xs. p_state (ptable s p) = RUNNABLE} \<subseteq> set ps"
      using Cons.IH [of s] Cons.prems by auto
    ultimately show ?thesis using False by (intro exI [of _ ps] exI [of _ t]) (auto simp: bind_apply)
  next
    case True
    then obtain u where u: "run p (given_turn p s) = Ret () u" "rr_visit run p s = Ret () (turn_over p u)"
      "held (turn_over p u) = held s"
      and keep: "\<And>q. q \<noteq> p \<Longrightarrow> p_state (ptable s q) = RUNNABLE \<Longrightarrow> p_state (ptable (turn_over p u) q) = RUNNABLE"
      using rr_visit_turn [OF run True] Cons.prems(2) by auto
    obtain ps t where ps: "for_each xs (rr_visit run) (turn_over p u) = Ret () t" "turns run ps (turn_over p u) t"
      "sorted_wrt (<) ps" "set ps \<subseteq> set xs" "{q \<in> set xs. p_state (ptable (turn_over p u) q) = RUNNABLE} \<subseteq> set ps"
      using Cons.IH [of "turn_over p u"] Cons.prems u(3) by auto
    have "\<forall>q \<in> set xs. p < q" using Cons.prems(1) by simp
    then have "{q \<in> set (p # xs). p_state (ptable s q) = RUNNABLE} \<subseteq> set (p # ps)" "sorted_wrt (<) (p # ps)"
      using ps(3-5) keep by fastforce+
    then show ?thesis using True u ps by (intro exI [of _ "p # ps"] exI [of _ t]) (auto simp: bind_apply)
  qed
qed

section \<open>Properties\<close>

lemma upt_split:
  assumes "[0..<n] = as @ p # bs"
  shows "p < n" and "set as = {0..<p}"
proof -
  have len: "length as < n" using arg_cong [OF assms, of length] by simp
  have p: "p = length as" using len assms by (metis nth_append_length nth_upt add_0)
  show "p < n" using len p by simp
  have "as = take p [0..<n]" using assms p by simp
  then show "set as = {0..<p}" using \<open>p < n\<close> by simp
qed

lemma chosen_upt:
  assumes "chosen better tab [0..<n] r"
  shows "case r of None \<Rightarrow> \<forall>p < n. p_state (tab p) \<noteq> RUNNABLE
    | Some p \<Rightarrow> p < n \<and> p_state (tab p) = RUNNABLE \<and>
       (\<forall>q < n. p_state (tab q) = RUNNABLE \<longrightarrow>
          (if q < p then better (tab p) (tab q) else \<not> better (tab q) (tab p)))"
proof (cases r)
  case None
  then show ?thesis using assms by (simp add: chosen_def)
next
  case (Some p)
  then obtain as bs where u: "[0..<n] = as @ p # bs"
    and as: "\<forall>x \<in> set as. p_state (tab x) = RUNNABLE \<longrightarrow> better (tab p) (tab x)"
    using assms by (auto simp: chosen_def)
  show ?thesis
    using Some assms upt_split [OF u] as by (auto simp: chosen_def)
qed

text \<open>The choice in terms of an explicit order \<open>before\<close> of the processes and their indices.\<close>

lemma chosen_before:
  assumes "chosen better tab [0..<n] r"
    and "\<And>p q. (if q < p then better (tab p) (tab q) else \<not> better (tab q) (tab p)) \<Longrightarrow> before p q"
  shows "case r of None \<Rightarrow> \<forall>p < n. p_state (tab p) \<noteq> RUNNABLE
    | Some p \<Rightarrow> p < n \<and> p_state (tab p) = RUNNABLE \<and>
       (\<forall>q < n. p_state (tab q) = RUNNABLE \<longrightarrow> before p q)"
  using chosen_upt [OF assms(1)] assms(2) by (cases r) simp_all

lemma fcfs_before:
  fixes p q :: nat
  assumes "if q < p then fcfs_better a b else \<not> fcfs_better b a"
  shows "p_ctime a < p_ctime b \<or> p_ctime a = p_ctime b \<and> p \<le> q"
  using assms by (auto simp: fcfs_better_def split: if_splits)

lemma pbs_before:
  fixes p q :: nat
  assumes "if q < p then pbs_better a b else \<not> pbs_better b a"
  shows "sint (dynamic_priority a) < sint (dynamic_priority b) \<or>
    dynamic_priority a = dynamic_priority b \<and>
      (p_ntime a < p_ntime b \<or> p_ntime a = p_ntime b \<and>
         (p_ctime a < p_ctime b \<or> p_ctime a = p_ctime b \<and> p \<le> q))"
  using assms
  by (auto simp: pbs_better_def sint_eq_iff [of "dynamic_priority _" "dynamic_priority _", symmetric] split: if_splits)

lemma mlfq_before:
  fixes p q :: nat
  assumes "if q < p then mlfq_better a b else \<not> mlfq_better b a"
  shows "sint (p_queue a) < sint (p_queue b) \<or>
    p_queue a = p_queue b \<and>
      (sint (p_last_qtime a) < sint (p_last_qtime b) \<or> p_last_qtime a = p_last_qtime b \<and> p \<le> q)"
  using assms
  by (auto simp: mlfq_better_def sint_eq_iff [of "p_queue _" "p_queue _", symmetric]
      sint_eq_iff [of "p_last_qtime _" "p_last_qtime _", symmetric] split: if_splits)

text \<open>
  A process and a kernel state for the examples: nothing is locked, no process runs on the hart, and
  the process table is the one given.
\<close>

definition blank_proc :: proc where
  "blank_proc = \<lparr>p_state = UNUSED, p_chan = NoChan, p_killed = 0, p_xstate = 0, p_pid = 0,
     p_parent = None, p_kstack = 0, p_sz = 0, p_pagetable = 0, p_trapframe = 0,
     p_context = \<lparr>ctx_ra = 0, ctx_sp = 0, ctx_s = (\<lambda>_. 0)\<rparr>, p_ofile = (\<lambda>_. None), p_cwd = None,
     p_name = (\<lambda>_. 0), p_rtime = 0, p_ctime = 0, p_etime = 0, p_stime = 0, p_ntime = 0, p_mask = 0,
     p_priority = 60, p_queue = 0, p_last_qtime = 0, p_qticks = (\<lambda>_. 0)\<rparr>"

definition idle_kernel :: "(nat \<Rightarrow> proc) \<Rightarrow> kproc" where
  "idle_kernel tab = \<lparr>held = {}, pmem = (\<lambda>_. 0), freelist = 0, kend = 0x80100000,
     kernel_pagetable = 0, satp = 0, ptable = tab, initproc = Some 0, nextpid = 4, cpu_proc = None,
     ticks = 100, tframes = (\<lambda>_. \<lparr>kernel_satp = 0, kernel_sp = 0, kernel_trap = 0, epc = 0,
       kernel_hartid = 0, tf_reg = (\<lambda>_. 0)\<rparr>), trampoline = 0x80007000, forkret_addr = 0x80001000\<rparr>"

lemma idle_kernel_unlocked: "\<forall>p < NPROC. ProcLock p \<notin> held (idle_kernel tab)"
  by (simp add: idle_kernel_def)

text \<open>
  C18: one round of the FCFS scheduler: it dispatches a runnable process with the lowest creation time,
  the first such process of the table, and does nothing only if no process is runnable.
\<close>

theorem fcfs_choice:
  assumes "\<forall>p < NPROC. ProcLock p \<notin> held s"
  shows "\<exists>r. fcfs_pass run s = (case r of None \<Rightarrow> Ret () s | Some p \<Rightarrow> fcfs_dispatch run p s) \<and>
    (case r of None \<Rightarrow> \<forall>p < NPROC. p_state (ptable s p) \<noteq> RUNNABLE
     | Some p \<Rightarrow> p < NPROC \<and> p_state (ptable s p) = RUNNABLE \<and>
        (\<forall>q < NPROC. p_state (ptable s q) = RUNNABLE \<longrightarrow>
           p_ctime (ptable s p) < p_ctime (ptable s q) \<or>
           p_ctime (ptable s p) = p_ctime (ptable s q) \<and> p \<le> q))"
proof -
  define r where "r = best fcfs_better (ptable s) [0..<NPROC]"
  have "fcfs_scan [0..<NPROC] None s = Ret r s"
    using assms fcfs_scan_eq [of "[0..<NPROC]" s None] by (simp add: r_def best_def)
  then have pass: "fcfs_pass run s = (case r of None \<Rightarrow> Ret () s | Some p \<Rightarrow> fcfs_dispatch run p s)"
    by (simp add: fcfs_pass_def prog_simps split: option.splits)
  have c: "chosen fcfs_better (ptable s) [0..<NPROC] r" unfolding r_def by (rule fcfs.best_chosen)
  show ?thesis by (intro exI [of _ r] conjI pass chosen_before [OF c]) (rule fcfs_before)
qed

text \<open>Three runnable processes, in slots 1, 2 and 5.\<close>

definition three_runnable :: "nat \<Rightarrow> proc" where
  "three_runnable p =
     (if p = 1 then blank_proc\<lparr>p_state := RUNNABLE, p_pid := 1, p_ctime := 30, p_queue := 1, p_last_qtime := 70\<rparr>
      else if p = 2 then blank_proc\<lparr>p_state := RUNNABLE, p_pid := 2, p_ctime := 20, p_queue := 2, p_last_qtime := 90\<rparr>
      else if p = 5 then blank_proc\<lparr>p_state := RUNNABLE, p_pid := 3, p_ctime := 20, p_queue := 1, p_last_qtime := 90\<rparr>
      else blank_proc)"

text \<open>A process that gives the hart back at once, and the example state.\<close>

abbreviation (input) yielding :: "nat \<Rightarrow> (kproc, unit) prog" where
  "yielding \<equiv> \<lambda>p. upd p (\<lambda>q. q\<lparr>p_state := RUNNABLE\<rparr>)"

abbreviation (input) demo :: kproc where
  "demo \<equiv> idle_kernel three_runnable"

theorem fcfs_choice_witness:
  "\<exists>r. fcfs_pass yielding demo =
      (case r of None \<Rightarrow> Ret () demo
       | Some p \<Rightarrow> fcfs_dispatch yielding p demo) \<and> r = Some 2"
proof -
  obtain r where r: "fcfs_pass yielding demo =
      (case r of None \<Rightarrow> Ret () demo
       | Some p \<Rightarrow> fcfs_dispatch yielding p demo)"
    and c: "case r of None \<Rightarrow> \<forall>p < NPROC. p_state (ptable demo p) \<noteq> RUNNABLE
     | Some p \<Rightarrow> p < NPROC \<and> p_state (ptable demo p) = RUNNABLE \<and>
        (\<forall>q < NPROC. p_state (ptable demo q) = RUNNABLE \<longrightarrow>
           p_ctime (ptable demo p) < p_ctime (ptable demo q) \<or>
           p_ctime (ptable demo p) = p_ctime (ptable demo q) \<and> p \<le> q)"
    using fcfs_choice [OF idle_kernel_unlocked] by blast
  have t: "p_state (three_runnable 2) = RUNNABLE" "p_ctime (three_runnable 2) = 20"
    by (simp_all add: three_runnable_def)
  have "r = Some 2"
  proof (cases r)
    case None
    then show ?thesis using c t by (auto simp: idle_kernel_def)
  next
    case (Some p)
    then have "p_state (three_runnable p) = RUNNABLE" "p_ctime (three_runnable p) < 20 \<or>
        p_ctime (three_runnable p) = 20 \<and> p \<le> 2"
      using c t by (auto simp: idle_kernel_def dest!: spec [of _ 2])
    then show ?thesis using Some by (auto simp: three_runnable_def blank_proc_def split: if_splits)
  qed
  with r show ?thesis by blast
qed

text \<open>
  C17: one round of the PBS scheduler: it dispatches a runnable process whose dynamic priority value is
  lowest; among those one that was scheduled least often, and among those the oldest, the first such
  process of the table. It does nothing only if no process is runnable, and it never dereferences
  the null pointer \<open>selectedProc\<close>.
\<close>

theorem pbs_choice:
  assumes "\<forall>p < NPROC. ProcLock p \<notin> held s"
  shows "\<exists>r. pbs_pass run s = (case r of None \<Rightarrow> Ret () s | Some p \<Rightarrow> pbs_dispatch run p s) \<and>
    (case r of None \<Rightarrow> \<forall>p < NPROC. p_state (ptable s p) \<noteq> RUNNABLE
     | Some p \<Rightarrow> p < NPROC \<and> p_state (ptable s p) = RUNNABLE \<and>
        (\<forall>q < NPROC. p_state (ptable s q) = RUNNABLE \<longrightarrow>
           sint (dynamic_priority (ptable s p)) < sint (dynamic_priority (ptable s q)) \<or>
           dynamic_priority (ptable s p) = dynamic_priority (ptable s q) \<and>
             (p_ntime (ptable s p) < p_ntime (ptable s q) \<or>
              p_ntime (ptable s p) = p_ntime (ptable s q) \<and>
                (p_ctime (ptable s p) < p_ctime (ptable s q) \<or>
                 p_ctime (ptable s p) = p_ctime (ptable s q) \<and> p \<le> q))))"
proof -
  define r where "r = best pbs_better (ptable s) [0..<NPROC]"
  have "pbs_scan [0..<NPROC] 101 None s = Ret r s"
    using assms pbs_scan_eq [of "[0..<NPROC]" s 101 None] by (simp add: r_def best_def)
  then have pass: "pbs_pass run s = (case r of None \<Rightarrow> Ret () s | Some p \<Rightarrow> pbs_dispatch run p s)"
    by (simp add: pbs_pass_def prog_simps split: option.splits)
  have c: "chosen pbs_better (ptable s) [0..<NPROC] r" unfolding r_def by (rule pbs.best_chosen)
  show ?thesis by (intro exI [of _ r] conjI pass chosen_before [OF c]) (rule pbs_before)
qed

theorem pbs_choice_witness:
  "\<exists>r. pbs_pass yielding demo = (case r of None \<Rightarrow> Ret () demo | Some p \<Rightarrow> pbs_dispatch yielding p demo) \<and>
    (case r of None \<Rightarrow> \<forall>p < NPROC. p_state (ptable demo p) \<noteq> RUNNABLE
     | Some p \<Rightarrow> p < NPROC \<and> p_state (ptable demo p) = RUNNABLE \<and>
        (\<forall>q < NPROC. p_state (ptable demo q) = RUNNABLE \<longrightarrow>
           sint (dynamic_priority (ptable demo p)) < sint (dynamic_priority (ptable demo q)) \<or>
           dynamic_priority (ptable demo p) = dynamic_priority (ptable demo q) \<and>
             (p_ntime (ptable demo p) < p_ntime (ptable demo q) \<or>
              p_ntime (ptable demo p) = p_ntime (ptable demo q) \<and>
                (p_ctime (ptable demo p) < p_ctime (ptable demo q) \<or>
                 p_ctime (ptable demo p) = p_ctime (ptable demo q) \<and> p \<le> q))))"
  by (rule pbs_choice [OF idle_kernel_unlocked])

text \<open>
  C16: one round of the MLFQ scheduler. The ageing loop moves exactly the runnable processes that
  have waited more than MAXAGE ticks up by one queue. Then a runnable process of the lowest queue
  number is dispatched, of those in that queue the one that entered it first by the signed time
  stamp, and of those the first of the table; the round does nothing more only if no process is
  runnable.
\<close>

theorem mlfq_choice:
  assumes "\<forall>p < NPROC. ProcLock p \<notin> held s"
    and "tab = (\<lambda>p. if p < NPROC then age (ticks s) (ptable s p) else ptable s p)"
  shows "\<exists>r. mlfq_pass run s =
      (case r of None \<Rightarrow> Ret () (s\<lparr>ptable := tab\<rparr>) | Some p \<Rightarrow> mlfq_dispatch run p (s\<lparr>ptable := tab\<rparr>)) \<and>
    (case r of None \<Rightarrow> \<forall>p < NPROC. p_state (tab p) \<noteq> RUNNABLE
     | Some p \<Rightarrow> p < NPROC \<and> p_state (tab p) = RUNNABLE \<and>
        (\<forall>q < NPROC. p_state (tab q) = RUNNABLE \<longrightarrow>
           sint (p_queue (tab p)) < sint (p_queue (tab q)) \<or>
           p_queue (tab p) = p_queue (tab q) \<and>
             (sint (p_last_qtime (tab p)) < sint (p_last_qtime (tab q)) \<or>
              p_last_qtime (tab p) = p_last_qtime (tab q) \<and> p \<le> q)))"
proof -
  define r where "r = best mlfq_better tab [0..<NPROC]"
  have "mlfq_ageing s = Ret () (s\<lparr>ptable := tab\<rparr>)"
    unfolding assms(2) by (rule mlfq_ageing_eq [OF assms(1)])
  moreover have "mlfq_scan [0..<NPROC] None (s\<lparr>ptable := tab\<rparr>) = Ret r (s\<lparr>ptable := tab\<rparr>)"
    using assms(1) mlfq_scan_eq [of "[0..<NPROC]" "s\<lparr>ptable := tab\<rparr>" None] by (simp add: r_def best_def)
  ultimately have pass: "mlfq_pass run s =
      (case r of None \<Rightarrow> Ret () (s\<lparr>ptable := tab\<rparr>) | Some p \<Rightarrow> mlfq_dispatch run p (s\<lparr>ptable := tab\<rparr>))"
    by (simp add: mlfq_pass_def prog_simps split: option.splits)
  have c: "chosen mlfq_better tab [0..<NPROC] r" unfolding r_def by (rule mlfq.best_chosen)
  show ?thesis by (intro exI [of _ r] conjI pass chosen_before [OF c]) (rule mlfq_before)
qed

definition aged_demo :: "nat \<Rightarrow> proc" where
  "aged_demo = (\<lambda>p. if p < NPROC then age (ticks demo) (ptable demo p) else ptable demo p)"

theorem mlfq_choice_witness:
  "\<exists>r. mlfq_pass yielding demo =
      (case r of None \<Rightarrow> Ret () (demo\<lparr>ptable := aged_demo\<rparr>)
       | Some p \<Rightarrow> mlfq_dispatch yielding p (demo\<lparr>ptable := aged_demo\<rparr>)) \<and>
    (case r of None \<Rightarrow> \<forall>p < NPROC. p_state (aged_demo p) \<noteq> RUNNABLE
     | Some p \<Rightarrow> p < NPROC \<and> p_state (aged_demo p) = RUNNABLE \<and>
        (\<forall>q < NPROC. p_state (aged_demo q) = RUNNABLE \<longrightarrow>
           sint (p_queue (aged_demo p)) < sint (p_queue (aged_demo q)) \<or>
           p_queue (aged_demo p) = p_queue (aged_demo q) \<and>
             (sint (p_last_qtime (aged_demo p)) < sint (p_last_qtime (aged_demo q)) \<or>
              p_last_qtime (aged_demo p) = p_last_qtime (aged_demo q) \<and> p \<le> q)))"
  by (rule mlfq_choice [OF idle_kernel_unlocked aged_demo_def])

text \<open>
  C19: one round of the RR scheduler ends, and it is a sequence of turns in the order of the table, at
  most one for each slot. Every process that is runnable at the start of the round gets a turn: it is
  marked running, it is the process of the hart, and it runs, holding its lock, until it gives the
  hart back. No process that is not runnable gets one. Whatever runs comes back in the end and does
  not make another process unrunnable.
\<close>

theorem rr_round:
  assumes "gives_back run" and "\<forall>p < NPROC. ProcLock p \<notin> held s"
  shows "\<exists>ps t. rr_pass run s = Ret () t \<and> turns run ps s t \<and> sorted_wrt (<) ps \<and> set ps \<subseteq> {..<NPROC} \<and>
    {p. p < NPROC \<and> p_state (ptable s p) = RUNNABLE} \<subseteq> set ps"
  using rr_turns [OF assms(1), of "[0..<NPROC]" s] assms(2) by (simp add: rr_pass_def atLeast0LessThan)

theorem rr_round_witness:
  "\<exists>ps t. rr_pass yielding demo = Ret () t \<and> turns yielding ps demo t \<and> 2 \<in> set ps"
proof -
  have "gives_back yielding" by (simp add: gives_back_def upd_def modify_def)
  then obtain ps t where "rr_pass yielding demo = Ret () t" "turns yielding ps demo t"
      "{p. p < NPROC \<and> p_state (ptable demo p) = RUNNABLE} \<subseteq> set ps"
    using rr_round [OF _ idle_kernel_unlocked] by blast
  moreover have "p_state (ptable demo 2) = RUNNABLE" by (simp add: idle_kernel_def three_runnable_def)
  ultimately show ?thesis by force
qed

text \<open>
  C20: the dynamic priority value is always between 0 and 100, and as long as the counters of the
  process do not overflow it is \<open>max(0, min(priority - niceness + 5, 100))\<close>, where the niceness is
  \<open>10 * stime / (rtime + stime)\<close> rounded down, or 5 if the process has neither run nor slept.
\<close>

theorem dynamic_priority_value:
  assumes "10 * unat (p_stime q) < 2 ^ 31" and "unat (p_rtime q) + unat (p_stime q) < 2 ^ 31"
    and "0 \<le> sint (p_priority q)" and "sint (p_priority q) \<le> 100"
    and "n = (if unat (p_rtime q) + unat (p_stime q) = 0 then 5
       else int (10 * unat (p_stime q) div (unat (p_rtime q) + unat (p_stime q))))"
  shows "sint (dynamic_priority q) = max 0 (min (sint (p_priority q) - n + 5) 100)"
proof -
  have n: "sint (niceness q) = n" "0 \<le> n" "n \<le> 10"
    using niceness_eq [OF assms(1,2)] niceness_bounds [OF assms(1,2)] assms(5) by simp_all
  have "sint (p_priority q - niceness q + 5) = sint (p_priority q) - n + 5"
    using n assms(3,4) by (simp add: sint_word_ariths signed_take_bit_int_eq_self)
  then show ?thesis by (simp add: dynamic_priority_def Let_def)
qed

theorem dynamic_priority_value_witness:
  "sint (dynamic_priority (blank_proc\<lparr>p_rtime := 30, p_stime := 10, p_priority := 60\<rparr>)) =
    max 0 (min (sint (60 :: i32) - 2 + 5) 100)"
proof -
  let ?q = "blank_proc\<lparr>p_rtime := 30, p_stime := 10, p_priority := 60\<rparr>"
  have "sint (dynamic_priority ?q) = max 0 (min (sint (p_priority ?q) - 2 + 5) 100)"
    by (rule dynamic_priority_value) simp_all
  moreover have "p_priority ?q = 60" by simp
  ultimately show ?thesis by (simp only:)
qed

end
