(* ===== verification/ProcFacts.thy ===== *)
theory ProcFacts
  imports Scheduler
begin

text \<open>
  What the operations of theory Proc do to the process table: allocation and release of slots,
  sleeping and waking, killing, exiting and waiting.
\<close>

section \<open>Memory operations and the process table\<close>

lemma more_fields:
  fixes s t :: "'z kproc_scheme"
  assumes "kmem.more t = kmem.more s"
  shows "ptable t = ptable s" "initproc t = initproc s" "nextpid t = nextpid s" "cpu_proc t = cpu_proc s"
    "ticks t = ticks s" "tframes t = tframes s" "trampoline t = trampoline s"
    "forkret_addr t = forkret_addr s" "kproc.more t = kproc.more s"
  using assms by (cases s, cases t, simp)+

lemma quiet_proc_freepagetable [quiet_intros]: "quiet (proc_freepagetable pt sz)"
  unfolding proc_freepagetable_def by (intro quiet_intros)

lemma quiet_get_proc [quiet_intros]: "quiet (get_proc p)"
  unfolding get_proc_def by (intro quiet_intros)

lemma quiet_proc_pagetable [quiet_intros]: "quiet (proc_pagetable p)"
  unfolding proc_pagetable_def by (intro quiet_intros)

text \<open>
  \<open>rest_same s t\<close>: from \<open>s\<close> to \<open>t\<close> only memory, the page-table registers and the process table may
  have changed.
\<close>

definition rest_same :: "'z kproc_scheme \<Rightarrow> 'z kproc_scheme \<Rightarrow> bool" where
  "rest_same s t \<longleftrightarrow> held t = held s \<and> initproc t = initproc s \<and> nextpid t = nextpid s \<and>
     cpu_proc t = cpu_proc s \<and> ticks t = ticks s \<and> tframes t = tframes s \<and>
     trampoline t = trampoline s \<and> forkret_addr t = forkret_addr s \<and> kproc.more t = kproc.more s"

lemma rest_same_refl [simp]: "rest_same s s"
  by (simp add: rest_same_def)

lemma rest_same_trans: "rest_same s t \<Longrightarrow> rest_same t u \<Longrightarrow> rest_same s u"
  by (simp add: rest_same_def)

lemma rest_same_ptable [simp]: "rest_same s (s\<lparr>ptable := tab\<rparr>)"
  by (simp add: rest_same_def)

lemma quiet_rest:
  fixes s :: "'z kproc_scheme"
  assumes "quiet f" and "f s = Ret x t"
  shows "rest_same s t" and "ptable t = ptable s"
proof -
  note q = quietD [OF assms]
  show "rest_same s t" using q more_fields [of t s] by (simp add: rest_same_def)
  show "ptable t = ptable s" using q by (intro more_fields) simp
qed

lemma upd_Ret [simp]: "upd p f s = Ret () (s\<lparr>ptable := (ptable s)(p := f (ptable s p))\<rparr>)"
  by (simp add: upd_def modify_def)

lemma get_proc_Ret [simp]: "get_proc p s = Ret (ptable s p) s"
  by (simp add: get_proc_def gets_def)

lemma curproc_Some: "cpu_proc s = Some p \<Longrightarrow> curproc s = Ret p s"
  by (simp add: curproc_def myproc_def prog_simps)

section \<open>Releasing and allocating a slot\<close>

definition freed :: "proc \<Rightarrow> proc" where
  "freed q = q\<lparr>p_trapframe := 0, p_pagetable := 0, p_sz := 0, p_pid := 0, p_parent := None,
     p_name := (p_name q)(0 := 0), p_chan := NoChan, p_killed := 0, p_xstate := 0, p_state := UNUSED\<rparr>"

lemma freed_simps [simp]:
  "p_state (freed q) = UNUSED" "p_pid (freed q) = 0" "p_parent (freed q) = None" "p_queue (freed q) = p_queue q"
  by (simp_all add: freed_def)

lemma freeproc_Ret:
  assumes "freeproc p s = Ret x t"
  shows "ptable t = (ptable s)(p := freed (ptable s p))" and "rest_same s t"
proof -
  let ?q = "ptable s p"
  have k: "quiet (onlyif (p_trapframe ?q \<noteq> 0) (kfree (p_trapframe ?q)))"
    and f: "quiet (onlyif (p_pagetable ?q \<noteq> 0) (proc_freepagetable (p_pagetable ?q) (p_sz ?q)))"
    by (intro quiet_intros)+
  from assms obtain u v where
    u: "onlyif (p_trapframe ?q \<noteq> 0) (kfree (p_trapframe ?q)) s = Ret () u" and
    v: "onlyif (p_pagetable ?q \<noteq> 0) (proc_freepagetable (p_pagetable ?q) (p_sz ?q))
      (u\<lparr>ptable := (ptable u)(p := (ptable u p)\<lparr>p_trapframe := 0\<rparr>)\<rparr>) = Ret () v" and
    t: "t = v\<lparr>ptable := (ptable v)(p := (ptable v p)\<lparr>p_pagetable := 0, p_sz := 0, p_pid := 0,
        p_parent := None, p_name := (p_name (ptable v p))(0 := 0), p_chan := NoChan, p_killed := 0,
        p_xstate := 0, p_state := UNUSED\<rparr>)\<rparr>"
    unfolding freeproc_def by (auto elim!: bind_RetE)
  note U = quiet_rest [OF k u] and V = quiet_rest [OF f v]
  show "ptable t = (ptable s)(p := freed (ptable s p))"
    using U(2) V(2) by (auto simp: t freed_def)
  show "rest_same s t" using U(1) V(1) by (simp add: t rest_same_def)
qed

text \<open>Code that always keeps the hart.\<close>

definition nosleep :: "('s, 'a) prog \<Rightarrow> bool" where
  "nosleep f \<longleftrightarrow> (\<forall>s t. f s \<noteq> Blocked t)"

named_theorems nosleep_intros \<open>code that never sleeps\<close>

lemma nosleepD: "nosleep f \<Longrightarrow> f s \<noteq> Blocked t"
  by (simp add: nosleep_def)

lemma nosleep_quiet: "quiet f \<Longrightarrow> nosleep f"
  unfolding nosleep_def by (intro allI quiet_not_Blocked)

lemma nosleep_bind [nosleep_intros]: "nosleep f \<Longrightarrow> (\<And>x. nosleep (g x)) \<Longrightarrow> nosleep (bind f g)"
  by (auto simp: nosleep_def bind_apply split: outcome.splits)

lemma nosleep_basic [nosleep_intros]:
  "nosleep (return x)" "nosleep (panic m)" "nosleep (gets f)" "nosleep (modify g)" "nosleep (panic_if b m)"
  "nosleep (acquire lk)" "nosleep (release lk)" "nosleep (upd p h)"
  by (simp_all add: nosleep_def prog_simps acquire_def release_def)

lemma nosleep_onlyif [nosleep_intros]: "nosleep f \<Longrightarrow> nosleep (onlyif b f)"
  by (simp add: nosleep_def onlyif_apply)

lemma nosleep_if [nosleep_intros]: "nosleep f \<Longrightarrow> nosleep g \<Longrightarrow> nosleep (if b then f else g)"
  by simp

lemma nosleep_for_each [nosleep_intros]: "(\<And>i. nosleep (f i)) \<Longrightarrow> nosleep (for_each xs f)"
  by (induction xs) (auto intro: nosleep_intros)

lemma nosleep_with_lock [nosleep_intros]: "nosleep f \<Longrightarrow> nosleep (with_lock lk f)"
  unfolding with_lock_def by (intro nosleep_intros)

lemma nosleep_freeproc [nosleep_intros]: "nosleep (freeproc p)"
  unfolding freeproc_def by (intro nosleep_intros nosleep_quiet quiet_intros)

section \<open>Sleeping and waking\<close>

definition wake :: "chan \<Rightarrow> u32 \<Rightarrow> proc \<Rightarrow> proc" where
  "wake c now q =
     (if p_state q = SLEEPING \<and> p_chan q = c then q\<lparr>p_state := RUNNABLE, p_stime := now - p_stime q\<rparr> else q)"

lemma wakeup_eq:
  assumes "\<forall>p < NPROC. cpu_proc s \<noteq> Some p \<longrightarrow> ProcLock p \<notin> held s"
  shows "wakeup c s = Ret () (s\<lparr>ptable := \<lambda>p. if p < NPROC \<and> cpu_proc s \<noteq> Some p
    then wake c (ticks s) (ptable s p) else ptable s p\<rparr>)"
proof -
  let ?g = "\<lambda>p q. if cpu_proc s \<noteq> Some p then wake c (ticks s) q else q"
  have "wakeup1 c p (s\<lparr>ptable := tab\<rparr>) = Ret () (s\<lparr>ptable := tab(p := ?g p (tab p))\<rparr>)"
    if "p \<in> set [0..<NPROC]" for p tab
    using that assms by (auto simp: wakeup1_def myproc_def prog_simps wake_def)
  then have "wakeup c s = Ret () (s\<lparr>ptable := \<lambda>p. if p \<in> set [0..<NPROC] then ?g p (ptable s p) else ptable s p\<rparr>)"
    unfolding wakeup_def by (intro for_each_table distinct_upt)
  also have "(\<lambda>p. if p \<in> set [0..<NPROC] then ?g p (ptable s p) else ptable s p) =
      (\<lambda>p. if p < NPROC \<and> cpu_proc s \<noteq> Some p then wake c (ticks s) (ptable s p) else ptable s p)" by auto
  finally show ?thesis .
qed

lemma update_time_eq:
  assumes "\<forall>p < NPROC. ProcLock p \<notin> held s"
  shows "update_time s = Ret () (s\<lparr>ptable := \<lambda>p. if p < NPROC \<and> p_state (ptable s p) = RUNNING
    then (ptable s p)\<lparr>p_rtime := p_rtime (ptable s p) + 1\<rparr> else ptable s p\<rparr>)"
proof -
  let ?g = "\<lambda>p q. if p_state q = RUNNING then q\<lparr>p_rtime := p_rtime q + 1\<rparr> else q"
  have "with_lock (ProcLock p) (bind (get_proc p) (\<lambda>q. onlyif (p_state q = RUNNING)
      (upd p (\<lambda>q. q\<lparr>p_rtime := p_rtime q + 1\<rparr>)))) (s\<lparr>ptable := tab\<rparr>) =
      Ret () (s\<lparr>ptable := tab(p := ?g p (tab p))\<rparr>)"
    if "p \<in> set [0..<NPROC]" for p tab
    using that assms by (auto simp: with_lock_apply prog_simps)
  then have "update_time s = Ret () (s\<lparr>ptable := \<lambda>p. if p \<in> set [0..<NPROC] then ?g p (ptable s p) else ptable s p\<rparr>)"
    unfolding update_time_def by (intro for_each_table distinct_upt)
  also have "(\<lambda>p. if p \<in> set [0..<NPROC] then ?g p (ptable s p) else ptable s p) =
      (\<lambda>p. if p < NPROC \<and> p_state (ptable s p) = RUNNING
        then (ptable s p)\<lparr>p_rtime := p_rtime (ptable s p) + 1\<rparr> else ptable s p)" by auto
  finally show ?thesis .
qed

text \<open>
  \<open>sleep\<close> gives up the hart with the process asleep on its channel, its own lock held for the
  scheduler to release, and the lock of the condition released.
\<close>

lemma sleep_eq:
  assumes "cpu_proc s = Some p" and "held s = {lk}" and "lk \<noteq> ProcLock p"
  shows "sleep c lk s = Blocked (s\<lparr>held := {ProcLock p},
    ptable := (ptable s)(p := (ptable s p)\<lparr>p_chan := c, p_state := SLEEPING, p_stime := ticks s\<rparr>)\<rparr>)"
proof -
  have "insert (ProcLock p) {lk} - {lk} = {ProcLock p}" using assms(3) by auto
  then show ?thesis using assms
    by (simp add: sleep_def sched_def curproc_def myproc_def prog_simps)
qed

lemma sleep_resume_eq:
  assumes "held s = {ProcLock p}" and "lk \<noteq> ProcLock p"
  shows "sleep_resume p lk s = Ret () (s\<lparr>held := {lk}, ptable := (ptable s)(p := (ptable s p)\<lparr>p_chan := NoChan\<rparr>)\<rparr>)"
  using assms by (simp add: sleep_resume_def prog_simps)

lemma yield_eq:
  assumes "cpu_proc s = Some p" and "held s = {}"
  shows "yield s = Blocked (s\<lparr>held := {ProcLock p}, ptable := (ptable s)(p := (ptable s p)\<lparr>p_state := RUNNABLE\<rparr>)\<rparr>)"
  using assms by (simp add: yield_def sched_def curproc_def myproc_def prog_simps)

section \<open>Killing\<close>

definition slain :: "proc \<Rightarrow> proc" where
  "slain q = q\<lparr>p_killed := 1, p_state := (if p_state q = SLEEPING then RUNNABLE else p_state q)\<rparr>"

lemma kill_scan_eq:
  assumes "\<forall>p \<in> set ps. ProcLock p \<notin> held s"
  shows "kill_scan pid ps s = (case find (\<lambda>p. p_pid (ptable s p) = pid) ps of
     None \<Rightarrow> Ret (-1) s
   | Some p \<Rightarrow> Ret 0 (s\<lparr>ptable := (ptable s)(p := slain (ptable s p))\<rparr>))"
  using assms
proof (induction ps)
  case (Cons p ps)
  show ?case
  proof (cases "p_pid (ptable s p) = pid")
    case True
    then show ?thesis using Cons.prems by (simp add: prog_simps slain_def)
  next
    case False
    then show ?thesis using Cons by (simp add: prog_simps)
  qed
qed (simp add: prog_simps)

section \<open>Allocating a slot\<close>

lemma allocproc_scan_eq:
  assumes "\<forall>p \<in> set ps. ProcLock p \<notin> held s"
  shows "allocproc_scan ps s = (case find (\<lambda>p. p_state (ptable s p) = UNUSED) ps of
     None \<Rightarrow> Ret None s
   | Some p \<Rightarrow> Ret (Some p) (s\<lparr>held := insert (ProcLock p) (held s)\<rparr>))"
  using assms by (induction ps) (simp_all add: prog_simps)

lemma allocpid_eq:
  "PidLock \<notin> held s \<Longrightarrow> allocpid s = Ret (nextpid s) (s\<lparr>nextpid := nextpid s + 1\<rparr>)"
  by (simp add: allocpid_def with_lock_apply prog_simps)

text \<open>
  The parts of \<open>allocproc\<close> behind the search: \<open>alloc_fail\<close> is its error exit, \<open>alloc_fill\<close> what follows
  the allocation of the process number.
\<close>

definition alloc_fail :: "nat \<Rightarrow> ('z kproc_scheme, nat option) prog" where
  "alloc_fail p = andthen (freeproc p) (andthen (release (ProcLock p)) (return None))"

definition fresh :: "u32 \<Rightarrow> u64 \<Rightarrow> proc \<Rightarrow> proc" where
  "fresh now forkret q = q\<lparr>
     p_context := \<lparr>ctx_ra = forkret, ctx_sp = p_kstack q + PGSIZE, ctx_s = (\<lambda>_. 0)\<rparr>,
     p_rtime := 0, p_etime := -1, p_ctime := now, p_ntime := 0, p_priority := 60,
     p_last_qtime := now, p_queue := 0, p_qticks := (\<lambda>x. if x < NPQ then 0 else p_qticks q x)\<rparr>"

definition alloc_fill :: "nat \<Rightarrow> ('z kproc_scheme, nat option) prog" where
  "alloc_fill p =
     bind kalloc (\<lambda>tf.
      andthen (upd p (\<lambda>q. q\<lparr>p_trapframe := tf\<rparr>))
      (if tf = 0 then alloc_fail p
       else bind (proc_pagetable p) (\<lambda>pt.
         andthen (upd p (\<lambda>q. q\<lparr>p_pagetable := pt\<rparr>))
         (if pt = 0 then alloc_fail p
          else bind (gets (\<lambda>s. (ticks s, forkret_addr s))) (\<lambda>(now, forkret).
            andthen (upd p (fresh now forkret)) (return (Some p)))))))"

lemma allocproc_fill:
  "allocproc = bind (allocproc_scan [0..<NPROC]) (\<lambda>r. case r of None \<Rightarrow> return None | Some p \<Rightarrow>
     bind allocpid (\<lambda>pid. andthen (upd p (\<lambda>q. q\<lparr>p_pid := pid, p_state := USED\<rparr>)) (alloc_fill p)))"
  by (simp only: allocproc_def alloc_fill_def alloc_fail_def fresh_def [abs_def])

lemma alloc_fail_Ret:
  assumes "alloc_fail p s = Ret r t" and "ProcLock p \<in> held s"
  shows "r = None" and "ptable t = (ptable s)(p := freed (ptable s p))"
    and "rest_same (s\<lparr>held := held s - {ProcLock p}\<rparr>) t"
proof -
  from assms(1) obtain x u where u: "freeproc p s = Ret x u" "bind (release (ProcLock p)) (\<lambda>_. return None) u = Ret r t"
    unfolding alloc_fail_def by (rule bind_RetE)
  note f = freeproc_Ret [OF u(1)]
  have "held u = held s" using f(2) by (simp add: rest_same_def)
  then have rt: "r = None" "t = u\<lparr>held := held s - {ProcLock p}\<rparr>"
    using u(2) assms(2) by (simp_all add: prog_simps)
  then show "r = None" "ptable t = (ptable s)(p := freed (ptable s p))" using f(1) by simp_all
  show "rest_same (s\<lparr>held := held s - {ProcLock p}\<rparr>) t"
    using f(2) by (simp add: rt rest_same_def)
qed

lemma alloc_fill_Ret:
  assumes "alloc_fill p s = Ret r t" and "ProcLock p \<in> held s"
  shows "(r = None \<and> (\<forall>q. q \<noteq> p \<longrightarrow> ptable t q = ptable s q) \<and> p_state (ptable t p) = UNUSED \<and>
      p_queue (ptable t p) = p_queue (ptable s p) \<and>
      rest_same (s\<lparr>held := held s - {ProcLock p}\<rparr>) t) \<or>
    (r = Some p \<and> rest_same s t \<and> (\<exists>tf pt. tf \<noteq> 0 \<and> pt \<noteq> 0 \<and> ptable t =
      (ptable s)(p := fresh (ticks s) (forkret_addr s) ((ptable s p)\<lparr>p_trapframe := tf, p_pagetable := pt\<rparr>))))"
proof -
  from assms(1) obtain tf u where u: "kalloc s = Ret tf u"
    and rest: "(if tf = 0 then alloc_fail p else bind (proc_pagetable p) (\<lambda>pt.
         andthen (upd p (\<lambda>q. q\<lparr>p_pagetable := pt\<rparr>))
         (if pt = 0 then alloc_fail p
          else bind (gets (\<lambda>s. (ticks s, forkret_addr s))) (\<lambda>(now, forkret).
            andthen (upd p (fresh now forkret)) (return (Some p))))))
      (u\<lparr>ptable := (ptable u)(p := (ptable u p)\<lparr>p_trapframe := tf\<rparr>)\<rparr>) = Ret r t"
    unfolding alloc_fill_def by (rule bind_RetE) (simp add: bind_apply)
  note U = quiet_rest [OF quiet_kalloc u]
  let ?u = "u\<lparr>ptable := (ptable u)(p := (ptable u p)\<lparr>p_trapframe := tf\<rparr>)\<rparr>"
  have hu: "ProcLock p \<in> held ?u" using U(1) assms(2) by (simp add: rest_same_def)
  show ?thesis
  proof (cases "tf = 0")
    case True
    then have "alloc_fail p ?u = Ret r t" using rest by simp
    from alloc_fail_Ret [OF this hu] U show ?thesis by (simp add: rest_same_def freed_def)
  next
    case False
    with rest obtain pt v where v: "proc_pagetable p ?u = Ret pt v"
      and rest2: "(if pt = 0 then alloc_fail p
          else bind (gets (\<lambda>s. (ticks s, forkret_addr s))) (\<lambda>(now, forkret).
            andthen (upd p (fresh now forkret)) (return (Some p))))
        (v\<lparr>ptable := (ptable v)(p := (ptable v p)\<lparr>p_pagetable := pt\<rparr>)\<rparr>) = Ret r t"
      by simp (erule bind_RetE, simp add: bind_apply)
    note V = quiet_rest [OF quiet_proc_pagetable v]
    let ?v = "v\<lparr>ptable := (ptable v)(p := (ptable v p)\<lparr>p_pagetable := pt\<rparr>)\<rparr>"
    have hv: "ProcLock p \<in> held ?v" using V(1) hu by (simp add: rest_same_def)
    show ?thesis
    proof (cases "pt = 0")
      case True
      then have "alloc_fail p ?v = Ret r t" using rest2 by simp
      from alloc_fail_Ret [OF this hv] U V show ?thesis by (simp add: rest_same_def freed_def)
    next
      case pt: False
      then have "r = Some p" "rest_same s t"
        "ptable t = (ptable s)(p := fresh (ticks s) (forkret_addr s) ((ptable s p)\<lparr>p_trapframe := tf, p_pagetable := pt\<rparr>))"
        using rest2 U V by (auto simp: prog_simps rest_same_def)
      with False pt show ?thesis by blast
    qed
  qed
qed

section \<open>Exiting\<close>

text \<open>
  \<open>woken c now a b\<close>: the slot \<open>b\<close> is \<open>a\<close>, or \<open>a\<close> after a wakeup on \<open>c\<close>.
\<close>

definition woken :: "chan \<Rightarrow> u32 \<Rightarrow> proc \<Rightarrow> proc \<Rightarrow> bool" where
  "woken c now a b \<longleftrightarrow> b = a \<or> b = wake c now a"

lemma wake_wake [simp]: "wake c now (wake c now q) = wake c now q"
  by (simp add: wake_def)

lemma wake_fields [simp]:
  "p_parent (wake c now q) = p_parent q" "p_pid (wake c now q) = p_pid q" "p_chan (wake c now q) = p_chan q"
  "p_queue (wake c now q) = p_queue q" "p_xstate (wake c now q) = p_xstate q"
  "wake c now (q\<lparr>p_parent := x\<rparr>) = (wake c now q)\<lparr>p_parent := x\<rparr>"
  by (simp_all add: wake_def)

lemma woken_trans: "woken c now a b \<Longrightarrow> woken c now b d \<Longrightarrow> woken c now a d"
  by (auto simp: woken_def)

lemma woken_parent: "woken c now a b \<Longrightarrow> woken c now (a\<lparr>p_parent := x\<rparr>) (b\<lparr>p_parent := x\<rparr>)"
  by (auto simp: woken_def)

definition adopt :: "nat \<Rightarrow> nat option \<Rightarrow> nat \<Rightarrow> ('z kproc_scheme, unit) prog" where
  "adopt p ini pp =
     bind (get_proc pp) (\<lambda>q.
       onlyif (p_parent q = Some p)
         (bind (gets initproc) (\<lambda>ini.
          andthen (upd pp (\<lambda>q. q\<lparr>p_parent := ini\<rparr>))
          (wakeup (case ini of None \<Rightarrow> NoChan | Some i \<Rightarrow> ChanProc i)))))"

lemma reparent_adopt: "reparent p = for_each [0..<NPROC] (adopt p (initproc s))"
  by (simp add: reparent_def adopt_def [abs_def])

text \<open>The channel on which \<open>init\<close> sleeps.\<close>

abbreviation init_chan :: "nat option \<Rightarrow> chan" where
  "init_chan ini \<equiv> (case ini of None \<Rightarrow> NoChan | Some i \<Rightarrow> ChanProc i)"

lemma adopt_loop:
  assumes "\<forall>p < NPROC. cpu_proc s \<noteq> Some p \<longrightarrow> ProcLock p \<notin> held s" and "initproc s \<noteq> Some p"
  shows "\<exists>tab. for_each xs (adopt p ini) s = Ret () (s\<lparr>ptable := tab\<rparr>) \<and>
    (\<forall>q. woken (init_chan (initproc s)) (ticks s)
       (if q \<in> set xs \<and> p_parent (ptable s q) = Some p then (ptable s q)\<lparr>p_parent := initproc s\<rparr> else ptable s q)
       (tab q)) \<and> (\<forall>q. cpu_proc s = Some q \<longrightarrow> p_state (tab q) = p_state (ptable s q))"
  using assms
proof (induction xs arbitrary: s)
  case Nil
  then show ?case by (intro exI [of _ "ptable s"]) (simp add: prog_simps woken_def)
next
  case (Cons pp xs)
  let ?i = "initproc s" let ?c = "init_chan ?i" let ?now = "ticks s"
  let ?par = "\<lambda>b x. if b \<and> p_parent x = Some p then x\<lparr>p_parent := ?i\<rparr> else x"
  have "\<exists>tab1. adopt p ini pp s = Ret () (s\<lparr>ptable := tab1\<rparr>) \<and>
      (\<forall>q. woken ?c ?now (?par (q = pp) (ptable s q)) (tab1 q)) \<and>
      (\<forall>q. cpu_proc s = Some q \<longrightarrow> p_state (tab1 q) = p_state (ptable s q))"
  proof (cases "p_parent (ptable s pp) = Some p")
    case True
    let ?s = "s\<lparr>ptable := \<lambda>q. ?par (q = pp) (ptable s q)\<rparr>"
    have "(ptable s)(pp := (ptable s pp)\<lparr>p_parent := ?i\<rparr>) = (\<lambda>q. ?par (q = pp) (ptable s q))"
      using True by auto
    then have "adopt p ini pp s = wakeup ?c ?s" using True by (simp add: adopt_def prog_simps)
    also have "\<dots> = Ret () (?s\<lparr>ptable := \<lambda>q. if q < NPROC \<and> cpu_proc ?s \<noteq> Some q
      then wake ?c (ticks ?s) (ptable ?s q) else ptable ?s q\<rparr>)"
      by (rule wakeup_eq) (use Cons.prems in simp)
    finally have "adopt p ini pp s = Ret () (s\<lparr>ptable := \<lambda>q. if q < NPROC \<and> cpu_proc s \<noteq> Some q
      then wake ?c ?now (?par (q = pp) (ptable s q)) else ?par (q = pp) (ptable s q)\<rparr>)" by (simp cong: if_cong)
    then show ?thesis using True by (intro exI conjI) (assumption, auto simp: woken_def)
  next
    case False
    then show ?thesis by (intro exI [of _ "ptable s"]) (simp add: adopt_def prog_simps woken_def)
  qed
  then obtain tab1 where 1: "adopt p ini pp s = Ret () (s\<lparr>ptable := tab1\<rparr>)"
      "\<And>q. woken ?c ?now (?par (q = pp) (ptable s q)) (tab1 q)"
      "\<forall>q. cpu_proc s = Some q \<longrightarrow> p_state (tab1 q) = p_state (ptable s q)" by blast
  from Cons.IH [of "s\<lparr>ptable := tab1\<rparr>"] Cons.prems obtain tab where
    2: "for_each xs (adopt p ini) (s\<lparr>ptable := tab1\<rparr>) = Ret () (s\<lparr>ptable := tab\<rparr>)"
      "\<And>q. woken ?c ?now (?par (q \<in> set xs) (tab1 q)) (tab q)"
      "\<forall>q. cpu_proc s = Some q \<longrightarrow> p_state (tab q) = p_state (tab1 q)" by (simp cong: if_cong) blast
  have "woken ?c ?now (?par (q \<in> set (pp # xs)) (ptable s q)) (tab q)" for q
  proof -
    have par: "woken ?c ?now (?par b x) (?par b y)" if "woken ?c ?now x y" for x y b
    proof -
      have "p_parent y = p_parent x" using that by (auto simp: woken_def)
      with that show ?thesis by (auto intro: woken_parent)
    qed
    have "woken ?c ?now (?par (q \<in> set xs) (?par (q = pp) (ptable s q))) (?par (q \<in> set xs) (tab1 q))"
      by (rule par [OF 1(2)])
    from woken_trans [OF this 2(2)] show ?thesis using Cons.prems(2) by (auto split: if_splits)
  qed
  moreover have "for_each (pp # xs) (adopt p ini) s = Ret () (s\<lparr>ptable := tab\<rparr>)"
    using 1(1) 2(1) by (simp add: prog_simps)
  ultimately show ?case using 1(3) 2(3) by (intro exI [of _ tab]) simp
qed

lemma woken_not_sleeping:
  assumes "woken c now a b" and "p_state a = SLEEPING" and "p_state b \<noteq> SLEEPING"
  shows "p_state b = RUNNABLE"
  using assms by (auto simp: woken_def wake_def split: if_splits)

lemma woken_keeps:
  assumes "woken c now a b"
  shows "p_parent b = p_parent a" "p_chan b = p_chan a"
  using assms by (auto simp: woken_def)

lemma exit_finish_run:
  assumes cur: "cpu_proc s = Some p" and h: "held s = {}" and ini: "initproc s \<noteq> Some p"
    and self: "p_parent (ptable s p) \<noteq> Some p"
  shows "\<exists>t. exit_finish p status s = (Blocked t :: ('z kproc_scheme, 'a) outcome) \<and> held t = {ProcLock p} \<and>
    p_state (ptable t p) = ZOMBIE \<and> p_xstate (ptable t p) = status \<and> p_etime (ptable t p) = ticks s \<and>
    (\<forall>q < NPROC. p_parent (ptable t q) =
       (if p_parent (ptable s q) = Some p then initproc s else p_parent (ptable s q))) \<and>
    (\<forall>pp < NPROC. p_parent (ptable s p) = Some pp \<and> p_state (ptable s pp) = SLEEPING \<and>
       p_chan (ptable s pp) = ChanProc pp \<longrightarrow> p_state (ptable t pp) = RUNNABLE)"
proof -
  let ?s = "s\<lparr>held := {WaitLock}\<rparr>"
  have "\<forall>q < NPROC. cpu_proc ?s \<noteq> Some q \<longrightarrow> ProcLock q \<notin> held ?s" by simp
  from adopt_loop [OF this, of p "[0..<NPROC]" "initproc s"] ini obtain tab where
    r: "reparent p ?s = Ret () (?s\<lparr>ptable := tab\<rparr>)"
    and w: "\<And>q. woken (init_chan (initproc s)) (ticks s)
       (if q \<in> set [0..<NPROC] \<and> p_parent (ptable s q) = Some p then (ptable s q)\<lparr>p_parent := initproc s\<rparr> else ptable s q)
       (tab q)"
    unfolding reparent_adopt [of p s] by (auto cong: if_cong)
  have par: "p_parent (tab q) = (if q < NPROC \<and> p_parent (ptable s q) = Some p then initproc s else p_parent (ptable s q))" for q
    using woken_keeps(1) [OF w [of q]] by (simp split: if_splits)
  let ?c = "case p_parent (ptable s p) of None \<Rightarrow> NoChan | Some pp \<Rightarrow> ChanProc pp"
  let ?tab = "\<lambda>q. if q < NPROC \<and> cpu_proc s \<noteq> Some q then wake ?c (ticks s) (tab q) else tab q"
  have wk: "wakeup ?c (?s\<lparr>ptable := tab\<rparr>) = Ret () (?s\<lparr>ptable := ?tab\<rparr>)"
    by (subst wakeup_eq) (simp_all cong: if_cong)
  let ?t = "s\<lparr>held := {ProcLock p}, ptable := ?tab(p := (?tab p)\<lparr>p_xstate := status, p_state := ZOMBIE, p_etime := ticks s\<rparr>)\<rparr>"
  have "p_parent (tab p) = p_parent (ptable s p)" using par [of p] self by (simp split: if_splits)
  moreover have "insert (ProcLock p) {WaitLock} - {WaitLock} = {ProcLock p}" by auto
  ultimately have run: "exit_finish p status s = Blocked ?t"
    using h cur r wk by (simp add: exit_finish_def prog_simps sched_def curproc_def myproc_def)
  have "p_state (?tab pp) = RUNNABLE" if "pp < NPROC" "p_parent (ptable s p) = Some pp"
    "p_state (ptable s pp) = SLEEPING" "p_chan (ptable s pp) = ChanProc pp" for pp
  proof -
    have ne: "cpu_proc s \<noteq> Some pp" using that(2) self cur by auto
    have "p_chan (tab pp) = ChanProc pp" using woken_keeps(2) [OF w [of pp]] that by (simp split: if_splits)
    moreover have "p_state (tab pp) = SLEEPING \<or> p_state (tab pp) = RUNNABLE"
      using woken_not_sleeping [OF w [of pp]] that
      by (cases "p_parent (ptable s pp) = Some p") auto
    ultimately show ?thesis using ne that by (auto simp: wake_def)
  qed
  moreover have "pp \<noteq> p" if "p_parent (ptable s p) = Some pp" for pp using that self by auto
  ultimately show ?thesis
    using run cur par by (intro exI [of _ ?t]) auto
qed

section \<open>Waiting\<close>

text \<open>
  What \<open>wait_scan\<close> does with a child that has exited: the copy of its exit status to user memory,
  and what follows it.
\<close>

definition copy_status :: "u64 \<Rightarrow> u64 \<Rightarrow> proc \<Rightarrow> ('z kproc_scheme, i32) prog" where
  "copy_status pt addr q = (if addr \<noteq> 0 then copyout pt addr (bytes32 (p_xstate q)) 4 else return 0)"

definition reap_finish :: "nat \<Rightarrow> proc \<Rightarrow> i32 \<Rightarrow> ('z kproc_scheme, bool + i32 \<times> u32 \<times> u32) prog" where
  "reap_finish np q r =
     (let ts = (p_rtime q, p_etime q - p_ctime q - p_rtime q) in
      if sint r < 0 then
        andthen (release (ProcLock np)) (andthen (release WaitLock) (return (Inr (-1, ts))))
      else
        andthen (freeproc np) (andthen (release (ProcLock np))
        (andthen (release WaitLock) (return (Inr (p_pid q, ts))))))"

definition reap :: "nat \<Rightarrow> u64 \<Rightarrow> nat \<Rightarrow> ('z kproc_scheme, bool + i32 \<times> u32 \<times> u32) prog" where
  "reap p addr np = (\<lambda>s. bind (copy_status (p_pagetable (ptable s p)) addr (ptable s np)) (reap_finish np (ptable s np)) s)"

lemma quiet_copy_status [quiet_intros]: "quiet (copy_status pt addr q)"
  unfolding copy_status_def by (intro quiet_intros)

lemma wait_scan_Cons:
  assumes "p_parent (ptable s np) = Some p" and "ProcLock np \<notin> held s"
  shows "wait_scan p addr hk (np # nps) s =
    (if p_state (ptable s np) = ZOMBIE then reap p addr np (s\<lparr>held := insert (ProcLock np) (held s)\<rparr>)
     else wait_scan p addr True nps s)"
  using assms
  by (cases "p_state (ptable s np) = ZOMBIE")
     (simp_all add: bind_apply reap_def reap_finish_def copy_status_def Let_def cong: outcome.case_cong if_cong split del: if_split)

lemma wait_scan_skip:
  "p_parent (ptable s np) \<noteq> Some p \<Longrightarrow> wait_scan p addr hk (np # nps) s = wait_scan p addr hk nps s"
  by (simp add: bind_apply)

declare wait_scan.simps(2) [simp del]

lemma nosleep_get_proc [nosleep_intros]: "nosleep (get_proc p)"
  by (rule nosleep_quiet) (rule quiet_get_proc)

lemma nosleep_wait_scan [nosleep_intros]: "nosleep (wait_scan p addr hk nps)"
proof (induction nps arbitrary: hk)
  case Nil
  show ?case unfolding wait_scan.simps by (intro nosleep_intros)
next
  case (Cons np nps)
  show ?case unfolding wait_scan.simps Let_def
    by (intro nosleep_intros Cons.IH nosleep_quiet [OF quiet_copyout])
qed

lemma nosleep_copy_status [nosleep_intros]: "nosleep (copy_status pt addr q)"
  by (rule nosleep_quiet) (rule quiet_copy_status)

text \<open>The times of a child as \<open>waitx\<close> reports them: the time it ran, and the rest of its lifetime.\<close>

definition child_times :: "proc \<Rightarrow> u32 \<times> u32" where
  "child_times q = (p_rtime q, p_etime q - p_ctime q - p_rtime q)"

text \<open>
  The release of the slot of an exited child, with the number that \<open>wait\<close> and \<open>waitx\<close> return: the
  status is copied first, and the slot is released only if that did not fail.
\<close>

definition reaped :: "nat \<Rightarrow> u64 \<Rightarrow> nat \<Rightarrow> ('z kproc_scheme, i32) prog" where
  "reaped p addr np = (\<lambda>s.
     case copy_status (p_pagetable (ptable s p)) addr (ptable s np) s of
       Ret k u \<Rightarrow>
         if sint k < 0 then Ret (-1) (u\<lparr>held := {}\<rparr>)
         else (case freeproc np u of
             Ret _ v \<Rightarrow> Ret (p_pid (ptable s np)) (v\<lparr>held := {}\<rparr>)
           | Panic m \<Rightarrow> Panic m
           | Blocked v \<Rightarrow> Blocked v)
     | Panic m \<Rightarrow> Panic m
     | Blocked u \<Rightarrow> Blocked u)"

lemma reap_eq:
  assumes "held s = {ProcLock np, WaitLock}"
  shows "reap p addr np s = bind (reaped p addr np) (\<lambda>r. return (Inr (r, child_times (ptable s np)))) s"
proof -
  have d: "{ProcLock np, WaitLock} - {ProcLock np} = {WaitLock}" by auto
  show ?thesis
  proof (cases "copy_status (p_pagetable (ptable s p)) addr (ptable s np) s")
    case (Ret k u)
    have hu: "held u = {ProcLock np, WaitLock}"
      using quiet_rest(1) [OF quiet_copy_status Ret] assms by (simp add: rest_same_def)
    have "held v = {ProcLock np, WaitLock}" if "freeproc np u = Ret x v" for x v
      using freeproc_Ret(2) [OF that] hu by (simp add: rest_same_def)
    then show ?thesis using Ret hu d
      by (simp add: reap_def reaped_def reap_finish_def child_times_def Let_def prog_simps split: outcome.splits)
  qed (simp_all add: reap_def reaped_def bind_apply)
qed

lemma reaped_outcome:
  "case copy_status (p_pagetable (ptable s p)) addr (ptable s np) s of
     Ret k u \<Rightarrow> ptable u = ptable s \<and>
       (if sint k < 0 then reaped p addr np s = Ret (-1) (u\<lparr>held := {}\<rparr>)
        else (case freeproc np u of
            Ret _ v \<Rightarrow> reaped p addr np s = Ret (p_pid (ptable s np)) (v\<lparr>held := {}\<rparr>) \<and>
              ptable v = (ptable s)(np := freed (ptable s np))
          | Panic m \<Rightarrow> reaped p addr np s = Panic m
          | Blocked v \<Rightarrow> False))
   | Panic m \<Rightarrow> reaped p addr np s = Panic m
   | Blocked u \<Rightarrow> False"
proof (cases "copy_status (p_pagetable (ptable s p)) addr (ptable s np) s")
  case (Ret k u)
  then show ?thesis
    using quiet_rest(2) [OF quiet_copy_status Ret] freeproc_Ret(1) [of np u] nosleepD [OF nosleep_freeproc, of np u]
    by (cases "freeproc np u") (simp_all add: reaped_def, blast)
next
  case (Blocked u)
  then show ?thesis using nosleepD [OF nosleep_copy_status] by blast
qed (simp add: reaped_def)

text \<open>The first child of process \<open>p\<close> in the table that has exited.\<close>

definition exited_child :: "nat \<Rightarrow> (nat \<Rightarrow> proc) \<Rightarrow> nat option" where
  "exited_child p tab = find (\<lambda>np. p_parent (tab np) = Some p \<and> p_state (tab np) = ZOMBIE) [0..<NPROC]"

lemma exited_child_chan [simp]:
  "exited_child p (tab(q := (tab q)\<lparr>p_chan := c\<rparr>)) = exited_child p tab"
  unfolding exited_child_def by (rule find_cong) auto

lemma wait_scan_eq:
  assumes "\<forall>q. ProcLock q \<notin> held s"
  shows "wait_scan p addr hk nps s =
    (case find (\<lambda>np. p_parent (ptable s np) = Some p \<and> p_state (ptable s np) = ZOMBIE) nps of
       None \<Rightarrow> Ret (Inl (hk \<or> (\<exists>np \<in> set nps. p_parent (ptable s np) = Some p))) s
     | Some np \<Rightarrow> reap p addr np (s\<lparr>held := insert (ProcLock np) (held s)\<rparr>))"
  using assms
proof (induction nps arbitrary: hk)
  case (Cons np nps)
  then show ?case
    by (cases "p_parent (ptable s np) = Some p") (simp_all add: wait_scan_Cons wait_scan_skip cong: option.case_cong)
qed (simp add: return_apply)

text \<open>The end of a round of \<open>wait\<close> that has found no exited child, and a round of \<open>waitx\<close> against one of \<open>wait\<close>.\<close>

definition wait_idle :: "nat \<Rightarrow> 'z kproc_scheme \<Rightarrow> ('z kproc_scheme, 'a) outcome \<Rightarrow> ('z kproc_scheme, 'a) outcome" where
  "wait_idle p s none =
     (if (\<forall>np < NPROC. p_parent (ptable s np) \<noteq> Some p) \<or> p_killed (ptable s p) \<noteq> 0 then none
      else Blocked (s\<lparr>held := {ProcLock p},
        ptable := (ptable s)(p := (ptable s p)\<lparr>p_chan := ChanProc p, p_state := SLEEPING, p_stime := ticks s\<rparr>)\<rparr>))"

lemma wait_eq:
  assumes "cpu_proc s = Some p" and "held s = {}"
  shows "wait addr s = (case exited_child p (ptable s) of
       None \<Rightarrow> wait_idle p s (Ret (-1) s)
     | Some np \<Rightarrow> reaped p addr np (s\<lparr>held := {ProcLock np, WaitLock}\<rparr>))" (is ?wait)
    and "waitx addr s = (case exited_child p (ptable s) of
       None \<Rightarrow> wait_idle p s (Ret (-1, None) s)
     | Some np \<Rightarrow> bind (reaped p addr np) (\<lambda>r. return (r, Some (child_times (ptable s np))))
         (s\<lparr>held := {ProcLock np, WaitLock}\<rparr>))" (is ?waitx)
proof -
  let ?s = "s\<lparr>held := {WaitLock}\<rparr>"
  have w: "wait addr s = wait_round p addr ?s" "waitx addr s = waitx_round p addr ?s"
    using assms by (simp_all add: wait_def waitx_def prog_simps curproc_Some)
  have "\<forall>q. ProcLock q \<notin> held ?s" by simp
  note scan = wait_scan_eq [OF this, of p addr False "[0..<NPROC]"]
  have z: "sleep (ChanProc p) WaitLock ?s = Blocked (s\<lparr>held := {ProcLock p},
      ptable := (ptable s)(p := (ptable s p)\<lparr>p_chan := ChanProc p, p_state := SLEEPING, p_stime := ticks s\<rparr>)\<rparr>)"
    using assms(1) by (subst sleep_eq [of _ p]) simp_all
  have s: "s\<lparr>held := {}\<rparr> = s" using assms(2) by simp
  have "?wait \<and> ?waitx"
  proof (cases "exited_child p (ptable s)")
    case None
    then show ?thesis unfolding w wait_idle_def using scan z z s
      by (auto simp: wait_round_def waitx_round_def exited_child_def prog_simps)
  next
    case (Some np)
    then show ?thesis unfolding w using scan
      by (simp add: wait_round_def waitx_round_def exited_child_def prog_simps reap_eq split: outcome.splits)
  qed
  then show ?wait ?waitx by simp_all
qed

lemma wait_resume_eq:
  assumes "cpu_proc s = Some p" and "held s = {}"
  shows "wait_resume p addr (s\<lparr>held := {ProcLock p}\<rparr>) =
      wait addr (s\<lparr>ptable := (ptable s)(p := (ptable s p)\<lparr>p_chan := NoChan\<rparr>)\<rparr>)"
    and "waitx_resume p addr (s\<lparr>held := {ProcLock p}\<rparr>) =
      waitx addr (s\<lparr>ptable := (ptable s)(p := (ptable s p)\<lparr>p_chan := NoChan\<rparr>)\<rparr>)"
proof -
  have "s\<lparr>ptable := tab, held := h\<rparr> = s\<lparr>held := h, ptable := tab\<rparr>" for tab h by (cases s) simp
  note c = this
  show "wait_resume p addr (s\<lparr>held := {ProcLock p}\<rparr>) =
      wait addr (s\<lparr>ptable := (ptable s)(p := (ptable s p)\<lparr>p_chan := NoChan\<rparr>)\<rparr>)"
    and "waitx_resume p addr (s\<lparr>held := {ProcLock p}\<rparr>) =
      waitx addr (s\<lparr>ptable := (ptable s)(p := (ptable s p)\<lparr>p_chan := NoChan\<rparr>)\<rparr>)"
    using assms
    by (simp_all add: wait_resume_def waitx_resume_def wait_def waitx_def sleep_resume_eq curproc_Some prog_simps)
       (simp_all only: c)
qed

section \<open>Properties\<close>

lemma allocproc_run:
  assumes "\<forall>p. ProcLock p \<notin> held s" and "PidLock \<notin> held s" and "allocproc s = Ret r t"
  shows "case r of
      None \<Rightarrow> held t = held s \<and> (\<forall>q. p_state (ptable s q) \<noteq> UNUSED \<longrightarrow> ptable t q = ptable s q) \<and>
        (\<forall>q. p_queue (ptable t q) = p_queue (ptable s q))
    | Some p \<Rightarrow> p < NPROC \<and> p_state (ptable s p) = UNUSED \<and> held t = insert (ProcLock p) (held s) \<and>
        (\<forall>q. q \<noteq> p \<longrightarrow> ptable t q = ptable s q) \<and>
        p_state (ptable t p) = USED \<and> p_pid (ptable t p) = nextpid s \<and> nextpid t = nextpid s + 1 \<and>
        p_ctime (ptable t p) = ticks s \<and> p_rtime (ptable t p) = 0 \<and> p_queue (ptable t p) = 0 \<and>
        p_killed (ptable t p) = p_killed (ptable s p) \<and> p_stime (ptable t p) = p_stime (ptable s p) \<and>
        p_mask (ptable t p) = p_mask (ptable s p)"
proof (cases "find (\<lambda>p. p_state (ptable s p) = UNUSED) [0..<NPROC]")
  case None
  then have "allocproc s = Ret None s"
    using assms(1) allocproc_scan_eq [of "[0..<NPROC]" s] by (simp add: allocproc_fill prog_simps)
  with assms(3) show ?thesis by simp
next
  case (Some p)
  then have p: "p < NPROC" "p_state (ptable s p) = UNUSED" by (auto simp: find_Some_iff)
  let ?s = "s\<lparr>held := insert (ProcLock p) (held s), nextpid := nextpid s + 1,
    ptable := (ptable s)(p := (ptable s p)\<lparr>p_pid := nextpid s, p_state := USED\<rparr>)\<rparr>"
  have "allocproc s = alloc_fill p ?s"
    using assms(1,2) Some allocproc_scan_eq [of "[0..<NPROC]" s] by (simp add: allocproc_fill prog_simps allocpid_eq)
  then have run: "alloc_fill p ?s = Ret r t" using assms(3) by simp
  have "ProcLock p \<in> held ?s" by simp
  from alloc_fill_Ret [OF run this] show ?thesis
  proof (elim disjE conjE exE)
    assume "r = None" "\<forall>q. q \<noteq> p \<longrightarrow> ptable t q = ptable ?s q" "p_queue (ptable t p) = p_queue (ptable ?s p)"
      "rest_same (?s\<lparr>held := held ?s - {ProcLock p}\<rparr>) t"
    moreover from this have "p_queue (ptable t q) = p_queue (ptable s q)" for q by (cases "q = p") simp_all
    ultimately show ?thesis using p assms(1) by (simp add: rest_same_def) metis
  next
    fix tf pt
    assume "r = Some p" "rest_same ?s t"
      "ptable t = (ptable ?s)(p := fresh (ticks ?s) (forkret_addr ?s) ((ptable ?s p)\<lparr>p_trapframe := tf, p_pagetable := pt\<rparr>))"
    then show ?thesis using p by (simp add: rest_same_def fresh_def)
  qed
qed

text \<open>
  C23: allocproc either finds an unused slot and returns with its lock held, the slot marked USED, a
  new process number and fresh counters, or returns 0 with the locks as before. In both cases no
  slot that was in use changes. The fields \<open>killed\<close>, \<open>stime\<close> and \<open>mask\<close> of the slot are not
  initialised: they keep what the previous user of the slot left there.
\<close>

theorem allocproc_slot:
  assumes "\<forall>p. ProcLock p \<notin> held s" and "PidLock \<notin> held s" and "allocproc s = Ret r t"
  shows "case r of
      None \<Rightarrow> held t = held s \<and> (\<forall>q. p_state (ptable s q) \<noteq> UNUSED \<longrightarrow> ptable t q = ptable s q)
    | Some p \<Rightarrow> p < NPROC \<and> p_state (ptable s p) = UNUSED \<and> held t = insert (ProcLock p) (held s) \<and>
        (\<forall>q. q \<noteq> p \<longrightarrow> ptable t q = ptable s q) \<and>
        p_state (ptable t p) = USED \<and> p_pid (ptable t p) = nextpid s \<and> nextpid t = nextpid s + 1 \<and>
        p_ctime (ptable t p) = ticks s \<and> p_rtime (ptable t p) = 0 \<and> p_queue (ptable t p) = 0 \<and>
        p_killed (ptable t p) = p_killed (ptable s p) \<and> p_stime (ptable t p) = p_stime (ptable s p) \<and>
        p_mask (ptable t p) = p_mask (ptable s p)"
  using allocproc_run [OF assms] by (simp split: option.splits)

text \<open>A process table with no free slot, and the kernel with it.\<close>

definition full_table :: "nat \<Rightarrow> proc" where
  "full_table p = blank_proc\<lparr>p_state := SLEEPING, p_pid := of_nat p + 1, p_chan := ChanProc p,
     p_parent := (if p = 0 then None else Some 0)\<rparr>"

text \<open>With a free slot but no free page, \<open>allocproc\<close> gives the slot up again.\<close>

lemma allocproc_no_memory: "\<exists>t. allocproc demo = Ret None t"
proof -
  have f: "find (\<lambda>p. p_state (ptable demo p) = UNUSED) [0..<NPROC] = Some 0"
    by (simp add: idle_kernel_def three_runnable_def blank_proc_def upt_conv_Cons)
  show ?thesis
    using f allocproc_scan_eq [of "[0..<NPROC]" demo]
    by (simp add: allocproc_fill alloc_fill_def alloc_fail_def prog_simps idle_kernel_def allocpid_def kalloc_def
        with_lock_def acquire_def release_def upd_def freeproc_def get_proc_def three_runnable_def blank_proc_def)
qed

theorem allocproc_slot_witness:
  "\<exists>t. allocproc demo = Ret None t \<and> held t = {} \<and> ptable t 1 = three_runnable 1 \<and> ptable t 5 = three_runnable 5"
proof -
  obtain t where t: "allocproc demo = Ret None t" using allocproc_no_memory ..
  have "case (None :: nat option) of None \<Rightarrow> held t = held demo \<and>
      (\<forall>q. p_state (ptable demo q) \<noteq> UNUSED \<longrightarrow> ptable t q = ptable demo q) | Some _ \<Rightarrow> True"
    using allocproc_slot [OF _ _ t] by (simp add: idle_kernel_def)
  then show ?thesis using t by (simp add: idle_kernel_def three_runnable_def)
qed

text \<open>
  wakeup makes exactly the processes runnable that sleep on the channel, apart from the caller,
  and turns their time stamp into the time slept; nothing else changes.
\<close>

theorem wakeup_exact:
  assumes "\<forall>p < NPROC. cpu_proc s \<noteq> Some p \<longrightarrow> ProcLock p \<notin> held s"
  shows "\<exists>tab. wakeup c s = Ret () (s\<lparr>ptable := tab\<rparr>) \<and>
    (\<forall>p. tab p = (if p < NPROC \<and> cpu_proc s \<noteq> Some p \<and> p_state (ptable s p) = SLEEPING \<and> p_chan (ptable s p) = c
       then (ptable s p)\<lparr>p_state := RUNNABLE, p_stime := ticks s - p_stime (ptable s p)\<rparr> else ptable s p))"
  unfolding wakeup_eq [OF assms] by (intro exI conjI refl) (auto simp: wake_def)

theorem wakeup_exact_witness:
  "\<exists>tab. wakeup (ChanProc 3) (idle_kernel full_table) = Ret () (idle_kernel full_table\<lparr>ptable := tab\<rparr>) \<and>
    (\<forall>p. tab p = (if p < NPROC \<and> cpu_proc (idle_kernel full_table) \<noteq> Some p \<and>
         p_state (ptable (idle_kernel full_table) p) = SLEEPING \<and> p_chan (ptable (idle_kernel full_table) p) = ChanProc 3
       then (ptable (idle_kernel full_table) p)\<lparr>p_state := RUNNABLE,
         p_stime := ticks (idle_kernel full_table) - p_stime (ptable (idle_kernel full_table) p)\<rparr>
       else ptable (idle_kernel full_table) p))"
  by (rule wakeup_exact) (simp add: idle_kernel_def)

text \<open>
  Kill returns -1 without any effect if no slot has the process number. Otherwise it marks the
  first such slot as killed and, if that process sleeps, makes it runnable; the time stamp
  \<open>stime\<close> of the sleep is not turned into a duration. A free slot has process number 0, so
  \<open>kill(0)\<close> succeeds whenever a slot is free, and marks it.
\<close>

theorem kill_exact:
  assumes "\<forall>p < NPROC. ProcLock p \<notin> held s"
  shows "if \<forall>p < NPROC. p_pid (ptable s p) \<noteq> pid then kill pid s = Ret (-1) s
    else \<exists>p < NPROC. p_pid (ptable s p) = pid \<and> (\<forall>q < p. p_pid (ptable s q) \<noteq> pid) \<and>
      kill pid s = Ret 0 (s\<lparr>ptable := (ptable s)(p := (ptable s p)\<lparr>p_killed := 1,
        p_state := (if p_state (ptable s p) = SLEEPING then RUNNABLE else p_state (ptable s p))\<rparr>)\<rparr>)"
proof (cases "find (\<lambda>p. p_pid (ptable s p) = pid) [0..<NPROC]")
  case None
  then have "\<forall>p < NPROC. p_pid (ptable s p) \<noteq> pid" by (auto simp: find_None_iff)
  moreover have "kill pid s = Ret (-1) s"
    using None assms kill_scan_eq [of "[0..<NPROC]" s pid] by (simp add: kill_def)
  ultimately show ?thesis by simp
next
  case (Some p)
  then have p: "p < NPROC" "p_pid (ptable s p) = pid" "\<forall>q < p. p_pid (ptable s q) \<noteq> pid"
    by (auto simp: find_Some_iff)
  have "kill pid s = Ret 0 (s\<lparr>ptable := (ptable s)(p := slain (ptable s p))\<rparr>)"
    using Some assms kill_scan_eq [of "[0..<NPROC]" s pid] by (simp add: kill_def)
  then show ?thesis using p unfolding slain_def by (auto cong: if_cong)
qed

theorem kill_exact_witness:
  "if \<forall>p < NPROC. p_pid (ptable (idle_kernel full_table) p) \<noteq> 99 then kill 99 (idle_kernel full_table) = Ret (-1) (idle_kernel full_table)
    else \<exists>p < NPROC. p_pid (ptable (idle_kernel full_table) p) = 99 \<and> (\<forall>q < p. p_pid (ptable (idle_kernel full_table) q) \<noteq> 99) \<and>
      kill 99 (idle_kernel full_table) = Ret 0 (idle_kernel full_table\<lparr>ptable := (ptable (idle_kernel full_table))(p :=
        (ptable (idle_kernel full_table) p)\<lparr>p_killed := 1,
        p_state := (if p_state (ptable (idle_kernel full_table) p) = SLEEPING then RUNNABLE
          else p_state (ptable (idle_kernel full_table) p))\<rparr>)\<rparr>)"
  by (rule kill_exact [OF idle_kernel_unlocked])

text \<open>
  C24: the end of exit. It always gives up the hart, holding only the lock of the process: the process
  is a zombie with its status and end time set, its children and only they have \<open>init\<close> as their new
  parent, and the parent is runnable if it was asleep in wait.
\<close>

theorem exit_becomes_zombie:
  assumes "cpu_proc s = Some p" and "held s = {}" and "initproc s \<noteq> Some p" and "p_parent (ptable s p) \<noteq> Some p"
  shows "\<exists>t. exit_finish p status s = (Blocked t :: ('z kproc_scheme, 'a) outcome) \<and> held t = {ProcLock p} \<and>
    p_state (ptable t p) = ZOMBIE \<and> p_xstate (ptable t p) = status \<and> p_etime (ptable t p) = ticks s \<and>
    (\<forall>q < NPROC. p_parent (ptable t q) =
       (if p_parent (ptable s q) = Some p then initproc s else p_parent (ptable s q))) \<and>
    (\<forall>pp < NPROC. p_parent (ptable s p) = Some pp \<and> p_state (ptable s pp) = SLEEPING \<and>
       p_chan (ptable s pp) = ChanProc pp \<longrightarrow> p_state (ptable t pp) = RUNNABLE)"
  by (rule exit_finish_run [OF assms])

definition exiting :: kproc where
  "exiting = (idle_kernel full_table)\<lparr>cpu_proc := Some 5\<rparr>"

theorem exit_becomes_zombie_witness:
  "\<exists>t. exit_finish 5 7 exiting = (Blocked t :: (kproc, unit) outcome) \<and> held t = {ProcLock 5} \<and>
    p_state (ptable t 5) = ZOMBIE \<and> p_xstate (ptable t 5) = 7 \<and> p_etime (ptable t 5) = ticks exiting \<and>
    (\<forall>q < NPROC. p_parent (ptable t q) =
       (if p_parent (ptable exiting q) = Some 5 then initproc exiting else p_parent (ptable exiting q))) \<and>
    (\<forall>pp < NPROC. p_parent (ptable exiting 5) = Some pp \<and> p_state (ptable exiting pp) = SLEEPING \<and>
       p_chan (ptable exiting pp) = ChanProc pp \<longrightarrow> p_state (ptable t pp) = RUNNABLE)"
  by (rule exit_becomes_zombie) (simp_all add: exiting_def idle_kernel_def full_table_def)

text \<open>
  C25: wait. If a child has exited, the first one in the table is taken: the four bytes of its exit
  status are copied to \<open>addr\<close> in the address space of the caller (nothing is copied if \<open>addr\<close> is 0). If
  that copy fails, wait returns -1 and no slot has changed; otherwise the slot of the child is
  released and its process number is returned. If no child has exited, wait returns -1 with
  nothing changed when there is no child at all or the caller was killed, and otherwise goes to
  sleep on the channel of the caller. Whenever it returns it holds no lock. A caller that was woken
  up does the same as one that calls wait anew.
\<close>

theorem wait_outcome:
  assumes "cpu_proc s = Some p" and "held s = {}"
  shows "(case find (\<lambda>np. p_parent (ptable s np) = Some p \<and> p_state (ptable s np) = ZOMBIE) [0..<NPROC] of
      Some np \<Rightarrow>
        (case (if addr = 0 then return 0
               else copyout (p_pagetable (ptable s p)) addr (bytes32 (p_xstate (ptable s np))) 4)
            (s\<lparr>held := {ProcLock np, WaitLock}\<rparr>) of
          Ret k u \<Rightarrow> ptable u = ptable s \<and>
            (if sint k < 0 then wait addr s = Ret (-1) (u\<lparr>held := {}\<rparr>)
             else (case freeproc np u of
                 Ret _ v \<Rightarrow> wait addr s = Ret (p_pid (ptable s np)) (v\<lparr>held := {}\<rparr>) \<and>
                   ptable v = (ptable s)(np := freed (ptable s np))
               | Panic m \<Rightarrow> wait addr s = Panic m
               | Blocked v \<Rightarrow> False))
        | Panic m \<Rightarrow> wait addr s = Panic m
        | Blocked u \<Rightarrow> False)
    | None \<Rightarrow>
        if (\<forall>np < NPROC. p_parent (ptable s np) \<noteq> Some p) \<or> p_killed (ptable s p) \<noteq> 0 then wait addr s = Ret (-1) s
        else wait addr s = Blocked (s\<lparr>held := {ProcLock p},
          ptable := (ptable s)(p := (ptable s p)\<lparr>p_chan := ChanProc p, p_state := SLEEPING, p_stime := ticks s\<rparr>)\<rparr>)) \<and>
    wait_resume p addr (s\<lparr>held := {ProcLock p}\<rparr>) =
      wait addr (s\<lparr>ptable := (ptable s)(p := (ptable s p)\<lparr>p_chan := NoChan\<rparr>)\<rparr>)" (is "?outcome \<and> _")
proof (intro conjI wait_resume_eq(1) [OF assms])
  note W = wait_eq(1) [OF assms, of addr, unfolded exited_child_def]
  show ?outcome
  proof (cases "find (\<lambda>np. p_parent (ptable s np) = Some p \<and> p_state (ptable s np) = ZOMBIE) [0..<NPROC]")
    case None
    then show ?thesis using W by (simp add: wait_idle_def)
  next
    case (Some np)
    let ?L = "s\<lparr>held := {ProcLock np, WaitLock}\<rparr>"
    let ?c = "copy_status (p_pagetable (ptable s p)) addr (ptable s np)"
    have c: "(if addr = 0 then return 0
      else copyout (p_pagetable (ptable s p)) addr (bytes32 (p_xstate (ptable s np))) 4) = ?c"
      by (simp add: copy_status_def)
    have w: "wait addr s = reaped p addr np ?L" and L: "ptable ?L = ptable s" using Some W by simp_all
    show ?thesis unfolding Some option.case c w by (rule reaped_outcome [of ?L p addr np, unfolded L])
  qed
qed

text \<open>Process 5 has one child, in slot 7, that was created at time 5, ended at time 20 and ran for 3 ticks.\<close>

definition parent_table :: "nat \<Rightarrow> proc" where
  "parent_table = (\<lambda>_. blank_proc)(7 := blank_proc\<lparr>p_state := ZOMBIE, p_pid := 9, p_parent := Some 5,
     p_rtime := 3, p_ctime := 5, p_etime := 20\<rparr>)"

definition waiting_parent :: kproc where
  "waiting_parent = (idle_kernel parent_table)\<lparr>cpu_proc := Some 5\<rparr>"

lemma waiting_parent_simps:
  "cpu_proc waiting_parent = Some 5" "held waiting_parent = {}" "ptable waiting_parent = parent_table"
  by (simp_all add: waiting_parent_def idle_kernel_def)

lemma exited_parent_table:
  "find (\<lambda>np. p_parent (parent_table np) = Some 5 \<and> p_state (parent_table np) = ZOMBIE) [0..<NPROC] = Some 7"
  by (simp add: parent_table_def blank_proc_def upt_conv_Cons)

lemma freeproc_bare:
  assumes "p_trapframe (ptable s p) = 0" and "p_pagetable (ptable s p) = 0"
  shows "freeproc p s = Ret () (s\<lparr>ptable := (ptable s)(p := freed (ptable s p))\<rparr>)"
  using assms by (simp add: freeproc_def get_proc_def upd_def freed_def prog_simps)

lemma freeproc_parent_table:
  assumes "ptable s = parent_table"
  shows "freeproc 7 s = Ret () (s\<lparr>ptable := parent_table(7 := freed (parent_table 7))\<rparr>)"
proof -
  have "p_trapframe (parent_table 7) = 0" "p_pagetable (parent_table 7) = 0"
    by (simp_all add: parent_table_def blank_proc_def)
  then show ?thesis using freeproc_bare [of s 7] assms by simp
qed

theorem wait_outcome_witness:
  "wait 0 waiting_parent = Ret 9 (waiting_parent\<lparr>ptable := parent_table(7 := freed (parent_table 7))\<rparr>)"
proof -
  have "waiting_parent\<lparr>held := {ProcLock 7, WaitLock}, ptable := t, held := {}\<rparr> = waiting_parent\<lparr>ptable := t\<rparr>" for t
    by (simp add: waiting_parent_def idle_kernel_def)
  moreover have "p_pid (parent_table 7) = 9" by (simp add: parent_table_def)
  ultimately show ?thesis
    using wait_outcome [OF waiting_parent_simps(1,2), of 0]
    by (simp add: waiting_parent_simps exited_parent_table freeproc_parent_table return_apply)
qed

text \<open>
  C15: waitx of the kernel. It does what wait does (it returns, sleeps or panics as wait does, and
  leaves the same state), and in addition it gives its caller two times of the child that was
  found: \<open>*rtime\<close> is the number of ticks the child ran, and \<open>*wtime\<close> the rest of its lifetime,
  \<open>etime - ctime - rtime\<close>. If no child has exited, neither is set. A caller that was woken up does
  the same as one that calls waitx anew.
\<close>

theorem waitx_times:
  assumes "cpu_proc s = Some p" and "held s = {}"
  shows "waitx addr s =
      (case wait addr s of
         Ret pid t \<Rightarrow>
           Ret (pid, case find (\<lambda>np. p_parent (ptable s np) = Some p \<and> p_state (ptable s np) = ZOMBIE) [0..<NPROC] of
               None \<Rightarrow> None
             | Some np \<Rightarrow> Some (p_rtime (ptable s np),
                 p_etime (ptable s np) - p_ctime (ptable s np) - p_rtime (ptable s np))) t
       | Panic m \<Rightarrow> Panic m
       | Blocked t \<Rightarrow> Blocked t) \<and>
    waitx_resume p addr (s\<lparr>held := {ProcLock p}\<rparr>) =
      waitx addr (s\<lparr>ptable := (ptable s)(p := (ptable s p)\<lparr>p_chan := NoChan\<rparr>)\<rparr>)" (is "?times \<and> _")
proof (intro conjI wait_resume_eq(2) [OF assms])
  note W = wait_eq [OF assms, of addr, unfolded exited_child_def child_times_def wait_idle_def bind_apply return_apply]
  show ?times unfolding W
    by (cases "find (\<lambda>np. p_parent (ptable s np) = Some p \<and> p_state (ptable s np) = ZOMBIE) [0..<NPROC]")
       (simp_all split: outcome.splits)
qed

theorem waitx_times_witness:
  "\<exists>t. waitx 0 waiting_parent = Ret (9, Some (3, 12)) t \<and> ptable t = parent_table(7 := freed (parent_table 7))"
proof -
  obtain t where t: "wait 0 waiting_parent = Ret 9 t" "ptable t = parent_table(7 := freed (parent_table 7))"
    by (simp add: wait_eq(1) [OF waiting_parent_simps(1,2)] exited_child_def waiting_parent_simps exited_parent_table
        reaped_def copy_status_def return_apply freeproc_parent_table) (simp add: parent_table_def)
  show ?thesis
    using waitx_times [OF waiting_parent_simps(1,2), of 0] t
    by (simp add: waiting_parent_simps exited_parent_table) (simp add: parent_table_def)
qed

end
