(* ===== verification/Sleeplock.thy ===== *)
theory Sleeplock
  imports ProcFacts
begin

text \<open>
  The sleep-locks of kernel/sleeplock.c. \<open>acquiresleep\<close> goes to sleep while the lock is taken and
  looks at it again when it is woken; the result is that no wakeup is lost: whoever sleeps for a
  lock sleeps only as long as the lock is taken.
\<close>

section \<open>State and operations\<close>

record sleeplock =
  sl_locked :: u32
  sl_name :: string
  sl_pid :: i32

record kslk = kproc +
  sleeplocks :: "sleeplock_id \<Rightarrow> sleeplock"

definition upd_slk :: "sleeplock_id \<Rightarrow> (sleeplock \<Rightarrow> sleeplock) \<Rightarrow> ('z kslk_scheme, unit) prog" where
  "upd_slk sl f = modify (\<lambda>s. s\<lparr>sleeplocks := (sleeplocks s)(sl := f (sleeplocks s sl))\<rparr>)"

definition initsleeplock :: "sleeplock_id \<Rightarrow> string \<Rightarrow> ('z kslk_scheme, unit) prog" where
  "initsleeplock sl name = upd_slk sl (\<lambda>l. l\<lparr>sl_name := name, sl_locked := 0, sl_pid := 0\<rparr>)"

text \<open>
  \<open>acquiresleep_loop\<close> is \<open>acquiresleep\<close> from the test of the loop on, with the inner spinlock held;
  \<open>acquiresleep_resume\<close> is what the process \<open>p\<close> does when it runs again after the \<open>sleep\<close>.
\<close>

definition acquiresleep_loop :: "sleeplock_id \<Rightarrow> ('z kslk_scheme, unit) prog" where
  "acquiresleep_loop sl =
     bind (gets (\<lambda>s. sl_locked (sleeplocks s sl))) (\<lambda>locked.
     if locked \<noteq> 0 then sleep (ChanSleepLock sl) (SleepLk sl)
     else andthen (upd_slk sl (\<lambda>l. l\<lparr>sl_locked := 1\<rparr>))
       (bind curproc (\<lambda>p. bind (get_proc p) (\<lambda>q.
        andthen (upd_slk sl (\<lambda>l. l\<lparr>sl_pid := p_pid q\<rparr>)) (release (SleepLk sl))))))"

definition acquiresleep :: "sleeplock_id \<Rightarrow> ('z kslk_scheme, unit) prog" where
  "acquiresleep sl = andthen (acquire (SleepLk sl)) (acquiresleep_loop sl)"

definition acquiresleep_resume :: "nat \<Rightarrow> sleeplock_id \<Rightarrow> ('z kslk_scheme, unit) prog" where
  "acquiresleep_resume p sl = andthen (sleep_resume p (SleepLk sl)) (acquiresleep_loop sl)"

definition releasesleep :: "sleeplock_id \<Rightarrow> ('z kslk_scheme, unit) prog" where
  "releasesleep sl =
     andthen (acquire (SleepLk sl))
     (andthen (upd_slk sl (\<lambda>l. l\<lparr>sl_locked := 0, sl_pid := 0\<rparr>))
     (andthen (wakeup (ChanSleepLock sl))
     (release (SleepLk sl))))"

definition holdingsleep :: "sleeplock_id \<Rightarrow> ('z kslk_scheme, bool) prog" where
  "holdingsleep sl =
     andthen (acquire (SleepLk sl))
     (bind (gets (\<lambda>s. sleeplocks s sl)) (\<lambda>l.
     bind (if sl_locked l \<noteq> 0 then bind curproc (\<lambda>p. bind (get_proc p) (\<lambda>q. return (sl_pid l = p_pid q)))
           else return False) (\<lambda>r.
     andthen (release (SleepLk sl)) (return r))))"

section \<open>What they do\<close>

text \<open>The process table after a wakeup on channel \<open>c\<close>, and the processes asleep on it.\<close>

definition woken_table :: "chan \<Rightarrow> nat option \<Rightarrow> u32 \<Rightarrow> (nat \<Rightarrow> proc) \<Rightarrow> nat \<Rightarrow> proc" where
  "woken_table c me now tab = (\<lambda>p. if p < NPROC \<and> me \<noteq> Some p then wake c now (tab p) else tab p)"

definition asleep_on :: "chan \<Rightarrow> (nat \<Rightarrow> proc) \<Rightarrow> nat set" where
  "asleep_on c tab = {p. p < NPROC \<and> p_state (tab p) = SLEEPING \<and> p_chan (tab p) = c}"

lemma wakeup_table:
  assumes "\<forall>p < NPROC. cpu_proc s \<noteq> Some p \<longrightarrow> ProcLock p \<notin> held s"
  shows "wakeup c s = Ret () (s\<lparr>ptable := woken_table c (cpu_proc s) (ticks s) (ptable s)\<rparr>)"
  unfolding woken_table_def by (rule wakeup_eq [OF assms])

lemma woken_table_asleep:
  assumes "\<And>p. me = Some p \<Longrightarrow> p_state (tab p) \<noteq> SLEEPING"
  shows "asleep_on c (woken_table c me now tab) = {}"
  using assms by (auto simp: asleep_on_def woken_table_def wake_def split: if_splits)

lemma woken_table_other:
  assumes "c' \<noteq> c"
  shows "asleep_on c' (woken_table c me now tab) = asleep_on c' tab"
  using assms by (auto simp: asleep_on_def woken_table_def wake_def)

lemma woken_table_me [simp]: "woken_table c (Some p) now tab p = tab p"
  by (simp add: woken_table_def)

lemma acquiresleep_free:
  assumes "cpu_proc s = Some p" and "SleepLk sl \<notin> held s" and "sl_locked (sleeplocks s sl) = 0"
  shows "acquiresleep sl s = Ret () (s\<lparr>sleeplocks := (sleeplocks s)(sl := (sleeplocks s sl)
    \<lparr>sl_locked := 1, sl_pid := p_pid (ptable s p)\<rparr>)\<rparr>)"
  using assms
  by (simp add: acquiresleep_def acquiresleep_loop_def prog_simps upd_slk_def curproc_def myproc_def)

lemma acquiresleep_taken:
  assumes "cpu_proc s = Some p" and "held s = {}" and "sl_locked (sleeplocks s sl) \<noteq> 0"
  shows "acquiresleep sl s = Blocked (s\<lparr>held := {ProcLock p}, ptable := (ptable s)(p := (ptable s p)
    \<lparr>p_chan := ChanSleepLock sl, p_state := SLEEPING, p_stime := ticks s\<rparr>)\<rparr>)"
  using assms by (simp add: acquiresleep_def acquiresleep_loop_def prog_simps sleep_eq)

lemma releasesleep_eq:
  assumes "SleepLk sl \<notin> held s" and "\<forall>p < NPROC. cpu_proc s \<noteq> Some p \<longrightarrow> ProcLock p \<notin> held s"
  shows "releasesleep sl s = Ret () (s\<lparr>sleeplocks := (sleeplocks s)(sl := (sleeplocks s sl)
      \<lparr>sl_locked := 0, sl_pid := 0\<rparr>),
    ptable := woken_table (ChanSleepLock sl) (cpu_proc s) (ticks s) (ptable s)\<rparr>)"
  using assms by (simp add: releasesleep_def prog_simps upd_slk_def wakeup_table)

lemma holdingsleep_eq:
  assumes "cpu_proc s = Some p" and "SleepLk sl \<notin> held s"
  shows "holdingsleep sl s =
    Ret (sl_locked (sleeplocks s sl) \<noteq> 0 \<and> sl_pid (sleeplocks s sl) = p_pid (ptable s p)) s"
  using assms by (simp add: holdingsleep_def prog_simps curproc_def myproc_def)

definition waiters_ok :: "sleeplock_id \<Rightarrow> 'z kslk_scheme \<Rightarrow> bool" where
  "waiters_ok sl s \<longleftrightarrow> (asleep_on (ChanSleepLock sl) (ptable s) \<noteq> {} \<longrightarrow> sl_locked (sleeplocks s sl) \<noteq> 0)"

section \<open>Properties\<close>

text \<open>
  C33: no wakeup of a sleep-lock is lost. Called by the running process \<open>p\<close>, \<open>acquiresleep\<close> either
  takes a free lock in the name of \<open>p\<close>, or puts \<open>p\<close> to sleep on a lock that is taken;
  \<open>releasesleep\<close> frees the lock and leaves nobody asleep for it. In each case the processes that
  sleep for the lock do so only while it is taken, if that held before. None of them panics.
\<close>

theorem sleeplock_no_lost_wakeup:
  assumes "cpu_proc s = Some p" and "p < NPROC" and "p_state (ptable s p) = RUNNING" and "held s = {}"
    and "waiters_ok sl s"
  shows "(case acquiresleep sl s of
      Ret _ t \<Rightarrow> sl_locked (sleeplocks s sl) = 0 \<and> sl_locked (sleeplocks t sl) = 1 \<and>
        sl_pid (sleeplocks t sl) = p_pid (ptable s p) \<and> waiters_ok sl t
    | Blocked t \<Rightarrow> sl_locked (sleeplocks s sl) \<noteq> 0 \<and> sleeplocks t = sleeplocks s \<and>
        asleep_on (ChanSleepLock sl) (ptable t) = insert p (asleep_on (ChanSleepLock sl) (ptable s)) \<and> waiters_ok sl t
    | Panic _ \<Rightarrow> False) \<and>
   (case releasesleep sl s of
      Ret _ t \<Rightarrow> sl_locked (sleeplocks t sl) = 0 \<and> asleep_on (ChanSleepLock sl) (ptable t) = {} \<and> waiters_ok sl t
    | _ \<Rightarrow> False)"
proof (intro conjI)
  show "case acquiresleep sl s of
      Ret _ t \<Rightarrow> sl_locked (sleeplocks s sl) = 0 \<and> sl_locked (sleeplocks t sl) = 1 \<and>
        sl_pid (sleeplocks t sl) = p_pid (ptable s p) \<and> waiters_ok sl t
    | Blocked t \<Rightarrow> sl_locked (sleeplocks s sl) \<noteq> 0 \<and> sleeplocks t = sleeplocks s \<and>
        asleep_on (ChanSleepLock sl) (ptable t) = insert p (asleep_on (ChanSleepLock sl) (ptable s)) \<and> waiters_ok sl t
    | Panic _ \<Rightarrow> False"
    using assms
    by (cases "sl_locked (sleeplocks s sl) = 0")
       (auto simp: acquiresleep_free acquiresleep_taken waiters_ok_def asleep_on_def)
  have "asleep_on (ChanSleepLock sl) (woken_table (ChanSleepLock sl) (cpu_proc s) (ticks s) (ptable s)) = {}"
    using assms(1,3) by (intro woken_table_asleep) auto
  then show "case releasesleep sl s of
      Ret _ t \<Rightarrow> sl_locked (sleeplocks t sl) = 0 \<and> asleep_on (ChanSleepLock sl) (ptable t) = {} \<and> waiters_ok sl t
    | _ \<Rightarrow> False"
    using assms(4) by (simp add: releasesleep_eq waiters_ok_def)
qed

text \<open>The running process 5 and a lock that process 2 holds.\<close>

definition lock_demo :: kslk where
  "lock_demo = kproc.extend ((idle_kernel three_runnable)\<lparr>cpu_proc := Some 5,
       ptable := three_runnable(5 := (three_runnable 5)\<lparr>p_state := RUNNING\<rparr>)\<rparr>)
     \<lparr>sleeplocks = (\<lambda>_. \<lparr>sl_locked = 1, sl_name = [], sl_pid = 2\<rparr>)\<rparr>"

theorem sleeplock_no_lost_wakeup_witness:
  "\<exists>t. acquiresleep (BufLock 0) lock_demo = Blocked t \<and> 5 \<in> asleep_on (ChanSleepLock (BufLock 0)) (ptable t)"
proof -
  have "cpu_proc lock_demo = Some 5" "held lock_demo = {}" "sl_locked (sleeplocks lock_demo (BufLock 0)) \<noteq> 0"
    "p_state (ptable lock_demo 5) = RUNNING" "waiters_ok (BufLock 0) lock_demo"
    by (simp_all add: lock_demo_def idle_kernel_def kproc.extend_def waiters_ok_def)
  then show ?thesis
    using sleeplock_no_lost_wakeup [of lock_demo 5 "BufLock 0"] by (simp split: outcome.splits)
qed

end
