(* ===== verification/Umem.thy ===== *)
theory Umem
  imports Vm
begin

text \<open>
  User memory as the kernel sees it through a page table. \<open>copyin\<close> and \<open>copyinstr\<close> of kernel/vm.c
  copy page by page; the lemmas show that they do what a copy byte by byte would do, with the
  result -1 when a byte they need is not mapped.
\<close>

section \<open>Code that only reads\<close>

definition reads :: "('s, 'a) prog \<Rightarrow> bool" where
  "reads f \<longleftrightarrow> (\<forall>s. \<exists>x. f s = Ret x s)"

definition result :: "('s, 'a) prog \<Rightarrow> 's \<Rightarrow> 'a" where
  "result f s = (case f s of Ret x _ \<Rightarrow> x)"

named_theorems reads_intros \<open>code that returns and leaves the state as it is\<close>

lemma reads_result: "reads f \<Longrightarrow> f s = Ret (result f s) s"
  unfolding reads_def result_def by (metis outcome.simps(10))

lemma reads_bind [reads_intros]: "reads f \<Longrightarrow> (\<And>x. reads (g x)) \<Longrightarrow> reads (bind f g)"
  unfolding reads_def bind_apply by (metis outcome.simps(10))

lemma reads_basic [reads_intros]: "reads (return x)" "reads (gets h)"
  by (simp_all add: reads_def prog_simps)

lemma reads_if [reads_intros]: "reads f \<Longrightarrow> reads g \<Longrightarrow> reads (if b then f else g)"
  by simp

lemma reads_read_pte [reads_intros]: "reads (read_pte a)"
  by (simp add: read_pte_def reads_intros)

lemma reads_walk_loop [reads_intros]: "reads (walk_loop n pt va False)"
proof (induction n arbitrary: pt)
  case 0
  then show ?case by (simp add: reads_intros)
next
  case (Suc n)
  then show ?case by (auto intro!: reads_intros)
qed

lemma reads_walkaddr [reads_intros]: "reads (walkaddr pt va)"
  unfolding walkaddr_def walk_def by (auto intro!: reads_intros)

section \<open>Bytes of user memory\<close>

definition user_addr :: "'z kmem_scheme \<Rightarrow> u64 \<Rightarrow> u64 \<Rightarrow> u64 option" where
  "user_addr s pt va =
     (let pa0 = result (walkaddr pt (PGROUNDDOWN va)) s
      in if pa0 = 0 then None else Some (pa0 + (va - PGROUNDDOWN va)))"

definition user_byte :: "'z kmem_scheme \<Rightarrow> u64 \<Rightarrow> u64 \<Rightarrow> u8 option" where
  "user_byte s pt va = map_option (pmem s) (user_addr s pt va)"

lemma unat_page_add:
  assumes "unat (va :: u64) mod 4096 + j < 4096"
  shows "unat (va + of_nat j) = unat va + j"
proof -
  have "unat va = unat va div 4096 * 4096 + unat va mod 4096" by simp
  moreover have "unat va div 4096 \<le> 4503599627370495" using unat_lt_u64 [of va] by simp
  ultimately have "unat va + j < 18446744073709551616" using assms by linarith
  then have b: "unat va + j < 2 ^ LENGTH(64)" by simp
  then have "j < 2 ^ LENGTH(64)" by (rule le_less_trans [rotated]) simp
  then have "unat (of_nat j :: u64) = j" by (simp only: unat_of_nat mod_less)
  then show ?thesis using b unat_add_no_wrap [of va "of_nat j"] by (simp only:)
qed

lemma div_add_small:
  fixes x j n :: nat
  assumes "x mod n + j < n"
  shows "(x + j) div n = x div n"
proof -
  have "x + j = (x mod n + j) + n * (x div n)" using mod_mult_div_eq [of x n] by linarith
  moreover have "((x mod n + j) + n * (x div n)) div n = x div n" 
  proof -
    have "n \<noteq> 0" using assms by simp
    then show ?thesis by (subst div_mult_self2) (simp_all add: div_less [OF assms])
  qed
  ultimately show ?thesis by simp
qed

lemma user_page_add:
  assumes "unat va mod 4096 + j < 4096"
  shows "PGROUNDDOWN (va + of_nat j) = PGROUNDDOWN va"
proof -
  have "(unat va + j) div 4096 = unat va div 4096" using assms by (rule div_add_small)
  then show ?thesis by (simp add: word_unat_eq_iff unat_PGROUNDDOWN unat_page_add [OF assms])
qed

lemma user_addr_page:
  assumes "unat va mod 4096 + j < 4096"
  shows "user_addr s pt (va + of_nat j) = map_option (\<lambda>a. a + of_nat j) (user_addr s pt va)"
  by (simp add: user_addr_def user_page_add [OF assms] Let_def algebra_simps)

lemma unat_chunk: "unat (chunk va len) = min (4096 - unat va mod 4096) (unat len)"
proof -
  have "va - PGROUNDDOWN va \<le> 4096" by (simp add: word_le_nat_alt PGROUNDDOWN_offset)
  then have "unat (PGSIZE - (va - PGROUNDDOWN va)) = 4096 - unat va mod 4096"
    by (simp add: unat_sub PGROUNDDOWN_offset)
  then show ?thesis by (simp add: chunk_def Let_def word_less_nat_alt min_def)
qed

lemma next_page:
  assumes "chunk va len < len"
  shows "PGROUNDDOWN va + PGSIZE = va + of_nat (unat (chunk va len))"
  using assms by (auto simp: chunk_def Let_def split: if_splits)

lemma chunk_next:
  assumes "j < unat (len - chunk va len)"
  shows "PGROUNDDOWN va + PGSIZE + of_nat j = va + of_nat (unat (chunk va len) + j)"
proof -
  have "chunk va len \<noteq> len" using assms by auto
  then have "chunk va len < len" using chunk_le [of va len] by simp
  then show ?thesis by (simp add: next_page)
qed

lemma chunk_rest: "unat (chunk va len) + unat (len - chunk va len) = unat len"
  using chunk_le [of va len] by (simp add: unat_sub word_le_nat_alt)

definition mapped :: "'z kmem_scheme \<Rightarrow> u64 \<Rightarrow> u64 \<Rightarrow> nat \<Rightarrow> bool" where
  "mapped s pt va n \<longleftrightarrow> (\<forall>j < n. user_byte s pt (va + of_nat j) \<noteq> None)"

lemma user_byte_chunk:
  assumes "j < unat (chunk va len)" and "result (walkaddr pt (PGROUNDDOWN va)) s = pa0" and "pa0 \<noteq> 0"
  shows "user_byte s pt (va + of_nat j) = Some (pmem s (pa0 + (va - PGROUNDDOWN va) + of_nat j))"
proof -
  have "j < 4096 - unat va mod 4096" using assms(1) by (simp add: unat_chunk)
  then have "unat va mod 4096 + j < 4096" by (simp only: less_diff_conv add.commute)
  then have "user_addr s pt (va + of_nat j) = map_option (\<lambda>a. a + of_nat j) (user_addr s pt va)"
    by (rule user_addr_page)
  moreover have "user_addr s pt va = Some (pa0 + (va - PGROUNDDOWN va))" using assms(2,3) by (simp add: user_addr_def)
  ultimately show ?thesis by (simp add: user_byte_def)
qed

lemma all_less_add:
  fixes n m :: nat
  shows "(\<forall>j < n + m. P j) \<longleftrightarrow> (\<forall>j < n. P j) \<and> (\<forall>j < m. P (n + j))"
proof
  assume r: "(\<forall>j < n. P j) \<and> (\<forall>j < m. P (n + j))"
  show "\<forall>j < n + m. P j"
  proof (intro allI impI)
    fix j
    assume "j < n + m"
    then show "P j" using r by (cases "j < n") (auto dest!: spec [of _ "j - n"])
  qed
qed simp

lemma mapped_chunk:
  assumes "result (walkaddr pt (PGROUNDDOWN va)) s = pa0" and "pa0 \<noteq> 0"
  shows "mapped s pt va (unat len) \<longleftrightarrow>
    mapped s pt (PGROUNDDOWN va + PGSIZE) (unat (len - chunk va len))"
proof -
  let ?n = "unat (chunk va len)" and ?m = "unat (len - chunk va len)"
  have "mapped s pt va (unat len) \<longleftrightarrow> (\<forall>j < ?n. user_byte s pt (va + of_nat j) \<noteq> None) \<and>
      (\<forall>j < ?m. user_byte s pt (va + of_nat (?n + j)) \<noteq> None)"
    unfolding mapped_def chunk_rest [of va len, symmetric] by (rule all_less_add)
  moreover have "\<forall>j < ?n. user_byte s pt (va + of_nat j) \<noteq> None"
    using user_byte_chunk [OF _ assms] by simp
  ultimately show ?thesis unfolding mapped_def using chunk_next [of _ len va] by (simp add: add.assoc)
qed

lemma unmapped_first:
  assumes "result (walkaddr pt (PGROUNDDOWN va)) s = 0" and "0 < n"
  shows "\<not> mapped s pt va n"
  using assms by (auto simp: mapped_def user_byte_def user_addr_def intro!: exI [of _ 0])

lemma copied_bytes:
  fixes i :: nat
  assumes "result (walkaddr pt (PGROUNDDOWN va)) s = pa0" and "pa0 \<noteq> 0"
  shows "(\<lambda>j. if i + unat (chunk va len) \<le> j \<and> j < i + unat (chunk va len) + unat (len - chunk va len)
      then the (user_byte s pt (PGROUNDDOWN va + PGSIZE + of_nat (j - (i + unat (chunk va len)))))
      else if i \<le> j \<and> j < i + unat (chunk va len) then pmem s (pa0 + (va - PGROUNDDOWN va) + of_nat (j - i))
      else dst j) =
    (\<lambda>j. if i \<le> j \<and> j < i + unat len then the (user_byte s pt (va + of_nat (j - i))) else dst j)"
    (is "?f = ?g")
proof
  fix j
  let ?n = "unat (chunk va len)"
  note len = chunk_rest [of va len]
  consider "j < i" | "i \<le> j" "j - i < ?n" | "i + ?n \<le> j" "j < i + unat len" | "i + unat len \<le> j" by linarith
  then show "?f j = ?g j"
  proof cases
    case 2
    then have "j < i + ?n" "j < i + unat len" using len by linarith+
    then show ?thesis using 2 user_byte_chunk [OF 2(2) assms] by simp
  next
    case 3
    then have "j - (i + ?n) < unat (len - chunk va len)" "j < i + ?n + unat (len - chunk va len)" "i \<le> j"
      using len by linarith+
    moreover have "?n + (j - (i + ?n)) = j - i" using 3 by linarith
    ultimately show ?thesis using 3 chunk_next [of "j - (i + ?n)" len va] by (simp only: if_True simp_thms)
  qed (use len in simp_all)
qed

lemma copyin_from_bytes:
  "\<exists>d. copyin_from i pt dst va len s = Ret (if mapped s pt va (unat len) then 0 else -1, d) s \<and>
     (mapped s pt va (unat len) \<longrightarrow>
       d = (\<lambda>j. if i \<le> j \<and> j < i + unat len then the (user_byte s pt (va + of_nat (j - i))) else dst j))"
proof (induction i pt dst va len rule: copyin_from.induct)
  case (1 i pt dst va len)
  let ?pa = "result (walkaddr pt (PGROUNDDOWN va)) s" and ?n = "unat (chunk va len)"
  let ?dst = "\<lambda>j. if i \<le> j \<and> j < i + ?n then pmem s (?pa + (va - PGROUNDDOWN va) + of_nat (j - i)) else dst j"
  note walk = reads_result [OF reads_walkaddr, of pt "PGROUNDDOWN va" s]
  consider "len = 0" | "0 < len" "?pa = 0" | "0 < len" "?pa \<noteq> 0" by (cases "len = 0") (auto simp: word_gt_0)
  then show ?case
  proof cases
    case 1
    then show ?thesis by (intro exI [of _ dst]) (auto simp: copyin_from.simps [of i] prog_simps mapped_def fun_eq_iff)
  next
    case 2
    then show ?thesis
      using unmapped_first [OF 2(2), of "unat len"] walk
      by (simp add: copyin_from.simps [of i] prog_simps unat_gt_0 word_gt_0)
  next
    case 3
    note ih = "1.IH" [OF 3(1,2) refl refl, of "pmem s"]
    have run: "copyin_from i pt dst va len s =
        copyin_from (i + ?n) pt ?dst (PGROUNDDOWN va + PGSIZE) (len - chunk va len) s"
      using 3 walk by (simp add: copyin_from.simps [of i pt dst va] prog_simps Let_def)
    have "(\<lambda>j. if i + ?n \<le> j \<and> j < i + ?n + unat (len - chunk va len)
          then the (user_byte s pt (PGROUNDDOWN va + PGSIZE + of_nat (j - (i + ?n)))) else ?dst j) =
        (\<lambda>j. if i \<le> j \<and> j < i + unat len then the (user_byte s pt (va + of_nat (j - i))) else dst j)"
      by (rule copied_bytes) (use 3(2) in simp_all)
    with ih show ?thesis unfolding run mapped_chunk [OF refl 3(2), of len] by simp
  qed
qed

section \<open>One byte\<close>

text \<open>What a page table maps depends on memory alone.\<close>

lemma result_bind: "reads f \<Longrightarrow> result (bind f g) s = result (g (result f s)) s"
  unfolding reads_def by (drule spec [of _ s]) (auto simp: result_def bind_apply)

lemma result_if: "result (if b then f else g) s = (if b then result f s else result g s)"
  by simp

lemma result_return: "result (return x) s = x"
  by (simp add: result_def return_apply)

lemma result_read_pte: "result (read_pte a) s = load64 (pmem s) a"
  by (simp add: result_def read_pte_def gets_apply)

lemma walk_loop_pmem:
  fixes s :: "'y kmem_scheme" and t :: "'z kmem_scheme"
  assumes "pmem s = pmem t"
  shows "result (walk_loop n pt va False) s = result (walk_loop n pt va False) t"
proof (induction n arbitrary: pt)
  case 0
  then show ?case by (simp only: walk_loop.simps result_return)
next
  case (Suc n)
  then show ?case
    by (simp only: walk_loop.simps result_bind [OF reads_read_pte] result_read_pte assms result_if result_return
        if_True simp_thms)
qed

lemma walkaddr_pmem:
  fixes s :: "'y kmem_scheme" and t :: "'z kmem_scheme"
  assumes "pmem s = pmem t"
  shows "result (walkaddr pt va) s = result (walkaddr pt va) t"
proof (cases "va \<ge> MAXVA")
  case True
  then show ?thesis by (simp only: walkaddr_def if_True result_return)
next
  case False
  then show ?thesis
    by (simp only: walkaddr_def walk_def if_False result_bind [OF reads_walk_loop] result_if result_return
        result_bind [OF reads_read_pte] result_read_pte walk_loop_pmem [OF assms] assms)
qed

lemma user_addr_pmem:
  fixes s :: "'y kmem_scheme" and t :: "'z kmem_scheme"
  assumes "pmem s = pmem t"
  shows "user_addr s pt va = user_addr t pt va"
  using walkaddr_pmem [OF assms] by (simp add: user_addr_def)

lemma user_byte_pmem:
  fixes s :: "'y kmem_scheme" and t :: "'z kmem_scheme"
  assumes "pmem s = pmem t"
  shows "user_byte s pt va = user_byte t pt va"
  using user_addr_pmem [OF assms] assms by (simp add: user_byte_def)

lemma chunk_one [simp]: "chunk va 1 = 1"
proof -
  have "0 < chunk va 1" and "chunk va 1 \<le> 1" by (rule chunk_pos, simp) (rule chunk_le)
  then show ?thesis by (simp add: word_less_nat_alt word_le_nat_alt word_unat_eq_iff)
qed

lemma copyin_one:
  "copyin pt dst va 1 s = (case user_byte s pt va of None \<Rightarrow> Ret (-1, dst) s | Some b \<Rightarrow> Ret (0, dst(0 := b)) s)"
  using reads_result [OF reads_walkaddr, of pt "PGROUNDDOWN va" s]
  by (simp add: copyin_def copyin_from.simps prog_simps Let_def user_byte_def user_addr_def fun_eq_iff)

lemma mem_write_one: "mem_write m a src 1 = m(a := src 0)"
  by (auto simp: mem_write_def in_region_def fun_eq_iff unat_eq_0)

lemma copyout_one:
  "copyout pt va src 1 s = (case user_addr s pt va of None \<Rightarrow> Ret (-1) s
     | Some a \<Rightarrow> Ret 0 (s\<lparr>pmem := (pmem s)(a := src 0)\<rparr>))"
  using reads_result [OF reads_walkaddr, of pt "PGROUNDDOWN va" s]
  by (simp add: copyout.simps prog_simps Let_def user_addr_def mem_write_one [simplified])

section \<open>Strings in user memory\<close>

text \<open>
  The string at \<open>va\<close>, read byte by byte up to its end, if it ends within \<open>n\<close> bytes that are all mapped.
\<close>

primrec user_str :: "'z kmem_scheme \<Rightarrow> u64 \<Rightarrow> u64 \<Rightarrow> nat \<Rightarrow> u8 list option" where
  "user_str s pt va 0 = None"
| "user_str s pt va (Suc n) = (case user_byte s pt va of None \<Rightarrow> None
     | Some b \<Rightarrow> if b = 0 then Some [] else map_option ((#) b) (user_str s pt (va + 1) n))"

definition put_bytes :: "nat \<Rightarrow> u8 list \<Rightarrow> bytes \<Rightarrow> bytes" where
  "put_bytes i bs dst = (\<lambda>j. if i \<le> j \<and> j < i + length bs then bs ! (j - i) else dst j)"

lemma put_bytes_Nil [simp]: "put_bytes i [] dst = dst"
  by (auto simp: put_bytes_def fun_eq_iff)

lemma put_bytes_Cons: "put_bytes i (b # bs) dst = put_bytes (Suc i) bs (dst(i := b))"
  by (auto simp: put_bytes_def fun_eq_iff nth_Cons')

lemma put_bytes_append: "put_bytes i (as @ bs) dst = put_bytes (i + length as) bs (put_bytes i as dst)"
  by (induction as arbitrary: i dst) (simp_all add: put_bytes_Cons)

lemma append_Cons_fun: "(\<lambda>x. b # bs @ x) = (@) (b # bs)"
  by (rule ext) simp

lemma copyinstr_page_str:
  assumes "\<And>j. j < n \<Longrightarrow> user_byte s pt (va + of_nat j) = Some (m (p + of_nat j))"
  shows "case copyinstr_page n m p dst i of (got_null, d) \<Rightarrow>
    if got_null then \<exists>bs. user_str s pt va (n + k) = Some bs \<and> d = put_bytes i (bs @ [0]) dst
    else \<exists>bs. length bs = n \<and> user_str s pt va (n + k) = map_option ((@) bs) (user_str s pt (va + of_nat n) k) \<and>
      d = put_bytes i bs dst"
  using assms
proof (induction n arbitrary: va p dst i)
  case 0
  then show ?case by (cases "user_str s pt va k") simp_all
next
  case (Suc n)
  have b: "user_byte s pt va = Some (m p)" using Suc.prems [of 0] by simp
  have "user_byte s pt (va + 1 + of_nat j) = Some (m (p + 1 + of_nat j))" if "j < n" for j
    using Suc.prems [of "Suc j"] that by (simp add: algebra_simps)
  note ih = Suc.IH [OF this, where dst = "dst(i := m p)" and i = "Suc i"]
  show ?case
  proof (cases "m p = 0")
    case True
    then show ?thesis using b by (simp add: put_bytes_Cons fun_upd_def)
  next
    case False
    obtain got d where r: "copyinstr_page n m (p + 1) (dst(i := m p)) (Suc i) = (got, d)" by force
    note ih = ih [unfolded r prod.case]
    show ?thesis
    proof (cases got)
      case True
      then obtain bs where "user_str s pt (va + 1) (n + k) = Some bs" "d = put_bytes (Suc i) (bs @ [0]) (dst(i := m p))"
        using ih by auto
      then show ?thesis using True False b r by (auto simp: put_bytes_Cons intro!: exI [of _ "m p # bs"])
    next
      case nomore: False
      then obtain bs where "length bs = n" "d = put_bytes (Suc i) bs (dst(i := m p))"
        "user_str s pt (va + 1) (n + k) = map_option ((@) bs) (user_str s pt (va + 1 + of_nat n) k)"
        using ih by auto
      then show ?thesis using nomore False b r
        by (auto simp: put_bytes_Cons option.map_comp comp_def algebra_simps append_Cons_fun intro!: exI [of _ "m p # bs"])
    qed
  qed
qed

lemma user_str_unmapped: "user_byte s pt va = None \<Longrightarrow> user_str s pt va n = None"
  by (cases n) simp_all

lemma copyinstr_from_str:
  "\<exists>d. copyinstr_from i pt dst va mx s = Ret (if user_str s pt va (unat mx) = None then -1 else 0, d) s \<and>
     (\<forall>bs. user_str s pt va (unat mx) = Some bs \<longrightarrow> d = put_bytes i (bs @ [0]) dst)"
proof (induction i pt dst va mx rule: copyinstr_from.induct)
  case (1 i pt dst va mx)
  let ?pa = "result (walkaddr pt (PGROUNDDOWN va)) s" and ?n = "unat (chunk va mx)"
  note walk = reads_result [OF reads_walkaddr, of pt "PGROUNDDOWN va" s]
  consider "mx = 0" | "0 < mx" "?pa = 0" | "0 < mx" "?pa \<noteq> 0" by (cases "mx = 0") (auto simp: word_gt_0)
  then show ?case
  proof cases
    case 1
    then show ?thesis by (simp add: copyinstr_from.simps [of i] prog_simps)
  next
    case 2
    then have "user_byte s pt va = None" by (simp add: user_byte_def user_addr_def)
    then show ?thesis using 2 walk
      by (simp add: copyinstr_from.simps [of i] prog_simps user_str_unmapped)
  next
    case 3
    obtain got d where page: "copyinstr_page ?n (pmem s) (?pa + (va - PGROUNDDOWN va)) dst i = (got, d)" by force
    have k: "user_str s pt (va + of_nat ?n) (unat (mx - chunk va mx)) =
        user_str s pt (PGROUNDDOWN va + PGSIZE) (unat (mx - chunk va mx))"
      using chunk_next [of 0 mx va] by (cases "unat (mx - chunk va mx)") simp_all
    have "case copyinstr_page ?n (pmem s) (?pa + (va - PGROUNDDOWN va)) dst i of (g, d) \<Rightarrow>
      if g then \<exists>bs. user_str s pt va (?n + unat (mx - chunk va mx)) = Some bs \<and> d = put_bytes i (bs @ [0]) dst
      else \<exists>bs. length bs = ?n \<and> user_str s pt va (?n + unat (mx - chunk va mx)) =
          map_option ((@) bs) (user_str s pt (va + of_nat ?n) (unat (mx - chunk va mx))) \<and> d = put_bytes i bs dst"
      by (rule copyinstr_page_str) (rule user_byte_chunk [OF _ refl 3(2)])
    note spec = this [unfolded page chunk_rest k, simplified]
    have run: "copyinstr_from i pt dst va mx s = (if got then Ret (0, d) s
        else copyinstr_from (i + ?n) pt d (PGROUNDDOWN va + PGSIZE) (mx - chunk va mx) s)"
      using 3 walk page by (simp add: copyinstr_from.simps [of i pt dst va] prog_simps Let_def)
    show ?thesis
    proof (cases got)
      case True
      then show ?thesis using spec run by auto
    next
      case False
      note ih = "1.IH" [OF 3(1,2) refl refl page [symmetric] refl False]
      moreover obtain bs where "length bs = ?n" "d = put_bytes i bs dst" "user_str s pt va (unat mx) =
          map_option ((@) bs) (user_str s pt (PGROUNDDOWN va + PGSIZE) (unat (mx - chunk va mx)))"
        using spec False by auto
      ultimately show ?thesis using run False
        by (cases "user_str s pt (PGROUNDDOWN va + PGSIZE) (unat (mx - chunk va mx))")
           (auto simp: put_bytes_append add.assoc)
    qed
  qed
qed

section \<open>Properties\<close>

text \<open>
  C31: \<open>copyin\<close>, which copies page by page, does what a copy byte by byte through the page table does:
  it succeeds exactly when all \<open>len\<close> bytes are mapped for the user, then the buffer has those bytes
  and is unchanged elsewhere, and it never changes the kernel state.
\<close>

theorem copyin_bytes:
  "if mapped s pt va (unat len)
   then copyin pt dst va len s =
     Ret (0, \<lambda>j. if j < unat len then the (user_byte s pt (va + of_nat j)) else dst j) s
   else \<exists>d. copyin pt dst va len s = Ret (-1, d) s"
  using copyin_from_bytes [of 0 pt dst va len s] by (auto simp: copyin_def cong: if_cong)

text \<open>
  C32: \<open>copyinstr\<close> returns 0 exactly when the string at \<open>va\<close> ends within \<open>max\<close> mapped bytes. It then
  has copied the string with its terminating zero, and nothing else; and it never changes the
  kernel state.
\<close>

theorem copyinstr_string:
  "case user_str s pt va (unat mx) of
     None \<Rightarrow> \<exists>d. copyinstr pt dst va mx s = Ret (-1, d) s
   | Some bs \<Rightarrow> copyinstr pt dst va mx s =
       Ret (0, \<lambda>j. if j < length bs then bs ! j else if j = length bs then 0 else dst j) s"
proof -
  have "put_bytes 0 (bs @ [0]) dst = (\<lambda>j. if j < length bs then bs ! j else if j = length bs then 0 else dst j)" for bs
    by (auto simp: put_bytes_def nth_append fun_eq_iff)
  then show ?thesis using copyinstr_from_str [of 0 pt dst va mx s] by (auto simp: copyinstr_def split: option.splits)
qed

end
