(* ===== verification/Ring.thy ===== *)
theory Ring
  imports Prelude
begin

text \<open>
  Ring buffers with free-running indices, as the pipes, the UART driver and the console use them:
  the read and the write index are unsigned words that only grow and wrap around, the element for
  index \<open>i\<close> is in slot \<open>i % N\<close>, the buffer is empty when the indices are equal and full when they
  differ by \<open>N\<close>. The locale \<open>fifo\<close> is the interface of a bounded queue; its client result is that
  whatever sequence of operations is run, what comes out is what went in, in the same order.
\<close>

section \<open>The elements in a ring\<close>

definition ring_contents :: "nat \<Rightarrow> (nat \<Rightarrow> 'b) \<Rightarrow> 'a::len word \<Rightarrow> 'a word \<Rightarrow> 'b list" where
  "ring_contents N d r w = map (\<lambda>k. d (unat (r + of_nat k) mod N)) [0..<unat (w - r)]"

lemma length_ring [simp]: "length (ring_contents N d r w) = unat (w - r)"
  by (simp add: ring_contents_def)

lemma unat_mod_ring:
  fixes r :: "'a::len word"
  assumes "N dvd 2 ^ LENGTH('a)"
  shows "unat (r + of_nat k) mod N = (unat r + k) mod N"
proof -
  have "unat (r + of_nat k) = (unat r + k) mod 2 ^ LENGTH('a)"
    by (simp add: unat_word_ariths unat_of_nat mod_simps)
  then show ?thesis using assms by (simp add: mod_mod_cancel)
qed

lemma ring_split_w: "(w :: 'a::len word) = r + of_nat (unat (w - r))"
  by simp

lemma ring_slots_differ:
  fixes a k n N :: nat
  assumes "k < n" and "n < k + N"
  shows "(a + k) mod N \<noteq> (a + n) mod N"
proof
  assume "(a + k) mod N = (a + n) mod N"
  then have "N dvd (a + n) - (a + k)" using assms(1) by (metis mod_eq_dvd_iff_nat nat_add_left_cancel_le nat_less_le)
  then have "N dvd n - k" by simp
  then have "N \<le> n - k" using assms(1) by (intro dvd_imp_le) simp_all
  with assms show False by simp
qed

lemma ring_put:
  fixes r w :: "'a::len word"
  assumes "N dvd 2 ^ LENGTH('a)" and "N < 2 ^ LENGTH('a)" and "unat (w - r) < N"
  shows "ring_contents N (d(unat w mod N := x)) r (w + 1) = ring_contents N d r w @ [x]"
proof -
  let ?n = "unat (w - r)"
  have wr: "unat w mod N = (unat r + ?n) mod N"
    using unat_mod_ring [OF assms(1), of r ?n] by simp
  have "unat (w - r + 1) = ?n + 1"
    using assms(2,3) unat_add_no_wrap [of "w - r" 1] by simp
  then have "unat (w + 1 - r) = Suc ?n" by (simp add: algebra_simps)
  moreover have "(d(unat w mod N := x)) (unat (r + of_nat k) mod N) = d (unat (r + of_nat k) mod N)" if "k < ?n" for k
    using ring_slots_differ [of k ?n N "unat r"] that assms(3) wr unat_mod_ring [OF assms(1), of r k] by simp
  ultimately show ?thesis by (simp add: ring_contents_def)
qed

lemma ring_get:
  fixes r w :: "'a::len word"
  assumes "r \<noteq> w"
  shows "ring_contents N d r w = d (unat r mod N) # ring_contents N d (r + 1) w"
proof -
  have "w - r \<noteq> 0" using assms by simp
  then obtain n where n: "unat (w - r) = Suc n" by (metis unat_eq_0 not0_implies_Suc)
  then have "w - (r + 1) = of_nat n" using ring_split_w [of w r] by (simp add: algebra_simps)
  moreover have "n < 2 ^ LENGTH('a)" using n unat_lt_exp [of "w - r"] by simp
  ultimately have m: "unat (w - (r + 1)) = n" by (simp add: unat_of_nat take_bit_nat_eq_self)
  have "map (\<lambda>k. d (unat (r + of_nat k) mod N)) [0..<Suc n] =
      d (unat r mod N) # map (\<lambda>k. d (unat (r + 1 + of_nat k) mod N)) [0..<n]"
    by (simp add: map_upt_Suc algebra_simps del: upt_Suc)
  then show ?thesis unfolding ring_contents_def n m .
qed

lemma ring_full:
  fixes r w :: "'a::len word"
  assumes "N < 2 ^ LENGTH('a)"
  shows "w = r + of_nat N \<longleftrightarrow> unat (w - r) = N"
proof
  assume "w = r + of_nat N"
  then have "w - r = of_nat N" by simp
  then show "unat (w - r) = N" using assms by (simp add: unat_of_nat take_bit_nat_eq_self)
next
  assume "unat (w - r) = N"
  then show "w = r + of_nat N" using ring_split_w [of w r] by simp
qed

lemma ring_empty: "ring_contents N d r w = [] \<longleftrightarrow> r = w"
  by (simp add: ring_contents_def unat_eq_0) (metis eq_iff_diff_eq_0)

lemma ring_contents_upto:
  fixes r w e :: "'a::len word"
  assumes "unat (w - r) + unat (e - w) = unat (e - r)"
  shows "ring_contents N d r e = ring_contents N d r w @ ring_contents N d w e"
proof -
  let ?n = "unat (w - r)" and ?m = "unat (e - w)"
  have "[0..<?n + ?m] = [0..<?n] @ map (\<lambda>i. i + ?n) [0..<?m]"
    unfolding map_add_upt upt_add_eq_append [OF le0] by (simp only: add_0 add.commute [of ?m])
  moreover have "r + of_nat (k + ?n) = w + of_nat k" for k by (simp add: algebra_simps)
  ultimately show ?thesis
    unfolding ring_contents_def assms [symmetric] by (simp only: map_append map_map comp_def)
qed

lemma ring_contents_butlast:
  fixes r w :: "'a::len word"
  assumes "r \<noteq> w"
  shows "ring_contents N d r (w - 1) = butlast (ring_contents N d r w)"
    and "last (ring_contents N d r w) = d (unat (w - 1) mod N)"
proof -
  have "w - r \<noteq> 0" using assms by simp
  then obtain n where n: "unat (w - r) = Suc n" by (metis unat_eq_0 not0_implies_Suc)
  then have "w - 1 - r = of_nat n" using ring_split_w [of w r] by (simp add: algebra_simps)
  moreover have "n < 2 ^ LENGTH('a)" using n unat_lt_exp [of "w - r"] by simp
  ultimately have m: "unat (w - 1 - r) = n" by (simp add: unat_of_nat take_bit_nat_eq_self)
  have "w - 1 = r + of_nat n" using ring_split_w [of "w - 1" r] m by simp
  then show "ring_contents N d r (w - 1) = butlast (ring_contents N d r w)"
    "last (ring_contents N d r w) = d (unat (w - 1) mod N)"
    unfolding ring_contents_def n m by (simp_all add: butlast_append)
qed

section \<open>Bounded queues\<close>

datatype 'b qop = Put 'b | Get

text \<open>
  A run of operations, each of which is skipped when the queue is full or empty: what was accepted,
  what was delivered, and the queue at the end.
\<close>

fun qrun :: "('q \<Rightarrow> bool) \<Rightarrow> ('q \<Rightarrow> bool) \<Rightarrow> ('b \<Rightarrow> 'q \<Rightarrow> 'q) \<Rightarrow> ('q \<Rightarrow> 'b \<times> 'q) \<Rightarrow>
    'b qop list \<Rightarrow> 'q \<Rightarrow> 'b list \<times> 'b list \<times> 'q" where
  "qrun full emp put get [] q = ([], [], q)"
| "qrun full emp put get (Put x # ops) q =
     (if full q then qrun full emp put get ops q
      else let (i, out, q') = qrun full emp put get ops (put x q) in (x # i, out, q'))"
| "qrun full emp put get (Get # ops) q =
     (if emp q then qrun full emp put get ops q
      else let (x, q1) = get q; (i, out, q') = qrun full emp put get ops q1 in (i, x # out, q'))"

locale fifo =
  fixes inv :: "'q \<Rightarrow> bool" and items :: "'q \<Rightarrow> 'b list" and cap :: nat
    and full :: "'q \<Rightarrow> bool" and emp :: "'q \<Rightarrow> bool"
    and put :: "'b \<Rightarrow> 'q \<Rightarrow> 'q" and get :: "'q \<Rightarrow> 'b \<times> 'q"
  assumes items_cap: "inv q \<Longrightarrow> length (items q) \<le> cap"
    and full_iff: "inv q \<Longrightarrow> full q \<longleftrightarrow> length (items q) = cap"
    and emp_iff: "inv q \<Longrightarrow> emp q \<longleftrightarrow> items q = []"
    and put_items: "inv q \<Longrightarrow> \<not> full q \<Longrightarrow> inv (put x q) \<and> items (put x q) = items q @ [x]"
    and get_items: "inv q \<Longrightarrow> \<not> emp q \<Longrightarrow> inv (snd (get q)) \<and> items q = fst (get q) # items (snd (get q))"
begin

lemma stream:
  assumes "inv q" and "qrun full emp put get ops q = (i, out, q')"
  shows "inv q' \<and> items q @ i = out @ items q'"
  using assms
proof (induction ops arbitrary: q i out q')
  case Nil
  then show ?case by simp
next
  case (Cons oper ops)
  show ?case
  proof (cases oper)
    case (Put x)
    show ?thesis
    proof (cases "full q")
      case True
      then show ?thesis using Cons Put by simp
    next
      case False
      obtain i1 where "qrun full emp put get ops (put x q) = (i1, out, q')" "i = x # i1"
        using Cons.prems(2) Put False by (auto split: prod.splits)
      then show ?thesis using Cons.IH [of "put x q"] put_items [OF Cons.prems(1) False, of x] by auto
    qed
  next
    case Get
    show ?thesis
    proof (cases "emp q")
      case True
      then show ?thesis using Cons Get by simp
    next
      case False
      obtain out1 where "qrun full emp put get ops (snd (get q)) = (i, out1, q')" "out = fst (get q) # out1"
        using Cons.prems(2) Get False by (auto split: prod.splits)
      then show ?thesis using Cons.IH [of "snd (get q)"] get_items [OF Cons.prems(1) False] by auto
    qed
  qed
qed

lemma put_length: "inv q \<Longrightarrow> \<not> full q \<Longrightarrow> length (items (put x q)) = length (items q) + 1"
  using put_items by simp

lemma not_full_and_empty: "0 < cap \<Longrightarrow> inv q \<Longrightarrow> full q \<Longrightarrow> \<not> emp q"
  using full_iff emp_iff by auto

end

end
