(* ===== verification/Pipe.thy ===== *)
theory Pipe
  imports Sleeplock Umem Ring
begin

text \<open>
  The pipes of kernel/pipe.c: a ring buffer of 512 bytes in a page of its own, whose free-running
  indices are unsigned ints. \<open>pipewrite\<close> and \<open>piperead\<close> are shown to append to and to take from a
  first-in first-out queue of bytes. \<open>pipealloc\<close>, which also allocates the two files of a pipe, is
  in theory File.
\<close>

section \<open>State and operations\<close>

abbreviation (input) PIPESIZE :: nat where "PIPESIZE \<equiv> 512"

record pipe =
  pi_data :: "nat \<Rightarrow> u8"
  pi_nread :: u32
  pi_nwrite :: u32
  pi_readopen :: i32
  pi_writeopen :: i32

text \<open>The pipe whose page has the given address.\<close>

record kpipe = kslk +
  pipes :: "u64 \<Rightarrow> pipe"

definition upd_pipe :: "u64 \<Rightarrow> (pipe \<Rightarrow> pipe) \<Rightarrow> ('z kpipe_scheme, unit) prog" where
  "upd_pipe pi f = modify (\<lambda>s. s\<lparr>pipes := (pipes s)(pi := f (pipes s pi))\<rparr>)"

definition get_pipe :: "u64 \<Rightarrow> ('z kpipe_scheme, pipe) prog" where
  "get_pipe pi = gets (\<lambda>s. pipes s pi)"

text \<open>
  The tests and assignments on the ring: \<open>nwrite == nread + PIPESIZE\<close>, \<open>nread == nwrite\<close>,
  \<open>data[nwrite++ % PIPESIZE] = ch\<close> and \<open>ch = data[nread++ % PIPESIZE]\<close>.
\<close>

definition pipe_full :: "pipe \<Rightarrow> bool" where
  "pipe_full q \<longleftrightarrow> pi_nwrite q = pi_nread q + 512"

definition pipe_empty :: "pipe \<Rightarrow> bool" where
  "pipe_empty q \<longleftrightarrow> pi_nread q = pi_nwrite q"

definition pipe_put :: "u8 \<Rightarrow> pipe \<Rightarrow> pipe" where
  "pipe_put ch q = q\<lparr>pi_data := (pi_data q)(unat (pi_nwrite q) mod PIPESIZE := ch), pi_nwrite := pi_nwrite q + 1\<rparr>"

definition pipe_get :: "pipe \<Rightarrow> u8 \<times> pipe" where
  "pipe_get q = (pi_data q (unat (pi_nread q) mod PIPESIZE), q\<lparr>pi_nread := pi_nread q + 1\<rparr>)"

definition pipeclose :: "u64 \<Rightarrow> bool \<Rightarrow> ('z kpipe_scheme, unit) prog" where
  "pipeclose pi writable =
     andthen (acquire (PipeLock pi))
     (andthen (if writable
        then andthen (upd_pipe pi (\<lambda>q. q\<lparr>pi_writeopen := 0\<rparr>)) (wakeup (ChanPipeNread pi))
        else andthen (upd_pipe pi (\<lambda>q. q\<lparr>pi_readopen := 0\<rparr>)) (wakeup (ChanPipeNwrite pi)))
     (bind (get_pipe pi) (\<lambda>q.
      if pi_readopen q = 0 \<and> pi_writeopen q = 0
      then andthen (release (PipeLock pi)) (kfree pi)
      else release (PipeLock pi))))"

text \<open>
  The loop of \<open>pipewrite\<close>, for the process \<open>p\<close>, from index \<open>i\<close> on; \<open>m\<close> is \<open>n\<close>, or 0 if \<open>n\<close> is
  negative. When it blocks with index \<open>i\<close>, it goes on with \<open>pipewrite_resume\<close> at the same index.
\<close>

definition pipewrite_done :: "u64 \<Rightarrow> nat \<Rightarrow> ('z kpipe_scheme, i32) prog" where
  "pipewrite_done pi i =
     andthen (wakeup (ChanPipeNread pi)) (andthen (release (PipeLock pi)) (return (of_nat i)))"

function pipewrite_loop :: "nat \<Rightarrow> u64 \<Rightarrow> u64 \<Rightarrow> nat \<Rightarrow> nat \<Rightarrow> ('z kpipe_scheme, i32) prog" where
  "pipewrite_loop p pi addr m i =
     (if i < m then
        bind (get_pipe pi) (\<lambda>q. bind (get_proc p) (\<lambda>pr.
        if pi_readopen q = 0 \<or> p_killed pr \<noteq> 0 then andthen (release (PipeLock pi)) (return (-1))
        else if pipe_full q then
          andthen (wakeup (ChanPipeNread pi)) (sleep (ChanPipeNwrite pi) (PipeLock pi))
        else bind (copyin (p_pagetable pr) (\<lambda>_. 0) (addr + of_nat i) 1) (\<lambda>(r, ch).
          if r = -1 then pipewrite_done pi i
          else andthen (upd_pipe pi (pipe_put (ch 0))) (pipewrite_loop p pi addr m (Suc i)))))
      else pipewrite_done pi i)"
  by pat_completeness auto
termination
  by (relation "measure (\<lambda>(_, _, _, m, i). m - i)") simp_all

definition pipewrite :: "u64 \<Rightarrow> u64 \<Rightarrow> i32 \<Rightarrow> ('z kpipe_scheme, i32) prog" where
  "pipewrite pi addr n =
     bind curproc (\<lambda>p. andthen (acquire (PipeLock pi)) (pipewrite_loop p pi addr (nat (sint n)) 0))"

definition pipewrite_resume :: "nat \<Rightarrow> u64 \<Rightarrow> u64 \<Rightarrow> i32 \<Rightarrow> nat \<Rightarrow> ('z kpipe_scheme, i32) prog" where
  "pipewrite_resume p pi addr n i =
     andthen (sleep_resume p (PipeLock pi)) (pipewrite_loop p pi addr (nat (sint n)) i)"

definition piperead_done :: "u64 \<Rightarrow> nat \<Rightarrow> ('z kpipe_scheme, i32) prog" where
  "piperead_done pi i =
     andthen (wakeup (ChanPipeNwrite pi)) (andthen (release (PipeLock pi)) (return (of_nat i)))"

text \<open>The second loop of \<open>piperead\<close>, with \<open>k\<close> bytes to go after \<open>i\<close>.\<close>

primrec piperead_copy :: "nat \<Rightarrow> u64 \<Rightarrow> u64 \<Rightarrow> nat \<Rightarrow> nat \<Rightarrow> ('z kpipe_scheme, i32) prog" where
  "piperead_copy p pi addr i 0 = piperead_done pi i"
| "piperead_copy p pi addr i (Suc k) =
     bind (get_pipe pi) (\<lambda>q. bind (get_proc p) (\<lambda>pr.
     if pipe_empty q then piperead_done pi i
     else let (ch, q') = pipe_get q in
       andthen (upd_pipe pi (\<lambda>_. q'))
       (bind (copyout (p_pagetable pr) (addr + of_nat i) (\<lambda>_. ch) 1) (\<lambda>r.
        if r = -1 then piperead_done pi i
        else piperead_copy p pi addr (Suc i) k))))"

text \<open>\<open>piperead\<close> from the test of its first loop on.\<close>

definition piperead_wait :: "nat \<Rightarrow> u64 \<Rightarrow> u64 \<Rightarrow> i32 \<Rightarrow> ('z kpipe_scheme, i32) prog" where
  "piperead_wait p pi addr n =
     bind (get_pipe pi) (\<lambda>q. bind (get_proc p) (\<lambda>pr.
     if pipe_empty q \<and> pi_writeopen q \<noteq> 0 then
       if p_killed pr \<noteq> 0 then andthen (release (PipeLock pi)) (return (-1))
       else sleep (ChanPipeNread pi) (PipeLock pi)
     else piperead_copy p pi addr 0 (nat (sint n))))"

definition piperead :: "u64 \<Rightarrow> u64 \<Rightarrow> i32 \<Rightarrow> ('z kpipe_scheme, i32) prog" where
  "piperead pi addr n = bind curproc (\<lambda>p. andthen (acquire (PipeLock pi)) (piperead_wait p pi addr n))"

definition piperead_resume :: "nat \<Rightarrow> u64 \<Rightarrow> u64 \<Rightarrow> i32 \<Rightarrow> ('z kpipe_scheme, i32) prog" where
  "piperead_resume p pi addr n = andthen (sleep_resume p (PipeLock pi)) (piperead_wait p pi addr n)"

declare pipewrite_loop.simps [simp del]

section \<open>The queue of a pipe\<close>

definition pipe_items :: "pipe \<Rightarrow> u8 list" where
  "pipe_items q = ring_contents PIPESIZE (pi_data q) (pi_nread q) (pi_nwrite q)"

definition pipe_ok :: "pipe \<Rightarrow> bool" where
  "pipe_ok q \<longleftrightarrow> unat (pi_nwrite q - pi_nread q) \<le> PIPESIZE"

lemma pipe_ok_length: "pipe_ok q \<longleftrightarrow> length (pipe_items q) \<le> PIPESIZE"
  by (simp add: pipe_ok_def pipe_items_def)

interpretation pipe_queue: fifo pipe_ok pipe_items PIPESIZE pipe_full pipe_empty pipe_put pipe_get
proof
  fix q :: pipe and x :: u8
  let ?r = "pi_nread q" and ?w = "pi_nwrite q"
  have full: "pipe_full q \<longleftrightarrow> unat (?w - ?r) = PIPESIZE"
    using ring_full [of PIPESIZE ?w ?r] by (simp add: pipe_full_def)
  have empty: "pipe_empty q \<longleftrightarrow> pipe_items q = []"
    using ring_empty [of PIPESIZE "pi_data q" ?r ?w] by (simp add: pipe_empty_def pipe_items_def)
  assume ok: "pipe_ok q"
  then show "length (pipe_items q) \<le> PIPESIZE" by (simp add: pipe_items_def pipe_ok_def)
  show "pipe_full q \<longleftrightarrow> length (pipe_items q) = PIPESIZE" using full by (simp add: pipe_items_def)
  show "pipe_empty q \<longleftrightarrow> pipe_items q = []" by (rule empty)
  show "pipe_ok (pipe_put x q) \<and> pipe_items (pipe_put x q) = pipe_items q @ [x]" if "\<not> pipe_full q"
  proof -
    have "unat (?w - ?r) < PIPESIZE" using that full ok by (simp add: pipe_ok_def)
    then have "pipe_items (pipe_put x q) = pipe_items q @ [x]"
      using ring_put [of PIPESIZE ?w ?r "pi_data q" x] by (simp add: pipe_items_def pipe_put_def)
    moreover from this have "length (pipe_items (pipe_put x q)) = length (pipe_items q) + 1" by simp
    moreover have "length (pipe_items q) < PIPESIZE"
      using \<open>unat (?w - ?r) < PIPESIZE\<close> by (simp add: pipe_items_def)
    ultimately show ?thesis by (simp add: pipe_ok_length)
  qed
  show "pipe_ok (snd (pipe_get q)) \<and> pipe_items q = fst (pipe_get q) # pipe_items (snd (pipe_get q))" if "\<not> pipe_empty q"
  proof -
    have "pipe_items q = fst (pipe_get q) # pipe_items (snd (pipe_get q))"
      using that ring_get [of ?r ?w PIPESIZE "pi_data q"] by (simp add: pipe_items_def pipe_get_def pipe_empty_def)
    moreover from this have "length (pipe_items q) = length (pipe_items (snd (pipe_get q))) + 1" by simp
    ultimately show ?thesis using ok by (simp add: pipe_ok_length)
  qed
qed

section \<open>Writing\<close>

text \<open>The bytes of the caller's buffer from index \<open>i\<close> up to \<open>k\<close>, if all of them are mapped.\<close>

definition buf_bytes :: "'z kmem_scheme \<Rightarrow> u64 \<Rightarrow> u64 \<Rightarrow> nat \<Rightarrow> nat \<Rightarrow> u8 list \<Rightarrow> bool" where
  "buf_bytes s pt addr i k bs \<longleftrightarrow> map Some bs = map (\<lambda>j. user_byte s pt (addr + of_nat j)) [i..<k]"

lemma buf_bytes_Nil [simp]: "buf_bytes s pt addr i i []"
  by (simp add: buf_bytes_def)

lemma buf_bytes_Cons:
  "i < k \<Longrightarrow> user_byte s pt (addr + of_nat i) = Some b \<Longrightarrow> buf_bytes s pt addr (Suc i) k bs \<Longrightarrow>
     buf_bytes s pt addr i k (b # bs)"
  by (simp add: buf_bytes_def upt_conv_Cons)

lemma buf_bytes_pmem:
  fixes s :: "'y kmem_scheme" and t :: "'z kmem_scheme"
  assumes "pmem s = pmem t"
  shows "buf_bytes s pt addr i k bs \<longleftrightarrow> buf_bytes t pt addr i k bs"
  by (simp add: buf_bytes_def user_byte_pmem [OF assms])

text \<open>
  What the loop of \<open>pipewrite\<close> has done when it returns with index \<open>k\<close> (\<open>wrote_all\<close>) or blocks
  there (\<open>wrote_full\<close>).
\<close>

definition wrote_all :: "nat \<Rightarrow> u64 \<Rightarrow> u64 \<Rightarrow> nat \<Rightarrow> nat \<Rightarrow> 'z kpipe_scheme \<Rightarrow> i32 \<Rightarrow> 'z kpipe_scheme \<Rightarrow> bool" where
  "wrote_all p pi addr m i s r t \<longleftrightarrow> (\<exists>k bs. i \<le> k \<and> k \<le> m \<and> r = of_nat k \<and>
     buf_bytes s (p_pagetable (ptable s p)) addr i k bs \<and> pipe_items (pipes t pi) = pipe_items (pipes s pi) @ bs \<and>
     (k = m \<or> user_byte s (p_pagetable (ptable s p)) (addr + of_nat k) = None) \<and>
     held t = {} \<and> pipe_ok (pipes t pi) \<and> asleep_on (ChanPipeNread pi) (ptable t) = {})"

definition wrote_full :: "nat \<Rightarrow> u64 \<Rightarrow> u64 \<Rightarrow> nat \<Rightarrow> nat \<Rightarrow> 'z kpipe_scheme \<Rightarrow> 'z kpipe_scheme \<Rightarrow> bool" where
  "wrote_full p pi addr m i s t \<longleftrightarrow> (\<exists>k bs. i \<le> k \<and> k < m \<and>
     buf_bytes s (p_pagetable (ptable s p)) addr i k bs \<and> pipe_items (pipes t pi) = pipe_items (pipes s pi) @ bs \<and>
     pipe_full (pipes t pi) \<and> pipe_ok (pipes t pi) \<and> p_state (ptable t p) = SLEEPING \<and>
     p_chan (ptable t p) = ChanPipeNwrite pi \<and> asleep_on (ChanPipeNread pi) (ptable t) = {})"

lemma pipewrite_done_eq:
  assumes "cpu_proc s = Some p" and "held s = {PipeLock pi}"
  shows "pipewrite_done pi i s = Ret (of_nat i)
    (s\<lparr>held := {}, ptable := woken_table (ChanPipeNread pi) (Some p) (ticks s) (ptable s)\<rparr>)"
  using assms by (simp add: pipewrite_done_def prog_simps wakeup_table)

lemma asleep_on_upd: "p_chan q \<noteq> c \<Longrightarrow> asleep_on c (tab(p := q)) = asleep_on c tab - {p}"
  by (auto simp: asleep_on_def)

text \<open>One byte more at the front.\<close>

lemma wrote_more:
  fixes s :: "'z kpipe_scheme"
  assumes "i < m" and "user_byte s (p_pagetable (ptable s p)) (addr + of_nat i) = Some b"
    and "pipe_items q = pipe_items (pipes s pi) @ [b]"
  defines "s' \<equiv> s\<lparr>pipes := (pipes s)(pi := q)\<rparr>"
  shows "wrote_all p pi addr m (Suc i) s' r t \<Longrightarrow> wrote_all p pi addr m i s r t"
    and "wrote_full p pi addr m (Suc i) s' t \<Longrightarrow> wrote_full p pi addr m i s t"
proof -
  have pm: "pmem s' = pmem s" and pt: "ptable s' = ptable s" and it: "pipe_items (pipes s' pi) = pipe_items (pipes s pi) @ [b]"
    using assms(3) by (simp_all add: s'_def)
  note same = buf_bytes_pmem [OF pm] user_byte_pmem [OF pm] pt it
  show "wrote_all p pi addr m i s r t" if w: "wrote_all p pi addr m (Suc i) s' r t"
  proof -
    from w obtain k bs where "Suc i \<le> k" "k \<le> m" "r = of_nat k"
      "buf_bytes s (p_pagetable (ptable s p)) addr (Suc i) k bs" "pipe_items (pipes t pi) = pipe_items (pipes s pi) @ b # bs"
      "k = m \<or> user_byte s (p_pagetable (ptable s p)) (addr + of_nat k) = None"
      "held t = {}" "pipe_ok (pipes t pi)" "asleep_on (ChanPipeNread pi) (ptable t) = {}"
      unfolding wrote_all_def same by auto
    then show ?thesis unfolding wrote_all_def
      by (intro exI [of _ k] exI [of _ "b # bs"]) (auto intro: buf_bytes_Cons assms(2))
  qed
  show "wrote_full p pi addr m i s t" if w: "wrote_full p pi addr m (Suc i) s' t"
  proof -
    from w obtain k bs where "Suc i \<le> k" "k < m"
      "buf_bytes s (p_pagetable (ptable s p)) addr (Suc i) k bs" "pipe_items (pipes t pi) = pipe_items (pipes s pi) @ b # bs"
      "pipe_full (pipes t pi)" "pipe_ok (pipes t pi)" "p_state (ptable t p) = SLEEPING"
      "p_chan (ptable t p) = ChanPipeNwrite pi" "asleep_on (ChanPipeNread pi) (ptable t) = {}"
      unfolding wrote_full_def same by auto
    then show ?thesis unfolding wrote_full_def
      by (intro exI [of _ k] exI [of _ "b # bs"]) (auto intro: buf_bytes_Cons assms(2))
  qed
qed

lemma pipewrite_loop_spec:
  assumes "cpu_proc s = Some p" and "held s = {PipeLock pi}" and "pipe_ok (pipes s pi)" and "i \<le> m"
    and "p_state (ptable s p) = RUNNING" and "pi_readopen (pipes s pi) \<noteq> 0" and "p_killed (ptable s p) = 0"
  shows "case pipewrite_loop p pi addr m i s of
      Ret r t \<Rightarrow> wrote_all p pi addr m i s r t | Blocked t \<Rightarrow> wrote_full p pi addr m i s t | Panic _ \<Rightarrow> False"
  using assms
proof (induction "m - i" arbitrary: i s)
  case 0
  have "asleep_on (ChanPipeNread pi) (woken_table (ChanPipeNread pi) (Some p) (ticks s) (ptable s)) = {}"
    using 0 by (intro woken_table_asleep) auto
  then show ?case using 0
    by (simp add: pipewrite_loop.simps pipewrite_done_eq wrote_all_def) (intro exI [of _ m] exI [of _ "[]"], simp)
next
  case (Suc d)
  have im: "i < m" using Suc.hyps(2) by simp
  let ?q = "pipes s pi" and ?b = "user_byte s (p_pagetable (ptable s p)) (addr + of_nat i)"
  have w: "asleep_on (ChanPipeNread pi) (woken_table (ChanPipeNread pi) (Some p) (ticks s) (ptable s)) = {}"
    using Suc.prems by (intro woken_table_asleep) auto
  consider "pipe_full ?q" | "\<not> pipe_full ?q" "?b = None" | b where "\<not> pipe_full ?q" "?b = Some b" by auto
  then show ?case
  proof cases
    case 1
    then have "pipewrite_loop p pi addr m i s = Blocked (s\<lparr>held := {ProcLock p},
        ptable := (woken_table (ChanPipeNread pi) (Some p) (ticks s) (ptable s))(p := (ptable s p)
          \<lparr>p_chan := ChanPipeNwrite pi, p_state := SLEEPING, p_stime := ticks s\<rparr>)\<rparr>)"
      using Suc.prems im
      by (simp add: pipewrite_loop.simps [of p pi addr m i] prog_simps get_pipe_def wakeup_table sleep_eq)
    then show ?thesis using 1 Suc.prems im w
      by (auto simp: wrote_full_def asleep_on_upd intro!: exI [of _ i] exI [of _ "[]"])
  next
    case 2
    then have "pipewrite_loop p pi addr m i s = pipewrite_done pi i s"
      using Suc.prems im
      by (simp add: pipewrite_loop.simps [of p pi addr m i] prog_simps get_pipe_def copyin_one)
    then show ?thesis using 2 Suc.prems w
      by (auto simp: pipewrite_done_eq wrote_all_def intro!: exI [of _ i] exI [of _ "[]"])
  next
    case 3
    let ?s = "s\<lparr>pipes := (pipes s)(pi := pipe_put b ?q)\<rparr>"
    have run: "pipewrite_loop p pi addr m i s = pipewrite_loop p pi addr m (Suc i) ?s"
      using 3 Suc.prems im
      by (simp add: pipewrite_loop.simps [of p pi addr m i] prog_simps get_pipe_def copyin_one upd_pipe_def)
    have put: "pipe_ok (pipe_put b ?q)" "pipe_items (pipe_put b ?q) = pipe_items ?q @ [b]"
      using pipe_queue.put_items [OF Suc.prems(3) 3(1)] by simp_all
    have "case pipewrite_loop p pi addr m (Suc i) ?s of
      Ret r t \<Rightarrow> wrote_all p pi addr m (Suc i) ?s r t | Blocked t \<Rightarrow> wrote_full p pi addr m (Suc i) ?s t
      | Panic _ \<Rightarrow> False"
      using Suc.prems Suc.hyps(2) put by (intro Suc.hyps(1)) (simp_all add: pipe_put_def)
    then show ?thesis
      unfolding run using wrote_more [OF im 3(2) put(2)] by (auto split: outcome.splits)
  qed
qed

section \<open>Reading\<close>

text \<open>
  Bytes stored one by one in user memory from \<open>va\<close> on, up to the first address that is not mapped:
  how many, and the memory afterwards.
\<close>

fun out_bytes :: "u64 \<Rightarrow> u64 \<Rightarrow> u8 list \<Rightarrow> 'z kmem_scheme \<Rightarrow> nat \<times> mem" where
  "out_bytes pt va [] s = (0, pmem s)"
| "out_bytes pt va (b # bs) s = (case user_addr s pt va of None \<Rightarrow> (0, pmem s)
     | Some a \<Rightarrow> let (n, m) = out_bytes pt (va + 1) bs (s\<lparr>pmem := (pmem s)(a := b)\<rparr>) in (Suc n, m))"

lemma out_bytes_pmem:
  fixes s :: "'y kmem_scheme" and t :: "'z kmem_scheme"
  assumes "pmem s = pmem t"
  shows "out_bytes pt va bs s = out_bytes pt va bs t"
  using assms
proof (induction bs arbitrary: va s t)
  case (Cons b bs)
  note a = user_addr_pmem [OF Cons.prems, of pt va]
  have "out_bytes pt (va + 1) bs (s\<lparr>pmem := (pmem s)(a := b)\<rparr>) = out_bytes pt (va + 1) bs (t\<lparr>pmem := (pmem t)(a := b)\<rparr>)" for a
    by (rule Cons.IH) (simp add: Cons.prems)
  then show ?case using a Cons.prems by (simp split: option.splits)
qed simp

lemma piperead_done_eq:
  assumes "cpu_proc s = Some p" and "held s = {PipeLock pi}"
  shows "piperead_done pi i s = Ret (of_nat i)
    (s\<lparr>held := {}, ptable := woken_table (ChanPipeNwrite pi) (Some p) (ticks s) (ptable s)\<rparr>)"
  using assms by (simp add: piperead_done_def prog_simps wakeup_table)

text \<open>
  The bytes \<open>bs\<close> that \<open>piperead\<close> offers to the caller, of which the first \<open>n\<close> could be stored. A byte
  that could not be stored has been taken from the pipe all the same.
\<close>

definition delivered :: "u64 \<Rightarrow> u8 list \<Rightarrow> nat \<Rightarrow> 'z kpipe_scheme \<Rightarrow> 'z kpipe_scheme \<Rightarrow> bool" where
  "delivered pi bs n s t \<longleftrightarrow> held t = {} \<and> pipe_ok (pipes t pi) \<and>
     pipe_items (pipes t pi) = drop (if n < length bs then Suc n else n) (pipe_items (pipes s pi)) \<and>
     asleep_on (ChanPipeNwrite pi) (ptable t) = {}"

lemma piperead_copy_spec:
  assumes "cpu_proc s = Some p" and "held s = {PipeLock pi}" and "pipe_ok (pipes s pi)"
    and "p_state (ptable s p) = RUNNING"
    and "out_bytes (p_pagetable (ptable s p)) (addr + of_nat i) (take k (pipe_items (pipes s pi))) s = (n, m)"
  shows "\<exists>t. piperead_copy p pi addr i k s = Ret (of_nat (i + n)) t \<and> pmem t = m \<and>
    delivered pi (take k (pipe_items (pipes s pi))) n s t"
  using assms
proof (induction k arbitrary: i s n m)
  case 0
  have "asleep_on (ChanPipeNwrite pi) (woken_table (ChanPipeNwrite pi) (Some p) (ticks s) (ptable s)) = {}"
    using 0 by (intro woken_table_asleep) auto
  then show ?case using 0 by (simp add: piperead_done_eq delivered_def)
next
  case (Suc k)
  let ?q = "pipes s pi" and ?pt = "p_pagetable (ptable s p)"
  have w: "asleep_on (ChanPipeNwrite pi) (woken_table (ChanPipeNwrite pi) (Some p) (ticks s) (ptable s)) = {}"
    using Suc.prems by (intro woken_table_asleep) auto
  show ?case
  proof (cases "pipe_empty ?q")
    case True
    then have "pipe_items ?q = []" using pipe_queue.emp_iff [OF Suc.prems(3)] by simp
    then show ?thesis using True Suc.prems w
      by (simp add: prog_simps get_pipe_def piperead_done_eq delivered_def)
  next
    case False
    define b q where "b = fst (pipe_get ?q)" and "q = snd (pipe_get ?q)"
    then have g: "pipe_get ?q = (b, q)" by simp
    have ok: "pipe_ok q" and it: "pipe_items ?q = b # pipe_items q"
      using pipe_queue.get_items [OF Suc.prems(3) False] by (simp_all add: b_def q_def)
    show ?thesis
    proof (cases "user_addr s ?pt (addr + of_nat i)")
      case None
      let ?s = "s\<lparr>pipes := (pipes s)(pi := q)\<rparr>"
      have "user_addr ?s ?pt (addr + of_nat i) = None" using None user_addr_pmem [of ?s s] by simp
      then have "piperead_copy p pi addr i (Suc k) s = piperead_done pi i ?s"
        using False g by (simp add: prog_simps get_pipe_def upd_pipe_def copyout_one)
      moreover have "n = 0" "m = pmem s" using Suc.prems(5) None it by auto
      ultimately show ?thesis
        using Suc.prems w ok it by (simp add: piperead_done_eq delivered_def)
    next
      case (Some a)
      let ?s = "s\<lparr>pipes := (pipes s)(pi := q), pmem := (pmem s)(a := b)\<rparr>"
      obtain n' where n: "n = Suc n'"
        and out: "out_bytes ?pt (addr + of_nat i + 1) (take k (pipe_items q)) (s\<lparr>pmem := (pmem s)(a := b)\<rparr>) = (n', m)"
        using Suc.prems(5) Some it by (auto split: prod.splits)
      have "user_addr (s\<lparr>pipes := (pipes s)(pi := q)\<rparr>) ?pt (addr + of_nat i) = Some a"
        using Some user_addr_pmem [of "s\<lparr>pipes := (pipes s)(pi := q)\<rparr>" s] by simp
      then have run: "piperead_copy p pi addr i (Suc k) s = piperead_copy p pi addr (Suc i) k ?s"
        using False g by (simp add: prog_simps get_pipe_def upd_pipe_def copyout_one)
      have "out_bytes ?pt (addr + of_nat (Suc i)) (take k (pipe_items q)) ?s = (n', m)"
        using out out_bytes_pmem [of ?s "s\<lparr>pmem := (pmem s)(a := b)\<rparr>"] by (simp add: algebra_simps)
      then have "\<exists>t. piperead_copy p pi addr (Suc i) k ?s = Ret (of_nat (Suc i + n')) t \<and> pmem t = m \<and>
          delivered pi (take k (pipe_items (pipes ?s pi))) n' ?s t"
        using Suc.prems ok by (intro Suc.IH) simp_all
      then show ?thesis unfolding run using n it by (auto simp: delivered_def)
    qed
  qed
qed

section \<open>Properties\<close>

text \<open>
  \<open>pipewrite\<close>. When the read end is closed or the caller has been killed it returns -1 and changes
  nothing. Otherwise it appends the bytes of the caller's buffer to the queue of the pipe in order.
  It returns how many it has appended when all are, or when the next one is not mapped; it goes to
  sleep when the queue holds 512 bytes. In both cases every reader asleep on the pipe has been
  woken. It never panics.
\<close>

theorem pipewrite_fifo:
  assumes "cpu_proc s = Some p" and "held s = {}" and "pipe_ok (pipes s pi)" and "p_state (ptable s p) = RUNNING"
  shows "case pipewrite pi addr n s of
      Ret r t \<Rightarrow> if 0 < sint n \<and> (pi_readopen (pipes s pi) = 0 \<or> p_killed (ptable s p) \<noteq> 0) then r = -1 \<and> t = s
        else wrote_all p pi addr (nat (sint n)) 0 s r t
    | Blocked t \<Rightarrow> wrote_full p pi addr (nat (sint n)) 0 s t
    | Panic _ \<Rightarrow> False"
proof -
  let ?s = "s\<lparr>held := {PipeLock pi}\<rparr>"
  have same: "wrote_all p pi addr m i ?s r t = wrote_all p pi addr m i s r t"
    "wrote_full p pi addr m i ?s t = wrote_full p pi addr m i s t" for m i r t
    unfolding wrote_all_def wrote_full_def using buf_bytes_pmem [of ?s s] user_byte_pmem [of ?s s] by simp_all
  have run: "pipewrite pi addr n s = pipewrite_loop p pi addr (nat (sint n)) 0 ?s"
    using assms by (simp add: pipewrite_def prog_simps curproc_Some)
  show ?thesis
  proof (cases "0 < sint n \<and> (pi_readopen (pipes s pi) = 0 \<or> p_killed (ptable s p) \<noteq> 0)")
    case True
    then show ?thesis using assms(2)
      by (simp add: run pipewrite_loop.simps [of p pi addr "nat (sint n)" 0] prog_simps get_pipe_def)
  next
    case False
    have "case pipewrite_loop p pi addr (nat (sint n)) 0 ?s of
      Ret r t \<Rightarrow> wrote_all p pi addr (nat (sint n)) 0 ?s r t | Blocked t \<Rightarrow> wrote_full p pi addr (nat (sint n)) 0 ?s t
      | Panic _ \<Rightarrow> False"
    proof (cases "0 < sint n")
      case True
      then show ?thesis using False assms by (intro pipewrite_loop_spec) simp_all
    next
      case neg: False
      have "asleep_on (ChanPipeNread pi) (woken_table (ChanPipeNread pi) (Some p) (ticks s) (ptable s)) = {}"
        using assms(4) by (intro woken_table_asleep) auto
      moreover have "nat (sint n) = 0" using neg by linarith
      ultimately show ?thesis using assms
        by (simp add: pipewrite_loop.simps pipewrite_done_eq wrote_all_def)
    qed
    then show ?thesis using False unfolding run same by (auto split: outcome.splits)
  qed
qed

text \<open>Process 5 runs; the pipe at 0x3000 is full, the one at 0x4000 is empty and has no writer left.\<close>

definition pipe_demo :: kpipe where
  "pipe_demo = kslk.extend lock_demo \<lparr>pipes = (\<lambda>pi.
     if pi = 0x3000 then \<lparr>pi_data = (\<lambda>_. 65), pi_nread = 0, pi_nwrite = 512, pi_readopen = 1, pi_writeopen = 1\<rparr>
     else \<lparr>pi_data = (\<lambda>_. 0), pi_nread = 3, pi_nwrite = 3, pi_readopen = 1, pi_writeopen = 0\<rparr>)\<rparr>"

lemma pipe_demo_simps:
  "cpu_proc pipe_demo = Some 5" "held pipe_demo = {}" "p_state (ptable pipe_demo 5) = RUNNING"
  "p_killed (ptable pipe_demo 5) = 0" "pipe_ok (pipes pipe_demo pi)"
  "pi_readopen (pipes pipe_demo pi) = 1" "pipe_full (pipes pipe_demo 0x3000)"
  by (simp_all add: pipe_demo_def lock_demo_def idle_kernel_def kproc.extend_def kslk.extend_def three_runnable_def
      blank_proc_def pipe_ok_def pipe_full_def)

theorem pipewrite_fifo_witness:
  "\<exists>t. pipewrite 0x3000 0 3 pipe_demo = Blocked t \<and> wrote_full 5 0x3000 0 3 0 pipe_demo t"
proof -
  let ?s = "pipe_demo\<lparr>held := {PipeLock 0x3000}\<rparr>"
  have "pipewrite 0x3000 0 3 pipe_demo = pipewrite_loop 5 0x3000 0 3 0 ?s"
    by (simp add: pipewrite_def prog_simps curproc_Some pipe_demo_simps)
  moreover have "\<exists>t. pipewrite_loop 5 0x3000 0 3 0 ?s = Blocked t"
    by (simp add: pipewrite_loop.simps prog_simps get_pipe_def pipe_demo_simps wakeup_table sleep_eq)
  ultimately show ?thesis
    using pipewrite_fifo [where s = pipe_demo and p = 5 and pi = "0x3000" and addr = 0 and n = 3] by (auto simp: pipe_demo_simps)
qed

text \<open>
  \<open>piperead\<close>. On an empty pipe with an open write end it returns -1 if the caller has been killed,
  and goes to sleep otherwise. In any other case it takes up to \<open>n\<close> bytes from the front of the queue
  in order, stores them in the caller's buffer up to the first address that is not mapped, and
  returns how many were stored; then every writer asleep on the pipe has been woken. It never
  panics. A byte that could not be stored is lost.
\<close>

theorem piperead_fifo:
  assumes "cpu_proc s = Some p" and "held s = {}" and "pipe_ok (pipes s pi)" and "p_state (ptable s p) = RUNNING"
  shows "if pipe_items (pipes s pi) = [] \<and> pi_writeopen (pipes s pi) \<noteq> 0 then
      if p_killed (ptable s p) \<noteq> 0 then piperead pi addr n s = Ret (-1) s
      else piperead pi addr n s = Blocked (s\<lparr>held := {ProcLock p}, ptable := (ptable s)(p := (ptable s p)
        \<lparr>p_chan := ChanPipeNread pi, p_state := SLEEPING, p_stime := ticks s\<rparr>)\<rparr>)
    else let bs = take (nat (sint n)) (pipe_items (pipes s pi));
             (k, m) = out_bytes (p_pagetable (ptable s p)) addr bs s
      in \<exists>t. piperead pi addr n s = Ret (of_nat k) t \<and> pmem t = m \<and> delivered pi bs k s t"
proof -
  let ?s = "s\<lparr>held := {PipeLock pi}\<rparr>" and ?bs = "take (nat (sint n)) (pipe_items (pipes s pi))"
  have run: "piperead pi addr n s = piperead_wait p pi addr n ?s"
    using assms by (simp add: piperead_def prog_simps curproc_Some)
  have e: "pipe_empty (pipes s pi) \<longleftrightarrow> pipe_items (pipes s pi) = []" by (rule pipe_queue.emp_iff [OF assms(3)])
  show ?thesis
  proof (cases "pipe_items (pipes s pi) = [] \<and> pi_writeopen (pipes s pi) \<noteq> 0")
    case True
    then show ?thesis using assms e
      by (simp add: run piperead_wait_def prog_simps get_pipe_def sleep_eq)
  next
    case False
    obtain k m where out: "out_bytes (p_pagetable (ptable s p)) addr ?bs s = (k, m)" by force
    then have "out_bytes (p_pagetable (ptable ?s p)) (addr + of_nat 0) (take (nat (sint n)) (pipe_items (pipes ?s pi))) ?s = (k, m)"
      using out_bytes_pmem [of ?s s] by simp
    then have "\<exists>t. piperead_copy p pi addr 0 (nat (sint n)) ?s = Ret (of_nat (0 + k)) t \<and> pmem t = m \<and> delivered pi ?bs k ?s t"
      using piperead_copy_spec [of ?s p pi addr 0 "nat (sint n)" k m] assms by simp
    then show ?thesis using False e out
      by (auto simp: run piperead_wait_def prog_simps get_pipe_def delivered_def Let_def)
  qed
qed

theorem piperead_fifo_witness: "\<exists>t. piperead 0x4000 0 3 pipe_demo = Ret 0 t \<and> delivered 0x4000 [] 0 pipe_demo t"
proof -
  have "pipe_items (pipes pipe_demo 0x4000) = []" "pi_writeopen (pipes pipe_demo 0x4000) = 0"
    by (simp_all add: pipe_demo_def kslk.extend_def pipe_items_def ring_contents_def)
  then show ?thesis
    using piperead_fifo [where s = pipe_demo and p = 5 and pi = "0x4000" and addr = 0 and n = 3] by (auto simp: pipe_demo_simps)
qed

text \<open>
  C34: whatever sequence of bytes is put into a pipe and taken from it, the bytes that come out are the
  bytes that went in, in the same order, and what is missing is still in the pipe; the indices may
  wrap around any number of times.
\<close>

theorem pipe_stream:
  assumes "pipe_ok q" and "qrun pipe_full pipe_empty pipe_put pipe_get ops q = (i, out, q')"
  shows "pipe_ok q' \<and> pipe_items q @ i = out @ pipe_items q'"
  using assms by (rule pipe_queue.stream)

theorem pipe_stream_witness:
  "\<exists>i out q'. qrun pipe_full pipe_empty pipe_put pipe_get [Put 7, Put 9, Get]
     \<lparr>pi_data = (\<lambda>_. 0), pi_nread = 0xFFFFFFFF, pi_nwrite = 0xFFFFFFFF, pi_readopen = 1, pi_writeopen = 1\<rparr> = (i, out, q') \<and>
     i = out @ pipe_items q' \<and> out = [7]"
proof -
  let ?q = "\<lparr>pi_data = (\<lambda>_. 0), pi_nread = 0xFFFFFFFF, pi_nwrite = 0xFFFFFFFF, pi_readopen = 1, pi_writeopen = 1\<rparr> :: pipe"
  obtain i out q' where r: "qrun pipe_full pipe_empty pipe_put pipe_get [Put 7, Put 9, Get] ?q = (i, out, q')"
    by (metis prod_cases3)
  have "pipe_ok ?q" "pipe_items ?q = []" by (simp_all add: pipe_ok_def pipe_items_def ring_contents_def)
  moreover have "out = [7]" using r
    by (simp add: pipe_full_def pipe_empty_def pipe_put_def pipe_get_def)
  moreover from \<open>pipe_ok ?q\<close> r have "pipe_ok q' \<and> pipe_items ?q @ i = out @ pipe_items q'" by (rule pipe_stream)
  ultimately show ?thesis using r by (intro exI conjI) simp_all
qed

end
