(* ===== verification/Uart.thy ===== *)
theory Uart
  imports Pipe
begin

text \<open>
  kernel/uart.c: the driver of the serial port. The device is outside the kernel: what it answers to
  the successive reads of its registers is a parameter of the model, the list \<open>uart_resp\<close> of the
  state; a hart that reads more often than the list is long is \<open>Blocked\<close> waiting for the device. What
  the driver writes to the registers is recorded in \<open>uart_writes\<close>. The result is that the characters
  given to \<open>uartputc\<close> reach the transmit register in order and without loss.
\<close>

section \<open>State and registers\<close>

record kuart = kpipe +
  uart_tx_buf :: "nat \<Rightarrow> u8"
  uart_tx_w :: u64
  uart_tx_r :: u64
  panicked :: i32
  uart_resp :: "u8 list"
  uart_writes :: "(nat \<times> u8) list"

abbreviation (input) UART_TX_BUF_SIZE :: nat where "UART_TX_BUF_SIZE \<equiv> 32"
abbreviation (input) THR :: nat where "THR \<equiv> 0"
abbreviation (input) IER :: nat where "IER \<equiv> 1"
abbreviation (input) FCR :: nat where "FCR \<equiv> 2"
abbreviation (input) LCR :: nat where "LCR \<equiv> 3"
abbreviation (input) LSR_RX_READY :: u8 where "LSR_RX_READY \<equiv> 1"
abbreviation (input) LSR_TX_IDLE :: u8 where "LSR_TX_IDLE \<equiv> 32"

text \<open>A read of register LSR or RHR.\<close>

definition ReadReg :: "('z kuart_scheme, u8) prog" where
  "ReadReg = (\<lambda>s. case uart_resp s of [] \<Rightarrow> Blocked s | v # vs \<Rightarrow> Ret v (s\<lparr>uart_resp := vs\<rparr>))"

definition WriteReg :: "nat \<Rightarrow> u8 \<Rightarrow> ('z kuart_scheme, unit) prog" where
  "WriteReg reg v = modify (\<lambda>s. s\<lparr>uart_writes := uart_writes s @ [(reg, v)]\<rparr>)"

section \<open>Operations\<close>

definition uartinit :: "('z kuart_scheme, unit) prog" where
  "uartinit =
     andthen (WriteReg IER 0)
     (andthen (WriteReg LCR 0x80)
     (andthen (WriteReg 0 3)
     (andthen (WriteReg 1 0)
     (andthen (WriteReg LCR 3)
     (andthen (WriteReg FCR 7)
     (WriteReg IER 3))))))"

text \<open>
  The ring of characters to send: its tests, \<open>uart_tx_buf[uart_tx_w % UART_TX_BUF_SIZE] = c;
  uart_tx_w += 1\<close>, and the next character with \<open>uart_tx_r += 1\<close>.
\<close>

definition tx_full :: "'z kuart_scheme \<Rightarrow> bool" where
  "tx_full s \<longleftrightarrow> uart_tx_w s = uart_tx_r s + 32"

definition tx_empty :: "'z kuart_scheme \<Rightarrow> bool" where
  "tx_empty s \<longleftrightarrow> uart_tx_w s = uart_tx_r s"

definition tx_put :: "u8 \<Rightarrow> 'z kuart_scheme \<Rightarrow> 'z kuart_scheme" where
  "tx_put c s = s\<lparr>uart_tx_buf := (uart_tx_buf s)(unat (uart_tx_w s) mod UART_TX_BUF_SIZE := c),
     uart_tx_w := uart_tx_w s + 1\<rparr>"

definition tx_get :: "'z kuart_scheme \<Rightarrow> u8 \<times> 'z kuart_scheme" where
  "tx_get s = (uart_tx_buf s (unat (uart_tx_r s) mod UART_TX_BUF_SIZE), s\<lparr>uart_tx_r := uart_tx_r s + 1\<rparr>)"

text \<open>
  The loop of \<open>uartstart\<close>. Every iteration takes a character from the ring, so that as many
  iterations are enough as there are characters in it; after those the first test of the loop ends it.
\<close>

primrec uartstart_loop :: "nat \<Rightarrow> ('z kuart_scheme, unit) prog" where
  "uartstart_loop 0 = return ()"
| "uartstart_loop (Suc n) =
     bind (gets tx_empty) (\<lambda>e.
     if e then return ()
     else bind ReadReg (\<lambda>lsr.
       if lsr AND LSR_TX_IDLE = 0 then return ()
       else bind (gets tx_get) (\<lambda>(c, s').
         andthen (modify (\<lambda>_. s'))
         (andthen (wakeup ChanUartTxR)
         (andthen (WriteReg THR c)
         (uartstart_loop n))))))"

definition uartstart :: "('z kuart_scheme, unit) prog" where
  "uartstart = bind (gets (\<lambda>s. unat (uart_tx_w s - uart_tx_r s))) uartstart_loop"

text \<open>
  \<open>uartputc\<close> from its loop on. A hart that finds \<open>panicked\<close> set spins for ever.
\<close>

definition uartputc_loop :: "u8 \<Rightarrow> ('z kuart_scheme, unit) prog" where
  "uartputc_loop c =
     bind (gets tx_full) (\<lambda>full.
     if full then sleep ChanUartTxR UartLock
     else andthen (modify (tx_put c)) (andthen uartstart (release UartLock)))"

definition uartputc :: "u8 \<Rightarrow> ('z kuart_scheme, unit) prog" where
  "uartputc c =
     andthen (acquire UartLock)
     (bind (gets panicked) (\<lambda>b. if b \<noteq> 0 then (\<lambda>s. Blocked s) else uartputc_loop c))"

definition uartputc_resume :: "nat \<Rightarrow> u8 \<Rightarrow> ('z kuart_scheme, unit) prog" where
  "uartputc_resume p c = andthen (sleep_resume p UartLock) (uartputc_loop c)"

text \<open>
  The wait for the transmit register, with as many iterations as the device has answers; then the
  character. The matched \<open>push_off\<close> and \<open>pop_off\<close> leave no trace in the state.
\<close>

primrec uart_wait_idle :: "nat \<Rightarrow> ('z kuart_scheme, unit) prog" where
  "uart_wait_idle 0 = (\<lambda>s. Blocked s)"
| "uart_wait_idle (Suc n) = bind ReadReg (\<lambda>lsr. if lsr AND LSR_TX_IDLE = 0 then uart_wait_idle n else return ())"

definition uartputc_sync :: "u8 \<Rightarrow> ('z kuart_scheme, unit) prog" where
  "uartputc_sync c =
     bind (gets panicked) (\<lambda>b. if b \<noteq> 0 then (\<lambda>s. Blocked s)
     else andthen (bind (gets (\<lambda>s. length (uart_resp s))) uart_wait_idle) (WriteReg THR c))"

text \<open>\<open>uartgetc\<close> returns -1 when no character is waiting.\<close>

definition uartgetc :: "('z kuart_scheme, i32) prog" where
  "uartgetc =
     bind ReadReg (\<lambda>lsr. if lsr AND LSR_RX_READY \<noteq> 0 then bind ReadReg (\<lambda>c. return (ucast c)) else return (-1))"

section \<open>The ring as a queue\<close>

definition tx_items :: "'z kuart_scheme \<Rightarrow> u8 list" where
  "tx_items s = ring_contents UART_TX_BUF_SIZE (uart_tx_buf s) (uart_tx_r s) (uart_tx_w s)"

definition tx_ok :: "'z kuart_scheme \<Rightarrow> bool" where
  "tx_ok s \<longleftrightarrow> length (tx_items s) \<le> UART_TX_BUF_SIZE"

interpretation tx_queue: fifo tx_ok tx_items UART_TX_BUF_SIZE tx_full tx_empty tx_put tx_get
proof
  fix s :: "'z kuart_scheme" and x :: u8
  let ?r = "uart_tx_r s" and ?w = "uart_tx_w s"
  have full: "tx_full s \<longleftrightarrow> length (tx_items s) = UART_TX_BUF_SIZE"
    using ring_full [of UART_TX_BUF_SIZE ?w ?r] by (simp add: tx_full_def tx_items_def)
  assume ok: "tx_ok s"
  then show "length (tx_items s) \<le> UART_TX_BUF_SIZE" by (simp add: tx_ok_def)
  show "tx_full s \<longleftrightarrow> length (tx_items s) = UART_TX_BUF_SIZE" by (rule full)
  show "tx_empty s \<longleftrightarrow> tx_items s = []"
    using ring_empty [of UART_TX_BUF_SIZE "uart_tx_buf s" ?r ?w] by (auto simp: tx_empty_def tx_items_def)
  show "tx_ok (tx_put x s) \<and> tx_items (tx_put x s) = tx_items s @ [x]" if "\<not> tx_full s"
  proof -
    have lt: "length (tx_items s) < UART_TX_BUF_SIZE" using that full ok by (simp add: tx_ok_def)
    then have "tx_items (tx_put x s) = tx_items s @ [x]"
      using ring_put [of UART_TX_BUF_SIZE ?w ?r "uart_tx_buf s" x] by (simp add: tx_items_def tx_put_def)
    with lt show ?thesis by (simp add: tx_ok_def)
  qed
  show "tx_ok (snd (tx_get s)) \<and> tx_items s = fst (tx_get s) # tx_items (snd (tx_get s))" if "\<not> tx_empty s"
  proof -
    have "tx_items s = fst (tx_get s) # tx_items (snd (tx_get s))"
      using that ring_get [of ?r ?w UART_TX_BUF_SIZE "uart_tx_buf s"] by (simp add: tx_items_def tx_get_def tx_empty_def)
    with ok show ?thesis by (simp add: tx_ok_def)
  qed
qed

section \<open>Characters on the wire\<close>

definition sent :: "'z kuart_scheme \<Rightarrow> u8 list" where
  "sent s = map snd (filter (\<lambda>w. fst w = THR) (uart_writes s))"

lemma tx_fields_cong:
  "uart_writes t = uart_writes s \<Longrightarrow> uart_tx_buf t = uart_tx_buf s \<Longrightarrow> uart_tx_r t = uart_tx_r s \<Longrightarrow>
   uart_tx_w t = uart_tx_w s \<Longrightarrow> sent t = sent s \<and> tx_items t = tx_items s \<and> tx_ok t = tx_ok s"
  by (simp add: sent_def tx_items_def tx_ok_def)

definition no_proclock :: "'z kbase_scheme \<Rightarrow> bool" where
  "no_proclock s \<longleftrightarrow> (\<forall>p. ProcLock p \<notin> held s)"

lemma wakeup_no_proclock:
  "no_proclock s \<Longrightarrow> wakeup c s = Ret () (s\<lparr>ptable := woken_table c (cpu_proc s) (ticks s) (ptable s)\<rparr>)"
  by (rule wakeup_table) (simp add: no_proclock_def)

text \<open>
  How many of \<open>n\<close> waiting characters the device takes: one for each answer, from the first on, that says
  the transmit register is idle. \<open>tx_outcome\<close> is what becomes of a run that has \<open>n\<close> characters to send: it
  waits for the device only if it has run out of answers.
\<close>

definition tx_taken :: "nat \<Rightarrow> u8 list \<Rightarrow> nat" where
  "tx_taken n vs = min n (length (takeWhile (\<lambda>v. v AND LSR_TX_IDLE \<noteq> 0) vs))"

definition tx_outcome :: "nat \<Rightarrow> u8 list \<Rightarrow> 's \<Rightarrow> ('s, unit) outcome" where
  "tx_outcome n vs t = (if tx_taken n vs < n \<and> tx_taken n vs = length vs then Blocked t else Ret () t)"

definition tx_sent :: "u8 list \<Rightarrow> u8 list \<Rightarrow> 'z kuart_scheme \<Rightarrow> 'z kuart_scheme \<Rightarrow> bool" where
  "tx_sent cs vs s t \<longleftrightarrow> sent t = sent s @ take (tx_taken (length cs) vs) cs \<and>
     tx_items t = drop (tx_taken (length cs) vs) cs \<and> tx_ok t"

lemma uartstart_loop_sends:
  assumes "tx_ok s" and "no_proclock s"
  shows "\<exists>t. uartstart_loop (length (tx_items s)) s = tx_outcome (length (tx_items s)) (uart_resp s) t \<and>
    tx_sent (tx_items s) (uart_resp s) s t \<and> held t = held s"
  using assms
proof (induction "length (tx_items s)" arbitrary: s)
  case 0
  then have "tx_items s = []" by simp
  then show ?case using 0 by (intro exI [of _ s]) (simp add: tx_outcome_def tx_sent_def tx_taken_def return_apply)
next
  case (Suc n)
  have ne: "\<not> tx_empty s" using tx_queue.emp_iff [OF Suc.prems(1)] Suc.hyps(2) by auto
  note n = Suc.hyps(2) [symmetric]
  show ?case
  proof (cases "uart_resp s")
    case Nil
    then show ?thesis using ne n Suc.prems
      by (intro exI [of _ s]) (simp add: prog_simps ReadReg_def tx_outcome_def tx_sent_def tx_taken_def)
  next
    case (Cons v vs)
    let ?s = "s\<lparr>uart_resp := vs\<rparr>"
    have same: "tx_items ?s = tx_items s" "sent ?s = sent s" "tx_ok ?s" "\<not> tx_empty ?s"
      using Suc.prems ne tx_fields_cong [of ?s s] by (simp_all add: tx_empty_def sent_def)
    show ?thesis
    proof (cases "v AND LSR_TX_IDLE = 0")
      case True
      then show ?thesis using Cons ne n same
        by (intro exI [of _ ?s]) (simp add: prog_simps ReadReg_def tx_outcome_def tx_sent_def tx_taken_def)
    next
      case False
      obtain c s' where g: "tx_get ?s = (c, s')" by force
      let ?t = "s'\<lparr>ptable := woken_table ChanUartTxR (cpu_proc s') (ticks s') (ptable s'),
        uart_writes := uart_writes s' @ [(THR, c)]\<rparr>"
      have s': "held s' = held s" "no_proclock s'" "uart_writes s' = uart_writes s" "uart_resp s' = vs"
        using g Suc.prems by (auto simp: tx_get_def no_proclock_def)
      have it: "tx_items s = c # tx_items s'" "tx_ok s'" using tx_queue.get_items [OF same(3,4)] g same(1) by simp_all
      have t: "tx_items ?t = tx_items s'" "tx_ok ?t" "sent ?t = sent s @ [c]" "held ?t = held s" "no_proclock ?t" "uart_resp ?t = vs"
        using it s' by (simp_all add: tx_items_def tx_ok_def sent_def no_proclock_def)
      have step: "uartstart_loop (length (tx_items s)) s = uartstart_loop (length (tx_items ?t)) ?t"
        using False Cons g s' ne it t(1) by (simp add: prog_simps ReadReg_def WriteReg_def wakeup_no_proclock)
      have "n = length (tx_items ?t)" using Suc.hyps(2) it t(1) by simp
      from Suc.hyps(1) [OF this t(2,5)] obtain u where u: "uartstart_loop (length (tx_items ?t)) ?t = tx_outcome (length (tx_items ?t)) vs u"
        "tx_sent (tx_items ?t) vs ?t u" "held u = held s" unfolding t(4,6) by auto
      have k: "tx_taken (Suc m) (v # vs) = Suc (tx_taken m vs)" for m using False by (simp add: tx_taken_def)
      show ?thesis unfolding step using u it t(1,3) Cons
        by (intro exI [of _ u]) (simp add: tx_outcome_def tx_sent_def k)
    qed
  qed
qed

lemma uartstart_sends:
  assumes "tx_ok s" and "no_proclock s"
  shows "\<exists>t. uartstart s = tx_outcome (length (tx_items s)) (uart_resp s) t \<and> tx_sent (tx_items s) (uart_resp s) s t \<and> held t = held s"
proof -
  have "unat (uart_tx_w s - uart_tx_r s) = length (tx_items s)" by (simp add: tx_items_def)
  then show ?thesis using uartstart_loop_sends [OF assms] by (simp add: uartstart_def prog_simps)
qed

section \<open>Properties\<close>

text \<open>
  C35: the characters given to \<open>uartputc\<close> reach the transmit register in order and none is lost. If the
  ring of 32 characters is full, \<open>uartputc\<close> goes to sleep and sends nothing. Otherwise its character is
  put behind those that are waiting, and as many of them as the device has idle answers for are written
  to the transmit register, oldest first; the others go on waiting. The same is true of \<open>uartstart\<close>, which
  the interrupt handler calls when the device has become idle. So no character is sent
  while the device is busy, and all are sent when it is idle long enough.
\<close>

theorem uartputc_order:
  assumes "cpu_proc s = Some p" and "held s = {}" and "panicked s = 0" and "tx_ok s" and "tx_ok v" and "no_proclock v"
  shows "(if length (tx_items s) = UART_TX_BUF_SIZE
      then \<exists>t. uartputc c s = Blocked t \<and> sent t = sent s \<and> tx_items t = tx_items s \<and>
        p_state (ptable t p) = SLEEPING \<and> p_chan (ptable t p) = ChanUartTxR
      else \<exists>t. uartputc c s = tx_outcome (length (tx_items s @ [c])) (uart_resp s) t \<and>
        tx_sent (tx_items s @ [c]) (uart_resp s) s t \<and> (uartputc c s = Ret () t \<longrightarrow> held t = {})) \<and>
    (\<exists>t. uartstart v = tx_outcome (length (tx_items v)) (uart_resp v) t \<and> tx_sent (tx_items v) (uart_resp v) v t)"
proof -
  let ?s = "s\<lparr>held := {UartLock}\<rparr>"
  have run: "uartputc c s = uartputc_loop c ?s" using assms by (simp add: uartputc_def prog_simps)
  have same: "tx_items ?s = tx_items s" "tx_ok ?s" "tx_full ?s = tx_full s"
    using assms(4) tx_fields_cong [of ?s s] by (simp_all add: tx_full_def)
  have full: "tx_full s \<longleftrightarrow> length (tx_items s) = UART_TX_BUF_SIZE" by (rule tx_queue.full_iff [OF assms(4)])
  have "if length (tx_items s) = UART_TX_BUF_SIZE
      then \<exists>t. uartputc c s = Blocked t \<and> sent t = sent s \<and> tx_items t = tx_items s \<and>
        p_state (ptable t p) = SLEEPING \<and> p_chan (ptable t p) = ChanUartTxR
      else \<exists>t. uartputc c s = tx_outcome (length (tx_items s @ [c])) (uart_resp s) t \<and>
        tx_sent (tx_items s @ [c]) (uart_resp s) s t \<and> (uartputc c s = Ret () t \<longrightarrow> held t = {})"
  proof (cases "tx_full s")
    case True
    let ?t = "?s\<lparr>held := {ProcLock p}, ptable := (ptable s)(p := (ptable s p)
        \<lparr>p_chan := ChanUartTxR, p_state := SLEEPING, p_stime := ticks s\<rparr>)\<rparr>"
    have "sent ?t = sent s" "tx_items ?t = tx_items s" by (simp_all add: sent_def tx_items_def)
    moreover have "uartputc c s = Blocked ?t" unfolding run using True assms by (simp add: uartputc_loop_def prog_simps tx_full_def sleep_eq)
    ultimately show ?thesis using True full by auto
  next
    case False
    let ?u = "tx_put c ?s"
    have u: "tx_ok ?u" "tx_items ?u = tx_items s @ [c]" using tx_queue.put_items [OF same(2)] False same by simp_all
    have s: "sent ?u = sent s" "no_proclock ?u" "held ?u = {UartLock}" "uart_resp ?u = uart_resp s"
      by (simp_all add: sent_def tx_put_def no_proclock_def)
    obtain t where t: "uartstart ?u = tx_outcome (length (tx_items s @ [c])) (uart_resp s) t"
      "tx_sent (tx_items s @ [c]) (uart_resp s) ?u t" "held t = {UartLock}"
      using uartstart_sends [OF u(1) s(2)] unfolding u(2) s(3,4) by auto
    let ?b = "tx_taken (length (tx_items s @ [c])) (uart_resp s) < length (tx_items s @ [c]) \<and> tx_taken (length (tx_items s @ [c])) (uart_resp s) = length (uart_resp s)"
    let ?t = "if ?b then t else t\<lparr>held := {}\<rparr>"
    have r: "uartputc c s = tx_outcome (length (tx_items s @ [c])) (uart_resp s) ?t"
      unfolding run tx_outcome_def using False same(3) t(1,3) by (simp add: uartputc_loop_def prog_simps tx_outcome_def)
    have "tx_sent cs vs ?u (t\<lparr>held := {}\<rparr>) = tx_sent cs vs ?u t" "tx_sent cs vs s w = tx_sent cs vs ?u w" for cs vs w
      using s(1) by (simp_all add: tx_sent_def sent_def tx_items_def tx_ok_def)
    then have "tx_sent (tx_items s @ [c]) (uart_resp s) s ?t" using t(2) by simp
    moreover have "uartputc c s = Ret () ?t \<longrightarrow> held ?t = {}" unfolding r by (simp add: tx_outcome_def)
    moreover have "length (tx_items s) \<noteq> UART_TX_BUF_SIZE" using False full by simp
    ultimately show ?thesis using r by (simp only: if_False) blast
  qed
  then show ?thesis using uartstart_sends [OF assms(5,6)] by blast
qed

text \<open>Process 5 runs, the ring is empty and the device is idle once.\<close>

definition uart_demo :: kuart where
  "uart_demo = kpipe.extend pipe_demo \<lparr>uart_tx_buf = (\<lambda>_. 0), uart_tx_w = 0, uart_tx_r = 0, panicked = 0,
     uart_resp = [32], uart_writes = []\<rparr>"

lemma uart_demo_simps:
  "cpu_proc uart_demo = Some 5" "held uart_demo = {}" "panicked uart_demo = 0" "tx_items uart_demo = []"
  "sent uart_demo = []" "uart_resp uart_demo = [32]" "uart_tx_w uart_demo = 0" "uart_tx_r uart_demo = 0"
  "uart_writes uart_demo = []"
  by (simp_all add: uart_demo_def pipe_demo_def lock_demo_def idle_kernel_def kproc.extend_def kslk.extend_def
      kpipe.extend_def tx_items_def ring_contents_def sent_def)

theorem uartputc_order_witness: "\<exists>t. uartputc 65 uart_demo = Ret () t \<and> sent t = [65] \<and> tx_items t = []"
proof -
  have ok: "tx_ok uart_demo" "no_proclock uart_demo" by (simp_all add: tx_ok_def no_proclock_def uart_demo_simps)
  have k: "tx_taken (Suc 0) [32] = Suc 0" by (simp add: tx_taken_def)
  have "length (tx_items uart_demo) \<noteq> UART_TX_BUF_SIZE" by (simp add: uart_demo_simps)
  with uartputc_order [OF uart_demo_simps(1,2,3) ok(1) ok, of 65]
  obtain t where t: "uartputc 65 uart_demo = tx_outcome (length (tx_items uart_demo @ [65])) (uart_resp uart_demo) t"
    "tx_sent (tx_items uart_demo @ [65]) (uart_resp uart_demo) uart_demo t"
    by (simp only: if_False) (elim conjE exE)
  have "uartputc 65 uart_demo = Ret () t" using t(1) by (simp add: uart_demo_simps tx_outcome_def k)
  moreover have "sent t = [65]" "tx_items t = []" using t(2) by (simp_all add: uart_demo_simps tx_sent_def k)
  ultimately show ?thesis by blast
qed

end
