(* ===== verification/Printf.thy ===== *)
theory Printf
  imports Uart
begin

text \<open>
  kernel/printf.c, with \<open>consputc\<close> of kernel/console.c and \<open>procdump\<close> of kernel/proc.c. A number is
  printed as the digits that denote it, in a buffer that is long enough; and on a device that
  is ready to send, \<open>printf\<close> transmits exactly the expansion of its format.
\<close>

section \<open>State and operations\<close>

record kprintf = kuart +
  pr_locking :: i32

text \<open>Strings are lists of bytes without the terminating zero.\<close>

definition cstr :: "string \<Rightarrow> u8 list" where
  "cstr = map of_char"

definition consputc :: "i32 \<Rightarrow> ('z kuart_scheme, unit) prog" where
  "consputc c =
     (if c = 0x100 then andthen (uartputc_sync 8) (andthen (uartputc_sync 32) (uartputc_sync 8))
      else uartputc_sync (ucast c))"

definition digits :: "u8 list" where
  "digits = cstr ''0123456789abcdef''"

text \<open>
  The \<open>do\<close> loop of \<open>printint\<close> with the digits in the order in which they are stored in \<open>buf\<close>. It is
  only called with base 10 and 16; for a base below 2 the loop of the code does not end.
\<close>

function print_digits :: "u32 \<Rightarrow> u32 \<Rightarrow> u8 list" where
  "print_digits x b = digits ! unat (x mod b) #
     (if x div b \<noteq> 0 \<and> 1 < b then print_digits (x div b) b else [])"
  by pat_completeness auto
termination
proof (relation "measure (\<lambda>(x, b). unat x)")
  fix x b :: u32
  assume "x div b \<noteq> 0 \<and> 1 < b"
  then have "1 < unat b" "unat x div unat b \<noteq> 0"
    by (auto simp: word_less_nat_alt word_unat_eq_iff unat_div)
  then show "((x div b, b), x, b) \<in> measure (\<lambda>(x, b). unat x)"
    by (cases "unat x = 0") (simp_all add: unat_div div_less_dividend)
qed simp

declare print_digits.simps [simp del]

definition printint_buf :: "i32 \<Rightarrow> u32 \<Rightarrow> bool \<Rightarrow> u8 list" where
  "printint_buf xx b sign =
     (if sign \<and> sint xx < 0 then print_digits (- xx) b @ [45] else print_digits xx b)"

definition printint :: "i32 \<Rightarrow> u32 \<Rightarrow> bool \<Rightarrow> ('z kuart_scheme, unit) prog" where
  "printint xx b sign = for_each (rev (printint_buf xx b sign)) (\<lambda>c. consputc (ucast c))"

primrec printptr_loop :: "nat \<Rightarrow> u64 \<Rightarrow> ('z kuart_scheme, unit) prog" where
  "printptr_loop 0 x = return ()"
| "printptr_loop (Suc n) x =
     andthen (consputc (ucast (digits ! unat (drop_bit 60 x)))) (printptr_loop n (push_bit 4 x))"

definition printptr :: "u64 \<Rightarrow> ('z kuart_scheme, unit) prog" where
  "printptr x = andthen (consputc 48) (andthen (consputc 120) (printptr_loop 16 x))"

text \<open>
  The arguments of \<open>printf\<close>; \<open>ArgStr None\<close> is a null pointer. Every call in the kernel gives each
  conversion an argument of the type it takes.
\<close>

datatype prarg = ArgInt i32 | ArgPtr u64 | ArgStr "u8 list option"

definition print_str :: "u8 list option \<Rightarrow> ('z kuart_scheme, unit) prog" where
  "print_str so = for_each (case so of None \<Rightarrow> cstr ''(null)'' | Some cs \<Rightarrow> cs) (\<lambda>c. consputc (ucast c))"

definition print_arg :: "u8 \<Rightarrow> prarg \<Rightarrow> ('z kuart_scheme, unit) prog" where
  "print_arg c a = (case a of
       ArgInt i \<Rightarrow> printint i (if c = 100 then 10 else 16) True
     | ArgPtr p \<Rightarrow> printptr p
     | ArgStr so \<Rightarrow> print_str so)"

text \<open>\<open>arg_type c a\<close>: the conversion \<open>%d\<close>, \<open>%x\<close>, \<open>%p\<close> or \<open>%s\<close> takes the argument \<open>a\<close>.\<close>

definition arg_type :: "u8 \<Rightarrow> prarg \<Rightarrow> bool" where
  "arg_type c a = (case a of ArgInt _ \<Rightarrow> c = 100 \<or> c = 120 | ArgPtr _ \<Rightarrow> c = 112 | ArgStr _ \<Rightarrow> c = 115)"

fun printf_loop :: "u8 list \<Rightarrow> prarg list \<Rightarrow> ('z kuart_scheme, unit) prog" where
  "printf_loop [] args = return ()"
| "printf_loop [c] args = (if c \<noteq> 37 then consputc (ucast c) else return ())"
| "printf_loop (c # d # fmt) args =
     (if c \<noteq> 37 then andthen (consputc (ucast c)) (printf_loop (d # fmt) args)
      else if d = 100 \<or> d = 120 \<or> d = 112 \<or> d = 115 then
        (case args of [] \<Rightarrow> printf_loop fmt []
         | a # as \<Rightarrow> andthen (if arg_type d a then print_arg d a else return ()) (printf_loop fmt as))
      else if d = 37 then andthen (consputc 37) (printf_loop fmt args)
      else andthen (consputc 37) (andthen (consputc (ucast d)) (printf_loop fmt args)))"

definition printf :: "u8 list \<Rightarrow> prarg list \<Rightarrow> ('z kprintf_scheme, unit) prog" where
  "printf fmt args =
     bind (gets pr_locking) (\<lambda>locking.
     andthen (onlyif (locking \<noteq> 0) (acquire PrLock))
     (andthen (printf_loop fmt args)
     (onlyif (locking \<noteq> 0) (release PrLock))))"

definition printfinit :: "('z kprintf_scheme, unit) prog" where
  "printfinit = modify (\<lambda>s. s\<lparr>pr_locking := 1\<rparr>)"

text \<open>
  What \<open>panic\<close> does to the console before it spins for ever; a model function that calls \<open>panic\<close>
  ends with the outcome \<open>Panic\<close>.
\<close>

definition kpanic :: "u8 list \<Rightarrow> ('z kprintf_scheme, 'a) prog" where
  "kpanic m =
     andthen (modify (\<lambda>s. s\<lparr>pr_locking := 0\<rparr>))
     (andthen (printf (cstr ''panic: '') [])
     (andthen (printf m [])
     (andthen (printf [10] [])
     (andthen (modify (\<lambda>s. s\<lparr>panicked := 1\<rparr>))
     (\<lambda>s. Blocked s)))))"

section \<open>The process listing\<close>

text \<open>The scheduler the kernel was compiled for.\<close>

datatype policy = RR | FCFS | PBS | MLFQ

definition state_name :: "procstate \<Rightarrow> u8 list" where
  "state_name st = cstr (case st of UNUSED \<Rightarrow> ''unused  '' | USED \<Rightarrow> ''???'' | SLEEPING \<Rightarrow> ''sleep''
     | RUNNABLE \<Rightarrow> ''runble'' | RUNNING \<Rightarrow> ''run '' | ZOMBIE \<Rightarrow> ''zombie  '')"

definition waittime :: "u32 \<Rightarrow> proc \<Rightarrow> i32" where
  "waittime now q =
     (if p_etime q = -1 then now - p_stime q - p_rtime q else p_etime q - p_stime q - p_rtime q)"

text \<open>The format strings have a tab between their conversions.\<close>

definition row_format :: "u8 list list \<Rightarrow> u8 list" where
  "row_format cs = (case cs of [] \<Rightarrow> [] | c # cs \<Rightarrow> c @ concat (map ((#) 9) cs))"

abbreviation (input) pct_d :: "u8 list" where "pct_d \<equiv> [37, 100]"
abbreviation (input) pct_s :: "u8 list" where "pct_s \<equiv> [37, 115]"

definition dump_header :: "policy \<Rightarrow> u8 list list" where
  "dump_header pol = map cstr (case pol of
       MLFQ \<Rightarrow> [''PID'', ''Prio'', ''State'', ''rtime'', ''wtime'', ''nrun'', ''q0'', ''q1'', ''q2'', ''q3'', ''q4'']
     | PBS \<Rightarrow> [''PID'', ''Prio'', ''State'', ''rtime'', ''wtime'', ''nrun'']
     | _ \<Rightarrow> [''PID'', ''State'', ''rtime'', ''wtime'', ''nrun''])"

definition dump_row :: "policy \<Rightarrow> u32 \<Rightarrow> proc \<Rightarrow> u8 list \<times> prarg list" where
  "dump_row pol now q =
     (let st = ArgStr (Some (state_name (p_state q)));
          tail = [st, ArgInt (p_rtime q), ArgInt (waittime now q), ArgInt (p_ntime q)]
      in case pol of
          MLFQ \<Rightarrow> (row_format ([pct_d, pct_d, pct_s] @ replicate 8 pct_d),
            [ArgInt (p_pid q), ArgInt (p_queue q)] @ tail @ map (\<lambda>i. ArgInt (p_qticks q i)) [0, 1, 2, 3, 4])
        | PBS \<Rightarrow> (row_format ([pct_d, pct_d, pct_s] @ replicate 3 pct_d),
            [ArgInt (p_pid q), ArgInt (dynamic_priority q)] @ tail)
        | _ \<Rightarrow> (row_format ([pct_d, pct_s] @ replicate 3 pct_d), ArgInt (p_pid q) # tail))"

definition procdump :: "policy \<Rightarrow> ('z kprintf_scheme, unit) prog" where
  "procdump pol =
     andthen (printf [10] [])
     (andthen (printf (row_format (map (\<lambda>_. pct_s) (dump_header pol)) @ [10])
        (map (\<lambda>h. ArgStr (Some h)) (dump_header pol)))
     (for_each [0..<NPROC] (\<lambda>p.
        bind (gets (\<lambda>s. (ptable s p, ticks s))) (\<lambda>(q, now).
        onlyif (p_state q \<noteq> UNUSED)
          (andthen (printf (fst (dump_row pol now q)) (snd (dump_row pol now q)))
          (printf [10] []))))))"

section \<open>Numbers\<close>

definition digit_value :: "u8 \<Rightarrow> nat" where
  "digit_value c = (if unat c \<le> 57 then unat c - 48 else unat c - 87)"

text \<open>The number that a list of digits denotes, the least significant one first.\<close>

primrec digits_value :: "nat \<Rightarrow> u8 list \<Rightarrow> nat" where
  "digits_value b [] = 0"
| "digits_value b (c # cs) = digit_value c + b * digits_value b cs"

definition parse_int :: "nat \<Rightarrow> u8 list \<Rightarrow> int" where
  "parse_int b cs = (case cs of [] \<Rightarrow> 0
     | c # ds \<Rightarrow> if c = 45 then - int (digits_value b (rev ds)) else int (digits_value b (rev cs)))"

lemma digits_eq: "digits = [48, 49, 50, 51, 52, 53, 54, 55, 56, 57, 97, 98, 99, 100, 101, 102]"
  by (simp add: digits_def cstr_def)

lemma digits_values: "map digit_value digits = [0, 1, 2, 3, 4, 5, 6, 7, 8, 9, 10, 11, 12, 13, 14, 15]"
  by (simp add: digits_eq digit_value_def)

lemma digit_value_digits:
  assumes "n < 16"
  shows "digit_value (digits ! n) = n"
proof -
  have "digit_value (digits ! n) = map digit_value digits ! n"
    using assms by (intro nth_map [symmetric]) (simp add: digits_eq)
  also have "\<dots> = [0..<16] ! n" unfolding digits_values by (rule arg_cong [of _ _ "\<lambda>l. l ! n"]) (simp add: upt_rec)
  finally show ?thesis using assms by simp
qed

lemma digit_not_minus: "n < 16 \<Longrightarrow> digits ! n \<noteq> 45"
proof -
  assume "n < 16"
  then have "digits ! n \<in> set digits" by (intro nth_mem) (simp add: digits_eq)
  then show ?thesis by (auto simp: digits_eq)
qed

lemma mod_digit: "1 < b \<Longrightarrow> b \<le> 16 \<Longrightarrow> unat ((x :: u32) mod b) < 16"
proof -
  assume "1 < b" "b \<le> 16"
  then have "0 < unat b" "unat b \<le> 16" by (simp_all add: word_less_nat_alt word_le_nat_alt)
  then show ?thesis unfolding unat_mod by (meson mod_less_divisor less_le_trans)
qed

lemma print_digits_value:
  "1 < b \<Longrightarrow> b \<le> 16 \<Longrightarrow> digits_value (unat b) (print_digits x b) = unat x"
proof (induction x b rule: print_digits.induct)
  case (1 x b)
  have d: "digit_value (digits ! unat (x mod b)) = unat x mod unat b"
    using digit_value_digits [OF mod_digit [OF "1.prems"]] by (simp add: unat_mod)
  show ?case
  proof (cases "x div b = 0")
    case True
    then have "unat x div unat b = 0" by (metis unat_div unat_0)
    then have "unat x mod unat b = unat x" by (metis add_0 mult_0_right mult_div_mod_eq)
    then show ?thesis using True d by (simp add: print_digits.simps [of x b])
  next
    case False
    then have "digits_value (unat b) (print_digits (x div b) b) = unat x div unat b"
      using "1.IH" "1.prems" by (simp add: unat_div)
    then show ?thesis using False d "1.prems" by (simp add: print_digits.simps [of x b])
  qed
qed

lemma print_digits_length:
  "1 < b \<Longrightarrow> unat x < unat b ^ Suc n \<Longrightarrow> length (print_digits x b) \<le> Suc n"
proof (induction n arbitrary: x)
  case 0
  then have "unat x div unat b = 0" by simp
  then have "x div b = 0" by (metis unat_div unat_eq_0)
  then show ?case by (simp add: print_digits.simps [of x b])
next
  case (Suc n)
  have "unat (x div b) < unat b ^ Suc n"
    using Suc.prems less_mult_imp_div_less [of "unat x" "unat b ^ Suc n" "unat b"] by (simp add: unat_div mult.commute)
  with Suc show ?case by (simp add: print_digits.simps [of x b])
qed

lemma print_digits_not_minus:
  assumes "1 < b" and "b \<le> 16"
  shows "45 \<notin> set (print_digits x b)"
  using assms
proof (induction x b rule: print_digits.induct)
  case (1 x b)
  then show ?case using digit_not_minus [OF mod_digit, of b x] by (auto simp: print_digits.simps [of x b])
qed

lemma digits_take: "n < k \<Longrightarrow> k \<le> 16 \<Longrightarrow> digits ! n \<in> set (take k digits)"
proof -
  assume "n < k" "k \<le> 16"
  moreover have "length digits = 16" by (simp add: digits_eq)
  ultimately have "take k digits ! n \<in> set (take k digits)" by (intro nth_mem) simp
  then show ?thesis using \<open>n < k\<close> by simp
qed

lemma print_digits_set:
  assumes "1 < b" and "b \<le> 16"
  shows "set (print_digits x b) \<subseteq> set (take (unat b) digits)"
  using assms
proof (induction x b rule: print_digits.induct)
  case (1 x b)
  have b: "1 < unat b" "unat b \<le> 16" using "1.prems" by (simp_all add: word_less_nat_alt word_le_nat_alt)
  then have "unat (x mod b) < unat b" by (simp add: unat_mod)
  then have "digits ! unat (x mod b) \<in> set (take (unat b) digits)" using b(2) by (rule digits_take)
  then show ?case using 1 by (auto simp: print_digits.simps [of x b])
qed

text \<open>The most significant digit is not 0, except in the number 0.\<close>

lemma print_digits_last:
  assumes "1 < b" and "b \<le> 16"
  shows "if x = 0 then print_digits x b = [48] else last (print_digits x b) \<noteq> 48"
  using assms
proof (induction x b rule: print_digits.induct)
  case (1 x b)
  have zero: "digits ! 0 = 48" by (simp add: digits_eq)
  have inj: "digits ! n \<noteq> 48" if "n \<noteq> 0" "n < 16" for n
    using digit_value_digits [OF that(2)] that(1) by (auto simp: digit_value_def)
  show ?case
  proof (cases "x div b = 0")
    case True
    then have "unat x div unat b = 0" by (metis unat_div unat_0)
    then have "unat (x mod b) = unat x" by (metis unat_mod add_0 mult_0_right mult_div_mod_eq)
    moreover have "print_digits x b = [digits ! unat (x mod b)]" using True by (simp add: print_digits.simps [of x b])
    ultimately show ?thesis using zero inj [OF _ mod_digit [OF "1.prems"], of x] by (auto simp: unat_eq_zero)
  next
    case False
    then have "x \<noteq> 0" by auto
    moreover have "print_digits (x div b) b \<noteq> []" by (simp add: print_digits.simps [of "x div b" b])
    ultimately show ?thesis using False 1 by (simp add: print_digits.simps [of x b])
  qed
qed

lemma uint_lt_u32: "uint (x :: u32) < 2 ^ 32"
  using unsigned_less [of x] by simp

lemma sint_wrap: "sint (x :: i32) = uint x \<or> sint x = uint x - 2 ^ 32"
proof -
  have "take_bit 32 (uint x) = uint x" by (intro take_bit_int_eq_self uint_lt_u32) simp
  then have "sint x = uint x - 2 ^ 32 * of_bool (bit (uint x) 31)"
    by (simp add: sint_uint signed_take_bit_eq_take_bit_minus)
  then show ?thesis by (cases "bit (uint x) 31") simp_all
qed

lemma sint_nonneg: "0 \<le> sint (x :: i32) \<Longrightarrow> sint x = int (unat x)"
  using sint_wrap [of x] uint_lt_u32 [of x] by auto

lemma unat_negative: "sint (x :: i32) < 0 \<Longrightarrow> int (unat (- x)) = - sint x"
proof -
  assume neg: "sint x < 0"
  then have s: "sint x = uint x - 2 ^ 32" using sint_wrap [of x] uint_ge_0 [of x] by linarith
  have "x \<noteq> 0" using neg by auto
  then have "uint x \<noteq> 0" by (simp add: uint_0_iff)
  then have u: "0 < uint x" using uint_ge_0 [of x] by linarith
  have "uint (- x) = (- uint x) mod 2 ^ 32" by (simp add: uint_word_ariths)
  also have "\<dots> = 2 ^ 32 - uint x" using u uint_lt_u32 [of x] by (simp add: zmod_zminus1_eq_if)
  finally show ?thesis using s by simp
qed

lemma parse_printint:
  assumes "1 < b" and "b \<le> 16"
  shows "parse_int (unat b) (rev (printint_buf xx b True)) = sint xx"
proof (cases "sint xx < 0")
  case True
  then show ?thesis
    using print_digits_value [OF assms, of "- xx"] unat_negative [OF True]
    by (simp add: printint_buf_def parse_int_def)
next
  case False
  then have "sint xx = int (unat xx)" by (intro sint_nonneg) simp
  moreover obtain c cs where c: "rev (print_digits xx b) = c # cs"
    by (cases "rev (print_digits xx b)") (simp_all add: print_digits.simps [of xx b])
  moreover have "c \<noteq> 45" using print_digits_not_minus [OF assms, of xx] c by (metis list.set_intros(1) set_rev)
  moreover have "print_digits xx b = rev (c # cs)" using c by (metis rev_rev_ident)
  ultimately show ?thesis
    using False print_digits_value [OF assms, of xx] by (simp add: printint_buf_def parse_int_def)
qed

lemma printint_text:
  assumes "b = 10 \<or> b = 16" and "minus_sign = (if sint xx < 0 then [45] else [])"
  shows "\<exists>ds. rev (printint_buf xx b True) = minus_sign @ ds \<and> set ds \<subseteq> set (take (unat b) digits) \<and>
    ds \<noteq> [] \<and> (hd ds = 48 \<longrightarrow> ds = [48]) \<and> length ds \<le> 10"
proof -
  define x where "x = (if sint xx < 0 then - xx else xx)"
  have b: "1 < b" "b \<le> 16" using assms(1) by auto
  have "unat x < unat (10 :: u32) ^ Suc 9" "unat x < unat (16 :: u32) ^ Suc 7"
    by (rule less_le_trans [OF unat_lt_u32], simp)+
  then have len: "length (print_digits x b) \<le> 10"
    using assms(1) print_digits_length [of 10 x 9] print_digits_length [of 16 x 7] by auto
  have ne: "print_digits x b \<noteq> []" by (simp add: print_digits.simps [of x b])
  have hd: "hd (rev (print_digits x b)) = 48 \<longrightarrow> rev (print_digits x b) = [48]"
    using print_digits_last [OF b, of x] by (auto simp: hd_rev split: if_splits)
  have "rev (printint_buf xx b True) = minus_sign @ rev (print_digits x b)" by (simp add: printint_buf_def x_def assms(2))
  then show ?thesis using print_digits_set [OF b, of x] len ne hd
    by (intro exI [of _ "rev (print_digits x b)"] conjI) auto
qed

section \<open>Output on a ready device\<close>

text \<open>
  \<open>emits f bs\<close>: as long as the device answers that it is ready, \<open>f\<close> returns, has sent the characters
  \<open>bs\<close>, one answer of the device for each, and has changed nothing else.
\<close>

definition emits :: "('z kuart_scheme, unit) prog \<Rightarrow> u8 list \<Rightarrow> bool" where
  "emits f bs \<longleftrightarrow> (\<forall>s k. panicked s = 0 \<longrightarrow> uart_resp s = replicate (length bs + k) LSR_TX_IDLE \<longrightarrow>
     f s = Ret () (s\<lparr>uart_resp := replicate k LSR_TX_IDLE, uart_writes := uart_writes s @ map (Pair THR) bs\<rparr>))"

named_theorems emits_intros \<open>what is sent on a device that is ready\<close>

lemma emitsD:
  "emits f bs \<Longrightarrow> panicked s = 0 \<Longrightarrow> uart_resp s = replicate (length bs + k) 32 \<Longrightarrow>
     f s = Ret () (s\<lparr>uart_resp := replicate k 32, uart_writes := uart_writes s @ map (Pair THR) bs\<rparr>)"
  by (simp add: emits_def)

lemma emits_return [emits_intros]: "emits (return ()) []"
  by (simp add: emits_def prog_simps)

lemma emits_andthen [emits_intros]:
  assumes "emits f as" and "emits g bs"
  shows "emits (andthen f g) (as @ bs)"
  unfolding emits_def
proof (intro allI impI)
  fix s :: "'a kuart_scheme" and k
  assume s: "panicked s = 0" "uart_resp s = replicate (length (as @ bs) + k) 32"
  then have "f s = Ret () (s\<lparr>uart_resp := replicate (length bs + k) 32, uart_writes := uart_writes s @ map (Pair THR) as\<rparr>)"
    by (intro emitsD [OF assms(1)]) (simp_all add: add.assoc)
  then show "andthen f g s = Ret () (s\<lparr>uart_resp := replicate k 32, uart_writes := uart_writes s @ map (Pair THR) (as @ bs)\<rparr>)"
    using s emitsD [OF assms(2), of "s\<lparr>uart_resp := replicate (length bs + k) 32, uart_writes := uart_writes s @ map (Pair THR) as\<rparr>" k]
    by (simp add: bind_apply)
qed

lemma emits_uartputc_sync [emits_intros]: "emits (uartputc_sync c) [c]"
  by (simp add: emits_def uartputc_sync_def prog_simps ReadReg_def WriteReg_def)

lemma emits_consputc [emits_intros]: "emits (consputc (ucast (c :: u8))) [c]"
proof -
  have "unat (ucast c :: i32) = unat c" using unat_lt_exp [of c] by (simp add: unsigned_ucast_eq take_bit_nat_eq_self)
  moreover have "unat c < 256" using unat_lt_exp [of c] by simp
  ultimately have "(ucast c :: i32) \<noteq> 0x100" by auto
  moreover have "ucast (ucast c :: i32) = c" by (simp add: word_unat_eq_iff unsigned_ucast_eq take_bit_word_eq_self)
  ultimately show ?thesis using emits_uartputc_sync [of c] by (simp add: consputc_def)
qed

lemma emits_for_each [emits_intros]:
  "(\<And>i. emits (f i) (g i)) \<Longrightarrow> emits (for_each xs f) (concat (map g xs))"
  by (induction xs) (auto intro: emits_intros)

text \<open>The text of a pointer, and of a format with its arguments.\<close>

definition printptr_text :: "u64 \<Rightarrow> u8 list" where
  "printptr_text x = cstr ''0x'' @ map (\<lambda>i. digits ! unat (drop_bit 60 (push_bit (4 * i) x))) [0..<16]"

definition arg_text :: "u8 \<Rightarrow> prarg \<Rightarrow> u8 list" where
  "arg_text c a = (case a of
       ArgInt i \<Rightarrow> rev (printint_buf i (if c = 100 then 10 else 16) True)
     | ArgPtr p \<Rightarrow> printptr_text p
     | ArgStr None \<Rightarrow> cstr ''(null)''
     | ArgStr (Some cs) \<Rightarrow> cs)"

lemma emits_chars: "emits (for_each cs (\<lambda>c. consputc (ucast (c :: u8)))) cs"
proof (induction cs)
  case (Cons c cs)
  then show ?case using emits_andthen [OF emits_consputc Cons, of c] by simp
qed (simp add: emits_return)

lemma emits_printint: "emits (printint xx b sign) (rev (printint_buf xx b sign))"
  unfolding printint_def by (rule emits_chars)

lemma emits_char: "n = ucast (c :: u8) \<Longrightarrow> emits (consputc n) [c]"
  by (simp add: emits_consputc)

lemma emits_printptr_loop:
  "emits (printptr_loop n x) (map (\<lambda>i. digits ! unat (drop_bit 60 (push_bit (4 * i) x))) [0..<n])"
proof (induction n arbitrary: x)
  case (Suc n)
  have eq: "map (\<lambda>i. digits ! unat (drop_bit 60 (push_bit (4 * i) x))) [0..<Suc n] =
      [digits ! unat (drop_bit 60 x)] @ map (\<lambda>i. digits ! unat (drop_bit 60 (push_bit (4 * i) (push_bit 4 x)))) [0..<n]"
    by (simp add: map_upt_Suc add.commute del: upt_Suc)
  show ?case unfolding eq printptr_loop.simps by (rule emits_andthen [OF emits_consputc Suc])
qed (simp add: emits_return)

lemma emits_print_arg: "emits (print_arg c a) (arg_text c a)"
proof (cases a)
  case (ArgPtr p)
  have "emits (consputc 48) [48]" "emits (consputc 120) [120]" by (rule emits_char, simp)+
  then have "emits (printptr p) ([48] @ [120] @ map (\<lambda>i. digits ! unat (drop_bit 60 (push_bit (4 * i) p))) [0..<16])"
    unfolding printptr_def by (intro emits_andthen emits_printptr_loop)
  then show ?thesis using ArgPtr by (simp add: print_arg_def arg_text_def printptr_text_def cstr_def del: upt_Suc)
qed (auto simp: print_arg_def arg_text_def printint_def print_str_def emits_chars split: option.splits)

fun printf_text :: "u8 list \<Rightarrow> prarg list \<Rightarrow> u8 list" where
  "printf_text [] args = []"
| "printf_text [c] args = (if c = 37 then [] else [c])"
| "printf_text (c # d # fmt) args =
     (if c \<noteq> 37 then c # printf_text (d # fmt) args
      else if d = 37 then 37 # printf_text fmt args
      else if d \<in> {100, 120, 112, 115} then
        (case args of [] \<Rightarrow> printf_text fmt []
         | a # as \<Rightarrow> (if arg_type d a then arg_text d a else []) @ printf_text fmt as)
      else 37 # d # printf_text fmt args)"

lemma emits_printf_loop: "emits (printf_loop fmt args) (printf_text fmt args)"
proof (induction fmt args rule: printf_loop.induct)
  case (1 args)
  then show ?case by (simp add: emits_return)
next
  case (2 c args)
  then show ?case by (simp add: emits_return emits_consputc)
next
  case (3 c d fmt args)
  have pct: "emits (consputc 37) [37]" by (rule emits_char) simp
  consider "c \<noteq> 37" | "c = 37" "d = 37" | "c = 37" "d = 100 \<or> d = 120 \<or> d = 112 \<or> d = 115"
    | "c = 37" "d \<noteq> 37" "\<not> (d = 100 \<or> d = 120 \<or> d = 112 \<or> d = 115)" by blast
  then show ?case
  proof cases
    case 1
    then show ?thesis using emits_andthen [OF emits_consputc "3.IH"(1)] by simp
  next
    case 2
    then show ?thesis using emits_andthen [OF pct "3.IH"(4)] by simp
  next
    case conv: 3
    then have "d \<noteq> 37" by auto
    then show ?thesis
      using conv "3.IH"(2,3) emits_andthen [OF emits_print_arg [of d]] emits_andthen [OF emits_return]
      by (cases args) (simp_all, force+)
  next
    case 4
    then show ?thesis using emits_andthen [OF pct emits_andthen [OF emits_consputc "3.IH"(5)]] by simp
  qed
qed

section \<open>Properties\<close>

text \<open>
  C36: on a device that is ready, \<open>printint\<close> in base 10 and 16 sends the number it is given and nothing
  else: a minus sign if the number is negative, and then its digits, the most significant one first and
  no superfluous zero before it. Reading the characters back gives the signed value, the smallest
  negative number included, and they are at most 11, so that the buffer of 16 characters is not overrun.
\<close>

theorem printint_roundtrip:
  assumes "b = 10 \<or> b = 16" and "panicked s = 0" and "uart_resp s = replicate (11 + k) LSR_TX_IDLE"
    and "minus_sign = (if sint xx < 0 then [45] else [])"
  shows "\<exists>ds. printint xx b True s = Ret () (s\<lparr>uart_resp := replicate (11 + k - length (minus_sign @ ds)) LSR_TX_IDLE,
        uart_writes := uart_writes s @ map (Pair THR) (minus_sign @ ds)\<rparr>) \<and>
    parse_int (unat b) (minus_sign @ ds) = sint xx \<and> set ds \<subseteq> set (take (unat b) digits) \<and>
    ds \<noteq> [] \<and> (hd ds = 48 \<longrightarrow> ds = [48]) \<and> length (printint_buf xx b True) \<le> 11"
proof -
  obtain ds where ds: "rev (printint_buf xx b True) = minus_sign @ ds" "set ds \<subseteq> set (take (unat b) digits)"
    "ds \<noteq> []" "hd ds = 48 \<longrightarrow> ds = [48]" "length ds \<le> 10"
    using printint_text [OF assms(1,4)] by blast
  have len: "length (minus_sign @ ds) \<le> 11" using ds(5) assms(4) by simp
  then have "uart_resp s = replicate (length (minus_sign @ ds) + (11 + k - length (minus_sign @ ds))) 32" using assms(3) by simp
  from emitsD [OF emits_printint [of xx b True, unfolded ds(1)] assms(2) this]
  have "printint xx b True s = Ret () (s\<lparr>uart_resp := replicate (11 + k - length (minus_sign @ ds)) LSR_TX_IDLE,
        uart_writes := uart_writes s @ map (Pair THR) (minus_sign @ ds)\<rparr>)" .
  moreover have "parse_int (unat b) (minus_sign @ ds) = sint xx" using parse_printint [of b xx] assms(1) ds(1) by auto
  moreover have "length (printint_buf xx b True) \<le> 11" using len ds(1) by (metis length_rev)
  ultimately show ?thesis using ds by blast
qed

text \<open>A device with twelve idle answers.\<close>

definition print_demo :: kuart where
  "print_demo = uart_demo\<lparr>uart_resp := replicate 12 LSR_TX_IDLE\<rparr>"

theorem printint_roundtrip_witness:
  "\<exists>t ds. printint (-42) 10 True print_demo = Ret () t \<and> uart_writes t = map (Pair THR) (45 # ds) \<and> parse_int 10 (45 # ds) = -42"
proof -
  have d: "panicked print_demo = 0" "uart_resp print_demo = replicate (11 + 1) LSR_TX_IDLE" "uart_writes print_demo = []"
    by (simp_all add: print_demo_def uart_demo_simps)
  have "(10 :: u32) = 10 \<or> (10 :: u32) = 16" "[45] = (if sint (-42 :: i32) < 0 then [45] else [] :: u8 list)" by simp_all
  from printint_roundtrip [OF this(1) d(1,2) this(2)] obtain ds where
    "printint (-42) 10 True print_demo = Ret () (print_demo\<lparr>uart_resp := replicate (11 + 1 - length ([45] @ ds)) LSR_TX_IDLE,
        uart_writes := uart_writes print_demo @ map (Pair THR) ([45] @ ds)\<rparr>)" "parse_int (unat (10 :: u32)) ([45] @ ds) = sint (-42 :: i32)"
    by (elim exE conjE)
  then have "printint (-42) 10 True print_demo = Ret () (print_demo\<lparr>uart_resp := replicate (11 - length ds) LSR_TX_IDLE,
        uart_writes := map (Pair THR) (45 # ds)\<rparr>)" "parse_int 10 (45 # ds) = -42" unfolding d(3) by simp_all
  moreover have "uart_writes (s\<lparr>uart_resp := x, uart_writes := w\<rparr>) = w" for s :: kuart and x w by simp
  ultimately show ?thesis by blast
qed

end
