(* ===== verification/Console.thy ===== *)
theory Console
  imports Printf
begin

text \<open>
  kernel/console.c and the interrupt handler of kernel/uart.c. The input buffer is a ring with three
  indices: \<open>r\<close> up to \<open>w\<close> are finished lines that \<open>consoleread\<close> hands out, \<open>w\<close> up to \<open>e\<close> is the line
  being edited. The result is that \<open>consoleintr\<close> implements a line editor on two lists of characters.
\<close>

section \<open>State and operations\<close>

abbreviation (input) INPUT_BUF :: nat where "INPUT_BUF \<equiv> 128"

text \<open>\<open>devsw\<close> records for which device numbers \<open>consoleinit\<close> has installed functions.\<close>

record kcons = kprintf +
  cons_buf :: "nat \<Rightarrow> u8"
  cons_r :: u32
  cons_w :: u32
  cons_e :: u32
  devsw :: "nat set"

text \<open>
  The loop of \<open>consolewrite\<close> at index \<open>i\<close> with \<open>k\<close> characters to go. When it sleeps in \<open>uartputc\<close>,
  the process \<open>p\<close> goes on with \<open>consolewrite_resume\<close>.
\<close>

primrec consolewrite_loop :: "bool \<Rightarrow> u64 \<Rightarrow> nat \<Rightarrow> nat \<Rightarrow> ('z kcons_scheme, i32) prog" where
  "consolewrite_loop user_src src i 0 = return (of_nat i)"
| "consolewrite_loop user_src src i (Suc k) =
     bind (either_copyin (\<lambda>_. 0) user_src (src + of_nat i) 1) (\<lambda>(r, c).
     if r = -1 then return (of_nat i)
     else andthen (uartputc (c 0)) (consolewrite_loop user_src src (Suc i) k))"

definition consolewrite :: "bool \<Rightarrow> u64 \<Rightarrow> i32 \<Rightarrow> ('z kcons_scheme, i32) prog" where
  "consolewrite user_src src n = consolewrite_loop user_src src 0 (nat (sint n))"

definition consolewrite_resume :: "nat \<Rightarrow> u8 \<Rightarrow> bool \<Rightarrow> u64 \<Rightarrow> nat \<Rightarrow> nat \<Rightarrow> ('z kcons_scheme, i32) prog" where
  "consolewrite_resume p c user_src src i k =
     andthen (uartputc_resume p c) (consolewrite_loop user_src src (Suc i) k)"

definition consoleread_done :: "u32 \<Rightarrow> nat \<Rightarrow> ('z kcons_scheme, i32) prog" where
  "consoleread_done target n = andthen (release ConsLock) (return (target - of_nat n))"

text \<open>The outer loop of \<open>consoleread\<close>; the natural number is the value of \<open>n\<close>.\<close>

primrec consoleread_loop :: "nat \<Rightarrow> bool \<Rightarrow> u32 \<Rightarrow> u64 \<Rightarrow> nat \<Rightarrow> ('z kcons_scheme, i32) prog" where
  "consoleread_loop p user_dst target dst 0 = consoleread_done target 0"
| "consoleread_loop p user_dst target dst (Suc n) =
     bind (gets (\<lambda>s. (cons_r s, cons_w s, p_killed (ptable s p)))) (\<lambda>(r, w, killed).
     if r = w then
       if killed \<noteq> 0 then andthen (release ConsLock) (return (-1)) else sleep ChanConsR ConsLock
     else bind (gets (\<lambda>s. cons_buf s (unat r mod INPUT_BUF))) (\<lambda>c.
       andthen (modify (\<lambda>s. s\<lparr>cons_r := r + 1\<rparr>))
       (if c = 4 then
          andthen (onlyif (of_nat (Suc n) < target) (modify (\<lambda>s. s\<lparr>cons_r := r\<rparr>)))
          (consoleread_done target (Suc n))
        else bind (either_copyout user_dst dst (\<lambda>_. c) 1) (\<lambda>res.
          if res = -1 then consoleread_done target (Suc n)
          else if c = 10 then consoleread_done target n
          else consoleread_loop p user_dst target (dst + 1) n))))"

definition consoleread :: "bool \<Rightarrow> u64 \<Rightarrow> i32 \<Rightarrow> ('z kcons_scheme, i32) prog" where
  "consoleread user_dst dst n =
     andthen (acquire ConsLock)
     (if sint n > 0 then bind curproc (\<lambda>p. consoleread_loop p user_dst n dst (nat (sint n)))
      else andthen (release ConsLock) (return 0))"

definition consoleread_resume :: "nat \<Rightarrow> bool \<Rightarrow> u32 \<Rightarrow> u64 \<Rightarrow> nat \<Rightarrow> ('z kcons_scheme, i32) prog" where
  "consoleread_resume p user_dst target dst n =
     andthen (sleep_resume p ConsLock) (consoleread_loop p user_dst target dst n)"

text \<open>
  The kill-line loop; every iteration moves \<open>e\<close> towards \<open>w\<close>, so \<open>e - w\<close> iterations are enough.
\<close>

primrec kill_line :: "nat \<Rightarrow> ('z kcons_scheme, unit) prog" where
  "kill_line 0 = return ()"
| "kill_line (Suc n) =
     bind (gets (\<lambda>s. (cons_e s \<noteq> cons_w s, cons_buf s (unat (cons_e s - 1) mod INPUT_BUF)))) (\<lambda>(more, c).
     onlyif (more \<and> c \<noteq> 10)
       (andthen (modify (\<lambda>s. s\<lparr>cons_e := cons_e s - 1\<rparr>))
       (andthen (consputc 0x100) (kill_line n))))"

text \<open>The default case: the character is echoed and stored, and a finished line is handed over.\<close>

definition cons_store :: "i32 \<Rightarrow> ('z kcons_scheme, unit) prog" where
  "cons_store c =
     bind (gets (\<lambda>s. cons_e s - cons_r s < 128)) (\<lambda>room.
     onlyif (c \<noteq> 0 \<and> room)
       (let c = (if c = 13 then 10 else c) in
        andthen (consputc c)
        (andthen (modify (\<lambda>s. s\<lparr>cons_buf := (cons_buf s)(unat (cons_e s) mod INPUT_BUF := ucast c),
           cons_e := cons_e s + 1\<rparr>))
        (bind (gets (\<lambda>s. cons_e s = cons_r s + 128)) (\<lambda>full.
         onlyif (c = 10 \<or> c = 4 \<or> full)
           (andthen (modify (\<lambda>s. s\<lparr>cons_w := cons_e s\<rparr>)) (wakeup ChanConsR)))))))"

definition consoleintr :: "policy \<Rightarrow> i32 \<Rightarrow> ('z kcons_scheme, unit) prog" where
  "consoleintr pol c =
     andthen (acquire ConsLock)
     (andthen
       (if c = 16 then procdump pol
        else if c = 21 then bind (gets (\<lambda>s. unat (cons_e s - cons_w s))) kill_line
        else if c = 8 \<or> c = 127 then
          bind (gets (\<lambda>s. cons_e s \<noteq> cons_w s)) (\<lambda>more.
          onlyif more (andthen (modify (\<lambda>s. s\<lparr>cons_e := cons_e s - 1\<rparr>)) (consputc 0x100)))
        else cons_store c)
     (release ConsLock))"

definition consoleinit :: "('z kcons_scheme, unit) prog" where
  "consoleinit = andthen uartinit (modify (\<lambda>s. s\<lparr>devsw := insert 1 (devsw s)\<rparr>))"

text \<open>The loop of \<open>uartintr\<close>; every iteration uses up answers of the device.\<close>

primrec uartintr_loop :: "policy \<Rightarrow> nat \<Rightarrow> ('z kcons_scheme, unit) prog" where
  "uartintr_loop pol 0 = (\<lambda>s. Blocked s)"
| "uartintr_loop pol (Suc n) =
     bind uartgetc (\<lambda>c. if c = -1 then return () else andthen (consoleintr pol c) (uartintr_loop pol n))"

definition uartintr :: "policy \<Rightarrow> ('z kcons_scheme, unit) prog" where
  "uartintr pol =
     andthen (bind (gets (\<lambda>s. length (uart_resp s))) (uartintr_loop pol))
     (with_lock UartLock uartstart)"

section \<open>The line editor\<close>

definition cons_lines :: "'z kcons_scheme \<Rightarrow> u8 list" where
  "cons_lines s = ring_contents INPUT_BUF (cons_buf s) (cons_r s) (cons_w s)"

definition cons_edit :: "'z kcons_scheme \<Rightarrow> u8 list" where
  "cons_edit s = ring_contents INPUT_BUF (cons_buf s) (cons_w s) (cons_e s)"

definition line_ok :: "(nat \<Rightarrow> u8) \<Rightarrow> u32 \<Rightarrow> u32 \<Rightarrow> u32 \<Rightarrow> bool" where
  "line_ok buf r w e \<longleftrightarrow> unat (w - r) + unat (e - w) = unat (e - r) \<and> unat (e - r) \<le> INPUT_BUF \<and>
     10 \<notin> set (ring_contents INPUT_BUF buf w e)"

definition cons_ok :: "'z kcons_scheme \<Rightarrow> bool" where
  "cons_ok s \<longleftrightarrow> line_ok (cons_buf s) (cons_r s) (cons_w s) (cons_e s)"

text \<open>What one character typed does to the finished lines and the line being edited.\<close>

definition line_editor :: "u8 \<Rightarrow> u8 list \<times> u8 list \<Rightarrow> u8 list \<times> u8 list" where
  "line_editor c = (\<lambda>(done, line).
     if c = 16 then (done, line)
     else if c = 21 then (done, [])
     else if c = 8 \<or> c = 127 then (done, butlast line)
     else if c \<noteq> 0 \<and> length done + length line < INPUT_BUF then
       let c' = (if c = 13 then 10 else c); line' = line @ [c'] in
       if c' = 10 \<or> c' = 4 \<or> length done + length line' = INPUT_BUF then (done @ line', []) else (done, line')
     else (done, line))"

lemma ring_succ:
  fixes r e :: u32
  assumes "unat (e - r) < INPUT_BUF"
  shows "unat (e + 1 - r) = unat (e - r) + 1"
proof -
  have "unat (e - r + 1) = unat (e - r) + 1" using assms unat_add_no_wrap [of "e - r" 1] by simp
  then show ?thesis by (simp add: algebra_simps)
qed

lemma ring_pred:
  fixes r e :: u32
  assumes "e \<noteq> r"
  shows "unat (e - 1 - r) + 1 = unat (e - r)"
proof -
  have "unat (e - r) \<noteq> 0" using assms by (simp add: unat_eq_0)
  moreover have "unat (e - r - 1) = unat (e - r) - 1" using assms by (intro unat_minus_one) simp
  ultimately show ?thesis unfolding diff_right_commute [of e 1 r] by simp
qed

lemma line_push:
  fixes c :: u8
  assumes "line_ok buf r w e" and "unat (e - r) < INPUT_BUF"
    and "buf' = buf(unat e mod INPUT_BUF := c)"
  shows "ring_contents INPUT_BUF buf' r w = ring_contents INPUT_BUF buf r w"
    and "ring_contents INPUT_BUF buf' w (e + 1) = ring_contents INPUT_BUF buf w e @ [c]"
    and "unat (w - r) + unat (e + 1 - w) = unat (e + 1 - r)"
    and "ring_contents INPUT_BUF buf' r (e + 1) = ring_contents INPUT_BUF buf r w @ ring_contents INPUT_BUF buf w e @ [c]"
proof -
  have a: "unat (w - r) + unat (e - w) = unat (e - r)" using assms(1) by (simp add: line_ok_def)
  then have we: "unat (e - w) < INPUT_BUF" using assms(2) by simp
  show b: "unat (w - r) + unat (e + 1 - w) = unat (e + 1 - r)"
    using a by (simp only: ring_succ [OF assms(2)] ring_succ [OF we])
  show c: "ring_contents INPUT_BUF buf' w (e + 1) = ring_contents INPUT_BUF buf w e @ [c]"
    unfolding assms(3) by (rule ring_put [OF _ _ we]) simp_all
  have "ring_contents INPUT_BUF buf' r (e + 1) = ring_contents INPUT_BUF buf r e @ [c]"
    unfolding assms(3) by (rule ring_put [OF _ _ assms(2)]) simp_all
  then show d: "ring_contents INPUT_BUF buf' r (e + 1) =
      ring_contents INPUT_BUF buf r w @ ring_contents INPUT_BUF buf w e @ [c]"
    using ring_contents_upto [OF a] by simp
  show "ring_contents INPUT_BUF buf' r w = ring_contents INPUT_BUF buf r w"
    using d c ring_contents_upto [OF b, of INPUT_BUF buf'] by simp
qed

lemma line_pop:
  assumes "line_ok buf r w e" and "e \<noteq> w"
  shows "ring_contents INPUT_BUF buf w (e - 1) = butlast (ring_contents INPUT_BUF buf w e)"
    and "buf (unat (e - 1) mod INPUT_BUF) \<noteq> 10" and "line_ok buf r w (e - 1)"
    and "unat (e - w) = Suc (unat (e - 1 - w))"
proof -
  note ok = assms(1) [unfolded line_ok_def]
  have we: "w \<noteq> e" using assms(2) by simp
  note bl = ring_contents_butlast [OF we, of INPUT_BUF buf]
  show "ring_contents INPUT_BUF buf w (e - 1) = butlast (ring_contents INPUT_BUF buf w e)" by (rule bl(1))
  have ne: "ring_contents INPUT_BUF buf w e \<noteq> []" using ring_empty [of INPUT_BUF buf w e] we by simp
  show "buf (unat (e - 1) mod INPUT_BUF) \<noteq> 10" using ok bl(2) last_in_set [OF ne] by metis
  have p: "unat (e - 1 - w) + 1 = unat (e - w)" using assms(2) by (rule ring_pred)
  then show "unat (e - w) = Suc (unat (e - 1 - w))" by simp
  have "e \<noteq> r" using ok p by auto
  from ring_pred [OF this] p ok show "line_ok buf r w (e - 1)"
    unfolding line_ok_def bl(1) by (auto dest: in_set_butlastD)
qed

section \<open>The handler on a ready device\<close>

lemma emits_backspace: "emits (consputc 0x100) [8, 32, 8]"
  using emits_andthen [OF emits_uartputc_sync [of 8] emits_andthen [OF emits_uartputc_sync [of 32] emits_uartputc_sync [of 8]]]
  by (simp add: consputc_def)

lemma ready:
  assumes "emits f bs" and "panicked s = 0" and "uart_resp s = replicate k 32" and "length bs \<le> k"
  shows "f s = Ret () (s\<lparr>uart_resp := replicate (k - length bs) 32, uart_writes := uart_writes s @ map (Pair THR) bs\<rparr>)"
  using assms(3,4) by (intro emitsD [OF assms(1,2)]) simp

lemma kill_line_ready:
  assumes "panicked s = 0" and "uart_resp s = replicate (3 * n + k) 32" and "cons_ok s"
    and "unat (cons_e s - cons_w s) = n"
  shows "\<exists>out. kill_line n s = Ret () (s\<lparr>cons_e := cons_w s, uart_resp := replicate k 32, uart_writes := out\<rparr>)"
  using assms
proof (induction n arbitrary: s)
  case 0
  then have "cons_e s = cons_w s" by (simp add: unat_eq_0)
  then have "s = s\<lparr>cons_e := cons_w s, uart_resp := replicate k 32, uart_writes := uart_writes s\<rparr>" using 0 by simp
  then show ?case unfolding kill_line.simps return_apply by metis
next
  case (Suc n)
  have ne: "cons_e s \<noteq> cons_w s" using Suc.prems(4) by auto
  note pop = line_pop [OF Suc.prems(3) [unfolded cons_ok_def] ne]
  let ?s = "s\<lparr>cons_e := cons_e s - 1\<rparr>"
  let ?t = "?s\<lparr>uart_resp := replicate (3 * n + k) 32, uart_writes := uart_writes s @ map (Pair THR) [8, 32, 8]\<rparr>"
  have "consputc 0x100 ?s = Ret () ?t"
    using ready [OF emits_backspace, of ?s "3 * Suc n + k"] Suc.prems by simp
  then have run: "kill_line (Suc n) s = kill_line n ?t" using ne pop(2) by (simp add: prog_simps)
  have "\<exists>out. kill_line n ?t = Ret () (?t\<lparr>cons_e := cons_w ?t, uart_resp := replicate k 32, uart_writes := out\<rparr>)"
    using Suc.prems pop by (intro Suc.IH) (simp_all add: cons_ok_def)
  then show ?case unfolding run by simp
qed

lemma unat_ucast8: "unat (ucast (c :: u8) :: i32) = unat c"
  using unat_lt_exp [of c] by (simp add: unsigned_ucast_eq take_bit_nat_eq_self)

lemma ucast8_id: "ucast (ucast (c :: u8) :: i32) = c"
  by (simp add: word_unat_eq_iff unsigned_ucast_eq take_bit_word_eq_self)

lemma char_tests:
  fixes c :: u8
  shows "(ucast c :: i32) = 16 \<longleftrightarrow> c = 16" "(ucast c :: i32) = 21 \<longleftrightarrow> c = 21" "(ucast c :: i32) = 8 \<longleftrightarrow> c = 8"
    "(ucast c :: i32) = 127 \<longleftrightarrow> c = 127" "(ucast c :: i32) = 0 \<longleftrightarrow> c = 0" "(ucast c :: i32) = 13 \<longleftrightarrow> c = 13"
    "(ucast c :: i32) = 10 \<longleftrightarrow> c = 10" "(ucast c :: i32) = 4 \<longleftrightarrow> c = 4"
  by (simp_all add: word_unat_eq_iff unat_ucast8)

lemma cons_store_ready:
  fixes s :: "'z kcons_scheme"
  assumes "panicked s = 0" and "uart_resp s = replicate (Suc k) 32" and "cons_ok s" and "no_proclock s"
    and "c \<notin> {16, 21, 8, 127}"
  shows "\<exists>t. cons_store (ucast c) s = Ret () t \<and> held t = held s \<and> cons_ok t \<and>
    (cons_lines t, cons_edit t) = line_editor c (cons_lines s, cons_edit s)"
proof -
  note ok = assms(3) [unfolded cons_ok_def]
  have len: "length (cons_lines s) + length (cons_edit s) = unat (cons_e s - cons_r s)"
    using ok by (simp add: cons_lines_def cons_edit_def line_ok_def)
  have room: "cons_e s - cons_r s < 128 \<longleftrightarrow> unat (cons_e s - cons_r s) < INPUT_BUF" by (simp add: word_less_nat_alt)
  show ?thesis
  proof (cases "c \<noteq> 0 \<and> unat (cons_e s - cons_r s) < INPUT_BUF")
    case False
    then have "cons_store (ucast c) s = Ret () s" using room by (auto simp: cons_store_def prog_simps char_tests)
    moreover have "line_editor c (cons_lines s, cons_edit s) = (cons_lines s, cons_edit s)"
      using False len assms(5) by (auto simp: line_editor_def)
    ultimately show ?thesis using assms(3) by simp
  next
    case True
    define c' where "c' = (if c = 13 then 10 else c)"
    have uc: "(if (ucast c :: i32) = 13 then 10 else ucast c) = (ucast c' :: i32)" by (simp add: c'_def char_tests)
    let ?e = "cons_e s + 1" and ?buf = "(cons_buf s)(unat (cons_e s) mod INPUT_BUF := c')"
    define s2 where "s2 = s\<lparr>uart_resp := replicate k 32, uart_writes := uart_writes s @ [(THR, c')],
      cons_buf := ?buf, cons_e := ?e\<rparr>"
    note push = line_push [OF ok conjunct2 [OF True], of ?buf c', OF refl]
    have full: "?e = cons_r s + 128 \<longleftrightarrow> unat (?e - cons_r s) = INPUT_BUF" using ring_full [of INPUT_BUF ?e "cons_r s"] by simp
    have "consputc (ucast c') s = Ret () (s\<lparr>uart_resp := replicate k 32, uart_writes := uart_writes s @ [(THR, c')]\<rparr>)"
      using ready [OF emits_consputc assms(1,2), of c'] by simp
    then have run: "cons_store (ucast c) s =
      (if c' = 10 \<or> c' = 4 \<or> unat (?e - cons_r s) = INPUT_BUF
       then wakeup ChanConsR (s2\<lparr>cons_w := ?e\<rparr>) else Ret () s2)"
      unfolding cons_store_def Let_def uc using True room full
      by (simp add: prog_simps char_tests ucast8_id s2_def)
    have e: "unat (?e - cons_r s) = length (cons_lines s) + length (cons_edit s) + 1"
      using ring_succ [OF conjunct2 [OF True]] len by simp
    show ?thesis
    proof (cases "c' = 10 \<or> c' = 4 \<or> unat (?e - cons_r s) = INPUT_BUF")
      case commit: True
      let ?t = "s2\<lparr>cons_w := ?e, ptable := woken_table ChanConsR (cpu_proc s) (ticks s) (ptable s)\<rparr>"
      have "no_proclock (s2\<lparr>cons_w := ?e\<rparr>)" using assms(4) by (simp add: no_proclock_def s2_def)
      then have "cons_store (ucast c) s = Ret () ?t" using run commit by (simp add: wakeup_no_proclock s2_def)
      moreover have "cons_lines ?t = cons_lines s @ cons_edit s @ [c']" "cons_edit ?t = []" "cons_ok ?t"
        using push(4) True ring_succ [OF conjunct2 [OF True]]
        by (simp_all add: cons_lines_def cons_edit_def cons_ok_def line_ok_def ring_contents_def s2_def)
      moreover have "line_editor c (cons_lines s, cons_edit s) = (cons_lines s @ cons_edit s @ [c'], [])"
        using commit True len e assms(5) by (auto simp: line_editor_def Let_def c'_def [symmetric])
      ultimately show ?thesis by (auto simp: s2_def)
    next
      case more: False
      then have "cons_store (ucast c) s = Ret () s2" using run by simp
      moreover have "cons_lines s2 = cons_lines s" "cons_edit s2 = cons_edit s @ [c']"
        using push by (simp_all add: cons_lines_def cons_edit_def s2_def)
      moreover have "cons_ok s2" using push more True ok ring_succ [OF conjunct2 [OF True]]
        by (simp add: cons_ok_def line_ok_def s2_def)
      moreover have "line_editor c (cons_lines s, cons_edit s) = (cons_lines s, cons_edit s @ [c'])"
        using more True len e assms(5) by (auto simp: line_editor_def Let_def c'_def [symmetric])
      ultimately show ?thesis by (auto simp: s2_def)
    qed
  qed
qed

section \<open>Properties\<close>

text \<open>
  C37: the console's interrupt handler is a line editor. Abstractly the input buffer is the text of
  the finished lines and the line being edited. A backspace or delete removes the last character of
  that line, control-U removes all of it, any other character but 0 is appended if fewer than 128 are
  stored, a return as a newline; a newline, control-D or the 128th character finishes the line. On
  a device that is ready to send the echo, \<open>consoleintr\<close> returns and implements exactly that, for
  every character but control-P, and keeps the indices of the buffer consistent.
\<close>

theorem console_line_editor:
  assumes "ConsLock \<notin> held s" and "no_proclock s" and "panicked s = 0" and "cons_ok s"
    and "uart_resp s = replicate k 32" and "3 * INPUT_BUF \<le> k" and "c \<noteq> 16"
  shows "\<exists>t. consoleintr pol (ucast c) s = Ret () t \<and> held t = held s \<and> cons_ok t \<and>
    (cons_lines t, cons_edit t) = line_editor c (cons_lines s, cons_edit s)"
proof -
  let ?s = "s\<lparr>held := insert ConsLock (held s)\<rparr>"
  have same: "cons_lines ?s = cons_lines s" "cons_edit ?s = cons_edit s" "cons_ok ?s"
    using assms(4) by (simp_all add: cons_lines_def cons_edit_def cons_ok_def)
  have ok: "line_ok (cons_buf s) (cons_r s) (cons_w s) (cons_e s)" using assms(4) by (simp add: cons_ok_def)
  have final: ?thesis if "consoleintr pol (ucast c) s = andthen f (release ConsLock) ?s" "f ?s = Ret () t"
    "held t = held ?s" "cons_ok t" "(cons_lines t, cons_edit t) = line_editor c (cons_lines s, cons_edit s)" for f t
    using that assms(1)
    by (intro exI [of _ "t\<lparr>held := held s\<rparr>"]) (simp add: bind_apply cons_lines_def cons_edit_def cons_ok_def)
  consider "c = 21" | "c \<noteq> 21" "c = 8 \<or> c = 127" | "c \<notin> {16, 21, 8, 127}" using assms(7) by auto
  then show ?thesis
  proof cases
    case 1
    let ?n = "unat (cons_e s - cons_w s)"
    have "?n \<le> INPUT_BUF" using ok by (simp add: line_ok_def)
    then obtain out where kl: "kill_line ?n ?s = Ret () (?s\<lparr>cons_e := cons_w s, uart_resp := replicate (k - 3 * ?n) 32, uart_writes := out\<rparr>)"
      using kill_line_ready [of ?s ?n "k - 3 * ?n"] assms same by auto
    have run: "consoleintr pol (ucast c) s =
        andthen (bind (gets (\<lambda>s. unat (cons_e s - cons_w s))) kill_line) (release ConsLock) ?s"
      using 1 assms(1) by (simp add: consoleintr_def bind_apply char_tests)
    show ?thesis
      by (rule final [OF run, of "?s\<lparr>cons_e := cons_w s, uart_resp := replicate (k - 3 * ?n) 32, uart_writes := out\<rparr>"])
         (use 1 kl ok in \<open>simp_all add: bind_apply gets_apply cons_ok_def line_ok_def cons_lines_def
           cons_edit_def line_editor_def ring_contents_def\<close>)
  next
    case 2
    let ?f = "bind (gets (\<lambda>s. cons_e s \<noteq> cons_w s)) (\<lambda>more.
          onlyif more (andthen (modify (\<lambda>s. s\<lparr>cons_e := cons_e s - 1\<rparr>)) (consputc 0x100)))"
    have run: "consoleintr pol (ucast c) s = andthen ?f (release ConsLock) ?s"
      using 2 assms(1,7) by (auto simp: consoleintr_def bind_apply char_tests)
    show ?thesis
    proof (cases "cons_e s = cons_w s")
      case True
      then show ?thesis using 2 same
        by (intro final [OF run, of ?s]) (auto simp: prog_simps line_editor_def cons_edit_def ring_contents_def)
    next
      case False
      let ?t = "?s\<lparr>cons_e := cons_e s - 1\<rparr>"
      have "consputc 0x100 ?t = Ret () (?t\<lparr>uart_resp := replicate (k - 3) 32, uart_writes := uart_writes s @ map (Pair THR) [8, 32, 8]\<rparr>)"
        using ready [OF emits_backspace, of ?t k] assms by simp
      then show ?thesis using 2 False line_pop [OF ok False]
        by (intro final [OF run, of "?t\<lparr>uart_resp := replicate (k - 3) 32, uart_writes := uart_writes s @ map (Pair THR) [8, 32, 8]\<rparr>"])
           (auto simp: prog_simps line_editor_def cons_lines_def cons_edit_def cons_ok_def)
    qed
  next
    case 3
    then have run: "consoleintr pol (ucast c) s = andthen (cons_store (ucast c)) (release ConsLock) ?s"
      using assms(1) by (simp add: consoleintr_def bind_apply char_tests)
    have "no_proclock ?s" using assms(2) by (simp add: no_proclock_def)
    moreover obtain k' where "k = Suc k'" using assms(6) by (cases k) auto
    ultimately obtain t where "cons_store (ucast c) ?s = Ret () t" "held t = held ?s" "cons_ok t"
      "(cons_lines t, cons_edit t) = line_editor c (cons_lines s, cons_edit s)"
      using cons_store_ready [of ?s k' c] assms(3,5) 3 same by auto
    then show ?thesis by (rule final [OF run])
  qed
qed

text \<open>A console with an empty buffer whose indices are about to wrap around.\<close>

definition cons_demo :: kcons where
  "cons_demo = kprintf.extend (kuart.extend (uart_demo\<lparr>uart_resp := replicate 400 32\<rparr>) \<lparr>pr_locking = 1\<rparr>)
     \<lparr>cons_buf = (\<lambda>_. 0), cons_r = 0xFFFFFFFF, cons_w = 0xFFFFFFFF, cons_e = 0xFFFFFFFF, devsw = {1}\<rparr>"

lemma cons_demo_simps:
  "held cons_demo = {}" "panicked cons_demo = 0" "uart_resp cons_demo = replicate 400 32"
  "cons_lines cons_demo = []" "cons_edit cons_demo = []" "cons_ok cons_demo"
  by (simp_all add: cons_demo_def kprintf.extend_def kuart.extend_def uart_demo_def kpipe.extend_def pipe_demo_def
      kslk.extend_def lock_demo_def kproc.extend_def idle_kernel_def cons_lines_def cons_edit_def cons_ok_def
      line_ok_def ring_contents_def)

theorem console_line_editor_witness:
  "\<exists>t. consoleintr RR (ucast (97 :: u8)) cons_demo = Ret () t \<and> cons_lines t = [] \<and> cons_edit t = [97]"
proof -
  have "\<exists>t. consoleintr RR (ucast (97 :: u8)) cons_demo = Ret () t \<and> held t = held cons_demo \<and> cons_ok t \<and>
    (cons_lines t, cons_edit t) = line_editor 97 (cons_lines cons_demo, cons_edit cons_demo)"
    by (rule console_line_editor [where k = 400]) (simp_all add: cons_demo_simps no_proclock_def)
  then show ?thesis by (auto simp: cons_demo_simps line_editor_def)
qed

end
