(* ===== verification/Bytes.thy ===== *)
theory Bytes
  imports CString
begin

text \<open>
  Little-endian integers inside a buffer of bytes, for the structures that the file system keeps in
  disk blocks and that the kernel reads through a cast of the buffer's address.
\<close>

definition get_le :: "nat \<Rightarrow> bytes \<Rightarrow> nat \<Rightarrow> 'a::len word" where
  "get_le k d off = horner_sum of_bool 2 (map (\<lambda>n. bit (d (off + n div 8)) (n mod 8)) [0..<8 * k])"

definition put_le :: "nat \<Rightarrow> bytes \<Rightarrow> nat \<Rightarrow> 'a::len word \<Rightarrow> bytes" where
  "put_le k d off v = (\<lambda>i. if off \<le> i \<and> i < off + k then ucast (drop_bit (8 * (i - off)) v) else d i)"

abbreviation get16 :: "bytes \<Rightarrow> nat \<Rightarrow> u16" where "get16 \<equiv> get_le 2"
abbreviation get32 :: "bytes \<Rightarrow> nat \<Rightarrow> u32" where "get32 \<equiv> get_le 4"
abbreviation get64 :: "bytes \<Rightarrow> nat \<Rightarrow> u64" where "get64 \<equiv> get_le 8"
abbreviation put16 :: "bytes \<Rightarrow> nat \<Rightarrow> u16 \<Rightarrow> bytes" where "put16 \<equiv> put_le 2"
abbreviation put32 :: "bytes \<Rightarrow> nat \<Rightarrow> u32 \<Rightarrow> bytes" where "put32 \<equiv> put_le 4"
abbreviation put64 :: "bytes \<Rightarrow> nat \<Rightarrow> u64 \<Rightarrow> bytes" where "put64 \<equiv> put_le 8"

lemma bit_get_le:
  "bit (get_le k d off :: 'a::len word) n \<longleftrightarrow> n < LENGTH('a) \<and> n < 8 * k \<and> bit (d (off + n div 8)) (n mod 8)"
  by (auto simp: get_le_def bit_horner_sum_bit_word_iff)

lemma get_le_cong:
  assumes "\<And>i. off \<le> i \<Longrightarrow> i < off + k \<Longrightarrow> d i = d' i"
  shows "(get_le k d off :: 'a::len word) = get_le k d' off"
proof (rule bit_word_eqI)
  fix n
  assume "n < LENGTH('a)"
  have "n < 8 * k \<Longrightarrow> n div 8 < k" by (simp add: div_less_iff_less_mult mult.commute)
  then show "bit (get_le k d off :: 'a word) n = bit (get_le k d' off :: 'a word) n"
    by (auto simp: bit_get_le assms)
qed

lemma get_put_le:
  fixes v :: "'a::len word"
  assumes "LENGTH('a) \<le> 8 * k"
  shows "get_le k (put_le k d off v) off = v"
proof (rule bit_word_eqI)
  fix n
  assume n: "n < LENGTH('a)"
  then have "n div 8 < k" using assms by (simp add: div_less_iff_less_mult mult.commute)
  then have "put_le k d off v (off + n div 8) = ucast (drop_bit (8 * (n div 8)) v)" unfolding put_le_def by simp
  moreover have "bit (ucast (drop_bit (8 * (n div 8)) v) :: u8) (n mod 8) = bit v n"
    using n by (simp add: bit_ucast_iff bit_drop_bit_eq)
  ultimately show "bit (get_le k (put_le k d off v) off :: 'a word) n = bit v n"
    using n assms by (simp add: bit_get_le)
qed

lemma get_put_le_other:
  assumes "off + k \<le> off' \<or> off' + k' \<le> off"
  shows "(get_le k' (put_le k d off v) off' :: 'b::len word) = get_le k' d off'"
  using assms by (intro get_le_cong) (auto simp: put_le_def)

lemma get_put_words [simp]:
  "get16 (put16 d off v) off = v" "get32 (put32 d off w) off = w" "get64 (put64 d off x) off = x"
  by (simp_all add: get_put_le)

lemma put_le_other: "i < off \<or> off + k \<le> i \<Longrightarrow> put_le k d off v i = d i"
  by (auto simp: put_le_def)

end
