(* ===== verification/Bio.thy ===== *)
theory Bio
  imports Console Bytes
begin

text \<open>
  The buffer cache of kernel/bio.c: thirty buffers on a doubly linked list in the order of their last
  use. The list is modelled with its pointers. A disk transfer is modelled as the caller of
  \<open>virtio_disk_rw\<close> sees it when the call returns; theory Virtio has the driver in detail and shows
  that a request that the device has served has this effect.
\<close>

section \<open>State\<close>

text \<open>
  A block of the disk and the field \<open>data\<close> of a buffer are arrays of BSIZE bytes; the model never
  looks at an index beyond them.
\<close>

abbreviation (input) BSIZE :: nat where "BSIZE \<equiv> 1024"

record buf =
  b_valid :: i32
  b_dev :: u32
  b_blockno :: u32
  b_refcnt :: u32
  b_data :: bytes

text \<open>A node of the list: the head, or one of the buffers.\<close>

datatype bnode = Head | Node nat

text \<open>\<open>wtrace\<close> records the blocks written to the disk, in the order of the writes.\<close>

record kbio = kcons +
  bufs :: "nat \<Rightarrow> buf"
  b_next :: "bnode \<Rightarrow> bnode"
  b_prev :: "bnode \<Rightarrow> bnode"
  disk_img :: "u32 \<Rightarrow> bytes"
  wtrace :: "(u32 \<times> bytes) list"

definition upd_buf :: "nat \<Rightarrow> (buf \<Rightarrow> buf) \<Rightarrow> ('z kbio_scheme, unit) prog" where
  "upd_buf b f = modify (\<lambda>s. s\<lparr>bufs := (bufs s)(b := f (bufs s b))\<rparr>)"

definition get_buf :: "nat \<Rightarrow> ('z kbio_scheme, buf) prog" where
  "get_buf b = gets (\<lambda>s. bufs s b)"

section \<open>Operations\<close>

text \<open>
  \<open>link_front b\<close> is the four assignments that put \<open>b\<close> behind the head of the list, \<open>unlink b\<close> the
  two that take it out.
\<close>

definition link_front :: "nat \<Rightarrow> ('z kbio_scheme, unit) prog" where
  "link_front b =
     andthen (modify (\<lambda>s. s\<lparr>b_next := (b_next s)(Node b := b_next s Head)\<rparr>))
     (andthen (modify (\<lambda>s. s\<lparr>b_prev := (b_prev s)(Node b := Head)\<rparr>))
     (andthen (modify (\<lambda>s. s\<lparr>b_prev := (b_prev s)(b_next s Head := Node b)\<rparr>))
     (modify (\<lambda>s. s\<lparr>b_next := (b_next s)(Head := Node b)\<rparr>))))"

definition unlink :: "nat \<Rightarrow> ('z kbio_scheme, unit) prog" where
  "unlink b =
     andthen (modify (\<lambda>s. s\<lparr>b_prev := (b_prev s)(b_next s (Node b) := b_prev s (Node b))\<rparr>))
     (modify (\<lambda>s. s\<lparr>b_next := (b_next s)(b_prev s (Node b) := b_next s (Node b))\<rparr>))"

definition binit :: "('z kbio_scheme, unit) prog" where
  "binit =
     andthen (modify (\<lambda>s. s\<lparr>b_prev := (b_prev s)(Head := Head), b_next := (b_next s)(Head := Head)\<rparr>))
     (for_each [0..<NBUF] (\<lambda>b.
        andthen (initsleeplock (BufLock b) ''buffer'') (link_front b)))"

text \<open>
  The two searches of \<open>bget\<close>. The list has NBUF nodes, so NBUF + 1 steps reach its head again.
\<close>

primrec find_cached :: "nat \<Rightarrow> (bnode \<Rightarrow> bnode) \<Rightarrow> (nat \<Rightarrow> buf) \<Rightarrow> u32 \<Rightarrow> u32 \<Rightarrow> bnode \<Rightarrow> nat option" where
  "find_cached 0 nxt bs dev bno x = None"
| "find_cached (Suc n) nxt bs dev bno x = (case x of Head \<Rightarrow> None
     | Node b \<Rightarrow> if b_dev (bs b) = dev \<and> b_blockno (bs b) = bno then Some b
         else find_cached n nxt bs dev bno (nxt x))"

primrec find_unused :: "nat \<Rightarrow> (bnode \<Rightarrow> bnode) \<Rightarrow> (nat \<Rightarrow> buf) \<Rightarrow> bnode \<Rightarrow> nat option" where
  "find_unused 0 prv bs x = None"
| "find_unused (Suc n) prv bs x = (case x of Head \<Rightarrow> None
     | Node b \<Rightarrow> if b_refcnt (bs b) = 0 then Some b else find_unused n prv bs (prv x))"

definition bget :: "u32 \<Rightarrow> u32 \<Rightarrow> ('z kbio_scheme, nat) prog" where
  "bget dev blockno =
     andthen (acquire BcacheLock)
     (bind (gets (\<lambda>s. find_cached (NBUF + 1) (b_next s) (bufs s) dev blockno (b_next s Head))) (\<lambda>r.
      case r of
        Some b \<Rightarrow>
          andthen (upd_buf b (\<lambda>q. q\<lparr>b_refcnt := b_refcnt q + 1\<rparr>))
          (andthen (release BcacheLock)
          (andthen (acquiresleep (BufLock b)) (return b)))
      | None \<Rightarrow>
          bind (gets (\<lambda>s. find_unused (NBUF + 1) (b_prev s) (bufs s) (b_prev s Head))) (\<lambda>r.
          case r of
            Some b \<Rightarrow>
              andthen (upd_buf b (\<lambda>q. q\<lparr>b_dev := dev, b_blockno := blockno, b_valid := 0, b_refcnt := 1\<rparr>))
              (andthen (release BcacheLock)
              (andthen (acquiresleep (BufLock b)) (return b)))
          | None \<Rightarrow> panic ''bget: no buffers'')))"

text \<open>The transfer between a buffer and its block on the disk.\<close>

definition disk_rw :: "nat \<Rightarrow> bool \<Rightarrow> ('z kbio_scheme, unit) prog" where
  "disk_rw b write =
     bind (get_buf b) (\<lambda>q.
     if write then modify (\<lambda>s. s\<lparr>disk_img := (disk_img s)(b_blockno q := b_data q),
         wtrace := wtrace s @ [(b_blockno q, b_data q)]\<rparr>)
     else bind (gets (\<lambda>s. disk_img s (b_blockno q))) (\<lambda>d. upd_buf b (\<lambda>q. q\<lparr>b_data := d\<rparr>)))"

definition bread :: "u32 \<Rightarrow> u32 \<Rightarrow> ('z kbio_scheme, nat) prog" where
  "bread dev blockno =
     bind (bget dev blockno) (\<lambda>b.
     bind (get_buf b) (\<lambda>q.
     andthen (onlyif (b_valid q = 0)
       (andthen (disk_rw b False) (upd_buf b (\<lambda>q. q\<lparr>b_valid := 1\<rparr>))))
     (return b)))"

definition bwrite :: "nat \<Rightarrow> ('z kbio_scheme, unit) prog" where
  "bwrite b =
     bind (holdingsleep (BufLock b)) (\<lambda>h.
     andthen (panic_if (\<not> h) ''bwrite'') (disk_rw b True))"

definition brelse :: "nat \<Rightarrow> ('z kbio_scheme, unit) prog" where
  "brelse b =
     bind (holdingsleep (BufLock b)) (\<lambda>h.
     andthen (panic_if (\<not> h) ''brelse'')
     (andthen (releasesleep (BufLock b))
     (andthen (acquire BcacheLock)
     (andthen (upd_buf b (\<lambda>q. q\<lparr>b_refcnt := b_refcnt q - 1\<rparr>))
     (bind (get_buf b) (\<lambda>q.
     andthen (onlyif (b_refcnt q = 0) (andthen (unlink b) (link_front b)))
     (release BcacheLock)))))))"

definition bpin :: "nat \<Rightarrow> ('z kbio_scheme, unit) prog" where
  "bpin b = with_lock BcacheLock (upd_buf b (\<lambda>q. q\<lparr>b_refcnt := b_refcnt q + 1\<rparr>))"

definition bunpin :: "nat \<Rightarrow> ('z kbio_scheme, unit) prog" where
  "bunpin b = with_lock BcacheLock (upd_buf b (\<lambda>q. q\<lparr>b_refcnt := b_refcnt q - 1\<rparr>))"

text \<open>Assignments to \<open>b->data\<close> by the file system.\<close>

definition set_data :: "nat \<Rightarrow> bytes \<Rightarrow> ('z kbio_scheme, unit) prog" where
  "set_data b d = upd_buf b (\<lambda>q. q\<lparr>b_data := d\<rparr>)"

definition get_data :: "nat \<Rightarrow> ('z kbio_scheme, bytes) prog" where
  "get_data b = gets (\<lambda>s. b_data (bufs s b))"

end
