(* ===== verification/Virtio.thy ===== *)
theory Virtio
  imports Bio
begin

text \<open>
  kernel/virtio_disk.c: the driver of the virtio disk. Requests are chains of three descriptors that
  the driver and the device pass to each other through two rings. The device is outside the kernel;
  what it does with a request is a parameter of the results.
\<close>

section \<open>State\<close>

abbreviation (input) NUM :: nat where "NUM \<equiv> 8"
abbreviation (input) VRING_DESC_F_NEXT :: u16 where "VRING_DESC_F_NEXT \<equiv> 1"
abbreviation (input) VRING_DESC_F_WRITE :: u16 where "VRING_DESC_F_WRITE \<equiv> 2"
abbreviation (input) VIRTIO_BLK_T_IN :: u32 where "VIRTIO_BLK_T_IN \<equiv> 0"
abbreviation (input) VIRTIO_BLK_T_OUT :: u32 where "VIRTIO_BLK_T_OUT \<equiv> 1"

text \<open>
  The objects a descriptor points to: an entry of \<open>disk.ops\<close>, the data of a buffer, or the status of
  an entry of \<open>disk.info\<close>.
\<close>

datatype dptr = DNull | DOps nat | DData nat | DStatus nat

record virtq_desc =
  vd_addr :: dptr
  vd_len :: u32
  vd_flags :: u16
  vd_next :: u16

record virtio_blk_req =
  vr_type :: u32
  vr_reserved :: u32
  vr_sector :: u64

text \<open>
  \<open>avail_idx\<close>, \<open>avail_ring\<close> and \<open>dev_used_idx\<close>, \<open>used_ring\<close> are the two rings, \<open>vused_idx\<close> is the
  driver's \<open>disk.used_idx\<close>, and \<open>b_disk\<close> is the field \<open>disk\<close> of a buffer. \<open>vio_resp\<close> has the answers
  of the device to reads of its registers, \<open>vio_writes\<close> what was written to them.
\<close>

record kdisk = kbio +
  vdesc :: "nat \<Rightarrow> virtq_desc"
  avail_idx :: u16
  avail_ring :: "nat \<Rightarrow> u16"
  dev_used_idx :: u16
  used_ring :: "nat \<Rightarrow> u32"
  vfree :: "nat \<Rightarrow> bool"
  vused_idx :: u16
  info_b :: "nat \<Rightarrow> nat option"
  info_status :: "nat \<Rightarrow> u8"
  vops :: "nat \<Rightarrow> virtio_blk_req"
  b_disk :: "nat \<Rightarrow> i32"
  disk_pages :: u64
  vio_resp :: "u32 list"
  vio_writes :: "(nat \<times> u32) list"

definition vio_read :: "('z kdisk_scheme, u32) prog" where
  "vio_read = (\<lambda>s. case vio_resp s of [] \<Rightarrow> Blocked s | v # vs \<Rightarrow> Ret v (s\<lparr>vio_resp := vs\<rparr>))"

definition vio_write :: "nat \<Rightarrow> u32 \<Rightarrow> ('z kdisk_scheme, unit) prog" where
  "vio_write r v = modify (\<lambda>s. s\<lparr>vio_writes := vio_writes s @ [(r, v)]\<rparr>)"

section \<open>Operations\<close>

definition null_desc :: virtq_desc where
  "null_desc = \<lparr>vd_addr = DNull, vd_len = 0, vd_flags = 0, vd_next = 0\<rparr>"

text \<open>The features that the driver turns off before it accepts the rest.\<close>

definition driver_features :: "u64 \<Rightarrow> u64" where
  "driver_features f =
     f AND NOT (push_bit 5 1) AND NOT (push_bit 7 1) AND NOT (push_bit 11 1) AND NOT (push_bit 12 1)
       AND NOT (push_bit 27 1) AND NOT (push_bit 29 1) AND NOT (push_bit 28 1)"

text \<open>
  The four reads of the identification are joined by \<open>||\<close>: one that fails is the last.
\<close>

definition vio_expect :: "u32 list \<Rightarrow> ('z kdisk_scheme, unit) prog" where
  "vio_expect vs = for_each vs (\<lambda>v. bind vio_read (\<lambda>x. panic_if (x \<noteq> v) ''could not find virtio disk''))"

definition virtio_disk_init :: "('z kdisk_scheme, unit) prog" where
  "virtio_disk_init =
     andthen (vio_expect [0x74726976, 1, 2, 0x554d4551])
     (andthen (vio_write 0x070 1)
     (andthen (vio_write 0x070 (1 OR 2))
     (bind vio_read (\<lambda>f.
     andthen (vio_write 0x020 (ucast (driver_features (ucast f))))
     (andthen (vio_write 0x070 (1 OR 2 OR 8))
     (andthen (vio_write 0x070 (1 OR 2 OR 8 OR 4))
     (andthen (vio_write 0x028 4096)
     (andthen (vio_write 0x030 0)
     (bind vio_read (\<lambda>mx.
     andthen (panic_if (mx = 0) ''virtio disk has no queue 0'')
     (andthen (panic_if (mx < 8) ''virtio disk max queue too short'')
     (andthen (vio_write 0x038 8)
     (andthen (modify (\<lambda>s. s\<lparr>vdesc := (\<lambda>_. null_desc), avail_idx := 0, avail_ring := (\<lambda>_. 0),
        dev_used_idx := 0, used_ring := (\<lambda>_. 0)\<rparr>))
     (bind (gets disk_pages) (\<lambda>pa.
     andthen (vio_write 0x040 (ucast (drop_bit 12 pa)))
     (for_each [0..<NUM] (\<lambda>i. modify (\<lambda>s. s\<lparr>vfree := (vfree s)(i := True)\<rparr>))))))))))))))))))"

primrec alloc_desc_scan :: "nat list \<Rightarrow> ('z kdisk_scheme, nat option) prog" where
  "alloc_desc_scan [] = return None"
| "alloc_desc_scan (i # rest) =
     bind (gets (\<lambda>s. vfree s i)) (\<lambda>f.
     if f then andthen (modify (\<lambda>s. s\<lparr>vfree := (vfree s)(i := False)\<rparr>)) (return (Some i))
     else alloc_desc_scan rest)"

definition alloc_desc :: "('z kdisk_scheme, nat option) prog" where
  "alloc_desc = alloc_desc_scan [0..<NUM]"

definition free_desc :: "nat \<Rightarrow> ('z kdisk_scheme, unit) prog" where
  "free_desc i =
     andthen (panic_if (i \<ge> NUM) ''free_desc 1'')
     (bind (gets (\<lambda>s. vfree s i)) (\<lambda>f.
     andthen (panic_if f ''free_desc 2'')
     (andthen (modify (\<lambda>s. s\<lparr>vdesc := (vdesc s)(i := null_desc)\<rparr>))
     (andthen (modify (\<lambda>s. s\<lparr>vfree := (vfree s)(i := True)\<rparr>))
     (wakeup ChanDiskFree)))))"

text \<open>
  Every iteration of the loop of \<open>free_chain\<close> frees another descriptor, so that after NUM iterations
  \<open>free_desc\<close> panics in the next one.
\<close>

primrec free_chain_loop :: "nat \<Rightarrow> nat \<Rightarrow> ('z kdisk_scheme, unit) prog" where
  "free_chain_loop 0 i = panic ''free_desc 2''"
| "free_chain_loop (Suc n) i =
     bind (gets (\<lambda>s. vdesc s i)) (\<lambda>d.
     andthen (free_desc i)
     (if vd_flags d AND VRING_DESC_F_NEXT \<noteq> 0 then free_chain_loop n (unat (vd_next d)) else return ()))"

definition free_chain :: "nat \<Rightarrow> ('z kdisk_scheme, unit) prog" where
  "free_chain = free_chain_loop (Suc NUM)"

primrec alloc3_loop :: "nat \<Rightarrow> nat list \<Rightarrow> ('z kdisk_scheme, nat list option) prog" where
  "alloc3_loop 0 idx = return (Some idx)"
| "alloc3_loop (Suc n) idx =
     bind alloc_desc (\<lambda>r. case r of
       Some i \<Rightarrow> alloc3_loop n (idx @ [i])
     | None \<Rightarrow> andthen (for_each idx free_desc) (return None))"

definition alloc3_desc :: "('z kdisk_scheme, nat list option) prog" where
  "alloc3_desc = alloc3_loop 3 []"

text \<open>
  A request: the descriptors are formatted, the request is entered in the ring and the device is
  notified.
\<close>

definition virtio_submit :: "nat \<Rightarrow> bool \<Rightarrow> nat \<Rightarrow> nat \<Rightarrow> nat \<Rightarrow> ('z kdisk_scheme, unit) prog" where
  "virtio_submit b write i0 i1 i2 =
     bind (get_buf b) (\<lambda>q.
     andthen (modify (\<lambda>s. s\<lparr>vops := (vops s)(i0 := \<lparr>vr_type = (if write then VIRTIO_BLK_T_OUT else VIRTIO_BLK_T_IN),
       vr_reserved = 0, vr_sector = ucast (b_blockno q * 2)\<rparr>)\<rparr>))
     (andthen (modify (\<lambda>s. s\<lparr>vdesc := (vdesc s)(i0 := \<lparr>vd_addr = DOps i0, vd_len = 16,
       vd_flags = VRING_DESC_F_NEXT, vd_next = of_nat i1\<rparr>)\<rparr>))
     (andthen (modify (\<lambda>s. s\<lparr>vdesc := (vdesc s)(i1 := \<lparr>vd_addr = DData b, vd_len = 1024,
       vd_flags = (if write then 0 else VRING_DESC_F_WRITE) OR VRING_DESC_F_NEXT, vd_next = of_nat i2\<rparr>)\<rparr>))
     (andthen (modify (\<lambda>s. s\<lparr>info_status := (info_status s)(i0 := 0xff)\<rparr>))
     (andthen (modify (\<lambda>s. s\<lparr>vdesc := (vdesc s)(i2 := \<lparr>vd_addr = DStatus i0, vd_len = 1,
       vd_flags = VRING_DESC_F_WRITE, vd_next = 0\<rparr>)\<rparr>))
     (andthen (modify (\<lambda>s. s\<lparr>b_disk := (b_disk s)(b := 1)\<rparr>))
     (andthen (modify (\<lambda>s. s\<lparr>info_b := (info_b s)(i0 := Some b)\<rparr>))
     (andthen (modify (\<lambda>s. s\<lparr>avail_ring := (avail_ring s)(unat (avail_idx s) mod NUM := of_nat i0)\<rparr>))
     (andthen (modify (\<lambda>s. s\<lparr>avail_idx := avail_idx s + 1\<rparr>))
     (vio_write 0x050 0))))))))))"

text \<open>
  The wait for the device and the end of \<open>virtio_disk_rw\<close>. A process that was asleep goes on with
  \<open>virtio_disk_rw_resume\<close>, or with \<open>virtio_alloc_resume\<close> if it was waiting for descriptors.
\<close>

definition virtio_wait :: "nat \<Rightarrow> nat \<Rightarrow> ('z kdisk_scheme, unit) prog" where
  "virtio_wait b i0 =
     bind (gets (\<lambda>s. b_disk s b)) (\<lambda>d.
     if d = 1 then sleep (ChanBuf b) VdiskLock
     else andthen (modify (\<lambda>s. s\<lparr>info_b := (info_b s)(i0 := None)\<rparr>))
       (andthen (free_chain i0) (release VdiskLock)))"

definition virtio_disk_rw_loop :: "nat \<Rightarrow> bool \<Rightarrow> ('z kdisk_scheme, unit) prog" where
  "virtio_disk_rw_loop b write =
     bind alloc3_desc (\<lambda>r. case r of
       None \<Rightarrow> sleep ChanDiskFree VdiskLock
     | Some idx \<Rightarrow> andthen (virtio_submit b write (idx ! 0) (idx ! 1) (idx ! 2)) (virtio_wait b (idx ! 0)))"

definition virtio_disk_rw :: "nat \<Rightarrow> bool \<Rightarrow> ('z kdisk_scheme, unit) prog" where
  "virtio_disk_rw b write = andthen (acquire VdiskLock) (virtio_disk_rw_loop b write)"

definition virtio_alloc_resume :: "nat \<Rightarrow> nat \<Rightarrow> bool \<Rightarrow> ('z kdisk_scheme, unit) prog" where
  "virtio_alloc_resume p b write = andthen (sleep_resume p VdiskLock) (virtio_disk_rw_loop b write)"

definition virtio_disk_rw_resume :: "nat \<Rightarrow> nat \<Rightarrow> nat \<Rightarrow> ('z kdisk_scheme, unit) prog" where
  "virtio_disk_rw_resume p b i0 = andthen (sleep_resume p VdiskLock) (virtio_wait b i0)"

text \<open>The loop of the interrupt handler: one iteration for every entry the device has added.\<close>

primrec virtio_intr_loop :: "nat \<Rightarrow> ('z kdisk_scheme, unit) prog" where
  "virtio_intr_loop 0 = return ()"
| "virtio_intr_loop (Suc n) =
     bind (gets (\<lambda>s. unat (used_ring s (unat (vused_idx s) mod NUM)))) (\<lambda>i.
     bind (gets (\<lambda>s. (info_status s i, info_b s i))) (\<lambda>(status, r).
     andthen (panic_if (status \<noteq> 0) ''virtio_disk_intr status'')
     (case r of
        None \<Rightarrow> panic ''kerneltrap''
      | Some b \<Rightarrow>
          andthen (modify (\<lambda>s. s\<lparr>b_disk := (b_disk s)(b := 0)\<rparr>))
          (andthen (wakeup (ChanBuf b))
          (andthen (modify (\<lambda>s. s\<lparr>vused_idx := vused_idx s + 1\<rparr>))
          (virtio_intr_loop n))))))"

definition virtio_disk_intr :: "('z kdisk_scheme, unit) prog" where
  "virtio_disk_intr =
     andthen (acquire VdiskLock)
     (bind vio_read (\<lambda>st.
     andthen (vio_write 0x064 (st AND 3))
     (andthen (bind (gets (\<lambda>s. unat (dev_used_idx s - vused_idx s))) virtio_intr_loop)
     (release VdiskLock))))"

end
