(* ===== verification/Log.thy ===== *)
theory Log
  imports Virtio
begin

text \<open>
  The redo log of kernel/log.c. The modified blocks of a transaction are written to the log first;
  then the header of the log is written, which commits the transaction; then the blocks are
  installed at their home locations and the header is cleared.
\<close>

section \<open>State\<close>

record superblock =
  sb_magic :: u32
  sb_size :: u32
  sb_nblocks :: u32
  sb_ninodes :: u32
  sb_nlog :: u32
  sb_logstart :: u32
  sb_inodestart :: u32
  sb_bmapstart :: u32

text \<open>\<open>lh_n\<close> and \<open>lh_block\<close> are the in-memory header \<open>log.lh\<close>.\<close>

record klog = kdisk +
  log_start :: i32
  log_size :: i32
  log_outstanding :: i32
  log_committing :: i32
  log_dev :: i32
  lh_n :: i32
  lh_block :: "nat \<Rightarrow> i32"

section \<open>Operations\<close>

text \<open>The iterations of a loop up to \<open>log.lh.n\<close>.\<close>

definition lh_range :: "'z klog_scheme \<Rightarrow> nat list" where
  "lh_range s = [0..<nat (sint (lh_n s))]"

definition install_block :: "bool \<Rightarrow> nat \<Rightarrow> ('z klog_scheme, unit) prog" where
  "install_block recovering tail =
     bind (gets (\<lambda>s. (log_dev s, log_start s + of_nat tail + 1, lh_block s tail))) (\<lambda>(dev, lblk, dblk).
     bind (bread dev lblk) (\<lambda>lbuf.
     bind (bread dev dblk) (\<lambda>dbuf.
     bind (get_data lbuf) (\<lambda>d.
     andthen (set_data dbuf d)
     (andthen (bwrite dbuf)
     (andthen (onlyif (\<not> recovering) (bunpin dbuf))
     (andthen (brelse lbuf)
     (brelse dbuf))))))))"

definition install_trans :: "bool \<Rightarrow> ('z klog_scheme, unit) prog" where
  "install_trans recovering = bind (gets lh_range) (\<lambda>r. for_each r (install_block recovering))"

text \<open>The header block: \<open>n\<close>, then the block numbers.\<close>

definition read_head :: "('z klog_scheme, unit) prog" where
  "read_head =
     bind (gets (\<lambda>s. (log_dev s, log_start s))) (\<lambda>(dev, blk).
     bind (bread dev blk) (\<lambda>b.
     bind (get_data b) (\<lambda>d.
     andthen (modify (\<lambda>s. s\<lparr>lh_n := get32 d 0\<rparr>))
     (andthen (bind (gets lh_range) (\<lambda>r. for_each r (\<lambda>i.
        modify (\<lambda>s. s\<lparr>lh_block := (lh_block s)(i := get32 d (4 + 4 * i))\<rparr>))))
     (brelse b)))))"

definition write_head :: "('z klog_scheme, unit) prog" where
  "write_head =
     bind (gets (\<lambda>s. (log_dev s, log_start s))) (\<lambda>(dev, blk).
     bind (bread dev blk) (\<lambda>b.
     andthen (bind (gets lh_n) (\<lambda>n. bind (get_data b) (\<lambda>d. set_data b (put32 d 0 n))))
     (andthen (bind (gets lh_range) (\<lambda>r. for_each r (\<lambda>i.
        bind (gets (\<lambda>s. lh_block s i)) (\<lambda>v. bind (get_data b) (\<lambda>d. set_data b (put32 d (4 + 4 * i) v))))))
     (andthen (bwrite b)
     (brelse b)))))"

definition recover_from_log :: "('z klog_scheme, unit) prog" where
  "recover_from_log =
     andthen read_head
     (andthen (install_trans True)
     (andthen (modify (\<lambda>s. s\<lparr>lh_n := 0\<rparr>))
     write_head))"

text \<open>The test of \<open>initlog\<close> compares 124, the size of a header, with BSIZE.\<close>

definition initlog :: "i32 \<Rightarrow> superblock \<Rightarrow> ('z klog_scheme, unit) prog" where
  "initlog dev sb =
     andthen (panic_if (4 + 4 * LOGSIZE \<ge> BSIZE) ''initlog: too big logheader'')
     (andthen (modify (\<lambda>s. s\<lparr>log_start := sb_logstart sb, log_size := sb_nlog sb, log_dev := dev\<rparr>))
     recover_from_log)"

text \<open>
  One round of the loop of \<open>begin_op\<close>; a process that was asleep starts another round with
  \<open>begin_op_resume\<close>.
\<close>

definition begin_op_round :: "('z klog_scheme, unit) prog" where
  "begin_op_round =
     bind (gets (\<lambda>s. (log_committing s, lh_n s + (log_outstanding s + 1) * 10))) (\<lambda>(committing, need).
     if committing \<noteq> 0 then sleep ChanLog LogLock
     else if sint need > int LOGSIZE then sleep ChanLog LogLock
     else andthen (modify (\<lambda>s. s\<lparr>log_outstanding := log_outstanding s + 1\<rparr>)) (release LogLock))"

definition begin_op :: "('z klog_scheme, unit) prog" where
  "begin_op = andthen (acquire LogLock) begin_op_round"

definition begin_op_resume :: "nat \<Rightarrow> ('z klog_scheme, unit) prog" where
  "begin_op_resume p = andthen (sleep_resume p LogLock) begin_op_round"

definition write_log_block :: "nat \<Rightarrow> ('z klog_scheme, unit) prog" where
  "write_log_block tail =
     bind (gets (\<lambda>s. (log_dev s, log_start s + of_nat tail + 1, lh_block s tail))) (\<lambda>(dev, lblk, dblk).
     bind (bread dev lblk) (\<lambda>to.
     bind (bread dev dblk) (\<lambda>from.
     bind (get_data from) (\<lambda>d.
     andthen (set_data to d)
     (andthen (bwrite to)
     (andthen (brelse from)
     (brelse to)))))))"

definition write_log :: "('z klog_scheme, unit) prog" where
  "write_log = bind (gets lh_range) (\<lambda>r. for_each r write_log_block)"

definition commit :: "('z klog_scheme, unit) prog" where
  "commit =
     bind (gets lh_n) (\<lambda>n.
     onlyif (sint n > 0)
       (andthen write_log
       (andthen write_head
       (andthen (install_trans False)
       (andthen (modify (\<lambda>s. s\<lparr>lh_n := 0\<rparr>))
       write_head)))))"

definition end_op :: "('z klog_scheme, unit) prog" where
  "end_op =
     andthen (acquire LogLock)
     (andthen (modify (\<lambda>s. s\<lparr>log_outstanding := log_outstanding s - 1\<rparr>))
     (bind (gets (\<lambda>s. (log_committing s, log_outstanding s))) (\<lambda>(committing, outstanding).
     andthen (panic_if (committing \<noteq> 0) ''log.committing'')
     (if outstanding = 0 then
        andthen (modify (\<lambda>s. s\<lparr>log_committing := 1\<rparr>))
        (andthen (release LogLock)
        (andthen commit
        (andthen (acquire LogLock)
        (andthen (modify (\<lambda>s. s\<lparr>log_committing := 0\<rparr>))
        (andthen (wakeup ChanLog)
        (release LogLock))))))
      else andthen (wakeup ChanLog) (release LogLock)))))"

text \<open>The first index below \<open>n\<close> of a block number in the header, or \<open>n\<close>.\<close>

primrec log_index :: "nat \<Rightarrow> (nat \<Rightarrow> i32) \<Rightarrow> u32 \<Rightarrow> nat \<Rightarrow> nat" where
  "log_index 0 blk b i = i"
| "log_index (Suc n) blk b i = (if blk i = b then i else log_index n blk b (Suc i))"

definition log_write :: "nat \<Rightarrow> ('z klog_scheme, unit) prog" where
  "log_write b =
     andthen (acquire LogLock)
     (bind (gets (\<lambda>s. (lh_n s, log_size s, log_outstanding s))) (\<lambda>(n, sz, outstanding).
     andthen (panic_if (sint n \<ge> int LOGSIZE \<or> sint n \<ge> sint (sz - 1)) ''too big a transaction'')
     (andthen (panic_if (sint outstanding < 1) ''log_write outside of trans'')
     (bind (get_buf b) (\<lambda>q.
     bind (gets (\<lambda>s. log_index (nat (sint n)) (lh_block s) (b_blockno q) 0)) (\<lambda>i.
     andthen (modify (\<lambda>s. s\<lparr>lh_block := (lh_block s)(i := b_blockno q)\<rparr>))
     (andthen (onlyif (i = nat (sint n))
        (andthen (bpin b) (modify (\<lambda>s. s\<lparr>lh_n := lh_n s + 1\<rparr>))))
     (release LogLock))))))))"

section \<open>An example state\<close>

text \<open>An empty disk, and a machine with an empty buffer cache whose log starts at block 2.\<close>

definition clean_disk :: "u32 \<Rightarrow> bytes" where
  "clean_disk = (\<lambda>_ _. 0)"

definition bio_demo :: "(nat \<Rightarrow> buf) \<Rightarrow> (u32 \<Rightarrow> bytes) \<Rightarrow> kbio" where
  "bio_demo bs d = (kcons.extend cons_demo
     \<lparr>bufs = bs, b_next = (\<lambda>x. case x of Head \<Rightarrow> Node 0 | Node i \<Rightarrow> if i = 29 then Head else Node (i + 1)),
      b_prev = (\<lambda>x. case x of Head \<Rightarrow> Node 29 | Node i \<Rightarrow> if i = 0 then Head else Node (i - 1)),
      disk_img = d, wtrace = []\<rparr>)\<lparr>sleeplocks := \<lambda>_. \<lparr>sl_locked = 0, sl_name = [], sl_pid = 0\<rparr>\<rparr>"

definition log_demo :: "(nat \<Rightarrow> buf) \<Rightarrow> (u32 \<Rightarrow> bytes) \<Rightarrow> klog" where
  "log_demo bs d = kdisk.extend (kbio.extend (bio_demo bs d)
     \<lparr>vdesc = (\<lambda>_. null_desc), avail_idx = 0, avail_ring = (\<lambda>_. 0), dev_used_idx = 0, used_ring = (\<lambda>_. 0),
      vfree = (\<lambda>_. True), vused_idx = 0, info_b = (\<lambda>_. None), info_status = (\<lambda>_. 0),
      vops = (\<lambda>_. \<lparr>vr_type = 0, vr_reserved = 0, vr_sector = 0\<rparr>), b_disk = (\<lambda>_. 0), disk_pages = 0,
      vio_resp = [], vio_writes = []\<rparr>)
     \<lparr>log_start = 2, log_size = 30, log_outstanding = 0, log_committing = 1, log_dev = 1, lh_n = 1, lh_block = (\<lambda>_. 50)\<rparr>"

definition empty_bufs :: "nat \<Rightarrow> buf" where
  "empty_bufs = (\<lambda>_. \<lparr>b_valid = 0, b_dev = 0, b_blockno = 0, b_refcnt = 0, b_data = (\<lambda>_. 0)\<rparr>)"

lemma log_demo_simps:
  "bufs (log_demo bs d) = bs" "disk_img (log_demo bs d) = d" "wtrace (log_demo bs d) = []"
  "cpu_proc (log_demo bs d) = Some 5" "held (log_demo bs d) = {}" "sl_locked (sleeplocks (log_demo bs d) l) = 0"
  "log_dev (log_demo bs d) = 1" "log_start (log_demo bs d) = 2" "lh_n (log_demo bs d) = 1" "lh_block (log_demo bs d) i = 50"
  by (simp_all add: log_demo_def bio_demo_def kdisk.extend_def kbio.extend_def kcons.extend_def cons_demo_def
      kprintf.extend_def kuart.extend_def uart_demo_def kpipe.extend_def pipe_demo_def
      kslk.extend_def lock_demo_def kproc.extend_def idle_kernel_def)

end
