(* ===== verification/Fs.thy ===== *)
theory Fs
  imports Log Umem
begin

text \<open>
  kernel/fs.c: block allocation, inodes, directories and path names. Blocks are read and written
  through the buffer cache and the log; the structures inside a block are read and written at their
  byte offsets.
\<close>

section \<open>State\<close>

abbreviation (input) FSMAGIC :: u32 where "FSMAGIC \<equiv> 0x10203040"
abbreviation (input) ROOTINO :: u32 where "ROOTINO \<equiv> 1"
abbreviation (input) NDIRECT :: nat where "NDIRECT \<equiv> 12"
abbreviation (input) NINDIRECT :: nat where "NINDIRECT \<equiv> 256"
abbreviation (input) MAXFILE :: nat where "MAXFILE \<equiv> 268"
abbreviation (input) IPB :: nat where "IPB \<equiv> 16"
abbreviation (input) BPB :: nat where "BPB \<equiv> 8192"
abbreviation (input) DIRSIZ :: nat where "DIRSIZ \<equiv> 14"
abbreviation (input) T_DIR :: u16 where "T_DIR \<equiv> 1"
abbreviation (input) T_FILE :: u16 where "T_FILE \<equiv> 2"
abbreviation (input) T_DEVICE :: u16 where "T_DEVICE \<equiv> 3"

record inode =
  i_dev :: u32
  i_inum :: u32
  i_ref :: i32
  i_valid :: i32
  i_type :: u16
  i_major :: u16
  i_minor :: u16
  i_nlink :: u16
  i_size :: u32
  i_addrs :: "nat \<Rightarrow> u32"

text \<open>An inode pointer is an index into \<open>itable.inode\<close>; a null pointer is \<open>None\<close>.\<close>

record kfs = klog +
  sb :: superblock
  inodes :: "nat \<Rightarrow> inode"

definition upd_ino :: "nat \<Rightarrow> (inode \<Rightarrow> inode) \<Rightarrow> ('z kfs_scheme, unit) prog" where
  "upd_ino ip f = modify (\<lambda>s. s\<lparr>inodes := (inodes s)(ip := f (inodes s ip))\<rparr>)"

definition get_ino :: "nat \<Rightarrow> ('z kfs_scheme, inode) prog" where
  "get_ino ip = gets (\<lambda>s. inodes s ip)"

definition IBLOCK :: "u32 \<Rightarrow> superblock \<Rightarrow> u32" where
  "IBLOCK i sblk = i div 16 + sb_inodestart sblk"

definition BBLOCK :: "u32 \<Rightarrow> superblock \<Rightarrow> u32" where
  "BBLOCK b sblk = b div 8192 + sb_bmapstart sblk"

section \<open>Blocks\<close>

definition sb_of_data :: "bytes \<Rightarrow> superblock" where
  "sb_of_data d = \<lparr>sb_magic = get32 d 0, sb_size = get32 d 4, sb_nblocks = get32 d 8, sb_ninodes = get32 d 12,
     sb_nlog = get32 d 16, sb_logstart = get32 d 20, sb_inodestart = get32 d 24, sb_bmapstart = get32 d 28\<rparr>"

definition readsb :: "u32 \<Rightarrow> ('z kfs_scheme, unit) prog" where
  "readsb dev =
     bind (bread dev 1) (\<lambda>bp.
     bind (get_data bp) (\<lambda>d.
     andthen (modify (\<lambda>s. s\<lparr>sb := sb_of_data d\<rparr>)) (brelse bp)))"

definition fsinit :: "u32 \<Rightarrow> ('z kfs_scheme, unit) prog" where
  "fsinit dev =
     andthen (readsb dev)
     (bind (gets sb) (\<lambda>sblk.
     andthen (panic_if (sb_magic sblk \<noteq> FSMAGIC) ''invalid file system'')
     (initlog dev sblk)))"

definition bzero :: "u32 \<Rightarrow> u32 \<Rightarrow> ('z kfs_scheme, unit) prog" where
  "bzero dev bno =
     bind (bread dev bno) (\<lambda>bp.
     andthen (set_data bp (\<lambda>_. 0)) (andthen (log_write bp) (brelse bp)))"

text \<open>\<open>(data[bi/8] & (1 << (bi % 8))) == 0\<close>: the bit of block \<open>bi\<close> in its bitmap block is clear.\<close>

definition bit_clear :: "bytes \<Rightarrow> nat \<Rightarrow> bool" where
  "bit_clear d bi \<longleftrightarrow> d (bi div 8) AND push_bit (bi mod 8) 1 = 0"

text \<open>The inner loop of \<open>balloc\<close>, for \<open>k\<close> more bits from \<open>bi\<close> on.\<close>

primrec find_clear :: "nat \<Rightarrow> bytes \<Rightarrow> nat \<Rightarrow> nat option" where
  "find_clear 0 d bi = None"
| "find_clear (Suc k) d bi = (if bit_clear d bi then Some bi else find_clear k d (Suc bi))"

primrec balloc_loop :: "u32 \<Rightarrow> nat list \<Rightarrow> ('z kfs_scheme, u32) prog" where
  "balloc_loop dev [] = panic ''balloc: out of blocks''"
| "balloc_loop dev (b # bs) =
     bind (gets sb) (\<lambda>sblk.
     bind (bread dev (BBLOCK (of_nat b) sblk)) (\<lambda>bp.
     bind (get_data bp) (\<lambda>d.
     case find_clear (min BPB (unat (sb_size sblk) - b)) d 0 of
       Some bi \<Rightarrow>
         andthen (set_data bp (d(bi div 8 := d (bi div 8) OR push_bit (bi mod 8) 1)))
         (andthen (log_write bp)
         (andthen (brelse bp)
         (andthen (bzero dev (of_nat (b + bi)))
         (return (of_nat (b + bi))))))
     | None \<Rightarrow> andthen (brelse bp) (balloc_loop dev bs))))"

text \<open>The values of \<open>b\<close> in the outer loop of \<open>balloc\<close>: the multiples of BPB below the size.\<close>

definition balloc :: "u32 \<Rightarrow> ('z kfs_scheme, u32) prog" where
  "balloc dev =
     bind (gets (\<lambda>s. unat (sb_size (sb s)))) (\<lambda>sz.
     balloc_loop dev (map (\<lambda>k. k * BPB) [0..<(sz + BPB - 1) div BPB]))"

definition bfree :: "u32 \<Rightarrow> u32 \<Rightarrow> ('z kfs_scheme, unit) prog" where
  "bfree dev b =
     bind (gets sb) (\<lambda>sblk.
     bind (bread dev (BBLOCK b sblk)) (\<lambda>bp.
     bind (get_data bp) (\<lambda>d.
     let bi = unat (b mod 8192) in
     andthen (panic_if (bit_clear d bi) ''freeing free block'')
     (andthen (set_data bp (d(bi div 8 := d (bi div 8) AND NOT (push_bit (bi mod 8) 1))))
     (andthen (log_write bp)
     (brelse bp))))))"

section \<open>Inodes\<close>

definition iinit :: "('z kfs_scheme, unit) prog" where
  "iinit = for_each [0..<NINODE] (\<lambda>i. initsleeplock (InodeLock i) ''inode'')"

text \<open>The on-disk inode of \<open>inum\<close> inside its block, at byte \<open>64 * (inum % IPB)\<close>.\<close>

definition dinode_off :: "u32 \<Rightarrow> nat" where
  "dinode_off inum = 64 * (unat inum mod IPB)"

definition dinode_type :: "bytes \<Rightarrow> u32 \<Rightarrow> u16" where
  "dinode_type d inum = get16 d (dinode_off inum)"

definition dinode_clear :: "bytes \<Rightarrow> u32 \<Rightarrow> u16 \<Rightarrow> bytes" where
  "dinode_clear d inum ty =
     put16 (\<lambda>i. if dinode_off inum \<le> i \<and> i < dinode_off inum + 64 then 0 else d i) (dinode_off inum) ty"

primrec put_addrs :: "nat \<Rightarrow> bytes \<Rightarrow> nat \<Rightarrow> (nat \<Rightarrow> u32) \<Rightarrow> bytes" where
  "put_addrs 0 d off a = d"
| "put_addrs (Suc n) d off a = put32 (put_addrs n d off a) (off + 4 * n) (a n)"

definition dinode_write :: "bytes \<Rightarrow> inode \<Rightarrow> bytes" where
  "dinode_write d ip =
     (let o' = dinode_off (i_inum ip);
          d = put16 d o' (i_type ip);
          d = put16 d (o' + 2) (i_major ip);
          d = put16 d (o' + 4) (i_minor ip);
          d = put16 d (o' + 6) (i_nlink ip);
          d = put32 d (o' + 8) (i_size ip)
      in put_addrs (NDIRECT + 1) d (o' + 12) (i_addrs ip))"

definition dinode_read :: "bytes \<Rightarrow> inode \<Rightarrow> inode" where
  "dinode_read d ip =
     (let o' = dinode_off (i_inum ip)
      in ip\<lparr>i_type := get16 d o', i_major := get16 d (o' + 2), i_minor := get16 d (o' + 4),
         i_nlink := get16 d (o' + 6), i_size := get32 d (o' + 8),
         i_addrs := (\<lambda>k. if k < NDIRECT + 1 then get32 d (o' + 12 + 4 * k) else i_addrs ip k)\<rparr>)"

primrec iget_scan :: "u32 \<Rightarrow> u32 \<Rightarrow> nat list \<Rightarrow> nat option \<Rightarrow> ('z kfs_scheme, nat) prog" where
  "iget_scan dev inum [] slot =
     (case slot of None \<Rightarrow> panic ''iget: no inodes''
      | Some ip \<Rightarrow>
          andthen (upd_ino ip (\<lambda>q. q\<lparr>i_dev := dev, i_inum := inum, i_ref := 1, i_valid := 0\<rparr>))
          (andthen (release ItableLock) (return ip)))"
| "iget_scan dev inum (ip # ips) slot =
     bind (get_ino ip) (\<lambda>q.
     if sint (i_ref q) > 0 \<and> i_dev q = dev \<and> i_inum q = inum then
       andthen (upd_ino ip (\<lambda>q. q\<lparr>i_ref := i_ref q + 1\<rparr>))
       (andthen (release ItableLock) (return ip))
     else iget_scan dev inum ips (if slot = None \<and> i_ref q = 0 then Some ip else slot))"

definition iget :: "u32 \<Rightarrow> u32 \<Rightarrow> ('z kfs_scheme, nat) prog" where
  "iget dev inum = andthen (acquire ItableLock) (iget_scan dev inum [0..<NINODE] None)"

primrec ialloc_loop :: "u32 \<Rightarrow> u16 \<Rightarrow> nat list \<Rightarrow> ('z kfs_scheme, nat) prog" where
  "ialloc_loop dev ty [] = panic ''ialloc: no inodes''"
| "ialloc_loop dev ty (i # rest) =
     bind (gets (\<lambda>s. IBLOCK (of_nat i) (sb s))) (\<lambda>blk.
     bind (bread dev blk) (\<lambda>bp.
     bind (get_data bp) (\<lambda>d.
     if dinode_type d (of_nat i) = 0 then
       andthen (set_data bp (dinode_clear d (of_nat i) ty))
       (andthen (log_write bp)
       (andthen (brelse bp)
       (iget dev (of_nat i))))
     else andthen (brelse bp) (ialloc_loop dev ty rest))))"

definition ialloc :: "u32 \<Rightarrow> u16 \<Rightarrow> ('z kfs_scheme, nat) prog" where
  "ialloc dev ty = bind (gets (\<lambda>s. unat (sb_ninodes (sb s)))) (\<lambda>n. ialloc_loop dev ty [1..<n])"

definition iupdate :: "nat \<Rightarrow> ('z kfs_scheme, unit) prog" where
  "iupdate ip =
     bind (get_ino ip) (\<lambda>q.
     bind (gets (\<lambda>s. IBLOCK (i_inum q) (sb s))) (\<lambda>blk.
     bind (bread (i_dev q) blk) (\<lambda>bp.
     bind (get_data bp) (\<lambda>d.
     andthen (set_data bp (dinode_write d q))
     (andthen (log_write bp)
     (brelse bp))))))"

definition idup :: "nat \<Rightarrow> ('z kfs_scheme, nat) prog" where
  "idup ip = andthen (with_lock ItableLock (upd_ino ip (\<lambda>q. q\<lparr>i_ref := i_ref q + 1\<rparr>))) (return ip)"

definition ilock :: "nat \<Rightarrow> ('z kfs_scheme, unit) prog" where
  "ilock ip =
     bind (get_ino ip) (\<lambda>q.
     andthen (panic_if (sint (i_ref q) < 1) ''ilock'')
     (andthen (acquiresleep (InodeLock ip))
     (bind (get_ino ip) (\<lambda>q.
     onlyif (i_valid q = 0)
       (bind (gets (\<lambda>s. IBLOCK (i_inum q) (sb s))) (\<lambda>blk.
        bind (bread (i_dev q) blk) (\<lambda>bp.
        bind (get_data bp) (\<lambda>d.
        andthen (upd_ino ip (dinode_read d))
        (andthen (brelse bp)
        (andthen (upd_ino ip (\<lambda>q. q\<lparr>i_valid := 1\<rparr>))
        (bind (get_ino ip) (\<lambda>q. panic_if (i_type q = 0) ''ilock: no type''))))))))))))"

definition iunlock :: "nat \<Rightarrow> ('z kfs_scheme, unit) prog" where
  "iunlock ip =
     bind (holdingsleep (InodeLock ip)) (\<lambda>h.
     bind (get_ino ip) (\<lambda>q.
     andthen (panic_if (\<not> h \<or> sint (i_ref q) < 1) ''iunlock'')
     (releasesleep (InodeLock ip))))"

text \<open>The loops of \<open>itrunc\<close> over the direct and the indirect block numbers.\<close>

definition itrunc_direct :: "nat \<Rightarrow> nat \<Rightarrow> ('z kfs_scheme, unit) prog" where
  "itrunc_direct ip i =
     bind (get_ino ip) (\<lambda>q.
     onlyif (i_addrs q i \<noteq> 0)
       (andthen (bfree (i_dev q) (i_addrs q i))
       (upd_ino ip (\<lambda>q. q\<lparr>i_addrs := (i_addrs q)(i := 0)\<rparr>))))"

definition itrunc :: "nat \<Rightarrow> ('z kfs_scheme, unit) prog" where
  "itrunc ip =
     andthen (for_each [0..<NDIRECT] (itrunc_direct ip))
     (bind (get_ino ip) (\<lambda>q.
      andthen (onlyif (i_addrs q NDIRECT \<noteq> 0)
        (bind (bread (i_dev q) (i_addrs q NDIRECT)) (\<lambda>bp.
         andthen (for_each [0..<NINDIRECT] (\<lambda>j.
           bind (get_data bp) (\<lambda>d. onlyif (get32 d (4 * j) \<noteq> 0) (bfree (i_dev q) (get32 d (4 * j))))))
         (andthen (brelse bp)
         (andthen (bfree (i_dev q) (i_addrs q NDIRECT))
         (upd_ino ip (\<lambda>q. q\<lparr>i_addrs := (i_addrs q)(NDIRECT := 0)\<rparr>)))))))
      (andthen (upd_ino ip (\<lambda>q. q\<lparr>i_size := 0\<rparr>))
      (iupdate ip))))"

definition iput :: "nat \<Rightarrow> ('z kfs_scheme, unit) prog" where
  "iput ip =
     andthen (acquire ItableLock)
     (bind (get_ino ip) (\<lambda>q.
      andthen (onlyif (i_ref q = 1 \<and> i_valid q \<noteq> 0 \<and> i_nlink q = 0)
        (andthen (acquiresleep (InodeLock ip))
        (andthen (release ItableLock)
        (andthen (itrunc ip)
        (andthen (upd_ino ip (\<lambda>q. q\<lparr>i_type := 0\<rparr>))
        (andthen (iupdate ip)
        (andthen (upd_ino ip (\<lambda>q. q\<lparr>i_valid := 0\<rparr>))
        (andthen (releasesleep (InodeLock ip))
        (acquire ItableLock)))))))))
      (andthen (upd_ino ip (\<lambda>q. q\<lparr>i_ref := i_ref q - 1\<rparr>))
      (release ItableLock))))"

definition iunlockput :: "nat \<Rightarrow> ('z kfs_scheme, unit) prog" where
  "iunlockput ip = andthen (iunlock ip) (iput ip)"

section \<open>File contents\<close>

definition bmap :: "nat \<Rightarrow> u32 \<Rightarrow> ('z kfs_scheme, u32) prog" where
  "bmap ip bn =
     bind (get_ino ip) (\<lambda>q.
     if bn < 12 then
       let addr = i_addrs q (unat bn) in
       if addr = 0 then
         bind (balloc (i_dev q)) (\<lambda>addr.
         andthen (upd_ino ip (\<lambda>q. q\<lparr>i_addrs := (i_addrs q)(unat bn := addr)\<rparr>)) (return addr))
       else return addr
     else let bn = bn - 12 in
       if bn < 256 then
         bind (if i_addrs q NDIRECT = 0 then
             bind (balloc (i_dev q)) (\<lambda>addr.
             andthen (upd_ino ip (\<lambda>q. q\<lparr>i_addrs := (i_addrs q)(NDIRECT := addr)\<rparr>)) (return addr))
           else return (i_addrs q NDIRECT)) (\<lambda>ind.
         bind (bread (i_dev q) ind) (\<lambda>bp.
         bind (get_data bp) (\<lambda>d.
         bind (if get32 d (4 * unat bn) = 0 then
             bind (balloc (i_dev q)) (\<lambda>addr.
             bind (get_data bp) (\<lambda>d.
             andthen (set_data bp (put32 d (4 * unat bn) addr))
             (andthen (log_write bp) (return addr))))
           else return (get32 d (4 * unat bn))) (\<lambda>addr.
         andthen (brelse bp) (return addr)))))
       else panic ''bmap: out of range'')"

record kstat =
  st_dev :: i32
  st_ino :: u32
  st_type :: u16
  st_nlink :: u16
  st_size :: u64

definition stati :: "nat \<Rightarrow> ('z kfs_scheme, kstat) prog" where
  "stati ip = bind (get_ino ip) (\<lambda>q. return \<lparr>st_dev = i_dev q, st_ino = i_inum q, st_type = i_type q,
     st_nlink = i_nlink q, st_size = ucast (i_size q)\<rparr>)"

text \<open>
  The other end of a transfer: a user address, an address of kernel memory that is a page of RAM, or
  an offset in a local object of the caller, whose bytes are passed along.
\<close>

datatype xaddr = XUser u64 | XKern u64 | XBuf nat

definition xadd :: "xaddr \<Rightarrow> u32 \<Rightarrow> xaddr" where
  "xadd x m = (case x of XUser a \<Rightarrow> XUser (a + ucast m) | XKern a \<Rightarrow> XKern (a + ucast m) | XBuf k \<Rightarrow> XBuf (k + unat m))"

definition xcopyout :: "xaddr \<Rightarrow> bytes \<Rightarrow> u32 \<Rightarrow> bytes \<Rightarrow> ('z kproc_scheme, i32 \<times> bytes) prog" where
  "xcopyout x src m obj = (case x of
       XUser a \<Rightarrow> bind (either_copyout True a src (ucast m)) (\<lambda>r. return (r, obj))
     | XKern a \<Rightarrow> bind (either_copyout False a src (ucast m)) (\<lambda>r. return (r, obj))
     | XBuf k \<Rightarrow> return (0, \<lambda>i. if k \<le> i \<and> i < k + unat m then src (i - k) else obj i))"

definition xcopyin :: "bytes \<Rightarrow> xaddr \<Rightarrow> u32 \<Rightarrow> bytes \<Rightarrow> ('z kproc_scheme, i32 \<times> bytes) prog" where
  "xcopyin dst x m obj = (case x of
       XUser a \<Rightarrow> either_copyin dst True a (ucast m)
     | XKern a \<Rightarrow> either_copyin dst False a (ucast m)
     | XBuf k \<Rightarrow> return (0, \<lambda>i. if i < unat m then obj (k + i) else dst i))"

text \<open>\<open>min(n - tot, BSIZE - off%BSIZE)\<close>.\<close>

definition io_chunk :: "u32 \<Rightarrow> u32 \<Rightarrow> u32 \<Rightarrow> u32" where
  "io_chunk n tot off = min (n - tot) (1024 - off mod 1024)"

lemma io_chunk_measure: "tot < n \<Longrightarrow> unat (n - (tot + io_chunk n tot off)) < unat (n - tot)"
proof -
  assume "tot < n"
  then have nt: "n - tot \<noteq> 0" by auto
  have "unat (off mod 1024) < 1024" by (simp add: unat_mod)
  then have "unat (1024 - off mod 1024) = 1024 - unat (off mod 1024)"
    by (simp add: unat_sub word_le_nat_alt)
  then have "1024 - off mod 1024 \<noteq> 0" using \<open>unat (off mod 1024) < 1024\<close> by (metis unat_0 zero_less_diff less_irrefl)
  with nt have pos: "io_chunk n tot off \<noteq> 0" by (auto simp: io_chunk_def min_def)
  have le: "io_chunk n tot off \<le> n - tot" by (simp add: io_chunk_def)
  have eq: "n - (tot + io_chunk n tot off) = n - tot - io_chunk n tot off" by simp
  have "unat (n - (tot + io_chunk n tot off)) = unat (n - tot) - unat (io_chunk n tot off)"
    unfolding eq by (rule unat_sub [OF le])
  moreover have "0 < unat (io_chunk n tot off)" using pos by (simp add: unat_gt_0)
  moreover have "unat (io_chunk n tot off) \<le> unat (n - tot)" using le by (simp add: word_le_nat_alt)
  ultimately show ?thesis by linarith
qed

function readi_loop :: "nat \<Rightarrow> xaddr \<Rightarrow> bytes \<Rightarrow> u32 \<Rightarrow> u32 \<Rightarrow> u32 \<Rightarrow> ('z kfs_scheme, u32 \<times> bytes) prog" where
  "readi_loop ip dst obj tot off n =
     (if tot < n then
        bind (get_ino ip) (\<lambda>q.
        bind (bmap ip (off div 1024)) (\<lambda>blk.
        bind (bread (i_dev q) blk) (\<lambda>bp.
        bind (get_data bp) (\<lambda>d.
        bind (xcopyout dst (\<lambda>i. d (unat (off mod 1024) + i)) (io_chunk n tot off) obj) (\<lambda>(r, obj).
        andthen (brelse bp)
        (if r = -1 then return (-1, obj)
         else readi_loop ip (xadd dst (io_chunk n tot off)) obj (tot + io_chunk n tot off)
           (off + io_chunk n tot off) n))))))
      else return (tot, obj))"
  by pat_completeness auto
termination
  by (relation "measure (\<lambda>(_, _, _, tot, _, n). unat (n - tot))") (simp_all add: io_chunk_measure)

definition readi :: "nat \<Rightarrow> xaddr \<Rightarrow> bytes \<Rightarrow> u32 \<Rightarrow> u32 \<Rightarrow> ('z kfs_scheme, u32 \<times> bytes) prog" where
  "readi ip dst obj off n =
     bind (get_ino ip) (\<lambda>q.
     if off > i_size q \<or> off + n < off then return (0, obj)
     else readi_loop ip dst obj 0 off (if off + n > i_size q then i_size q - off else n))"

function writei_loop :: "nat \<Rightarrow> xaddr \<Rightarrow> bytes \<Rightarrow> u32 \<Rightarrow> u32 \<Rightarrow> u32 \<Rightarrow> ('z kfs_scheme, u32 \<times> u32) prog" where
  "writei_loop ip src obj tot off n =
     (if tot < n then
        bind (get_ino ip) (\<lambda>q.
        bind (bmap ip (off div 1024)) (\<lambda>blk.
        bind (bread (i_dev q) blk) (\<lambda>bp.
        bind (get_data bp) (\<lambda>d.
        bind (xcopyin (\<lambda>i. d (unat (off mod 1024) + i)) src (io_chunk n tot off) obj) (\<lambda>(r, d').
        andthen (set_data bp (\<lambda>i. if i < unat (off mod 1024) then d i else d' (i - unat (off mod 1024))))
        (if r = -1 then andthen (brelse bp) (return (tot, off))
         else andthen (log_write bp)
           (andthen (brelse bp)
           (writei_loop ip (xadd src (io_chunk n tot off)) obj (tot + io_chunk n tot off)
             (off + io_chunk n tot off) n))))))))
      else return (tot, off))"
  by pat_completeness auto
termination
  by (relation "measure (\<lambda>(_, _, _, tot, _, n). unat (n - tot))") (simp_all add: io_chunk_measure)

definition writei :: "nat \<Rightarrow> xaddr \<Rightarrow> bytes \<Rightarrow> u32 \<Rightarrow> u32 \<Rightarrow> ('z kfs_scheme, i32) prog" where
  "writei ip src obj off n =
     bind (get_ino ip) (\<lambda>q.
     if off > i_size q \<or> off + n < off then return (-1)
     else if off + n > of_nat (MAXFILE * BSIZE) then return (-1)
     else bind (writei_loop ip src obj 0 off n) (\<lambda>(tot, off).
       andthen (upd_ino ip (\<lambda>q. if off > i_size q then q\<lparr>i_size := off\<rparr> else q))
       (andthen (iupdate ip)
       (return tot))))"

declare readi_loop.simps [simp del] writei_loop.simps [simp del]

section \<open>Directories and paths\<close>

definition namecmp :: "bytes \<Rightarrow> bytes \<Rightarrow> int" where
  "namecmp s t = strncmp s t DIRSIZ"

text \<open>The two fields of a directory entry of 16 bytes.\<close>

definition de_inum :: "bytes \<Rightarrow> u16" where
  "de_inum de = get16 de 0"

definition de_name :: "bytes \<Rightarrow> bytes" where
  "de_name de = (\<lambda>i. de (2 + i))"

text \<open>
  The loop of \<open>dirlookup\<close> over the offsets of the entries. The result is the inode and the offset.
\<close>

primrec dirlookup_loop :: "nat \<Rightarrow> bytes \<Rightarrow> nat list \<Rightarrow> ('z kfs_scheme, (nat \<times> u32) option) prog" where
  "dirlookup_loop dp name [] = return None"
| "dirlookup_loop dp name (off # offs) =
     bind (readi dp (XBuf 0) (\<lambda>_. 0) (of_nat off) 16) (\<lambda>(r, de).
     andthen (panic_if (r \<noteq> 16) ''dirlookup read'')
     (if de_inum de \<noteq> 0 \<and> namecmp name (de_name de) = 0 then
        bind (get_ino dp) (\<lambda>q.
        bind (iget (i_dev q) (ucast (de_inum de))) (\<lambda>ip. return (Some (ip, of_nat off))))
      else dirlookup_loop dp name offs))"

text \<open>The offsets \<open>0, 16, 32, ...\<close> below the size of a directory.\<close>

definition dir_offsets :: "u32 \<Rightarrow> nat list" where
  "dir_offsets sz = map (\<lambda>k. 16 * k) [0..<(unat sz + 15) div 16]"

definition dirlookup :: "nat \<Rightarrow> bytes \<Rightarrow> ('z kfs_scheme, (nat \<times> u32) option) prog" where
  "dirlookup dp name =
     bind (get_ino dp) (\<lambda>q.
     andthen (panic_if (i_type q \<noteq> T_DIR) ''dirlookup not DIR'')
     (dirlookup_loop dp name (dir_offsets (i_size q))))"

text \<open>The search of \<open>dirlink\<close> for an unused entry: the offset at which its loop stops.\<close>

primrec dirlink_slot :: "nat \<Rightarrow> nat list \<Rightarrow> nat \<Rightarrow> ('z kfs_scheme, nat) prog" where
  "dirlink_slot dp [] stop = return stop"
| "dirlink_slot dp (off # offs) stop =
     bind (readi dp (XBuf 0) (\<lambda>_. 0) (of_nat off) 16) (\<lambda>(r, de).
     andthen (panic_if (r \<noteq> 16) ''dirlink read'')
     (if de_inum de = 0 then return off else dirlink_slot dp offs stop))"

definition dirlink :: "nat \<Rightarrow> bytes \<Rightarrow> u32 \<Rightarrow> ('z kfs_scheme, i32) prog" where
  "dirlink dp name inum =
     bind (dirlookup dp name) (\<lambda>r. case r of
       Some (ip, _) \<Rightarrow> andthen (iput ip) (return (-1))
     | None \<Rightarrow>
         bind (get_ino dp) (\<lambda>q.
         bind (dirlink_slot dp (dir_offsets (i_size q)) (16 * length (dir_offsets (i_size q)))) (\<lambda>off.
         let nm = strncpy (\<lambda>_. 0) name DIRSIZ;
             de = put16 (\<lambda>i. if i < 2 then 0 else nm (i - 2)) 0 (ucast inum)
         in bind (writei dp (XBuf 0) de (of_nat off) 16) (\<lambda>w.
            andthen (panic_if (w \<noteq> 16) ''dirlink'') (return 0)))))"

text \<open>
  A path is the list of its bytes without the terminating zero. \<open>skipelem\<close> returns the rest of the
  path and the buffer with the name.
\<close>

definition skipelem :: "u8 list \<Rightarrow> bytes \<Rightarrow> (u8 list \<times> bytes) option" where
  "skipelem path name =
     (let p = dropWhile (\<lambda>c. c = 47) path in
      if p = [] then None
      else let e = takeWhile (\<lambda>c. c \<noteq> 47) p; rest = dropWhile (\<lambda>c. c \<noteq> 47) p; len = length e in
        Some (dropWhile (\<lambda>c. c = 47) rest,
          if len \<ge> DIRSIZ then (\<lambda>i. if i < DIRSIZ then e ! i else name i)
          else (\<lambda>i. if i < len then e ! i else name i)(len := 0)))"

lemma skipelem_shorter: "skipelem path name = Some (path', name') \<Longrightarrow> length path' < length path"
proof -
  assume a: "skipelem path name = Some (path', name')"
  define p where "p = dropWhile (\<lambda>c. c = 47) path"
  have "p \<noteq> []" and p': "path' = dropWhile (\<lambda>c. c = 47) (dropWhile (\<lambda>c. c \<noteq> 47) p)"
    using a by (auto simp: skipelem_def Let_def p_def split: if_splits)
  then have "hd p \<noteq> 47" using hd_dropWhile [of "\<lambda>c. c = 47" path] by (simp add: p_def)
  with \<open>p \<noteq> []\<close> obtain c cs where "p = c # cs" "c \<noteq> 47" by (cases p) auto
  then have "length path' \<le> length cs"
    unfolding p' by simp (meson length_dropWhile_le order_trans)
  moreover have "length p \<le> length path" unfolding p_def by (rule length_dropWhile_le)
  ultimately show ?thesis using \<open>p = c # cs\<close> by simp
qed

function namex_loop :: "bool \<Rightarrow> nat \<Rightarrow> u8 list \<Rightarrow> bytes \<Rightarrow> ('z kfs_scheme, nat option \<times> bytes) prog" where
  "namex_loop parent ip path name =
     (case skipelem path name of
        None \<Rightarrow> if parent then andthen (iput ip) (return (None, name)) else return (Some ip, name)
      | Some (path', name') \<Rightarrow>
          andthen (ilock ip)
          (bind (get_ino ip) (\<lambda>q.
           if i_type q \<noteq> T_DIR then andthen (iunlockput ip) (return (None, name'))
           else if parent \<and> path' = [] then andthen (iunlock ip) (return (Some ip, name'))
           else bind (dirlookup ip name') (\<lambda>r. case r of
               None \<Rightarrow> andthen (iunlockput ip) (return (None, name'))
             | Some (nxt, _) \<Rightarrow> andthen (iunlockput ip) (namex_loop parent nxt path' name')))))"
  by pat_completeness auto
termination
  by (relation "measure (\<lambda>(_, _, path, _). length path)") (auto simp: skipelem_shorter)

declare namex_loop.simps [simp del]

text \<open>A process without a current directory would make \<open>idup\<close> fault on a null pointer.\<close>

definition namex :: "u8 list \<Rightarrow> bool \<Rightarrow> bytes \<Rightarrow> ('z kfs_scheme, nat option \<times> bytes) prog" where
  "namex path parent name =
     bind (if path \<noteq> [] \<and> hd path = 47 then iget ROOTDEV ROOTINO
           else bind curproc (\<lambda>p. bind (get_proc p) (\<lambda>q. case p_cwd q of
               Some ip \<Rightarrow> idup ip | None \<Rightarrow> panic ''kerneltrap''))) (\<lambda>ip.
     namex_loop parent ip path name)"

definition namei :: "u8 list \<Rightarrow> ('z kfs_scheme, nat option) prog" where
  "namei path = bind (namex path False (\<lambda>_. 0)) (\<lambda>(r, _). return r)"

definition nameiparent :: "u8 list \<Rightarrow> bytes \<Rightarrow> ('z kfs_scheme, nat option \<times> bytes) prog" where
  "nameiparent path name = namex path True name"

end
