(* ===== verification/File.thy ===== *)
theory File
  imports Fs
begin

text \<open>
  kernel/file.c, \<open>pipealloc\<close> of kernel/pipe.c, and the functions of kernel/proc.c that handle files:
  \<open>fork\<close>, \<open>exit\<close>, \<open>userinit\<close> and \<open>forkret\<close>.
\<close>

section \<open>State\<close>

datatype filetype = FD_NONE | FD_PIPE | FD_INODE | FD_DEVICE

text \<open>A file pointer is an index into \<open>ftable.file\<close>.\<close>

record file_t =
  f_type :: filetype
  f_ref :: i32
  f_readable :: bool
  f_writable :: bool
  f_pipe :: u64
  f_ip :: "nat option"
  f_off :: u32
  f_major :: u16

text \<open>
  \<open>stack_junk\<close> has the bytes that an uninitialised local variable is found to have: the padding of a
  \<open>struct stat\<close>, or a variable that is read before it is assigned. \<open>first\<close> is the static variable of
  \<open>forkret\<close>.
\<close>

record kfile = kfs +
  files :: "nat \<Rightarrow> file_t"
  stack_junk :: bytes
  first :: bool

definition upd_file :: "nat \<Rightarrow> (file_t \<Rightarrow> file_t) \<Rightarrow> ('z kfile_scheme, unit) prog" where
  "upd_file f g = modify (\<lambda>s. s\<lparr>files := (files s)(f := g (files s f))\<rparr>)"

definition get_file :: "nat \<Rightarrow> ('z kfile_scheme, file_t) prog" where
  "get_file f = gets (\<lambda>s. files s f)"

text \<open>A null pointer that is followed is a page fault in the kernel.\<close>

definition deref :: "'a option \<Rightarrow> ('s, 'a) prog" where
  "deref r = (case r of None \<Rightarrow> panic ''kerneltrap'' | Some x \<Rightarrow> return x)"

section \<open>Files\<close>

primrec filealloc_scan :: "nat list \<Rightarrow> ('z kfile_scheme, nat option) prog" where
  "filealloc_scan [] = andthen (release FtableLock) (return None)"
| "filealloc_scan (f # fs) =
     bind (get_file f) (\<lambda>q.
     if f_ref q = 0 then
       andthen (upd_file f (\<lambda>q. q\<lparr>f_ref := 1\<rparr>)) (andthen (release FtableLock) (return (Some f)))
     else filealloc_scan fs)"

definition filealloc :: "('z kfile_scheme, nat option) prog" where
  "filealloc = andthen (acquire FtableLock) (filealloc_scan [0..<NFILE])"

definition filedup :: "nat \<Rightarrow> ('z kfile_scheme, nat) prog" where
  "filedup f =
     andthen (acquire FtableLock)
     (bind (get_file f) (\<lambda>q.
     andthen (panic_if (sint (f_ref q) < 1) ''filedup'')
     (andthen (upd_file f (\<lambda>q. q\<lparr>f_ref := f_ref q + 1\<rparr>))
     (andthen (release FtableLock) (return f)))))"

definition fileclose :: "nat \<Rightarrow> ('z kfile_scheme, unit) prog" where
  "fileclose f =
     andthen (acquire FtableLock)
     (bind (get_file f) (\<lambda>q.
     andthen (panic_if (sint (f_ref q) < 1) ''fileclose'')
     (andthen (upd_file f (\<lambda>q. q\<lparr>f_ref := f_ref q - 1\<rparr>))
     (bind (get_file f) (\<lambda>ff.
     if sint (f_ref ff) > 0 then release FtableLock
     else
       andthen (upd_file f (\<lambda>q. q\<lparr>f_ref := 0, f_type := FD_NONE\<rparr>))
       (andthen (release FtableLock)
       (if f_type ff = FD_PIPE then pipeclose (f_pipe ff) (f_writable ff)
        else onlyif (f_type ff = FD_INODE \<or> f_type ff = FD_DEVICE)
          (andthen begin_op
          (andthen (bind (deref (f_ip ff)) iput)
          end_op)))))))))"

text \<open>The 24 bytes of a \<open>struct stat\<close>; bytes 12 to 15 are padding.\<close>

definition stat_bytes :: "bytes \<Rightarrow> kstat \<Rightarrow> bytes" where
  "stat_bytes junk st =
     put64 (put16 (put16 (put32 (put32 junk 0 (st_dev st)) 4 (st_ino st)) 8 (st_type st)) 10 (st_nlink st))
       16 (st_size st)"

definition filestat :: "nat \<Rightarrow> u64 \<Rightarrow> ('z kfile_scheme, i32) prog" where
  "filestat f addr =
     bind curproc (\<lambda>p.
     bind (get_file f) (\<lambda>ff.
     if f_type ff = FD_INODE \<or> f_type ff = FD_DEVICE then
       bind (deref (f_ip ff)) (\<lambda>ip.
       andthen (ilock ip)
       (bind (stati ip) (\<lambda>st.
       andthen (iunlock ip)
       (bind (get_proc p) (\<lambda>q.
       bind (gets stack_junk) (\<lambda>junk.
       bind (copyout (p_pagetable q) addr (stat_bytes junk st) 24) (\<lambda>r.
       if sint r < 0 then return (-1) else return 0)))))))
     else return (-1)))"

text \<open>
  The device functions: \<open>consoleinit\<close> is the only code that enters functions in \<open>devsw\<close>, so that an
  entry that is not null has those of the console.
\<close>

definition dev_missing :: "u16 \<Rightarrow> nat set \<Rightarrow> bool" where
  "dev_missing major sw \<longleftrightarrow> sint major < 0 \<or> sint major \<ge> int NDEV \<or> unat major \<notin> sw"

definition fileread :: "nat \<Rightarrow> u64 \<Rightarrow> i32 \<Rightarrow> ('z kfile_scheme, i32) prog" where
  "fileread f addr n =
     bind (get_file f) (\<lambda>ff.
     if \<not> f_readable ff then return (-1)
     else case f_type ff of
       FD_PIPE \<Rightarrow> piperead (f_pipe ff) addr n
     | FD_DEVICE \<Rightarrow>
         bind (gets devsw) (\<lambda>sw.
         if dev_missing (f_major ff) sw then return (-1)
         else consoleread True addr n)
     | FD_INODE \<Rightarrow>
         bind (deref (f_ip ff)) (\<lambda>ip.
         andthen (ilock ip)
         (bind (get_file f) (\<lambda>ff.
         bind (readi ip (XUser addr) (\<lambda>_. 0) (f_off ff) n) (\<lambda>(r, _).
         andthen (onlyif (sint r > 0) (upd_file f (\<lambda>q. q\<lparr>f_off := f_off q + r\<rparr>)))
         (andthen (iunlock ip)
         (return r))))))
     | FD_NONE \<Rightarrow> panic ''fileread'')"

text \<open>
  The loop of \<open>filewrite\<close> from index \<open>i\<close> on; \<open>m\<close> is \<open>n\<close>, or 0 if \<open>n\<close> is negative. At most
  \<open>((MAXOPBLOCKS-1-1-2) / 2) * BSIZE\<close> = 3072 bytes are written in a transaction. The result is the
  value of \<open>i\<close> when the loop is left.
\<close>

function filewrite_loop :: "nat \<Rightarrow> nat \<Rightarrow> u64 \<Rightarrow> nat \<Rightarrow> nat \<Rightarrow> ('z kfile_scheme, nat) prog" where
  "filewrite_loop f ip addr m i =
     (if i < m then
        let n1 = min (m - i) 3072 in
        andthen begin_op
        (andthen (ilock ip)
        (bind (get_file f) (\<lambda>ff.
        bind (writei ip (XUser (addr + of_nat i)) (\<lambda>_. 0) (f_off ff) (of_nat n1)) (\<lambda>r.
        andthen (onlyif (sint r > 0) (upd_file f (\<lambda>q. q\<lparr>f_off := f_off q + r\<rparr>)))
        (andthen (iunlock ip)
        (andthen end_op
        (if r \<noteq> of_nat n1 then return i else filewrite_loop f ip addr m (i + n1))))))))
      else return i)"
  by pat_completeness auto
termination
  by (relation "measure (\<lambda>(_, _, _, m, i). m - i)") auto

declare filewrite_loop.simps [simp del]

definition filewrite :: "nat \<Rightarrow> u64 \<Rightarrow> i32 \<Rightarrow> ('z kfile_scheme, i32) prog" where
  "filewrite f addr n =
     bind (get_file f) (\<lambda>ff.
     if \<not> f_writable ff then return (-1)
     else case f_type ff of
       FD_PIPE \<Rightarrow> pipewrite (f_pipe ff) addr n
     | FD_DEVICE \<Rightarrow>
         bind (gets devsw) (\<lambda>sw.
         if dev_missing (f_major ff) sw then return (-1)
         else consolewrite True addr n)
     | FD_INODE \<Rightarrow>
         bind (deref (f_ip ff)) (\<lambda>ip.
         bind (filewrite_loop f ip addr (nat (sint n)) 0) (\<lambda>i.
         return (if int i = sint n then n else -1)))
     | FD_NONE \<Rightarrow> panic ''filewrite'')"

definition pipealloc_bad :: "u64 \<Rightarrow> nat option \<Rightarrow> nat option \<Rightarrow> ('z kfile_scheme, (nat \<times> nat) option) prog" where
  "pipealloc_bad pi f0 f1 =
     andthen (onlyif (pi \<noteq> 0) (kfree pi))
     (andthen (case f0 of None \<Rightarrow> return () | Some f \<Rightarrow> fileclose f)
     (andthen (case f1 of None \<Rightarrow> return () | Some f \<Rightarrow> fileclose f)
     (return None)))"

definition pipealloc :: "('z kfile_scheme, (nat \<times> nat) option) prog" where
  "pipealloc =
     bind filealloc (\<lambda>r0. case r0 of None \<Rightarrow> pipealloc_bad 0 None None | Some f0 \<Rightarrow>
     bind filealloc (\<lambda>r1. case r1 of None \<Rightarrow> pipealloc_bad 0 (Some f0) None | Some f1 \<Rightarrow>
     bind kalloc (\<lambda>pi.
     if pi = 0 then pipealloc_bad 0 (Some f0) (Some f1)
     else
       andthen (upd_pipe pi (\<lambda>q. q\<lparr>pi_readopen := 1, pi_writeopen := 1, pi_nwrite := 0, pi_nread := 0\<rparr>))
       (andthen (upd_file f0 (\<lambda>q. q\<lparr>f_type := FD_PIPE, f_readable := True, f_writable := False, f_pipe := pi\<rparr>))
       (andthen (upd_file f1 (\<lambda>q. q\<lparr>f_type := FD_PIPE, f_readable := False, f_writable := True, f_pipe := pi\<rparr>))
       (return (Some (f0, f1))))))))"

section \<open>Processes and files\<close>

definition upd_tf :: "nat \<Rightarrow> (trapframe \<Rightarrow> trapframe) \<Rightarrow> ('z kproc_scheme, unit) prog" where
  "upd_tf p f = modify (\<lambda>s. s\<lparr>tframes := (tframes s)(p_trapframe (ptable s p) :=
     f (tframes s (p_trapframe (ptable s p))))\<rparr>)"

definition get_tf :: "nat \<Rightarrow> ('z kproc_scheme, trapframe) prog" where
  "get_tf p = gets (\<lambda>s. tframes s (p_trapframe (ptable s p)))"

definition fork_files :: "nat \<Rightarrow> nat \<Rightarrow> nat \<Rightarrow> ('z kfile_scheme, unit) prog" where
  "fork_files p np i =
     bind (get_proc p) (\<lambda>q. case p_ofile q i of
       None \<Rightarrow> return ()
     | Some f \<Rightarrow> bind (filedup f) (\<lambda>g. upd np (\<lambda>q. q\<lparr>p_ofile := (p_ofile q)(i := Some g)\<rparr>)))"

definition fork :: "('z kfile_scheme, i32) prog" where
  "fork =
     bind curproc (\<lambda>p.
     bind allocproc (\<lambda>r. case r of None \<Rightarrow> return (-1) | Some np \<Rightarrow>
     bind (gets (\<lambda>s. (ptable s p, ptable s np))) (\<lambda>(q, nq).
     bind (uvmcopy (p_pagetable q) (p_pagetable nq) (p_sz q)) (\<lambda>r.
     if sint r < 0 then andthen (freeproc np) (andthen (release (ProcLock np)) (return (-1)))
     else
       andthen (upd np (\<lambda>nq. nq\<lparr>p_sz := p_sz q\<rparr>))
       (bind (get_tf p) (\<lambda>tf.
       andthen (upd_tf np (\<lambda>_. tf))
       (andthen (upd_tf np (\<lambda>tf. tf\<lparr>tf_reg := (tf_reg tf)(A0 := 0)\<rparr>))
       (andthen (for_each [0..<NOFILE] (fork_files p np))
       (bind (deref (p_cwd q)) (\<lambda>cwd.
       bind (idup cwd) (\<lambda>cwd.
       andthen (upd np (\<lambda>nq. nq\<lparr>p_cwd := Some cwd, p_name := safestrcpy (p_name nq) (p_name q) 16\<rparr>))
       (andthen (release (ProcLock np))
       (andthen (with_lock WaitLock
         (upd np (\<lambda>nq. nq\<lparr>p_parent := Some p, p_mask := p_mask q, p_queue := p_queue q\<rparr>)))
       (andthen (with_lock (ProcLock np) (upd np (\<lambda>nq. nq\<lparr>p_state := RUNNABLE\<rparr>)))
       (return (p_pid nq))))))))))))))))"

definition exit_close :: "nat \<Rightarrow> nat \<Rightarrow> ('z kfile_scheme, unit) prog" where
  "exit_close p fd =
     bind (get_proc p) (\<lambda>q. case p_ofile q fd of
       None \<Rightarrow> return ()
     | Some f \<Rightarrow> andthen (fileclose f) (upd p (\<lambda>q. q\<lparr>p_ofile := (p_ofile q)(fd := None)\<rparr>)))"

definition exit :: "i32 \<Rightarrow> ('z kfile_scheme, 'a) prog" where
  "exit status =
     bind curproc (\<lambda>p.
     bind (gets initproc) (\<lambda>ini.
     andthen (panic_if (Some p = ini) ''init exiting'')
     (andthen (for_each [0..<NOFILE] (exit_close p))
     (andthen begin_op
     (bind (get_proc p) (\<lambda>q.
     andthen (bind (deref (p_cwd q)) iput)
     (andthen end_op
     (andthen (upd p (\<lambda>q. q\<lparr>p_cwd := None\<rparr>))
     (exit_finish p status)))))))))"

text \<open>The machine code of \<open>initcode[]\<close>: a program that calls \<open>exec("/init")\<close>.\<close>

definition initcode :: "u8 list" where
  "initcode = [0x17, 0x05, 0x00, 0x00, 0x13, 0x05, 0x45, 0x02,
     0x97, 0x05, 0x00, 0x00, 0x93, 0x85, 0x35, 0x02,
     0x93, 0x08, 0x70, 0x00, 0x73, 0x00, 0x00, 0x00,
     0x93, 0x08, 0x20, 0x00, 0x73, 0x00, 0x00, 0x00,
     0xef, 0xf0, 0x9f, 0xff, 0x2f, 0x69, 0x6e, 0x69,
     0x74, 0x00, 0x00, 0x24, 0x00, 0x00, 0x00, 0x00,
     0x00, 0x00, 0x00, 0x00]"

text \<open>A string literal of C: its characters, then a zero.\<close>

definition cstring :: "string \<Rightarrow> bytes" where
  "cstring str = (\<lambda>i. if i < length str then of_char (str ! i) else 0)"

definition userinit :: "('z kfile_scheme, unit) prog" where
  "userinit =
     bind allocproc (\<lambda>r.
     andthen (modify (\<lambda>s. s\<lparr>initproc := r\<rparr>))
     (bind (deref r) (\<lambda>p.
     bind (get_proc p) (\<lambda>q.
     andthen (uvminit (p_pagetable q) (\<lambda>i. if i < length initcode then initcode ! i else 0) (of_nat (length initcode)))
     (andthen (upd p (\<lambda>q. q\<lparr>p_sz := PGSIZE\<rparr>))
     (andthen (upd_tf p (\<lambda>tf. tf\<lparr>epc := 0, tf_reg := (tf_reg tf)(SP := PGSIZE)\<rparr>))
     (andthen (upd p (\<lambda>q. q\<lparr>p_name := safestrcpy (p_name q) (cstring ''initcode'') 16\<rparr>))
     (bind (namei [47]) (\<lambda>cwd.
     andthen (upd p (\<lambda>q. q\<lparr>p_cwd := cwd\<rparr>))
     (andthen (upd p (\<lambda>q. q\<lparr>p_state := RUNNABLE\<rparr>))
     (release (ProcLock p))))))))))))"

text \<open>
  \<open>forkret\<close> up to the call of \<open>usertrapret\<close>, which is in theory Trap.
\<close>

definition forkret_enter :: "('z kfile_scheme, unit) prog" where
  "forkret_enter =
     bind curproc (\<lambda>p.
     andthen (release (ProcLock p))
     (bind (gets first) (\<lambda>f.
     onlyif f (andthen (modify (\<lambda>s. s\<lparr>first := False\<rparr>)) (fsinit ROOTDEV)))))"

section \<open>An example state\<close>

text \<open>Process 5 runs; no file is open, no inode and no block is cached.\<close>

definition blank_inode :: inode where
  "blank_inode = \<lparr>i_dev = 0, i_inum = 0, i_ref = 0, i_valid = 0, i_type = 0, i_major = 0, i_minor = 0, i_nlink = 0,
     i_size = 0, i_addrs = (\<lambda>_. 0)\<rparr>"

definition closed_file :: file_t where
  "closed_file = \<lparr>f_type = FD_NONE, f_ref = 0, f_readable = False, f_writable = False, f_pipe = 0, f_ip = None,
     f_off = 0, f_major = 0\<rparr>"

definition file_demo :: kfile where
  "file_demo = kfs.extend (klog.extend (log_demo empty_bufs clean_disk\<lparr>lh_n := 0, log_committing := 0\<rparr>)
       \<lparr>sb = \<lparr>sb_magic = 0x10203040, sb_size = 1000, sb_nblocks = 954, sb_ninodes = 200, sb_nlog = 30,
          sb_logstart = 2, sb_inodestart = 32, sb_bmapstart = 45\<rparr>, inodes = (\<lambda>_. blank_inode)\<rparr>)
     \<lparr>files = (\<lambda>_. closed_file), stack_junk = (\<lambda>_. 0), first = False\<rparr>"

lemma file_demo_simps:
  "cpu_proc file_demo = Some 5" "held file_demo = {}" "files file_demo = (\<lambda>_. closed_file)"
  "tframes file_demo a = \<lparr>kernel_satp = 0, kernel_sp = 0, kernel_trap = 0, epc = 0, kernel_hartid = 0, tf_reg = (\<lambda>_. 0)\<rparr>"
  by (simp_all add: file_demo_def kfs.extend_def klog.extend_def log_demo_def bio_demo_def kdisk.extend_def kbio.extend_def
      kcons.extend_def cons_demo_def kprintf.extend_def kuart.extend_def uart_demo_def kpipe.extend_def pipe_demo_def
      kslk.extend_def lock_demo_def kproc.extend_def idle_kernel_def)

end
