(* ===== verification/Sysproc.thy ===== *)
theory Sysproc
  imports File
begin

text \<open>
  The fetching of system call arguments in kernel/syscall.c and the system calls of
  kernel/sysproc.c. A result of type \<open>int\<close> is extended to the 64 bits of register a0.
\<close>

section \<open>Arguments\<close>

definition fetchaddr :: "u64 \<Rightarrow> ('z kproc_scheme, i32 \<times> u64) prog" where
  "fetchaddr addr =
     bind curproc (\<lambda>p.
     bind (get_proc p) (\<lambda>q.
     if addr \<ge> p_sz q \<or> addr + 8 > p_sz q then return (-1, 0)
     else bind (copyin (p_pagetable q) (\<lambda>_. 0) addr 8) (\<lambda>(r, b).
       if r \<noteq> 0 then return (-1, 0) else return (0, get64 b 0))))"

text \<open>
  The buffer of \<open>fetchstr\<close> and \<open>argstr\<close> is passed in and returned. \<open>strlen\<close> returns, as
  \<open>copyinstr\<close> has stored a zero when it succeeds.
\<close>

definition fetchstr :: "u64 \<Rightarrow> bytes \<Rightarrow> u32 \<Rightarrow> ('z kproc_scheme, i32 \<times> bytes) prog" where
  "fetchstr addr buf mx =
     bind curproc (\<lambda>p.
     bind (get_proc p) (\<lambda>q.
     bind (copyinstr (p_pagetable q) buf addr (ucast mx)) (\<lambda>(err, buf).
     if sint err < 0 then return (err, buf)
     else case strlen buf of None \<Rightarrow> (\<lambda>s. Blocked s) | Some n \<Rightarrow> return (of_nat n, buf))))"

definition argraw :: "nat \<Rightarrow> ('z kproc_scheme, u64) prog" where
  "argraw n =
     bind curproc (\<lambda>p.
     bind (get_tf p) (\<lambda>tf.
     if n = 0 then return (tf_reg tf A0)
     else if n = 1 then return (tf_reg tf A1)
     else if n = 2 then return (tf_reg tf A2)
     else if n = 3 then return (tf_reg tf A3)
     else if n = 4 then return (tf_reg tf A4)
     else if n = 5 then return (tf_reg tf A5)
     else panic ''argraw''))"

text \<open>\<open>argint\<close> and \<open>argaddr\<close> always return 0; the tests of their results are never true.\<close>

definition argint :: "nat \<Rightarrow> ('z kproc_scheme, i32) prog" where
  "argint n = bind (argraw n) (\<lambda>v. return (ucast v))"

definition argaddr :: "nat \<Rightarrow> ('z kproc_scheme, u64) prog" where
  "argaddr n = argraw n"

definition argstr :: "nat \<Rightarrow> u32 \<Rightarrow> ('z kproc_scheme, i32 \<times> bytes) prog" where
  "argstr n mx = bind (argaddr n) (\<lambda>addr. fetchstr addr (\<lambda>_. 0) mx)"

section \<open>System calls\<close>

definition sys_exit :: "('z kfile_scheme, u64) prog" where
  "sys_exit = bind (argint 0) exit"

definition sys_getpid :: "('z kproc_scheme, u64) prog" where
  "sys_getpid = bind curproc (\<lambda>p. bind (get_proc p) (\<lambda>q. return (scast (p_pid q))))"

definition sys_fork :: "('z kfile_scheme, u64) prog" where
  "sys_fork = bind fork (\<lambda>r. return (scast r))"

definition sys_wait :: "('z kproc_scheme, u64) prog" where
  "sys_wait = bind (argaddr 0) (\<lambda>p. bind (wait p) (\<lambda>r. return (scast r)))"

text \<open>
  The end of \<open>sys_waitx\<close>. The call is \<open>waitx(addr, &wtime, &rtime)\<close> while the parameters of \<open>waitx\<close>
  are \<open>rtime\<close> and \<open>wtime\<close> in this order: the first of the two results of \<open>waitx\<close> is stored in the
  local variable \<open>wtime\<close>. When \<open>waitx\<close> has not stored anything, the variables are uninitialised.
\<close>

definition sys_waitx_finish :: "nat \<Rightarrow> u64 \<Rightarrow> u64 \<Rightarrow> i32 \<times> (u32 \<times> u32) option \<Rightarrow> ('z kfile_scheme, u64) prog" where
  "sys_waitx_finish p addr1 addr2 = (\<lambda>(ret, ts).
     bind (gets stack_junk) (\<lambda>junk.
     let (wtime, rtime) = (case ts of Some (x, y) \<Rightarrow> (x, y) | None \<Rightarrow> (get32 junk 0, get32 junk 4)) in
     bind (get_proc p) (\<lambda>q.
     bind (copyout (p_pagetable q) addr1 (bytes32 wtime) 4) (\<lambda>r.
     if sint r < 0 then return (-1)
     else bind (copyout (p_pagetable q) addr2 (bytes32 rtime) 4) (\<lambda>r.
       if sint r < 0 then return (-1)
       else return (scast ret))))))"

definition sys_waitx :: "('z kfile_scheme, u64) prog" where
  "sys_waitx =
     bind (argaddr 0) (\<lambda>addr.
     bind (argaddr 1) (\<lambda>addr1.
     bind (argaddr 2) (\<lambda>addr2.
     bind (waitx addr) (\<lambda>res.
     bind curproc (\<lambda>p.
     sys_waitx_finish p addr1 addr2 res)))))"

definition sys_waitx_resume :: "nat \<Rightarrow> u64 \<Rightarrow> u64 \<Rightarrow> u64 \<Rightarrow> ('z kfile_scheme, u64) prog" where
  "sys_waitx_resume p addr addr1 addr2 = bind (waitx_resume p addr) (sys_waitx_finish p addr1 addr2)"

definition sys_sbrk :: "('z kproc_scheme, u64) prog" where
  "sys_sbrk =
     bind (argint 0) (\<lambda>n.
     bind curproc (\<lambda>p.
     bind (get_proc p) (\<lambda>q.
     bind (growproc n) (\<lambda>r.
     if sint r < 0 then return (-1) else return (scast (ucast (p_sz q) :: i32))))))"

text \<open>
  The loop of \<open>sys_sleep\<close>. The test compares unsigned ints, so that a negative \<open>n\<close> is a long time.
\<close>

definition sys_sleep_loop :: "i32 \<Rightarrow> u32 \<Rightarrow> ('z kproc_scheme, u64) prog" where
  "sys_sleep_loop n ticks0 =
     bind (gets ticks) (\<lambda>now.
     if now - ticks0 < n then
       bind curproc (\<lambda>p. bind (get_proc p) (\<lambda>q.
       if p_killed q \<noteq> 0 then andthen (release TicksLock) (return (-1))
       else sleep ChanTicks TicksLock))
     else andthen (release TicksLock) (return 0))"

definition sys_sleep :: "('z kproc_scheme, u64) prog" where
  "sys_sleep =
     bind (argint 0) (\<lambda>n.
     andthen (acquire TicksLock)
     (bind (gets ticks) (\<lambda>ticks0. sys_sleep_loop n ticks0)))"

definition sys_sleep_resume :: "nat \<Rightarrow> i32 \<Rightarrow> u32 \<Rightarrow> ('z kproc_scheme, u64) prog" where
  "sys_sleep_resume p n ticks0 = andthen (sleep_resume p TicksLock) (sys_sleep_loop n ticks0)"

definition sys_kill :: "('z kproc_scheme, u64) prog" where
  "sys_kill = bind (argint 0) (\<lambda>pid. bind (kill pid) (\<lambda>r. return (scast r)))"

definition sys_uptime :: "('z kproc_scheme, u64) prog" where
  "sys_uptime = with_lock TicksLock (bind (gets ticks) (\<lambda>x. return (ucast x)))"

definition sys_trace :: "('z kproc_scheme, u64) prog" where
  "sys_trace =
     bind (argint 0) (\<lambda>mask.
     bind curproc (\<lambda>p.
     andthen (upd p (\<lambda>q. q\<lparr>p_mask := mask\<rparr>)) (return 0)))"

definition sys_setpriority :: "('z kproc_scheme, u64) prog" where
  "sys_setpriority =
     bind (argint 0) (\<lambda>priority.
     bind (argint 1) (\<lambda>pid.
     bind (setpriority priority pid) (\<lambda>r. return (scast r))))"

section \<open>The times that waitx reports\<close>

text \<open>
  The system call waitx hands over the times of the child with the addresses exchanged: the kernel's
  \<open>waitx\<close> takes \<open>rtime\<close> first and \<open>wtime\<close> second, the call passes \<open>&wtime\<close> and \<open>&rtime\<close>. So the address
  that the user library calls \<open>wtime\<close> (the second argument) receives the time the child has run, and
  the one it calls \<open>rtime\<close> (the third) the time it has waited.
\<close>

lemma sys_waitx_swaps:
  assumes "cpu_proc s = Some p" and "tf = tframes s (p_trapframe (ptable s p))"
    and "waitx (tf_reg tf A0) s = Ret (pid, Some (rtime, wtime)) t" and "cpu_proc t = Some p"
  shows "sys_waitx s =
    bind (copyout (p_pagetable (ptable t p)) (tf_reg tf A1) (bytes32 rtime) 4) (\<lambda>r.
      if sint r < 0 then return (-1)
      else bind (copyout (p_pagetable (ptable t p)) (tf_reg tf A2) (bytes32 wtime) 4) (\<lambda>r.
        if sint r < 0 then return (-1) else return (scast pid))) t"
proof -
  have "argaddr 0 s = Ret (tf_reg tf A0) s" "argaddr 1 s = Ret (tf_reg tf A1) s" "argaddr 2 s = Ret (tf_reg tf A2) s"
    using assms(1,2) by (simp_all add: argaddr_def argraw_def curproc_Some get_tf_def prog_simps)
  then show ?thesis using assms(3,4)
    by (simp add: sys_waitx_def sys_waitx_finish_def curproc_Some prog_simps get_proc_def)
qed

end
