(* ===== verification/Exec.thy ===== *)
theory Exec
  imports Sysproc
begin

text \<open>
  kernel/exec.c: a new user image is built beside the old one and replaces it at the end. The ELF
  structures are read from the file at their byte offsets. \<open>argv\<close> is the list of the addresses of the
  argument strings up to the null pointer.
\<close>

section \<open>Definitions\<close>

abbreviation (input) ELF_MAGIC :: u32 where "ELF_MAGIC \<equiv> 0x464C457F"
abbreviation (input) ELF_PROG_LOAD :: u32 where "ELF_PROG_LOAD \<equiv> 1"

text \<open>The fields of the two ELF headers that \<open>exec\<close> looks at.\<close>

record elfhdr =
  e_magic :: u32
  e_entry :: u64
  e_phoff :: u64
  e_phnum :: u16

record proghdr =
  ph_type :: u32
  ph_off :: u64
  ph_vaddr :: u64
  ph_filesz :: u64
  ph_memsz :: u64

definition elf_of :: "bytes \<Rightarrow> elfhdr" where
  "elf_of d = \<lparr>e_magic = get32 d 0, e_entry = get64 d 24, e_phoff = get64 d 32, e_phnum = get16 d 56\<rparr>"

definition ph_of :: "bytes \<Rightarrow> proghdr" where
  "ph_of d = \<lparr>ph_type = get32 d 0, ph_off = get64 d 8, ph_vaddr = get64 d 16, ph_filesz = get64 d 32,
     ph_memsz = get64 d 40\<rparr>"

text \<open>The loop of \<open>loadseg\<close> over the offsets \<open>0, PGSIZE, ...\<close> below \<open>sz\<close>.\<close>

primrec loadseg_loop :: "u64 \<Rightarrow> u64 \<Rightarrow> nat \<Rightarrow> u32 \<Rightarrow> u32 \<Rightarrow> u32 list \<Rightarrow> ('z kfs_scheme, i32) prog" where
  "loadseg_loop pt va ip off sz [] = return 0"
| "loadseg_loop pt va ip off sz (i # rest) =
     bind (walkaddr pt (va + ucast i)) (\<lambda>pa.
     andthen (panic_if (pa = 0) ''loadseg: address should exist'')
     (let n = (if sz - i < 4096 then sz - i else 4096) in
      bind (readi ip (XKern pa) (\<lambda>_. 0) (off + i) n) (\<lambda>(r, _).
      if r \<noteq> n then return (-1) else loadseg_loop pt va ip off sz rest)))"

definition loadseg :: "u64 \<Rightarrow> u64 \<Rightarrow> nat \<Rightarrow> u32 \<Rightarrow> u32 \<Rightarrow> ('z kfs_scheme, i32) prog" where
  "loadseg pt va ip off sz =
     loadseg_loop pt va ip off sz (map (\<lambda>k. of_nat (4096 * k)) [0..<(unat sz + 4095) div 4096])"

text \<open>
  The loop over the program headers, with \<open>k\<close> headers to go. The result is whether it came to its
  end, and \<open>sz\<close>.
\<close>

primrec exec_segs :: "nat \<Rightarrow> u64 \<Rightarrow> nat \<Rightarrow> u32 \<Rightarrow> u64 \<Rightarrow> ('z kfs_scheme, bool \<times> u64) prog" where
  "exec_segs ip pt 0 off sz = return (True, sz)"
| "exec_segs ip pt (Suc k) off sz =
     bind (readi ip (XBuf 0) (\<lambda>_. 0) off 56) (\<lambda>(r, d).
     let ph = ph_of d in
     if r \<noteq> 56 then return (False, sz)
     else if ph_type ph \<noteq> ELF_PROG_LOAD then exec_segs ip pt k (off + 56) sz
     else if ph_memsz ph < ph_filesz ph then return (False, sz)
     else if ph_vaddr ph + ph_memsz ph < ph_vaddr ph then return (False, sz)
     else bind (uvmalloc pt sz (ph_vaddr ph + ph_memsz ph)) (\<lambda>sz1.
       if sz1 = 0 then return (False, sz)
       else if ph_vaddr ph mod 4096 \<noteq> 0 then return (False, sz1)
       else bind (loadseg pt (ph_vaddr ph) ip (ucast (ph_off ph)) (ucast (ph_filesz ph))) (\<lambda>r.
         if sint r < 0 then return (False, sz1) else exec_segs ip pt k (off + 56) sz1)))"

text \<open>The label \<open>bad\<close>.\<close>

definition exec_bad :: "u64 \<Rightarrow> u64 \<Rightarrow> nat option \<Rightarrow> ('z kfs_scheme, i32) prog" where
  "exec_bad pt sz ip =
     andthen (onlyif (pt \<noteq> 0) (proc_freepagetable pt sz))
     (andthen (case ip of None \<Rightarrow> return () | Some ip \<Rightarrow> andthen (iunlockput ip) end_op)
     (return (-1)))"

text \<open>
  The loop that pushes the argument strings. The result is the stack pointer and the addresses of the
  strings, or \<open>None\<close> on failure. A string with no zero byte would make \<open>strlen\<close> run on for ever.
\<close>

primrec push_args :: "u64 \<Rightarrow> u64 \<Rightarrow> u64 list \<Rightarrow> u64 \<Rightarrow> u64 list \<Rightarrow> ('z kmem_scheme, (u64 \<times> u64 list) option) prog" where
  "push_args pt stackbase [] sp ustack = return (Some (sp, ustack))"
| "push_args pt stackbase (a # as) sp ustack =
     (if length ustack \<ge> MAXARG then return None
      else bind (gets (\<lambda>s. from_ptr (pmem s) a)) (\<lambda>str.
        case strlen str of None \<Rightarrow> (\<lambda>s. Blocked s) | Some n \<Rightarrow>
          let sp = sp - (of_nat n + 1); sp = sp - sp mod 16 in
          if sp < stackbase then return None
          else bind (copyout pt sp str (of_nat n + 1)) (\<lambda>r.
            if sint r < 0 then return None else push_args pt stackbase as sp (ustack @ [sp]))))"

text \<open>The bytes of an array of pointers, and what follows the last slash of a path.\<close>

definition u64_bytes :: "u64 list \<Rightarrow> bytes" where
  "u64_bytes vs = (\<lambda>i. ucast (drop_bit (8 * (i mod 8)) (vs ! (i div 8))))"

fun after_slash :: "u8 list \<Rightarrow> u8 list \<Rightarrow> u8 list" where
  "after_slash cur [] = cur"
| "after_slash cur (c # cs) = (if c = 47 then after_slash cs cs else after_slash cur cs)"

definition str_bytes :: "u8 list \<Rightarrow> bytes" where
  "str_bytes cs = (\<lambda>i. if i < length cs then cs ! i else 0)"

definition exec_commit :: "nat \<Rightarrow> u8 list \<Rightarrow> u64 \<Rightarrow> u64 \<Rightarrow> u64 \<Rightarrow> u64 \<Rightarrow> u64 \<Rightarrow> ('z kfs_scheme, unit) prog" where
  "exec_commit p path entry pt sz sp oldsz =
     andthen (upd_tf p (\<lambda>tf. tf\<lparr>tf_reg := (tf_reg tf)(A1 := sp)\<rparr>))
     (andthen (upd p (\<lambda>q. q\<lparr>p_name := safestrcpy (p_name q) (str_bytes (after_slash path path)) 16\<rparr>))
     (bind (get_proc p) (\<lambda>q.
     andthen (upd p (\<lambda>q. q\<lparr>p_pagetable := pt, p_sz := sz\<rparr>))
     (andthen (upd_tf p (\<lambda>tf. tf\<lparr>epc := entry, tf_reg := (tf_reg tf)(SP := sp)\<rparr>))
     (proc_freepagetable (p_pagetable q) oldsz)))))"

text \<open>\<open>exec\<close> from the allocation of the stack on.\<close>

definition exec_stack :: "nat \<Rightarrow> u8 list \<Rightarrow> u64 list \<Rightarrow> u64 \<Rightarrow> u64 \<Rightarrow> u64 \<Rightarrow> ('z kfs_scheme, i32) prog" where
  "exec_stack p path argv entry pt sz =
     bind (get_proc p) (\<lambda>q.
     let oldsz = p_sz q; sz = PGROUNDUP sz in
     bind (uvmalloc pt sz (sz + 2 * PGSIZE)) (\<lambda>sz1.
     if sz1 = 0 then exec_bad pt sz None
     else
       andthen (uvmclear pt (sz1 - 2 * PGSIZE))
       (let stackbase = sz1 - PGSIZE in
        bind (push_args pt stackbase argv sz1 []) (\<lambda>r. case r of
          None \<Rightarrow> exec_bad pt sz1 None
        | Some (sp, ustack) \<Rightarrow>
            let argc = length ustack; sp = sp - (of_nat argc + 1) * 8; sp = sp - sp mod 16 in
            if sp < stackbase then exec_bad pt sz1 None
            else bind (copyout pt sp (u64_bytes (ustack @ [0])) ((of_nat argc + 1) * 8)) (\<lambda>r.
              if sint r < 0 then exec_bad pt sz1 None
              else andthen (exec_commit p path entry pt sz1 sp oldsz) (return (of_nat argc)))))))"

definition exec :: "u8 list \<Rightarrow> u64 list \<Rightarrow> ('z kfs_scheme, i32) prog" where
  "exec path argv =
     bind curproc (\<lambda>p.
     andthen begin_op
     (bind (namei path) (\<lambda>r. case r of
       None \<Rightarrow> andthen end_op (return (-1))
     | Some ip \<Rightarrow>
         andthen (ilock ip)
         (bind (readi ip (XBuf 0) (\<lambda>_. 0) 0 64) (\<lambda>(r, d).
         let elf = elf_of d in
         if r \<noteq> 64 then exec_bad 0 0 (Some ip)
         else if e_magic elf \<noteq> ELF_MAGIC then exec_bad 0 0 (Some ip)
         else bind (proc_pagetable p) (\<lambda>pt.
           if pt = 0 then exec_bad 0 0 (Some ip)
           else bind (exec_segs ip pt (unat (e_phnum elf)) (ucast (e_phoff elf)) 0) (\<lambda>(ok, sz).
             if \<not> ok then exec_bad pt sz (Some ip)
             else
               andthen (iunlockput ip)
               (andthen end_op
               (exec_stack p path argv (e_entry elf) pt sz)))))))))"

end
