(* ===== verification/Sysfile.thy ===== *)
theory Sysfile
  imports Exec
begin

text \<open>
  kernel/sysfile.c: the system calls on files. A path is fetched into a buffer of MAXPATH bytes and
  passed on as the list of its characters.
\<close>

section \<open>Descriptors\<close>

text \<open>\<open>argfd\<close> gives the descriptor and the file, or \<open>None\<close> for -1.\<close>

definition argfd :: "nat \<Rightarrow> ('z kproc_scheme, (nat \<times> nat) option) prog" where
  "argfd n =
     bind (argint n) (\<lambda>fd.
     if sint fd < 0 \<or> sint fd \<ge> int NOFILE then return None
     else bind curproc (\<lambda>p.
       bind (get_proc p) (\<lambda>q.
       return (case p_ofile q (unat fd) of None \<Rightarrow> None | Some f \<Rightarrow> Some (unat fd, f)))))"

primrec fdalloc_scan :: "nat \<Rightarrow> nat \<Rightarrow> nat list \<Rightarrow> ('z kproc_scheme, nat option) prog" where
  "fdalloc_scan p f [] = return None"
| "fdalloc_scan p f (fd # fds) =
     bind (get_proc p) (\<lambda>q.
     if p_ofile q fd = None then
       andthen (upd p (\<lambda>q. q\<lparr>p_ofile := (p_ofile q)(fd := Some f)\<rparr>)) (return (Some fd))
     else fdalloc_scan p f fds)"

definition fdalloc :: "nat \<Rightarrow> ('z kproc_scheme, nat option) prog" where
  "fdalloc f = bind curproc (\<lambda>p. fdalloc_scan p f [0..<NOFILE])"

definition fd_clear :: "nat \<Rightarrow> nat \<Rightarrow> ('z kproc_scheme, unit) prog" where
  "fd_clear p fd = upd p (\<lambda>q. q\<lparr>p_ofile := (p_ofile q)(fd := None)\<rparr>)"

definition sys_dup :: "('z kfile_scheme, u64) prog" where
  "sys_dup =
     bind (argfd 0) (\<lambda>r. case r of None \<Rightarrow> return (-1) | Some (_, f) \<Rightarrow>
     bind (fdalloc f) (\<lambda>r. case r of None \<Rightarrow> return (-1) | Some fd \<Rightarrow>
     andthen (filedup f) (return (of_nat fd))))"

definition sys_read :: "('z kfile_scheme, u64) prog" where
  "sys_read =
     bind (argfd 0) (\<lambda>r. case r of None \<Rightarrow> return (-1) | Some (_, f) \<Rightarrow>
     bind (argint 2) (\<lambda>n.
     bind (argaddr 1) (\<lambda>p.
     bind (fileread f p n) (\<lambda>r. return (scast r)))))"

definition sys_write :: "('z kfile_scheme, u64) prog" where
  "sys_write =
     bind (argfd 0) (\<lambda>r. case r of None \<Rightarrow> return (-1) | Some (_, f) \<Rightarrow>
     bind (argint 2) (\<lambda>n.
     bind (argaddr 1) (\<lambda>p.
     bind (filewrite f p n) (\<lambda>r. return (scast r)))))"

definition sys_close :: "('z kfile_scheme, u64) prog" where
  "sys_close =
     bind (argfd 0) (\<lambda>r. case r of None \<Rightarrow> return (-1) | Some (fd, f) \<Rightarrow>
     bind curproc (\<lambda>p.
     andthen (fd_clear p fd)
     (andthen (fileclose f) (return 0))))"

definition sys_fstat :: "('z kfile_scheme, u64) prog" where
  "sys_fstat =
     bind (argfd 0) (\<lambda>r. case r of None \<Rightarrow> return (-1) | Some (_, f) \<Rightarrow>
     bind (argaddr 1) (\<lambda>st.
     bind (filestat f st) (\<lambda>r. return (scast r))))"

section \<open>Directory entries\<close>

text \<open>The characters of the string of \<open>n\<close> bytes in a buffer.\<close>

definition path_of :: "bytes \<Rightarrow> i32 \<Rightarrow> u8 list" where
  "path_of buf n = map buf [0..<unat n]"

definition end_with :: "u64 \<Rightarrow> ('z kfs_scheme, u64) prog" where
  "end_with r = andthen end_op (return r)"

text \<open>\<open>ip->nlink += d\<close>, followed by \<open>iupdate(ip)\<close>.\<close>

definition add_nlink :: "nat \<Rightarrow> u16 \<Rightarrow> ('z kfs_scheme, unit) prog" where
  "add_nlink ip d = andthen (upd_ino ip (\<lambda>q. q\<lparr>i_nlink := i_nlink q + d\<rparr>)) (iupdate ip)"

definition sys_link_bad :: "nat \<Rightarrow> ('z kfs_scheme, u64) prog" where
  "sys_link_bad ip =
     andthen (ilock ip) (andthen (add_nlink ip (-1)) (andthen (iunlockput ip) (end_with (-1))))"

definition sys_link :: "('z kfs_scheme, u64) prog" where
  "sys_link =
     bind (argstr 0 128) (\<lambda>(n0, old).
     if sint n0 < 0 then return (-1)
     else bind (argstr 1 128) (\<lambda>(n1, new).
     if sint n1 < 0 then return (-1)
     else
       andthen begin_op
       (bind (namei (path_of old n0)) (\<lambda>r. case r of None \<Rightarrow> end_with (-1) | Some ip \<Rightarrow>
       andthen (ilock ip)
       (bind (get_ino ip) (\<lambda>q.
       if i_type q = T_DIR then andthen (iunlockput ip) (end_with (-1))
       else
         andthen (add_nlink ip 1)
         (andthen (iunlock ip)
         (bind (nameiparent (path_of new n1) (\<lambda>_. 0)) (\<lambda>(r, name). case r of
            None \<Rightarrow> sys_link_bad ip
          | Some dp \<Rightarrow>
              andthen (ilock dp)
              (bind (gets (\<lambda>s. (i_dev (inodes s dp), i_dev (inodes s ip), i_inum (inodes s ip)))) (\<lambda>(ddev, idev, inum).
              bind (if ddev \<noteq> idev then return (-1) else dirlink dp name inum) (\<lambda>r.
              if sint r < 0 then andthen (iunlockput dp) (sys_link_bad ip)
              else
                andthen (iunlockput dp)
                (andthen (iput ip)
                (end_with 0))))))))))))))"

primrec isdirempty_loop :: "nat \<Rightarrow> nat list \<Rightarrow> ('z kfs_scheme, bool) prog" where
  "isdirempty_loop dp [] = return True"
| "isdirempty_loop dp (off # offs) =
     bind (readi dp (XBuf 0) (\<lambda>_. 0) (of_nat off) 16) (\<lambda>(r, de).
     andthen (panic_if (r \<noteq> 16) ''isdirempty: readi'')
     (if de_inum de \<noteq> 0 then return False else isdirempty_loop dp offs))"

definition isdirempty :: "nat \<Rightarrow> ('z kfs_scheme, bool) prog" where
  "isdirempty dp = bind (get_ino dp) (\<lambda>q. isdirempty_loop dp (drop 2 (dir_offsets (i_size q))))"

definition sys_unlink_bad :: "nat \<Rightarrow> ('z kfs_scheme, u64) prog" where
  "sys_unlink_bad dp = andthen (iunlockput dp) (end_with (-1))"

definition sys_unlink :: "('z kfs_scheme, u64) prog" where
  "sys_unlink =
     bind (argstr 0 128) (\<lambda>(n, path).
     if sint n < 0 then return (-1)
     else
       andthen begin_op
       (bind (nameiparent (path_of path n) (\<lambda>_. 0)) (\<lambda>(r, name). case r of None \<Rightarrow> end_with (-1) | Some dp \<Rightarrow>
       andthen (ilock dp)
       (if namecmp name (cstring ''.'') = 0 \<or> namecmp name (cstring ''..'') = 0 then sys_unlink_bad dp
        else bind (dirlookup dp name) (\<lambda>r. case r of None \<Rightarrow> sys_unlink_bad dp | Some (ip, off) \<Rightarrow>
          andthen (ilock ip)
          (bind (get_ino ip) (\<lambda>q.
          andthen (panic_if (sint (i_nlink q) < 1) ''unlink: nlink < 1'')
          (bind (if i_type q = T_DIR then isdirempty ip else return True) (\<lambda>ok.
          if \<not> ok then andthen (iunlockput ip) (sys_unlink_bad dp)
          else
            bind (writei dp (XBuf 0) (\<lambda>_. 0) off 16) (\<lambda>w.
            andthen (panic_if (w \<noteq> 16) ''unlink: writei'')
            (andthen (onlyif (i_type q = T_DIR) (add_nlink dp (-1)))
            (andthen (iunlockput dp)
            (andthen (add_nlink ip (-1))
            (andthen (iunlockput ip)
            (end_with 0)))))))))))))))"

text \<open>
  \<open>create\<close> returns the inode locked. \<open>ialloc\<close> never returns a null pointer, it panics.
\<close>

definition create :: "u8 list \<Rightarrow> u16 \<Rightarrow> u16 \<Rightarrow> u16 \<Rightarrow> ('z kfs_scheme, nat option) prog" where
  "create path ty major minor =
     bind (nameiparent path (\<lambda>_. 0)) (\<lambda>(r, name). case r of None \<Rightarrow> return None | Some dp \<Rightarrow>
     andthen (ilock dp)
     (bind (dirlookup dp name) (\<lambda>r. case r of
       Some (ip, _) \<Rightarrow>
         andthen (iunlockput dp)
         (andthen (ilock ip)
         (bind (get_ino ip) (\<lambda>q.
         if ty = T_FILE \<and> (i_type q = T_FILE \<or> i_type q = T_DEVICE) then return (Some ip)
         else andthen (iunlockput ip) (return None))))
     | None \<Rightarrow>
         bind (get_ino dp) (\<lambda>dq.
         bind (ialloc (i_dev dq) ty) (\<lambda>ip.
         andthen (ilock ip)
         (andthen (upd_ino ip (\<lambda>q. q\<lparr>i_major := major, i_minor := minor, i_nlink := 1\<rparr>))
         (andthen (iupdate ip)
         (bind (get_ino ip) (\<lambda>q.
         andthen (onlyif (ty = T_DIR)
           (andthen (add_nlink dp 1)
           (bind (dirlink ip (cstring ''.'') (i_inum q)) (\<lambda>r1.
            andthen (panic_if (sint r1 < 0) ''create dots'')
            (bind (dirlink ip (cstring ''..'') (i_inum dq)) (\<lambda>r2.
             panic_if (sint r2 < 0) ''create dots''))))))
         (bind (dirlink dp name (i_inum q)) (\<lambda>r.
         andthen (panic_if (sint r < 0) ''create: dirlink'')
         (andthen (iunlockput dp)
         (return (Some ip))))))))))))))"

section \<open>Opening\<close>

abbreviation (input) O_RDONLY :: i32 where "O_RDONLY \<equiv> 0"
abbreviation (input) O_WRONLY :: i32 where "O_WRONLY \<equiv> 1"
abbreviation (input) O_RDWR :: i32 where "O_RDWR \<equiv> 2"
abbreviation (input) O_CREATE :: i32 where "O_CREATE \<equiv> 0x200"
abbreviation (input) O_TRUNC :: i32 where "O_TRUNC \<equiv> 0x400"

text \<open>The inode to open, locked, or \<open>None\<close>.\<close>

definition open_inode :: "u8 list \<Rightarrow> i32 \<Rightarrow> ('z kfs_scheme, nat option) prog" where
  "open_inode path omode =
     (if omode AND O_CREATE \<noteq> 0 then create path T_FILE 0 0
      else bind (namei path) (\<lambda>r. case r of None \<Rightarrow> return None | Some ip \<Rightarrow>
        andthen (ilock ip)
        (bind (get_ino ip) (\<lambda>q.
        if i_type q = T_DIR \<and> omode \<noteq> O_RDONLY then andthen (iunlockput ip) (return None)
        else return (Some ip)))))"

text \<open>What \<open>sys_open\<close> stores in the file it has allocated.\<close>

definition open_file :: "inode \<Rightarrow> nat \<Rightarrow> i32 \<Rightarrow> file_t \<Rightarrow> file_t" where
  "open_file q ip omode f =
     (if i_type q = T_DEVICE then f\<lparr>f_type := FD_DEVICE, f_major := i_major q\<rparr>
      else f\<lparr>f_type := FD_INODE, f_off := 0\<rparr>)
     \<lparr>f_ip := Some ip, f_readable := (omode AND O_WRONLY = 0),
      f_writable := (omode AND O_WRONLY \<noteq> 0 \<or> omode AND O_RDWR \<noteq> 0)\<rparr>"

definition sys_open_bad :: "nat \<Rightarrow> ('z kfs_scheme, u64) prog" where
  "sys_open_bad ip = andthen (iunlockput ip) (end_with (-1))"

definition sys_open :: "('z kfile_scheme, u64) prog" where
  "sys_open =
     bind (argstr 0 128) (\<lambda>(n, path).
     if sint n < 0 then return (-1)
     else bind (argint 1) (\<lambda>omode.
       andthen begin_op
       (bind (open_inode (path_of path n) omode) (\<lambda>r. case r of None \<Rightarrow> end_with (-1) | Some ip \<Rightarrow>
       bind (get_ino ip) (\<lambda>q.
       if i_type q = T_DEVICE \<and> (sint (i_major q) < 0 \<or> sint (i_major q) \<ge> int NDEV) then sys_open_bad ip
       else bind filealloc (\<lambda>rf. case rf of None \<Rightarrow> sys_open_bad ip | Some f \<Rightarrow>
         bind (fdalloc f) (\<lambda>rd. case rd of None \<Rightarrow> andthen (fileclose f) (sys_open_bad ip) | Some fd \<Rightarrow>
         andthen (upd_file f (open_file q ip omode))
         (andthen (onlyif (omode AND O_TRUNC \<noteq> 0 \<and> i_type q = T_FILE) (itrunc ip))
         (andthen (iunlock ip)
         (end_with (of_nat fd)))))))))))"

definition sys_mkdir :: "('z kfs_scheme, u64) prog" where
  "sys_mkdir =
     andthen begin_op
     (bind (argstr 0 128) (\<lambda>(n, path).
     bind (if sint n < 0 then return None else create (path_of path n) T_DIR 0 0) (\<lambda>r. case r of
       None \<Rightarrow> end_with (-1)
     | Some ip \<Rightarrow> andthen (iunlockput ip) (end_with 0))))"

definition sys_mknod :: "('z kfs_scheme, u64) prog" where
  "sys_mknod =
     andthen begin_op
     (bind (argstr 0 128) (\<lambda>(n, path).
     bind (if sint n < 0 then return None
           else bind (argint 1) (\<lambda>major. bind (argint 2) (\<lambda>minor.
             create (path_of path n) T_DEVICE (ucast major) (ucast minor)))) (\<lambda>r. case r of
       None \<Rightarrow> end_with (-1)
     | Some ip \<Rightarrow> andthen (iunlockput ip) (end_with 0))))"

definition sys_chdir :: "('z kfs_scheme, u64) prog" where
  "sys_chdir =
     bind curproc (\<lambda>p.
     andthen begin_op
     (bind (argstr 0 128) (\<lambda>(n, path).
     bind (if sint n < 0 then return None else namei (path_of path n)) (\<lambda>r. case r of
       None \<Rightarrow> end_with (-1)
     | Some ip \<Rightarrow>
         andthen (ilock ip)
         (bind (get_ino ip) (\<lambda>q.
         if i_type q \<noteq> T_DIR then andthen (iunlockput ip) (end_with (-1))
         else
           andthen (iunlock ip)
           (bind (get_proc p) (\<lambda>pr.
           andthen (bind (deref (p_cwd pr)) iput)
           (andthen end_op
           (andthen (upd p (\<lambda>pr. pr\<lparr>p_cwd := Some ip\<rparr>))
           (return 0)))))))))))"

section \<open>Programs and pipes\<close>

text \<open>
  The loop of \<open>sys_exec\<close> that fetches the arguments, with \<open>k\<close> entries of \<open>argv[]\<close> left. The result is
  whether it succeeded, and the pages allocated so far.
\<close>

primrec fetch_args :: "u64 \<Rightarrow> nat \<Rightarrow> u64 list \<Rightarrow> ('z kproc_scheme, bool \<times> u64 list) prog" where
  "fetch_args uargv 0 argv = return (False, argv)"
| "fetch_args uargv (Suc k) argv =
     bind (fetchaddr (uargv + 8 * of_nat (length argv))) (\<lambda>(r, uarg).
     if sint r < 0 then return (False, argv)
     else if uarg = 0 then return (True, argv)
     else bind kalloc (\<lambda>pa.
       if pa = 0 then return (False, argv)
       else bind (gets (\<lambda>s. from_ptr (pmem s) pa)) (\<lambda>page.
         bind (fetchstr uarg page 4096) (\<lambda>(n, page).
         andthen (modify (\<lambda>s. s\<lparr>pmem := mem_write (pmem s) pa page 4096\<rparr>))
         (if sint n < 0 then return (False, argv @ [pa])
          else fetch_args uargv k (argv @ [pa]))))))"

definition sys_exec :: "('z kfile_scheme, u64) prog" where
  "sys_exec =
     bind (argstr 0 128) (\<lambda>(n, path).
     if sint n < 0 then return (-1)
     else bind (argaddr 1) (\<lambda>uargv.
       bind (fetch_args uargv MAXARG []) (\<lambda>(ok, argv).
       bind (if ok then exec (path_of path n) argv else return (-1)) (\<lambda>ret.
       andthen (for_each argv kfree)
       (return (scast ret))))))"

definition sys_pipe_bad :: "nat \<Rightarrow> nat \<Rightarrow> ('z kfile_scheme, u64) prog" where
  "sys_pipe_bad rd wr = andthen (fileclose rd) (andthen (fileclose wr) (return (-1)))"

definition sys_pipe :: "('z kfile_scheme, u64) prog" where
  "sys_pipe =
     bind curproc (\<lambda>p.
     bind (argaddr 0) (\<lambda>fdarray.
     bind pipealloc (\<lambda>r. case r of None \<Rightarrow> return (-1) | Some (rd, wr) \<Rightarrow>
     bind (fdalloc rd) (\<lambda>r0. case r0 of None \<Rightarrow> sys_pipe_bad rd wr | Some fd0 \<Rightarrow>
     bind (fdalloc wr) (\<lambda>r1. case r1 of None \<Rightarrow> andthen (fd_clear p fd0) (sys_pipe_bad rd wr) | Some fd1 \<Rightarrow>
     bind (get_proc p) (\<lambda>q.
     bind (copyout (p_pagetable q) fdarray (bytes32 (of_nat fd0)) 4) (\<lambda>c0.
     bind (if sint c0 < 0 then return c0
           else copyout (p_pagetable q) (fdarray + 4) (bytes32 (of_nat fd1)) 4) (\<lambda>c1.
     if sint c1 < 0 then
       andthen (fd_clear p fd0) (andthen (fd_clear p fd1) (sys_pipe_bad rd wr))
     else return 0))))))))"

end
