(* ===== verification/Syscall.thy ===== *)
theory Syscall
  imports Sysfile
begin

text \<open>
  The dispatch of system calls in kernel/syscall.c, with the line that is printed for a traced call.
\<close>

section \<open>Definitions\<close>

text \<open>The array \<open>syscalls[]\<close>; the entry 0 is the null pointer.\<close>

definition syscalls :: "('z kfile_scheme, u64) prog option list" where
  "syscalls = [None, Some sys_fork, Some sys_exit, Some sys_wait, Some sys_pipe, Some sys_read,
     Some sys_kill, Some sys_exec, Some sys_fstat, Some sys_chdir, Some sys_dup, Some sys_getpid,
     Some sys_sbrk, Some sys_sleep, Some sys_uptime, Some sys_open, Some sys_write, Some sys_mknod,
     Some sys_unlink, Some sys_link, Some sys_mkdir, Some sys_close, Some sys_waitx, Some sys_trace,
     Some sys_setpriority]"

definition sysCallName :: "string list" where
  "sysCallName = ['''', ''fork'', ''exit'', ''wait'', ''pipe'', ''read'', ''kill'', ''exec'', ''fstat'',
     ''chdir'', ''dup'', ''getpid'', ''sbrk'', ''sleep'', ''uptime'', ''open'', ''write'', ''mknod'',
     ''unlink'', ''link'', ''mkdir'', ''close'', ''waitx'', ''trace'', ''setpriority'']"

definition numOfArgs :: "nat list" where
  "numOfArgs = [0, 0, 1, 1, 1, 3, 1, 2, 2, 1, 1, 0, 1, 1, 0, 2, 3, 2, 1, 2, 1, 1, 3, 1, 2]"

text \<open>The arguments printed inside the parentheses; the first is the copy made before the call.\<close>

definition trace_arg :: "nat \<Rightarrow> i32 \<Rightarrow> nat \<Rightarrow> ('z kprintf_scheme, unit) prog" where
  "trace_arg p a0 i =
     andthen (onlyif (i > 0) (printf (cstr '', '') []))
     (bind (get_tf p) (\<lambda>tf.
      if i = 0 then printf pct_d [ArgInt a0]
      else if i = 1 then printf pct_d [ArgInt (ucast (tf_reg tf A1))]
      else if i = 2 then printf pct_d [ArgInt (ucast (tf_reg tf A2))]
      else return ()))"

definition trace_print :: "nat \<Rightarrow> nat \<Rightarrow> i32 \<Rightarrow> ('z kprintf_scheme, unit) prog" where
  "trace_print p num a0 =
     bind (get_proc p) (\<lambda>q.
     andthen (printf (cstr ''%d: syscall %s '') [ArgInt (p_pid q), ArgStr (Some (cstr (sysCallName ! num)))])
     (andthen (onlyif (numOfArgs ! num > 0)
       (andthen (printf (cstr ''('') [])
       (andthen (for_each [0..<numOfArgs ! num] (trace_arg p a0))
       (printf (cstr '')'') []))))
     (bind (get_tf p) (\<lambda>tf.
      printf (cstr '' -> %d'' @ [10]) [ArgInt (ucast (tf_reg tf A0))]))))"

definition set_a0 :: "nat \<Rightarrow> u64 \<Rightarrow> ('z kproc_scheme, unit) prog" where
  "set_a0 p v = upd_tf p (\<lambda>tf. tf\<lparr>tf_reg := (tf_reg tf)(A0 := v)\<rparr>)"

text \<open>The name of a process as a string.\<close>

definition proc_name :: "proc \<Rightarrow> u8 list" where
  "proc_name q = takeWhile (\<lambda>c. c \<noteq> 0) (map (p_name q) [0..<16])"

text \<open>\<open>syscall_finish\<close> is what \<open>syscall\<close> does when the function of the table has returned \<open>r\<close>.\<close>

definition syscall_finish :: "nat \<Rightarrow> nat \<Rightarrow> i32 \<Rightarrow> u64 \<Rightarrow> ('z kprintf_scheme, unit) prog" where
  "syscall_finish p num a0 r =
     andthen (set_a0 p r)
     (bind (get_proc p) (\<lambda>q.
      onlyif (drop_bit num (p_mask q) AND 1 \<noteq> 0) (trace_print p num a0)))"

definition syscall_unknown :: "nat \<Rightarrow> i32 \<Rightarrow> ('z kprintf_scheme, unit) prog" where
  "syscall_unknown p num =
     bind (get_proc p) (\<lambda>q.
     andthen (printf (cstr ''%d %s: unknown sys call %d'' @ [10])
       [ArgInt (p_pid q), ArgStr (Some (proc_name q)), ArgInt num])
     (set_a0 p (-1)))"

definition syscall :: "('z kfile_scheme, unit) prog" where
  "syscall =
     bind curproc (\<lambda>p.
     bind (get_tf p) (\<lambda>tf.
     let num = ucast (tf_reg tf A7) :: i32; table = syscalls in
     if sint num > 0 \<and> sint num < int (length table) then
       case table ! unat num of
         Some f \<Rightarrow> bind f (syscall_finish p (unat num) (ucast (tf_reg tf A0)))
       | None \<Rightarrow> syscall_unknown p num
     else syscall_unknown p num))"

end
