(* ===== verification/Clock.thy ===== *)
theory Clock
  imports ProcFacts
begin

text \<open>
  The clock interrupt and what it does to the running process: \<open>clockintr\<close> of kernel/trap.c, and the
  parts of \<open>usertrap\<close> and \<open>kerneltrap\<close> that preempt a process under RR and under MLFQ. The main
  result is the invariant on queue numbers under which \<open>qticks[p->queue]\<close> is inside its array.
\<close>

section \<open>Definitions\<close>

definition clockintr :: "('z kproc_scheme, unit) prog" where
  "clockintr = with_lock TicksLock
     (andthen (modify (\<lambda>s. s\<lparr>ticks := ticks s + 1\<rparr>))
     (andthen update_time
     (wakeup ChanTicks)))"

text \<open>
  The code for \<open>which_dev == 2\<close> under MLFQ. The test compares unsigned ints, as \<open>ticks\<close> is one.
\<close>

definition mlfq_preempt :: "nat \<Rightarrow> ('z kproc_scheme, unit) prog" where
  "mlfq_preempt p =
     bind (gets (\<lambda>s. (ptable s p, ticks s))) (\<lambda>(q, now).
     onlyif (now - p_last_qtime q \<ge> push_bit (unat (p_queue q)) 1)
       (andthen (onlyif (sint (p_queue q) < 4) (upd p (\<lambda>q. q\<lparr>p_queue := p_queue q + 1\<rparr>)))
       (andthen (upd p (\<lambda>q. q\<lparr>p_last_qtime := now\<rparr>))
       yield)))"

section \<open>The clock\<close>

lemma clockintr_eq:
  assumes "\<forall>p. ProcLock p \<notin> held s" and "TicksLock \<notin> held s"
  shows "clockintr s = Ret () (s\<lparr>ticks := ticks s + 1, ptable := \<lambda>p.
    if p < NPROC \<and> p_state (ptable s p) = RUNNING then (ptable s p)\<lparr>p_rtime := p_rtime (ptable s p) + 1\<rparr>
    else if p < NPROC \<and> cpu_proc s \<noteq> Some p then wake ChanTicks (ticks s + 1) (ptable s p)
    else ptable s p\<rparr>)"
proof -
  let ?tab1 = "\<lambda>p. if p < NPROC \<and> p_state (ptable s p) = RUNNING
    then (ptable s p)\<lparr>p_rtime := p_rtime (ptable s p) + 1\<rparr> else ptable s p"
  let ?s = "s\<lparr>held := insert TicksLock (held s), ticks := ticks s + 1\<rparr>"
  have u: "update_time ?s = Ret () (?s\<lparr>ptable := ?tab1\<rparr>)"
    using assms by (subst update_time_eq) (simp_all cong: if_cong)
  have "wakeup ChanTicks (?s\<lparr>ptable := ?tab1\<rparr>) = Ret () (?s\<lparr>ptable := \<lambda>p. if p < NPROC \<and> cpu_proc s \<noteq> Some p
      then wake ChanTicks (ticks s + 1) (?tab1 p) else ?tab1 p\<rparr>)"
    using assms by (subst wakeup_eq) (simp_all cong: if_cong)
  also have "(\<lambda>p. if p < NPROC \<and> cpu_proc s \<noteq> Some p then wake ChanTicks (ticks s + 1) (?tab1 p) else ?tab1 p) =
    (\<lambda>p. if p < NPROC \<and> p_state (ptable s p) = RUNNING then (ptable s p)\<lparr>p_rtime := p_rtime (ptable s p) + 1\<rparr>
    else if p < NPROC \<and> cpu_proc s \<noteq> Some p then wake ChanTicks (ticks s + 1) (ptable s p)
    else ptable s p)"
    by (auto simp: wake_def)
  finally show ?thesis
    using assms(2) u by (simp add: clockintr_def with_lock_apply prog_simps)
qed

section \<open>Queue numbers\<close>

definition queues_ok :: "(nat \<Rightarrow> proc) \<Rightarrow> bool" where
  "queues_ok tab \<longleftrightarrow> (\<forall>p < NPROC. unat (p_queue (tab p)) < NPQ)"

lemma queues_okI: "(\<And>p. p < NPROC \<Longrightarrow> unat (p_queue (tab p)) < NPQ) \<Longrightarrow> queues_ok tab"
  by (simp add: queues_ok_def)

lemma age_queue: "unat (p_queue q) < NPQ \<Longrightarrow> unat (p_queue (age now q)) < NPQ"
  by (auto simp: age_def unat_minus_one)

text \<open>The steps that write a queue number, and any step that writes none.\<close>

inductive queue_step :: "kproc \<Rightarrow> kproc \<Rightarrow> bool" where
  ageing: "mlfq_ageing s = Ret () t \<Longrightarrow> \<forall>p. ProcLock p \<notin> held s \<Longrightarrow> queue_step s t"
| alloc: "allocproc s = Ret r t \<Longrightarrow> \<forall>p. ProcLock p \<notin> held s \<Longrightarrow> PidLock \<notin> held s \<Longrightarrow> queue_step s t"
| inherit: "p < NPROC \<Longrightarrow> q < NPROC \<Longrightarrow>
    queue_step s (s\<lparr>ptable := (ptable s)(q := (ptable s q)\<lparr>p_queue := p_queue (ptable s p)\<rparr>)\<rparr>)"
| preempt: "mlfq_preempt p s = Blocked t \<Longrightarrow> cpu_proc s = Some p \<Longrightarrow> held s = {} \<Longrightarrow> queue_step s t"
| other: "(\<And>p. p < NPROC \<Longrightarrow> p_queue (ptable t p) = p_queue (ptable s p)) \<Longrightarrow> queue_step s t"

inductive queue_reach :: "kproc \<Rightarrow> kproc \<Rightarrow> bool" for s where
  start: "queue_reach s s"
| step: "queue_reach s t \<Longrightarrow> queue_step t u \<Longrightarrow> queue_reach s u"

lemma mlfq_preempt_eq:
  assumes "cpu_proc s = Some p" and "held s = {}"
  shows "mlfq_preempt p s =
    (if ticks s - p_last_qtime (ptable s p) \<ge> push_bit (unat (p_queue (ptable s p))) 1
     then Blocked (s\<lparr>held := {ProcLock p}, ptable := (ptable s)(p := (ptable s p)\<lparr>
       p_queue := (if sint (p_queue (ptable s p)) < 4 then p_queue (ptable s p) + 1 else p_queue (ptable s p)),
       p_last_qtime := ticks s, p_state := RUNNABLE\<rparr>)\<rparr>)
     else Ret () s)"
  using assms by (simp add: mlfq_preempt_def prog_simps yield_eq)

lemma unat_inc: "unat (x :: i32) < 4 \<Longrightarrow> unat (x + 1) = unat x + 1"
  using unat_add_lem [of x 1] by simp

lemma queue_lt_4: "unat (x :: i32) < 5 \<Longrightarrow> sint x < 4 \<Longrightarrow> unat (x + 1) < 5"
proof -
  assume x: "unat x < 5" and "sint x < 4"
  moreover from x have "unat x < 2 ^ 31" by (rule less_trans) simp
  ultimately have "unat x < 4" using sint_small [of x] by linarith
  then show ?thesis by (simp add: unat_inc)
qed

lemma queue_step_ok:
  assumes "queue_step s t" and "queues_ok (ptable s)"
  shows "queues_ok (ptable t)"
  using assms
proof (cases rule: queue_step.cases)
  case ageing
  then have "t = s\<lparr>ptable := \<lambda>p. if p < NPROC then age (ticks s) (ptable s p) else ptable s p\<rparr>"
    using mlfq_ageing_eq [of s] by simp
  then show ?thesis using assms(2) by (simp add: queues_ok_def age_queue)
next
  case (alloc r)
  from allocproc_run [OF alloc(2,3,1)] assms(2) show ?thesis
    by (auto simp: queues_ok_def split: option.splits) (metis unat_0 zero_less_numeral)
next
  case (inherit p q)
  then show ?thesis using assms(2) by (simp add: queues_ok_def)
next
  case (preempt p)
  have "unat (if sint (p_queue (ptable s p)) < 4 then p_queue (ptable s p) + 1 else p_queue (ptable s p)) < NPQ"
    if "p < NPROC" using that assms(2) queue_lt_4 [of "p_queue (ptable s p)"] by (simp add: queues_ok_def)
  then show ?thesis
    using preempt assms(2) by (auto simp: mlfq_preempt_eq queues_ok_def split: if_splits)
next
  case other
  then show ?thesis using assms(2) by (simp add: queues_ok_def)
qed

section \<open>Properties\<close>

text \<open>
  C21: under MLFQ the queue number of every process stays between 0 and 4 in every state that is
  reached from one in which it is, however the steps are interleaved: so the index of
  \<open>qticks[p->queue]\<close> in the scheduler is inside the array of NPQ elements, and the shift of the time
  slice \<open>1 << p->queue\<close> is at most 4.
\<close>

theorem mlfq_queue_bounds:
  assumes "queue_reach s t" and "queues_ok (ptable s)" and "p < NPROC"
  shows "unat (p_queue (ptable t p)) < NPQ"
proof -
  have "queues_ok (ptable t)"
    using assms(1,2) by (induction rule: queue_reach.induct) (auto intro: queue_step_ok)
  with assms(3) show ?thesis by (simp add: queues_ok_def)
qed

theorem mlfq_queue_bounds_witness:
  "unat (p_queue (ptable (demo\<lparr>ptable := aged_demo\<rparr>) 1)) < NPQ"
proof -
  have "ptable demo = three_runnable" by (simp add: idle_kernel_def)
  then have "mlfq_ageing demo = Ret () (demo\<lparr>ptable := aged_demo\<rparr>)"
    unfolding aged_demo_def using mlfq_ageing_eq [OF idle_kernel_unlocked, of three_runnable] by (simp only:)
  then have "queue_step demo (demo\<lparr>ptable := aged_demo\<rparr>)"
    by (rule queue_step.ageing) (simp add: idle_kernel_def)
  then have "queue_reach demo (demo\<lparr>ptable := aged_demo\<rparr>)"
    by (rule queue_reach.step [OF queue_reach.start])
  then show ?thesis
    by (rule mlfq_queue_bounds) (simp_all add: queues_ok_def idle_kernel_def three_runnable_def blank_proc_def)
qed



end
