(* ===== verification/Trap.thy ===== *)
theory Trap
  imports Syscall Clock
begin

text \<open>
  kernel/trap.c, kernel/plic.c, \<open>forkret\<close> of kernel/proc.c and \<open>main\<close> of kernel/main.c: the entry of
  the kernel from user space and from itself, the interrupts of the devices, the return to user
  space, and the start of the kernel on a hart.
\<close>

section \<open>State\<close>

text \<open>
  The supervisor registers of the hart, the addresses of the code that they may hold, the answers of
  the interrupt controller to claims and what was written to it.
\<close>

record ktrap = kfile +
  r_scause :: u64
  r_sepc :: u64
  r_stval :: u64
  r_sstatus :: u64
  r_stvec :: u64
  r_sip :: u64
  hartid :: nat
  kernelvec :: u64
  uservec_addr :: u64
  userret_addr :: u64
  usertrap_addr :: u64
  etext :: u64
  plic_resp :: "u32 list"
  plic_writes :: "(u64 \<times> u32) list"
  started :: bool

abbreviation (input) SSTATUS_SPP :: u64 where "SSTATUS_SPP \<equiv> 0x100"
abbreviation (input) SSTATUS_SPIE :: u64 where "SSTATUS_SPIE \<equiv> 0x20"
abbreviation (input) SSTATUS_SIE :: u64 where "SSTATUS_SIE \<equiv> 2"
abbreviation (input) UART0_IRQ :: u32 where "UART0_IRQ \<equiv> 10"
abbreviation (input) VIRTIO0_IRQ :: u32 where "VIRTIO0_IRQ \<equiv> 1"

definition intr_on :: "('z ktrap_scheme, unit) prog" where
  "intr_on = modify (\<lambda>s. s\<lparr>r_sstatus := r_sstatus s OR SSTATUS_SIE\<rparr>)"

definition intr_off :: "('z ktrap_scheme, unit) prog" where
  "intr_off = modify (\<lambda>s. s\<lparr>r_sstatus := r_sstatus s AND NOT SSTATUS_SIE\<rparr>)"

definition intr_get :: "('z ktrap_scheme, bool) prog" where
  "intr_get = gets (\<lambda>s. r_sstatus s AND SSTATUS_SIE \<noteq> 0)"

section \<open>The interrupt controller\<close>

definition plic_write :: "u64 \<Rightarrow> u32 \<Rightarrow> ('z ktrap_scheme, unit) prog" where
  "plic_write a v = modify (\<lambda>s. s\<lparr>plic_writes := plic_writes s @ [(a, v)]\<rparr>)"

definition PLIC_SENABLE :: "nat \<Rightarrow> u64" where
  "PLIC_SENABLE h = PLIC + 0x2080 + of_nat h * 0x100"

definition PLIC_SPRIORITY :: "nat \<Rightarrow> u64" where
  "PLIC_SPRIORITY h = PLIC + 0x201000 + of_nat h * 0x2000"

definition PLIC_SCLAIM :: "nat \<Rightarrow> u64" where
  "PLIC_SCLAIM h = PLIC + 0x201004 + of_nat h * 0x2000"

definition plicinit :: "('z ktrap_scheme, unit) prog" where
  "plicinit = andthen (plic_write (PLIC + 40) 1) (plic_write (PLIC + 4) 1)"

definition plicinithart :: "('z ktrap_scheme, unit) prog" where
  "plicinithart =
     bind (gets hartid) (\<lambda>h.
     andthen (plic_write (PLIC_SENABLE h) (push_bit 10 1 OR push_bit 1 1))
     (plic_write (PLIC_SPRIORITY h) 0))"

definition plic_claim :: "('z ktrap_scheme, u32) prog" where
  "plic_claim = (\<lambda>s. case plic_resp s of [] \<Rightarrow> Blocked s | v # vs \<Rightarrow> Ret v (s\<lparr>plic_resp := vs\<rparr>))"

definition plic_complete :: "u32 \<Rightarrow> ('z ktrap_scheme, unit) prog" where
  "plic_complete irq = bind (gets hartid) (\<lambda>h. plic_write (PLIC_SCLAIM h) irq)"

section \<open>Traps\<close>

definition trapinithart :: "('z ktrap_scheme, unit) prog" where
  "trapinithart = modify (\<lambda>s. s\<lparr>r_stvec := kernelvec s\<rparr>)"

definition devintr :: "policy \<Rightarrow> ('z ktrap_scheme, nat) prog" where
  "devintr pol =
     bind (gets r_scause) (\<lambda>scause.
     if scause AND 0x8000000000000000 \<noteq> 0 \<and> scause AND 0xff = 9 then
       bind plic_claim (\<lambda>irq.
       andthen (if irq = UART0_IRQ then uartintr pol
                else if irq = VIRTIO0_IRQ then virtio_disk_intr
                else onlyif (irq \<noteq> 0) (printf (cstr ''unexpected interrupt irq=%d'' @ [10]) [ArgInt irq]))
       (andthen (onlyif (irq \<noteq> 0) (plic_complete irq))
       (return 1)))
     else if scause = 0x8000000000000001 then
       bind (gets hartid) (\<lambda>h.
       andthen (onlyif (h = 0) clockintr)
       (andthen (modify (\<lambda>s. s\<lparr>r_sip := r_sip s AND NOT 2\<rparr>))
       (return 2)))
     else return 0)"

text \<open>
  \<open>usertrapret\<close> ends with a jump to \<open>userret\<close> in the trampoline; the result is the address and the two
  arguments of the call.
\<close>

definition usertrapret :: "('z ktrap_scheme, u64 \<times> u64 \<times> u64) prog" where
  "usertrapret =
     bind curproc (\<lambda>p.
     andthen intr_off
     (andthen (modify (\<lambda>s. s\<lparr>r_stvec := TRAMPOLINE + (uservec_addr s - trampoline s)\<rparr>))
     (bind (gets (\<lambda>s. (satp s, p_kstack (ptable s p), usertrap_addr s, hartid s))) (\<lambda>(ksatp, kstack, ut, h).
     andthen (upd_tf p (\<lambda>tf. tf\<lparr>kernel_satp := ksatp, kernel_sp := kstack + PGSIZE, kernel_trap := ut,
       kernel_hartid := of_nat h\<rparr>))
     (andthen (modify (\<lambda>s. s\<lparr>r_sstatus := r_sstatus s AND NOT SSTATUS_SPP OR SSTATUS_SPIE\<rparr>))
     (bind (get_tf p) (\<lambda>tf.
     andthen (modify (\<lambda>s. s\<lparr>r_sepc := epc tf\<rparr>))
     (bind (get_proc p) (\<lambda>q.
     bind (gets (\<lambda>s. TRAMPOLINE + (userret_addr s - trampoline s))) (\<lambda>fn.
     return (fn, TRAPFRAME, MAKE_SATP (p_pagetable q))))))))))))"

definition forkret :: "('z ktrap_scheme, u64 \<times> u64 \<times> u64) prog" where
  "forkret = andthen forkret_enter usertrapret"

text \<open>
  The preemption after a trap of kind \<open>which_dev\<close>: under RR and MLFQ only, and only for the timer.
\<close>

definition preempt :: "policy \<Rightarrow> nat \<Rightarrow> nat \<Rightarrow> ('z kproc_scheme, unit) prog" where
  "preempt pol which_dev p =
     (case pol of
        RR \<Rightarrow> onlyif (which_dev = 2) yield
      | MLFQ \<Rightarrow> onlyif (which_dev = 2) (mlfq_preempt p)
      | _ \<Rightarrow> return ())"

text \<open>The part of \<open>usertrap\<close> that depends on the cause; the result is \<open>which_dev\<close>.\<close>

definition usertrap_cause :: "policy \<Rightarrow> nat \<Rightarrow> ('z ktrap_scheme, nat) prog" where
  "usertrap_cause pol p =
     bind (gets (\<lambda>s. (r_scause s, ptable s p))) (\<lambda>(scause, q).
     if scause = 8 then
       andthen (onlyif (p_killed q \<noteq> 0) (exit (-1)))
       (andthen (upd_tf p (\<lambda>tf. tf\<lparr>epc := epc tf + 4\<rparr>))
       (andthen intr_on
       (andthen syscall
       (return 0))))
     else bind (devintr pol) (\<lambda>which_dev.
       andthen (onlyif (which_dev = 0)
         (bind (gets (\<lambda>s. (r_sepc s, r_stval s))) (\<lambda>(sepc, stval).
          andthen (printf (cstr ''usertrap(): unexpected scause %p pid=%d'' @ [10]) [ArgPtr scause, ArgInt (p_pid q)])
          (andthen (printf (cstr ''            sepc=%p stval=%p'' @ [10]) [ArgPtr sepc, ArgPtr stval])
          (upd p (\<lambda>q. q\<lparr>p_killed := 1\<rparr>))))))
       (return which_dev)))"

definition usertrap :: "policy \<Rightarrow> ('z ktrap_scheme, u64 \<times> u64 \<times> u64) prog" where
  "usertrap pol =
     bind (gets r_sstatus) (\<lambda>sstatus.
     andthen (panic_if (sstatus AND SSTATUS_SPP \<noteq> 0) ''usertrap: not from user mode'')
     (andthen (modify (\<lambda>s. s\<lparr>r_stvec := kernelvec s\<rparr>))
     (bind curproc (\<lambda>p.
     bind (gets r_sepc) (\<lambda>sepc.
     andthen (upd_tf p (\<lambda>tf. tf\<lparr>epc := sepc\<rparr>))
     (bind (usertrap_cause pol p) (\<lambda>which_dev.
     bind (get_proc p) (\<lambda>q.
     andthen (onlyif (p_killed q \<noteq> 0) (exit (-1)))
     (andthen (preempt pol which_dev p)
     usertrapret)))))))))"

definition usertrap_resume :: "nat \<Rightarrow> ('z ktrap_scheme, u64 \<times> u64 \<times> u64) prog" where
  "usertrap_resume p = andthen (yield_resume p) usertrapret"

definition kerneltrap :: "policy \<Rightarrow> ('z ktrap_scheme, unit) prog" where
  "kerneltrap pol =
     bind (gets (\<lambda>s. (r_sepc s, r_sstatus s, r_scause s))) (\<lambda>(sepc, sstatus, scause).
     andthen (panic_if (sstatus AND SSTATUS_SPP = 0) ''kerneltrap: not from supervisor mode'')
     (bind intr_get (\<lambda>on.
     andthen (panic_if on ''kerneltrap: interrupts enabled'')
     (bind (devintr pol) (\<lambda>which_dev.
     andthen (onlyif (which_dev = 0)
       (bind (gets (\<lambda>s. (r_sepc s, r_stval s))) (\<lambda>(sepc', stval).
        andthen (printf (cstr ''scause %p'' @ [10]) [ArgPtr scause])
        (andthen (printf (cstr ''sepc=%p stval=%p'' @ [10]) [ArgPtr sepc', ArgPtr stval])
        (panic ''kerneltrap'')))))
     (bind (gets (\<lambda>s. (cpu_proc s, ptable s))) (\<lambda>(r, tab).
     andthen (case r of None \<Rightarrow> return ()
        | Some p \<Rightarrow> onlyif (p_state (tab p) = RUNNING) (preempt pol which_dev p))
     (modify (\<lambda>s. s\<lparr>r_sepc := sepc, r_sstatus := sstatus\<rparr>)))))))))"

text \<open>After a \<open>yield\<close>, \<open>kerneltrap\<close> restores the registers that it saved on the stack of the process.\<close>

definition kerneltrap_resume :: "nat \<Rightarrow> u64 \<Rightarrow> u64 \<Rightarrow> ('z ktrap_scheme, unit) prog" where
  "kerneltrap_resume p sepc sstatus =
     andthen (yield_resume p) (modify (\<lambda>s. s\<lparr>r_sepc := sepc, r_sstatus := sstatus\<rparr>))"

section \<open>Start\<close>

text \<open>
  \<open>main\<close> up to the call of \<open>scheduler\<close>. Of the calls that only initialise spinlocks nothing is left:
  a spinlock that no hart holds is not in the set of held locks. A hart other than hart 0 spins until
  \<open>started\<close> is set.
\<close>

definition main_hart0 :: "('z ktrap_scheme, unit) prog" where
  "main_hart0 =
     andthen consoleinit
     (andthen printfinit
     (andthen (printf [10] [])
     (andthen (printf (cstr ''xv6 kernel is booting'' @ [10]) [])
     (andthen (printf [10] [])
     (andthen kinit
     (andthen (bind (gets (\<lambda>s. (etext s, trampoline s))) (\<lambda>(e, t). kvminit e t))
     (andthen kvminithart
     (andthen procinit
     (andthen trapinithart
     (andthen plicinit
     (andthen plicinithart
     (andthen binit
     (andthen iinit
     (andthen virtio_disk_init
     (andthen userinit
     (modify (\<lambda>s. s\<lparr>started := True\<rparr>)))))))))))))))))"

definition main_other :: "('z ktrap_scheme, unit) prog" where
  "main_other =
     bind (gets (\<lambda>s. (started s, hartid s))) (\<lambda>(go, h).
     if \<not> go then (\<lambda>s. Blocked s)
     else
       andthen (printf (cstr ''hart %d starting'' @ [10]) [ArgInt (of_nat h)])
       (andthen kvminithart
       (andthen trapinithart
       plicinithart)))"

definition main :: "('z ktrap_scheme, unit) prog" where
  "main = bind (gets hartid) (\<lambda>h. if h = 0 then main_hart0 else main_other)"

end
