(* ===== verification/Driver.thy ===== *)
theory Driver
  imports Log
begin

text \<open>
  The virtio disk driver implements the transfer of a block: a request that \<open>virtio_disk_rw\<close> enters
  into the ring, the answer of the device, the interrupt and the rest of \<open>virtio_disk_rw\<close> together
  have the effect of \<open>disk_rw\<close>, on which the buffer cache is built. The device is given by a function
  \<open>dev\<close> of which \<open>device_law\<close> states what the virtio specification says of a legacy block device.
\<close>

section \<open>Descriptors\<close>

lemma alloc_desc_eq:
  "alloc_desc s = (case find (vfree s) [0..<NUM] of None \<Rightarrow> Ret None s
     | Some i \<Rightarrow> Ret (Some i) (s\<lparr>vfree := (vfree s)(i := False)\<rparr>))"
proof -
  have "alloc_desc_scan xs s = (case find (vfree s) xs of None \<Rightarrow> Ret None s
     | Some i \<Rightarrow> Ret (Some i) (s\<lparr>vfree := (vfree s)(i := False)\<rparr>))" for xs
    by (induction xs) (simp_all add: prog_simps)
  then show ?thesis by (simp add: alloc_desc_def)
qed

lemma alloc_desc_free:
  assumes "0 < card {i. i < NUM \<and> vfree s i}"
  obtains i where "i < NUM" and "vfree s i" and "alloc_desc s = Ret (Some i) (s\<lparr>vfree := (vfree s)(i := False)\<rparr>)"
    and "card {j. j < NUM \<and> ((vfree s)(i := False)) j} = card {i. i < NUM \<and> vfree s i} - 1"
proof -
  have "{i. i < NUM \<and> vfree s i} \<noteq> {}" using assms by (metis card.empty less_irrefl)
  then have "\<exists>i. i < NUM \<and> vfree s i" by blast
  then obtain i where i: "find (vfree s) [0..<NUM] = Some i"
    by (cases "find (vfree s) [0..<NUM]") (auto simp: find_None_iff)
  then have f: "i < NUM" "vfree s i" by (auto simp: find_Some_iff)
  have "{j. j < NUM \<and> ((vfree s)(i := False)) j} = {i. i < NUM \<and> vfree s i} - {i}" by auto
  then have c: "card {j. j < NUM \<and> ((vfree s)(i := False)) j} = card {i. i < NUM \<and> vfree s i} - 1"
    using f by (simp only: card_Diff_singleton mem_Collect_eq simp_thms)
  have a: "alloc_desc s = Ret (Some i) (s\<lparr>vfree := (vfree s)(i := False)\<rparr>)" using i by (simp only: alloc_desc_eq option.case)
  show ?thesis by (rule that [OF f a c])
qed

lemma alloc3_free:
  assumes "3 \<le> card {i. i < NUM \<and> vfree s i}"
  obtains i0 i1 i2 where "i0 < NUM" "i1 < NUM" "i2 < NUM" "distinct [i0, i1, i2]" "vfree s i0" "vfree s i1" "vfree s i2"
    "alloc3_desc s = Ret (Some [i0, i1, i2]) (s\<lparr>vfree := (vfree s)(i0 := False, i1 := False, i2 := False)\<rparr>)"
proof -
  have c0: "0 < card {i. i < NUM \<and> vfree s i}" using assms by linarith
  obtain i0 where 0: "i0 < NUM" "vfree s i0" "alloc_desc s = Ret (Some i0) (s\<lparr>vfree := (vfree s)(i0 := False)\<rparr>)"
    "card {j. j < NUM \<and> ((vfree s)(i0 := False)) j} = card {i. i < NUM \<and> vfree s i} - 1"
    by (rule alloc_desc_free [OF c0])
  let ?s1 = "s\<lparr>vfree := (vfree s)(i0 := False)\<rparr>"
  have v1: "vfree ?s1 = (vfree s)(i0 := False)" by simp
  have c1: "0 < card {i. i < NUM \<and> vfree ?s1 i}" unfolding v1 0(4) using assms by linarith
  obtain i1 where 1: "i1 < NUM" "vfree ?s1 i1" "alloc_desc ?s1 = Ret (Some i1) (?s1\<lparr>vfree := (vfree ?s1)(i1 := False)\<rparr>)"
    "card {j. j < NUM \<and> ((vfree ?s1)(i1 := False)) j} = card {i. i < NUM \<and> vfree ?s1 i} - 1"
    by (rule alloc_desc_free [OF c1])
  let ?s2 = "?s1\<lparr>vfree := (vfree ?s1)(i1 := False)\<rparr>"
  have v2: "vfree ?s2 = (vfree ?s1)(i1 := False)" by simp
  have c2: "0 < card {i. i < NUM \<and> vfree ?s2 i}" unfolding v2 1(4) unfolding v1 0(4) using assms by linarith
  obtain i2 where 2: "i2 < NUM" "vfree ?s2 i2" "alloc_desc ?s2 = Ret (Some i2) (?s2\<lparr>vfree := (vfree ?s2)(i2 := False)\<rparr>)"
    by (rule alloc_desc_free [OF c2])
  have "alloc3_desc s = Ret (Some [i0, i1, i2]) (s\<lparr>vfree := (vfree s)(i0 := False, i1 := False, i2 := False)\<rparr>)"
    using 0(3) 1(3) 2(3) by (simp add: alloc3_desc_def eval_nat_numeral prog_simps)
  moreover have "distinct [i0, i1, i2]" "vfree s i1" "vfree s i2" using 1(2) 2(2) by (auto split: if_splits)
  ultimately show ?thesis using that [OF 0(1) 1(1) 2(1)] 0(2) by blast
qed

lemma free_desc_eq:
  assumes "i < NUM" and "\<not> vfree s i" and "\<forall>q. ProcLock q \<notin> held s"
  shows "free_desc i s = Ret () (s\<lparr>ptable := woken_table ChanDiskFree (cpu_proc s) (ticks s) (ptable s),
    vdesc := (vdesc s)(i := null_desc), vfree := (vfree s)(i := True)\<rparr>)"
  using assms by (simp add: free_desc_def prog_simps wakeup_table)

text \<open>The three descriptors of a request for buffer \<open>b\<close>.\<close>

definition request :: "'z kdisk_scheme \<Rightarrow> nat \<Rightarrow> bool \<Rightarrow> nat \<Rightarrow> nat \<Rightarrow> nat \<Rightarrow> bool" where
  "request s b wr i0 i1 i2 \<longleftrightarrow> distinct [i0, i1, i2] \<and> i0 < NUM \<and> i1 < NUM \<and> i2 < NUM \<and>
     vdesc s i0 = \<lparr>vd_addr = DOps i0, vd_len = 16, vd_flags = VRING_DESC_F_NEXT, vd_next = of_nat i1\<rparr> \<and>
     vdesc s i1 = \<lparr>vd_addr = DData b, vd_len = 1024, vd_flags = (if wr then 0 else VRING_DESC_F_WRITE) OR VRING_DESC_F_NEXT,
       vd_next = of_nat i2\<rparr> \<and>
     vdesc s i2 = \<lparr>vd_addr = DStatus i0, vd_len = 1, vd_flags = VRING_DESC_F_WRITE, vd_next = 0\<rparr>"

lemma unat_small_u16: "i < NUM \<Longrightarrow> unat (of_nat i :: u16) = i"
  by (simp add: unat_of_nat)

lemma unat_small_u32: "i < NUM \<Longrightarrow> unat (of_nat i :: u32) = i"
  by (simp add: unat_of_nat)

lemma free_chain_request:
  fixes s :: "'z kdisk_scheme"
  assumes r: "request s b wr i0 i1 i2" and f: "\<not> vfree s i0" "\<not> vfree s i1" "\<not> vfree s i2"
    and h: "\<forall>q. ProcLock q \<notin> held s"
  obtains tab where "free_chain i0 s = Ret () (s\<lparr>ptable := tab, vdesc := (vdesc s)(i0 := null_desc, i1 := null_desc, i2 := null_desc),
    vfree := (vfree s)(i0 := True, i1 := True, i2 := True)\<rparr>)"
proof -
  have i: "i0 < NUM" "i1 < NUM" "i2 < NUM" "i0 \<noteq> i1" "i0 \<noteq> i2" "i1 \<noteq> i2" using r by (auto simp: request_def)
  have flags: "((if wr then 0 else 2) OR 1) AND (1 :: u16) \<noteq> 0" "(1 :: u16) AND 1 \<noteq> 0" "(2 :: u16) AND 1 = 0" by simp_all
  let ?s1 = "s\<lparr>ptable := woken_table ChanDiskFree (cpu_proc s) (ticks s) (ptable s),
    vdesc := (vdesc s)(i0 := null_desc), vfree := (vfree s)(i0 := True)\<rparr>"
  let ?s2 = "?s1\<lparr>ptable := woken_table ChanDiskFree (cpu_proc ?s1) (ticks ?s1) (ptable ?s1),
    vdesc := (vdesc ?s1)(i1 := null_desc), vfree := (vfree ?s1)(i1 := True)\<rparr>"
  let ?s3 = "?s2\<lparr>ptable := woken_table ChanDiskFree (cpu_proc ?s2) (ticks ?s2) (ptable ?s2),
    vdesc := (vdesc ?s2)(i2 := null_desc), vfree := (vfree ?s2)(i2 := True)\<rparr>"
  have e: "free_desc i0 s = Ret () ?s1" "free_desc i1 ?s1 = Ret () ?s2" "free_desc i2 ?s2 = Ret () ?s3"
    using free_desc_eq [of i0 s] free_desc_eq [of i1 ?s1] free_desc_eq [of i2 ?s2] i f h by simp_all
  have d: "vdesc s i0 = \<lparr>vd_addr = DOps i0, vd_len = 16, vd_flags = 1, vd_next = of_nat i1\<rparr>"
    "vdesc ?s1 i1 = \<lparr>vd_addr = DData b, vd_len = 1024, vd_flags = (if wr then 0 else 2) OR 1, vd_next = of_nat i2\<rparr>"
    "vdesc ?s2 i2 = \<lparr>vd_addr = DStatus i0, vd_len = 1, vd_flags = 2, vd_next = 0\<rparr>"
    using r i by (simp_all add: request_def)
  have "free_chain_loop (Suc (Suc (Suc k))) i0 s = Ret () ?s3" for k
    using e d flags i by (simp add: prog_simps unat_small_u16)
  from this [of 6] have "free_chain i0 s = Ret () ?s3" by (simp add: free_chain_def)
  then show ?thesis by (intro that) simp
qed

section \<open>A request and its answer\<close>

text \<open>The state after a request was entered into the ring, and after the process went to sleep.\<close>

definition submitted :: "nat \<Rightarrow> bool \<Rightarrow> nat \<Rightarrow> nat \<Rightarrow> nat \<Rightarrow> 'z kdisk_scheme \<Rightarrow> 'z kdisk_scheme" where
  "submitted b wr i0 i1 i2 s = s\<lparr>
     vdesc := (vdesc s)(
       i0 := \<lparr>vd_addr = DOps i0, vd_len = 16, vd_flags = VRING_DESC_F_NEXT, vd_next = of_nat i1\<rparr>,
       i1 := \<lparr>vd_addr = DData b, vd_len = 1024, vd_flags = (if wr then 0 else VRING_DESC_F_WRITE) OR VRING_DESC_F_NEXT,
         vd_next = of_nat i2\<rparr>,
       i2 := \<lparr>vd_addr = DStatus i0, vd_len = 1, vd_flags = VRING_DESC_F_WRITE, vd_next = 0\<rparr>),
     avail_idx := avail_idx s + 1, avail_ring := (avail_ring s)(unat (avail_idx s) mod NUM := of_nat i0),
     info_b := (info_b s)(i0 := Some b), info_status := (info_status s)(i0 := 0xff),
     vops := (vops s)(i0 := \<lparr>vr_type = (if wr then VIRTIO_BLK_T_OUT else VIRTIO_BLK_T_IN),
       vr_reserved = 0, vr_sector = ucast (b_blockno (bufs s b) * 2)\<rparr>),
     b_disk := (b_disk s)(b := 1), vio_writes := vio_writes s @ [(0x050, 0)]\<rparr>"

lemma virtio_submit_eq: "virtio_submit b wr i0 i1 i2 s = Ret () (submitted b wr i0 i1 i2 s)"
  by (simp add: virtio_submit_def submitted_def prog_simps get_buf_def vio_write_def)

lemma virtio_disk_rw_sleeps:
  fixes s :: "'z kdisk_scheme"
  assumes "cpu_proc s = Some p" and "held s = {}" and free: "3 \<le> card {i. i < NUM \<and> vfree s i}"
  obtains i0 i1 i2 where "distinct [i0, i1, i2]" "i0 < NUM" "i1 < NUM" "i2 < NUM" "vfree s i0" "vfree s i1" "vfree s i2"
    "virtio_disk_rw b wr s = Blocked ((submitted b wr i0 i1 i2 (s\<lparr>vfree := (vfree s)(i0 := False, i1 := False, i2 := False)\<rparr>))
      \<lparr>held := {ProcLock p},
       ptable := (ptable s)(p := (ptable s p)\<lparr>p_chan := ChanBuf b, p_state := SLEEPING, p_stime := ticks s\<rparr>)\<rparr>)"
proof -
  let ?s = "s\<lparr>held := {VdiskLock}\<rparr>"
  have v: "vfree ?s = vfree s" by simp
  have "3 \<le> card {i. i < NUM \<and> vfree ?s i}" unfolding v by (rule free)
  then obtain i0 i1 i2 where i: "i0 < NUM" "i1 < NUM" "i2 < NUM" "distinct [i0, i1, i2]" "vfree ?s i0" "vfree ?s i1" "vfree ?s i2"
    "alloc3_desc ?s = Ret (Some [i0, i1, i2]) (?s\<lparr>vfree := (vfree ?s)(i0 := False, i1 := False, i2 := False)\<rparr>)"
    by (rule alloc3_free)
  let ?t = "submitted b wr i0 i1 i2 (?s\<lparr>vfree := (vfree ?s)(i0 := False, i1 := False, i2 := False)\<rparr>)"
  have "virtio_disk_rw b wr s = sleep (ChanBuf b) VdiskLock ?t"
    using assms(2) i(8) by (simp add: virtio_disk_rw_def virtio_disk_rw_loop_def virtio_wait_def prog_simps virtio_submit_eq)
      (simp add: submitted_def)
  also have "\<dots> = Blocked (?t\<lparr>held := {ProcLock p},
    ptable := (ptable ?t)(p := (ptable ?t p)\<lparr>p_chan := ChanBuf b, p_state := SLEEPING, p_stime := ticks ?t\<rparr>)\<rparr>)"
    by (rule sleep_eq) (simp_all add: submitted_def assms(1))
  finally show ?thesis using i(1-7) by (intro that [of i0 i1 i2]) (simp_all add: submitted_def)
qed

text \<open>
  The behaviour of the device, from the virtio specification: when the last entry of the
  ring of available requests is a chain of three descriptors, the device moves the data of one block
  in the direction that the request asks for, writes status 0, puts the request into the
  ring of used ones, and raises an interrupt that the next read of its status register shows.
\<close>

definition device_law :: "('z kdisk_scheme \<Rightarrow> 'z kdisk_scheme) \<Rightarrow> bool" where
  "device_law dev \<longleftrightarrow> (\<forall>s b wr i0 i1 i2 bno.
     request s b wr i0 i1 i2 \<and> avail_ring s (unat (avail_idx s - 1) mod NUM) = of_nat i0 \<and>
     vr_type (vops s i0) = (if wr then VIRTIO_BLK_T_OUT else VIRTIO_BLK_T_IN) \<and> unat (vr_sector (vops s i0)) = 2 * unat bno \<longrightarrow>
     dev s = s\<lparr>
       bufs := (if wr then bufs s else (bufs s)(b := (bufs s b)\<lparr>b_data := disk_img s bno\<rparr>)),
       disk_img := (if wr then (disk_img s)(bno := b_data (bufs s b)) else disk_img s),
       wtrace := (if wr then wtrace s @ [(bno, b_data (bufs s b))] else wtrace s),
       info_status := (info_status s)(i0 := 0),
       used_ring := (used_ring s)(unat (dev_used_idx s) mod NUM := of_nat i0),
       dev_used_idx := dev_used_idx s + 1,
       vio_resp := 1 # vio_resp s\<rparr>)"

lemma virtio_intr_one:
  fixes s :: "'z kdisk_scheme"
  assumes "held s = {}" and "dev_used_idx s = vused_idx s + 1" and "used_ring s (unat (vused_idx s) mod NUM) = of_nat i0"
    and "i0 < NUM" and "info_status s i0 = 0" and "info_b s i0 = Some b" and "vio_resp s = v # vs"
  shows "virtio_disk_intr s = Ret () (s\<lparr>ptable := woken_table (ChanBuf b) (cpu_proc s) (ticks s) (ptable s),
    vused_idx := vused_idx s + 1, b_disk := (b_disk s)(b := 0), vio_resp := vs, vio_writes := vio_writes s @ [(0x064, v AND 3)]\<rparr>)"
  using assms
  by (simp add: virtio_disk_intr_def prog_simps vio_read_def vio_write_def unat_small_u32 wakeup_table)

lemma virtio_resume_frees:
  fixes s :: "'z kdisk_scheme"
  assumes "held s = {ProcLock p}" and "b_disk s b = 0" and r: "request s b wr i0 i1 i2"
    and f: "\<not> vfree s i0" "\<not> vfree s i1" "\<not> vfree s i2"
  obtains t where "virtio_disk_rw_resume p b i0 s = Ret () t" and "held t = {}" and "bufs t = bufs s"
    and "disk_img t = disk_img s" and "wtrace t = wtrace s" and "vfree t = (vfree s)(i0 := True, i1 := True, i2 := True)"
    and "info_b t i0 = None"
proof -
  let ?s = "s\<lparr>ptable := (ptable s)(p := (ptable s p)\<lparr>p_chan := NoChan\<rparr>), held := {VdiskLock}, info_b := (info_b s)(i0 := None)\<rparr>"
  have "request ?s b wr i0 i1 i2" using r by (simp add: request_def)
  moreover have "\<not> vfree ?s i0" "\<not> vfree ?s i1" "\<not> vfree ?s i2" "\<forall>q. ProcLock q \<notin> held ?s" using f by simp_all
  ultimately obtain tab where c: "free_chain i0 ?s = Ret () (?s\<lparr>ptable := tab,
      vdesc := (vdesc ?s)(i0 := null_desc, i1 := null_desc, i2 := null_desc),
      vfree := (vfree ?s)(i0 := True, i1 := True, i2 := True)\<rparr>)"
    by (rule free_chain_request)
  let ?t = "?s\<lparr>ptable := tab, vdesc := (vdesc ?s)(i0 := null_desc, i1 := null_desc, i2 := null_desc),
      vfree := (vfree ?s)(i0 := True, i1 := True, i2 := True), held := {}\<rparr>"
  have "virtio_disk_rw_resume p b i0 s = andthen (free_chain i0) (release VdiskLock) ?s"
    using assms(1,2) by (simp add: virtio_disk_rw_resume_def sleep_resume_def virtio_wait_def upd_def prog_simps)
  also have "\<dots> = Ret () ?t" unfolding bind_apply c by simp
  finally show ?thesis by (rule that) simp_all
qed

lemma sector_number:
  assumes "unat (bno :: u32) < 2147483648"
  shows "unat (ucast (bno * 2) :: u64) = 2 * unat bno"
proof -
  have "unat bno * unat (2 :: u32) < 2 ^ LENGTH(32)" using assms by simp
  then have "unat (bno * 2) = unat bno * unat (2 :: u32)" using unat_mult_lem by blast
  then have "unat (bno * 2) = 2 * unat bno" by simp
  moreover from this have "unat (bno * 2) < 2 ^ 64" using assms by simp
  then have "unat (ucast (bno * 2) :: u64) = unat (bno * 2)" by (simp add: unsigned_ucast_eq take_bit_nat_eq_self)
  ultimately show ?thesis by simp
qed

lemma device_answers:
  fixes t :: "'z kdisk_scheme"
  assumes law: "device_law dev" and r: "request t b wr i0 i1 i2" "avail_ring t (unat (avail_idx t - 1) mod NUM) = of_nat i0"
    "vr_type (vops t i0) = (if wr then VIRTIO_BLK_T_OUT else VIRTIO_BLK_T_IN)" "unat (vr_sector (vops t i0)) = 2 * unat bno"
    and h: "held t = {}" "cpu_proc t = None" "dev_used_idx t = vused_idx t" "info_b t i0 = Some b"
    and p: "p \<in> asleep_on (ChanBuf b) (ptable t)"
  obtains u where "virtio_disk_intr (dev t) = Ret () u" and "p_state (ptable u p) = RUNNABLE" and "b_disk u b = 0"
    and "request u b wr i0 i1 i2" and "vfree u = vfree t"
    and "bufs u = (if wr then bufs t else (bufs t)(b := (bufs t b)\<lparr>b_data := disk_img t bno\<rparr>))"
    and "disk_img u = (if wr then (disk_img t)(bno := b_data (bufs t b)) else disk_img t)"
    and "wtrace u = (if wr then wtrace t @ [(bno, b_data (bufs t b))] else wtrace t)"
proof -
  let ?u = "t\<lparr>
       bufs := (if wr then bufs t else (bufs t)(b := (bufs t b)\<lparr>b_data := disk_img t bno\<rparr>)),
       disk_img := (if wr then (disk_img t)(bno := b_data (bufs t b)) else disk_img t),
       wtrace := (if wr then wtrace t @ [(bno, b_data (bufs t b))] else wtrace t),
       info_status := (info_status t)(i0 := 0),
       used_ring := (used_ring t)(unat (dev_used_idx t) mod NUM := of_nat i0),
       dev_used_idx := dev_used_idx t + 1,
       vio_resp := 1 # vio_resp t\<rparr>"
  have d: "dev t = ?u" using law r unfolding device_law_def by blast
  have "i0 < NUM" using r(1) by (simp add: request_def)
  then have "virtio_disk_intr (dev t) = Ret () (?u\<lparr>ptable := woken_table (ChanBuf b) (cpu_proc ?u) (ticks ?u) (ptable ?u),
    vused_idx := vused_idx ?u + 1, b_disk := (b_disk ?u)(b := 0), vio_resp := vio_resp t,
    vio_writes := vio_writes ?u @ [(0x064, 1 AND 3)]\<rparr>)"
    unfolding d using h by (intro virtio_intr_one [where ?i0.0 = i0]) simp_all
  then show ?thesis
    by (rule that) (use r(1) h p in \<open>simp_all add: request_def woken_table_def wake_def asleep_on_def\<close>)
qed

text \<open>
  C9: the driver of the disk implements the transfer of a block. A process that calls
  \<open>virtio_disk_rw\<close> while three descriptors are free goes to sleep for its buffer. After the device
  has served the request, the interrupt handler makes the process runnable, and when it runs again
  it returns: all descriptors are free again, no lock is held, and the buffers, the disk and the
  order of the writes are what \<open>disk_rw\<close> makes of them. This is for block numbers below 2^31: the number of the
  first sector is computed in 32 bits.
\<close>

theorem virtio_refines_disk_rw:
  fixes s :: "'z kdisk_scheme"
  assumes cur: "cpu_proc s = Some p" "p < NPROC" and h: "held s = {}" and free: "3 \<le> card {i. i < NUM \<and> vfree s i}"
    and idle: "dev_used_idx s = vused_idx s" and small: "unat (b_blockno (bufs s b)) < 2147483648" and law: "device_law dev"
  shows "\<exists>i0 t u v x. virtio_disk_rw b wr s = Blocked t \<and> p \<in> asleep_on (ChanBuf b) (ptable t) \<and>
    virtio_disk_intr (dev (t\<lparr>held := {}, cpu_proc := None\<rparr>)) = Ret () u \<and> p_state (ptable u p) = RUNNABLE \<and>
    virtio_disk_rw_resume p b i0 (u\<lparr>held := {ProcLock p}, cpu_proc := Some p,
      ptable := (ptable u)(p := (ptable u p)\<lparr>p_state := RUNNING\<rparr>)\<rparr>) = Ret () v \<and>
    held v = {} \<and> vfree v = vfree s \<and> info_b v i0 = None \<and>
    disk_rw b wr s = Ret () x \<and> bufs v = bufs x \<and> disk_img v = disk_img x \<and> wtrace v = wtrace x"
proof -
  let ?bno = "b_blockno (bufs s b)"
  obtain i0 i1 i2 where i: "distinct [i0, i1, i2]" "i0 < NUM" "i1 < NUM" "i2 < NUM" and free3: "vfree s i0" "vfree s i1" "vfree s i2"
    and rw: "virtio_disk_rw b wr s = Blocked ((submitted b wr i0 i1 i2 (s\<lparr>vfree := (vfree s)(i0 := False, i1 := False, i2 := False)\<rparr>))
      \<lparr>held := {ProcLock p},
       ptable := (ptable s)(p := (ptable s p)\<lparr>p_chan := ChanBuf b, p_state := SLEEPING, p_stime := ticks s\<rparr>)\<rparr>)"
    by (rule virtio_disk_rw_sleeps [OF cur(1) h free, of b wr])
  let ?t = "(submitted b wr i0 i1 i2 (s\<lparr>vfree := (vfree s)(i0 := False, i1 := False, i2 := False)\<rparr>))\<lparr>held := {ProcLock p},
       ptable := (ptable s)(p := (ptable s p)\<lparr>p_chan := ChanBuf b, p_state := SLEEPING, p_stime := ticks s\<rparr>)\<rparr>"
  let ?t' = "?t\<lparr>held := {}, cpu_proc := None\<rparr>"
  have t: "request ?t' b wr i0 i1 i2" "avail_ring ?t' (unat (avail_idx ?t' - 1) mod NUM) = of_nat i0"
    "vr_type (vops ?t' i0) = (if wr then 1 else 0)" "unat (vr_sector (vops ?t' i0)) = 2 * unat ?bno"
    "held ?t' = {}" "cpu_proc ?t' = None" "dev_used_idx ?t' = vused_idx ?t'" "info_b ?t' i0 = Some b"
    "p \<in> asleep_on (ChanBuf b) (ptable ?t')"
    using i idle cur sector_number [OF small] by (simp_all add: request_def submitted_def asleep_on_def)
  obtain u where u: "virtio_disk_intr (dev ?t') = Ret () u" "p_state (ptable u p) = RUNNABLE" "b_disk u b = 0"
    "request u b wr i0 i1 i2" "vfree u = vfree ?t'"
    "bufs u = (if wr then bufs ?t' else (bufs ?t')(b := (bufs ?t' b)\<lparr>b_data := disk_img ?t' ?bno\<rparr>))"
    "disk_img u = (if wr then (disk_img ?t')(?bno := b_data (bufs ?t' b)) else disk_img ?t')"
    "wtrace u = (if wr then wtrace ?t' @ [(?bno, b_data (bufs ?t' b))] else wtrace ?t')"
    by (rule device_answers [OF law t])
  let ?u = "u\<lparr>held := {ProcLock p}, cpu_proc := Some p, ptable := (ptable u)(p := (ptable u p)\<lparr>p_state := RUNNING\<rparr>)\<rparr>"
  have vf: "vfree u = (vfree s)(i0 := False, i1 := False, i2 := False)" using u(5) by (simp add: submitted_def)
  obtain v where v: "virtio_disk_rw_resume p b i0 ?u = Ret () v" "held v = {}" "bufs v = bufs ?u"
    "disk_img v = disk_img ?u" "wtrace v = wtrace ?u" "vfree v = (vfree ?u)(i0 := True, i1 := True, i2 := True)" "info_b v i0 = None"
    by (rule virtio_resume_frees [of ?u p b wr i0 i1 i2]) (use u vf i(1) in \<open>simp_all add: request_def\<close>)
  have "vfree v = vfree s" using v(6) vf free3 i(1) by (auto simp: fun_eq_iff)
  moreover let ?x = "if wr then s\<lparr>disk_img := (disk_img s)(?bno := b_data (bufs s b)), wtrace := wtrace s @ [(?bno, b_data (bufs s b))]\<rparr>
    else s\<lparr>bufs := (bufs s)(b := (bufs s b)\<lparr>b_data := disk_img s ?bno\<rparr>)\<rparr>"
  have "disk_rw b wr s = Ret () ?x" by (simp add: disk_rw_def prog_simps get_buf_def upd_buf_def)
  moreover have "bufs v = bufs ?x" "disk_img v = disk_img ?x" "wtrace v = wtrace ?x"
    using v(3-5) u(6-8) by (simp_all add: submitted_def)
  ultimately show ?thesis using rw t(9) u(1,2) v(1,2,7)
    by (intro exI [of _ i0] exI [of _ ?t] exI [of _ u] exI [of _ v] exI [of _ ?x] conjI) simp_all
qed

text \<open>A device that behaves as \<open>device_law\<close> says.\<close>

definition sim_dev :: "'z kdisk_scheme \<Rightarrow> 'z kdisk_scheme" where
  "sim_dev s =
     (let i0 = unat (avail_ring s (unat (avail_idx s - 1) mod NUM));
          bno = of_nat (unat (vr_sector (vops s i0)) div 2) in
      case vd_addr (vdesc s (unat (vd_next (vdesc s i0)))) of
        DData b \<Rightarrow>
          (let wr = (vr_type (vops s i0) = VIRTIO_BLK_T_OUT) in s\<lparr>
             bufs := (if wr then bufs s else (bufs s)(b := (bufs s b)\<lparr>b_data := disk_img s bno\<rparr>)),
             disk_img := (if wr then (disk_img s)(bno := b_data (bufs s b)) else disk_img s),
             wtrace := (if wr then wtrace s @ [(bno, b_data (bufs s b))] else wtrace s),
             info_status := (info_status s)(i0 := 0),
             used_ring := (used_ring s)(unat (dev_used_idx s) mod NUM := of_nat i0),
             dev_used_idx := dev_used_idx s + 1,
             vio_resp := 1 # vio_resp s\<rparr>)
      | _ \<Rightarrow> s)"

lemma sim_dev_law: "device_law sim_dev"
proof -
  have "sim_dev s = s\<lparr>
       bufs := (if wr then bufs s else (bufs s)(b := (bufs s b)\<lparr>b_data := disk_img s bno\<rparr>)),
       disk_img := (if wr then (disk_img s)(bno := b_data (bufs s b)) else disk_img s),
       wtrace := (if wr then wtrace s @ [(bno, b_data (bufs s b))] else wtrace s),
       info_status := (info_status s)(i0 := 0),
       used_ring := (used_ring s)(unat (dev_used_idx s) mod NUM := of_nat i0),
       dev_used_idx := dev_used_idx s + 1,
       vio_resp := 1 # vio_resp s\<rparr>"
    if r: "request s b wr i0 i1 i2" and a: "avail_ring s (unat (avail_idx s - 1) mod NUM) = of_nat i0"
      and t: "vr_type (vops s i0) = (if wr then 1 else 0)" and n: "unat (vr_sector (vops s i0)) = 2 * unat bno"
    for s :: "'z kdisk_scheme" and b wr i0 i1 i2 bno
  proof -
    have i: "i0 < NUM" "i1 < NUM" and d: "vdesc s i0 = \<lparr>vd_addr = DOps i0, vd_len = 16, vd_flags = 1, vd_next = of_nat i1\<rparr>"
      "vd_addr (vdesc s i1) = DData b"
      using r by (simp_all add: request_def)
    have "unat (avail_ring s (unat (avail_idx s - 1) mod NUM)) = i0" using a i(1) by (simp add: unat_small_u16)
    moreover have "unat (vd_next (vdesc s i0)) = i1" using d(1) i(2) by (simp add: unat_small_u16)
    moreover have "of_nat (unat (vr_sector (vops s i0)) div 2) = bno" by (simp add: n)
    moreover have "(vr_type (vops s i0) = 1) = wr" using t by simp
    ultimately show ?thesis using d(2) by (simp only: sim_dev_def Let_def dptr.case)
  qed
  then show ?thesis unfolding device_law_def by blast
qed

theorem virtio_refines_disk_rw_witness:
  "\<exists>i0 t u v. virtio_disk_rw 3 True (log_demo empty_bufs clean_disk) = Blocked t \<and>
    virtio_disk_intr (sim_dev (t\<lparr>held := {}, cpu_proc := None\<rparr>)) = Ret () u \<and>
    virtio_disk_rw_resume 5 3 i0 (u\<lparr>held := {ProcLock 5}, cpu_proc := Some 5,
      ptable := (ptable u)(5 := (ptable u 5)\<lparr>p_state := RUNNING\<rparr>)\<rparr>) = Ret () v \<and>
    wtrace v = [(0, \<lambda>_. 0)]"
proof -
  let ?s = "log_demo empty_bufs clean_disk"
  have "{i. i < NUM \<and> vfree ?s i} = {..<NUM}" by (auto simp: log_demo_def kdisk.extend_def kbio.extend_def)
  then have free: "3 \<le> card {i. i < NUM \<and> vfree ?s i}" by simp
  have idle: "dev_used_idx ?s = vused_idx ?s" by (simp add: log_demo_def kdisk.extend_def kbio.extend_def)
  have small: "unat (b_blockno (bufs ?s 3)) < 2147483648" by (simp add: log_demo_simps empty_bufs_def)
  have five: "5 < NPROC" by simp
  show ?thesis
    using virtio_refines_disk_rw [OF log_demo_simps(4) five log_demo_simps(5) free idle small sim_dev_law, of True]
    by (force simp: disk_rw_def prog_simps get_buf_def log_demo_simps empty_bufs_def)
qed

end
