(* ===== verification/Bcache.thy ===== *)
theory Bcache
  imports Log
begin

text \<open>
  The buffer cache as its clients see it. The list of the buffers is well-formed in every state, the
  least recently used unused buffer is recycled, and the cache presents the contents of the disk with
  the changes that its users have made: \<open>cache\<close> relates a state to the contents, the reference count
  and the lock of every block, and every operation of kernel/bio.c acts on these three as stated.
\<close>

section \<open>The list of buffers\<close>

text \<open>\<open>path f x bs y\<close>: from node \<open>x\<close> the links \<open>f\<close> lead through the buffers \<open>bs\<close> to node \<open>y\<close>.\<close>

primrec path :: "(bnode \<Rightarrow> bnode) \<Rightarrow> bnode \<Rightarrow> nat list \<Rightarrow> bnode \<Rightarrow> bool" where
  "path f x [] y \<longleftrightarrow> f x = y"
| "path f x (b # bs) y \<longleftrightarrow> f x = Node b \<and> path f (Node b) bs y"

definition lru :: "'z kbio_scheme \<Rightarrow> nat list \<Rightarrow> bool" where
  "lru s bs \<longleftrightarrow> path (b_next s) Head bs Head \<and> path (b_prev s) Head (rev bs) Head \<and> distinct bs"

lemma path_append: "path f x (xs @ b # ys) y \<longleftrightarrow> path f x xs (Node b) \<and> path f (Node b) ys y"
  by (induction xs arbitrary: x) auto

lemma path_upd_other: "u \<noteq> x \<Longrightarrow> u \<notin> Node ` set xs \<Longrightarrow> path (f(u := v)) x xs y \<longleftrightarrow> path f x xs y"
  by (induction xs arbitrary: x) auto

text \<open>The last node of a path, and what redirecting it does.\<close>

definition path_end :: "bnode \<Rightarrow> nat list \<Rightarrow> bnode" where
  "path_end x xs = (if xs = [] then x else Node (last xs))"

lemma path_end_simps [simp]: "path_end x [] = x" "path_end x (b # bs) = path_end (Node b) bs"
  "path_end x (bs @ [b]) = Node b"
  by (simp_all add: path_end_def)

lemma path_at_end: "path f x xs y \<Longrightarrow> f (path_end x xs) = y"
  by (induction xs arbitrary: x) auto

lemma path_end_cases: "path_end x xs = x \<or> path_end x xs \<in> Node ` set xs"
  by (cases xs rule: rev_cases) auto

lemma path_redirect:
  "path f x xs y \<Longrightarrow> distinct xs \<Longrightarrow> x \<notin> Node ` set xs \<Longrightarrow> path (f(path_end x xs := z)) x xs z"
proof (induction xs arbitrary: x)
  case Nil
  then show ?case by simp
next
  case (Cons b bs)
  have "path_end (Node b) bs \<noteq> x" using path_end_cases [of "Node b" bs] Cons.prems by auto
  then show ?case using Cons by auto
qed

text \<open>Taking a buffer out of the list and putting it back at its front.\<close>

lemma path_unlink:
  assumes "path f Head (xs @ b # ys) Head" and "distinct (xs @ b # ys)"
  shows "path (f(path_end Head xs := f (Node b))) Head (xs @ ys) Head"
proof -
  let ?g = "f(path_end Head xs := f (Node b))"
  have p: "path f Head xs (Node b)" "path f (Node b) ys Head"
    using assms(1) by (simp_all add: path_append)
  have g: "path ?g Head xs (f (Node b))" using assms(2) by (intro path_redirect [OF p(1)]) auto
  have "path_end Head xs \<noteq> Node b" "path_end Head xs \<notin> Node ` set ys"
    using path_end_cases [of Head xs] assms(2) by auto
  show ?thesis
  proof (cases ys)
    case Nil
    then show ?thesis using g p by simp
  next
    case (Cons c cs)
    with p have "f (Node b) = Node c" "path f (Node c) cs Head" by auto
    moreover from this have "path ?g (Node c) cs Head"
      using \<open>path_end Head xs \<notin> Node ` set ys\<close> Cons by (subst path_upd_other) auto
    ultimately show ?thesis using g Cons by (simp add: path_append)
  qed
qed

lemma path_link:
  assumes "path f Head xs Head" and "b \<notin> set xs"
  shows "path (f(Node b := f Head, Head := Node b)) Head (b # xs) Head"
proof (cases xs)
  case Nil
  then show ?thesis using assms by simp
next
  case (Cons c cs)
  with assms have "path f (Node c) cs Head" by simp
  then have "path (f(Node b := f Head, Head := Node b)) (Node c) cs Head"
    using assms(2) Cons by (subst path_upd_other; auto)+
  then show ?thesis using assms Cons by simp
qed

lemma path_snoc:
  assumes "path f Head xs Head" and "b \<notin> set xs" and "distinct xs"
  shows "path (f(Node b := Head, path_end Head xs := Node b)) Head (xs @ [b]) Head"
proof -
  have "path_end Head xs \<noteq> Node b" using path_end_cases [of Head xs] assms(2) by auto
  moreover have "path (f(Node b := Head)) Head xs Head"
    using assms by (subst path_upd_other) auto
  then have "path ((f(Node b := Head))(path_end Head xs := Node b)) Head xs (Node b)"
    using assms(3) by (intro path_redirect) auto
  ultimately show ?thesis by (simp add: path_append)
qed

text \<open>The predecessor in one direction is the end of the path in the other.\<close>

lemma lru_neighbours:
  assumes "lru s (xs @ b # ys)"
  shows "b_prev s (Node b) = path_end Head xs" and "b_next s (Node b) = path_end Head (rev ys)"
    and "b_next s (path_end Head xs) = Node b" and "b_prev s (path_end Head (rev ys)) = Node b"
proof -
  have n: "path (b_next s) Head xs (Node b)" "path (b_next s) (Node b) ys Head"
    and p: "path (b_prev s) Head (rev ys) (Node b)" "path (b_prev s) (Node b) (rev xs) Head"
    using assms by (simp_all add: lru_def path_append)
  show "b_next s (path_end Head xs) = Node b" "b_prev s (path_end Head (rev ys)) = Node b"
    using path_at_end [OF n(1)] path_at_end [OF p(1)] by simp_all
  show "b_prev s (Node b) = path_end Head xs" using p(2) by (cases xs rule: rev_cases) auto
  show "b_next s (Node b) = path_end Head (rev ys)" using n(2) by (cases ys) (auto simp: path_end_def)
qed

lemma path_first: "path f Head zs Head \<Longrightarrow> f Head = path_end Head (rev zs)"
  by (cases zs) (auto simp: path_end_def)

lemma link_front_eq:
  "link_front b s = Ret () (s\<lparr>b_next := (b_next s)(Node b := b_next s Head, Head := Node b),
     b_prev := (b_prev s)(Node b := Head, b_next s Head := Node b)\<rparr>)"
  by (simp add: link_front_def prog_simps)

lemma lru_link_front:
  assumes "lru s bs" and "b \<notin> set bs"
  shows "lru (s\<lparr>b_next := (b_next s)(Node b := b_next s Head, Head := Node b),
     b_prev := (b_prev s)(Node b := Head, b_next s Head := Node b)\<rparr>) (b # bs)"
proof -
  have l: "path (b_next s) Head bs Head" "path (b_prev s) Head (rev bs) Head" "distinct bs"
    using assms(1) by (simp_all add: lru_def)
  show ?thesis
    unfolding lru_def path_first [OF l(1)]
    using path_link [OF l(1) assms(2), unfolded path_first [OF l(1)]] path_snoc [OF l(2)] l(3) assms(2) by simp
qed

lemma unlink_eq:
  assumes l: "lru s (xs @ b # ys)"
  defines "t \<equiv> s\<lparr>b_next := (b_next s)(path_end Head xs := b_next s (Node b)),
    b_prev := (b_prev s)(path_end Head (rev ys) := b_prev s (Node b))\<rparr>"
  shows "unlink b s = Ret () t" and "lru t (xs @ ys)"
proof -
  note nb = lru_neighbours [OF l]
  have d: "distinct (xs @ b # ys)" using l by (simp add: lru_def)
  have "path_end Head (rev ys) \<noteq> Node b" using path_end_cases [of Head "rev ys"] d by auto
  then show "unlink b s = Ret () t"
    by (simp add: unlink_def prog_simps nb(1,2) t_def)
  have "path ((b_next s)(path_end Head xs := b_next s (Node b))) Head (xs @ ys) Head"
    using l d by (intro path_unlink) (simp_all add: lru_def)
  moreover have "path ((b_prev s)(path_end Head (rev ys) := b_prev s (Node b))) Head (rev (xs @ ys)) Head"
    using path_unlink [of "b_prev s" "rev ys" b "rev xs"] l d by (simp add: lru_def Int_commute)
  ultimately show "lru t (xs @ ys)" using d by (simp add: lru_def t_def)
qed

lemma relink:
  assumes l: "lru s (xs @ b # ys)"
  obtains nx pv where "andthen (unlink b) (link_front b) s = Ret () (s\<lparr>b_next := nx, b_prev := pv\<rparr>)"
    and "lru (s\<lparr>b_next := nx, b_prev := pv\<rparr>) (b # xs @ ys)"
proof -
  have "b \<notin> set (xs @ ys)" using l by (simp add: lru_def)
  from lru_link_front [OF unlink_eq(2) [OF l] this] that show ?thesis
    by (simp add: prog_simps unlink_eq(1) [OF l] link_front_eq)
qed

lemma find_cached_list:
  "path nxt x bs Head \<Longrightarrow> length bs < n \<Longrightarrow>
   find_cached n nxt bf dev bno (nxt x) = find (\<lambda>b. b_dev (bf b) = dev \<and> b_blockno (bf b) = bno) bs"
proof (induction bs arbitrary: x n)
  case Nil
  then show ?case by (cases n) simp_all
next
  case (Cons b bs)
  then obtain m where "n = Suc m" by (cases n) simp_all
  then show ?case using Cons by simp
qed

lemma find_unused_list:
  "path prv x bs Head \<Longrightarrow> length bs < n \<Longrightarrow>
   find_unused n prv bf (prv x) = find (\<lambda>b. b_refcnt (bf b) = 0) bs"
proof (induction bs arbitrary: x n)
  case Nil
  then show ?case by (cases n) simp_all
next
  case (Cons b bs)
  then obtain m where "n = Suc m" by (cases n) simp_all
  then show ?case using Cons by simp
qed

section \<open>Contents, references and locks\<close>

definition caches :: "u32 \<Rightarrow> (nat \<Rightarrow> buf) \<Rightarrow> nat \<Rightarrow> u32 \<Rightarrow> bool" where
  "caches dev bf b bno \<longleftrightarrow> b < NBUF \<and> b_dev (bf b) = dev \<and> b_blockno (bf b) = bno"

text \<open>The process \<open>p\<close> runs, and no lock that the cache takes is held by its hart.\<close>

definition unlocked :: "nat \<Rightarrow> 'z kproc_scheme \<Rightarrow> bool" where
  "unlocked p s \<longleftrightarrow> cpu_proc s = Some p \<and> BcacheLock \<notin> held s \<and> (\<forall>b. SleepLk (BufLock b) \<notin> held s) \<and>
     (\<forall>q. ProcLock q \<notin> held s)"

text \<open>
  \<open>cache dev p s V R L\<close>: for the users of device \<open>dev\<close>, block \<open>bno\<close> has the contents \<open>V bno\<close> and
  \<open>R bno\<close> references, and \<open>L\<close> are the blocks that process \<open>p\<close> has locked. A block with no reference
  has the contents that are on the disk. \<open>buf_ok\<close> is what this says of one buffer.
\<close>

definition buf_ok :: "u32 \<Rightarrow> i32 \<Rightarrow> (u32 \<Rightarrow> bytes) \<Rightarrow> (u32 \<Rightarrow> nat) \<Rightarrow> u32 set \<Rightarrow> buf \<Rightarrow> sleeplock \<Rightarrow> bool" where
  "buf_ok dev pid V R L q l \<longleftrightarrow>
     (if b_dev q = 0 then b_refcnt q = 0 \<and> sl_locked l = 0
      else b_dev q = dev \<and> b_valid q \<noteq> 0 \<and> b_data q = V (b_blockno q) \<and> unat (b_refcnt q) = R (b_blockno q) \<and>
        (if b_blockno q \<in> L then sl_locked l \<noteq> 0 \<and> sl_pid l = pid else sl_locked l = 0))"

definition cache :: "u32 \<Rightarrow> nat \<Rightarrow> 'z kbio_scheme \<Rightarrow> (u32 \<Rightarrow> bytes) \<Rightarrow> (u32 \<Rightarrow> nat) \<Rightarrow> u32 set \<Rightarrow> bool" where
  "cache dev p s V R L \<longleftrightarrow> dev \<noteq> 0 \<and> unlocked p s \<and> (\<exists>bs. lru s bs \<and> set bs = {..<NBUF}) \<and>
     (\<forall>b < NBUF. buf_ok dev (p_pid (ptable s p)) V R L (bufs s b) (sleeplocks s (BufLock b))) \<and>
     (\<forall>b c bno. caches dev (bufs s) b bno \<and> caches dev (bufs s) c bno \<longrightarrow> b = c) \<and>
     (\<forall>bno. R bno > 0 \<longrightarrow> (\<exists>b. caches dev (bufs s) b bno)) \<and>
     (\<forall>bno. R bno = 0 \<longrightarrow> V bno = disk_img s bno \<and> bno \<notin> L)"

lemma bget_cached:
  assumes "unlocked p s" and "lru s bs" and "set bs = {..<NBUF}" and "caches dev (bufs s) b bno"
    and "\<And>c. caches dev (bufs s) c bno \<Longrightarrow> c = b" and "sl_locked (sleeplocks s (BufLock b)) = 0"
  shows "bget dev bno s = Ret b (s\<lparr>bufs := (bufs s)(b := (bufs s b)\<lparr>b_refcnt := b_refcnt (bufs s b) + 1\<rparr>),
     sleeplocks := (sleeplocks s)(BufLock b := (sleeplocks s (BufLock b))\<lparr>sl_locked := 1, sl_pid := p_pid (ptable s p)\<rparr>)\<rparr>)"
proof -
  have len: "length bs < NBUF + 1"
    using assms(2,3) distinct_card [of bs] by (simp add: lru_def)
  have "find (\<lambda>b. b_dev (bufs s b) = dev \<and> b_blockno (bufs s b) = bno) bs = Some b"
  proof (cases "find (\<lambda>b. b_dev (bufs s b) = dev \<and> b_blockno (bufs s b) = bno) bs")
    case None
    then show ?thesis using assms(3,4) by (auto simp: find_None_iff caches_def)
  next
    case (Some c)
    then have "caches dev (bufs s) c bno" using assms(3) by (auto simp: find_Some_iff caches_def)
    then show ?thesis using Some assms(5) by simp
  qed
  then have "find_cached (NBUF + 1) (b_next s) (bufs s) dev bno (b_next s Head) = Some b"
    using find_cached_list [OF _ len] assms(2) by (simp add: lru_def)
  then show ?thesis
    using assms(1,6)
    by (simp add: bget_def prog_simps unlocked_def upd_buf_def acquiresleep_free)
qed

text \<open>Otherwise the unused buffer is taken that is the last one in the list.\<close>

lemma bget_recycle:
  assumes "unlocked p s" and "lru s bs" and "set bs = {..<NBUF}" and "\<And>c. \<not> caches dev (bufs s) c bno"
    and "find (\<lambda>b. b_refcnt (bufs s b) = 0) (rev bs) = Some b" and "sl_locked (sleeplocks s (BufLock b)) = 0"
  shows "bget dev bno s = Ret b (s\<lparr>bufs := (bufs s)(b := (bufs s b)\<lparr>b_dev := dev, b_blockno := bno, b_valid := 0, b_refcnt := 1\<rparr>),
     sleeplocks := (sleeplocks s)(BufLock b := (sleeplocks s (BufLock b))\<lparr>sl_locked := 1, sl_pid := p_pid (ptable s p)\<rparr>)\<rparr>)"
proof -
  have len: "length bs < NBUF + 1" "length (rev bs) < NBUF + 1"
    using assms(2,3) distinct_card [of bs] by (simp_all add: lru_def)
  have "find (\<lambda>b. b_dev (bufs s b) = dev \<and> b_blockno (bufs s b) = bno) bs = None"
    using assms(3,4) by (auto simp: find_None_iff caches_def)
  then have "find_cached (NBUF + 1) (b_next s) (bufs s) dev bno (b_next s Head) = None"
    using find_cached_list [OF _ len(1)] assms(2) by (simp add: lru_def)
  moreover have "find_unused (NBUF + 1) (b_prev s) (bufs s) (b_prev s Head) = Some b"
    using find_unused_list [OF _ len(2)] assms(2,5) by (simp add: lru_def)
  ultimately show ?thesis
    using assms(1,6) by (simp add: bget_def prog_simps unlocked_def upd_buf_def acquiresleep_free)
qed

text \<open>A change of one buffer is a change of its block.\<close>

lemma cache_update:
  assumes c: "cache dev p s V R L" and b: "caches dev (bufs s) b bno"
    and bufs: "bufs t = (bufs s)(b := q)" and b': "b_dev q = dev" "b_blockno q = bno"
    and slk: "sleeplocks t = (sleeplocks s)(BufLock b := l)"
    and u: "unlocked p t" "p_pid (ptable t p) = p_pid (ptable s p)"
    and lru: "\<exists>bs. lru t bs \<and> set bs = {..<NBUF}"
    and ok: "buf_ok dev (p_pid (ptable s p)) V' R' L' q l"
    and off: "\<And>x. x \<noteq> bno \<Longrightarrow> V' x = V x \<and> R' x = R x \<and> (x \<in> L' \<longleftrightarrow> x \<in> L) \<and> disk_img t x = disk_img s x"
    and at: "R' bno = 0 \<Longrightarrow> V' bno = disk_img t bno \<and> bno \<notin> L'"
  shows "cache dev p t V' R' L'"
proof -
  have id: "caches dev (bufs t) = caches dev (bufs s)"
    using b b' by (auto simp: caches_def bufs fun_eq_iff)
  have "buf_ok dev (p_pid (ptable t p)) V' R' L' (bufs t d) (sleeplocks t (BufLock d))" if "d < NBUF" for d
  proof (cases "d = b")
    case True
    then show ?thesis using ok u by (simp add: bufs slk)
  next
    case False
    then have "b_dev (bufs s d) = dev \<Longrightarrow> b_blockno (bufs s d) \<noteq> bno"
      using c b that by (auto simp: cache_def caches_def)
    moreover have "buf_ok dev (p_pid (ptable s p)) V R L (bufs s d) (sleeplocks s (BufLock d))"
      using c that by (simp add: cache_def)
    ultimately show ?thesis using off [of "b_blockno (bufs s d)"] False u(2)
      by (auto simp: buf_ok_def bufs slk split: if_splits)
  qed
  moreover have "\<exists>d. caches dev (bufs s) d x" if "R' x > 0" for x
    using that off [of x] c b by (cases "x = bno") (auto simp: cache_def)
  moreover have "V' x = disk_img t x \<and> x \<notin> L'" if "R' x = 0" for x
    using that off [of x] at c by (cases "x = bno") (auto simp: cache_def)
  ultimately show ?thesis using c u lru by (simp add: cache_def id)
qed

lemma cache_D:
  assumes "cache dev p s V R L"
  shows "unlocked p s" and "dev \<noteq> 0" and "\<And>b c bno. caches dev (bufs s) b bno \<Longrightarrow> caches dev (bufs s) c bno \<Longrightarrow> b = c"
    and "\<And>bno. R bno = 0 \<Longrightarrow> V bno = disk_img s bno \<and> bno \<notin> L" and "\<And>bno. R bno > 0 \<Longrightarrow> \<exists>b. caches dev (bufs s) b bno"
    and "\<exists>bs. lru s bs \<and> set bs = {..<NBUF}"
  using assms unfolding cache_def by blast+

lemma cache_buf:
  assumes "cache dev p s V R L" and "caches dev (bufs s) b bno"
  shows "b_valid (bufs s b) \<noteq> 0" and "b_data (bufs s b) = V bno" and "unat (b_refcnt (bufs s b)) = R bno"
    and "b_dev (bufs s b) = dev" and "b_blockno (bufs s b) = bno"
    and "bno \<notin> L \<Longrightarrow> sl_locked (sleeplocks s (BufLock b)) = 0"
    and "bno \<in> L \<Longrightarrow> sl_locked (sleeplocks s (BufLock b)) \<noteq> 0 \<and> sl_pid (sleeplocks s (BufLock b)) = p_pid (ptable s p)"
proof -
  have "buf_ok dev (p_pid (ptable s p)) V R L (bufs s b) (sleeplocks s (BufLock b))" "b_dev (bufs s b) = dev"
    "b_blockno (bufs s b) = bno" "dev \<noteq> 0"
    using assms by (auto simp: cache_def caches_def)
  then show "b_valid (bufs s b) \<noteq> 0" "b_data (bufs s b) = V bno" "unat (b_refcnt (bufs s b)) = R bno"
    "b_dev (bufs s b) = dev" "b_blockno (bufs s b) = bno"
    "bno \<notin> L \<Longrightarrow> sl_locked (sleeplocks s (BufLock b)) = 0"
    "bno \<in> L \<Longrightarrow> sl_locked (sleeplocks s (BufLock b)) \<noteq> 0 \<and> sl_pid (sleeplocks s (BufLock b)) = p_pid (ptable s p)"
    by (auto simp: buf_ok_def split: if_splits)
qed

lemma unused_buffer:
  assumes c: "cache dev p s V R L" and few: "card {x. 0 < R x} < NBUF" and bs: "lru s bs" "set bs = {..<NBUF}"
  obtains b where "find (\<lambda>b. b_refcnt (bufs s b) = 0) (rev bs) = Some b" and "b < NBUF" and "b_refcnt (bufs s b) = 0"
proof (cases "find (\<lambda>b. b_refcnt (bufs s b) = 0) (rev bs)")
  case (Some b)
  then have "b \<in> set (rev bs)" "b_refcnt (bufs s b) = 0" unfolding find_Some_iff using nth_mem by blast+
  then show ?thesis using that Some bs(2) by auto
next
  case None
  then have used: "b_refcnt (bufs s b) \<noteq> 0" if "b < NBUF" for b
    using that bs(2) by (auto simp: find_None_iff)
  have cb: "caches dev (bufs s) b (b_blockno (bufs s b))" if "b < NBUF" for b
    using c used [OF that] that by (auto simp: cache_def caches_def buf_ok_def split: if_splits)
  have "inj_on (\<lambda>b. b_blockno (bufs s b)) {..<NBUF}"
    using cache_D(3) [OF c] cb by (intro inj_onI) (metis lessThan_iff)
  then have "card ((\<lambda>b. b_blockno (bufs s b)) ` {..<NBUF}) = NBUF" by (simp add: card_image)
  moreover have "0 < R (b_blockno (bufs s b))" if "b < NBUF" for b
    using cache_buf(3) [OF c cb [OF that]] used [OF that] by (metis gr0I unat_eq_zero)
  then have "(\<lambda>b. b_blockno (bufs s b)) ` {..<NBUF} \<subseteq> {x. 0 < R x}" by auto
  ultimately have "NBUF \<le> card {x. 0 < R x}" by (metis card_mono finite)
  then show ?thesis using few by simp
qed

text \<open>
  \<open>bio_step s t\<close>: what an operation leaves alone besides: the state of the layers above, and the
  buffers that hold a referenced block.
\<close>

definition bio_step :: "u32 \<Rightarrow> (u32 \<Rightarrow> nat) \<Rightarrow> 'z kbio_scheme \<Rightarrow> 'z kbio_scheme \<Rightarrow> bool" where
  "bio_step dev R s t \<longleftrightarrow> kbio.more t = kbio.more s \<and>
     (\<forall>b x. caches dev (bufs s) b x \<and> 0 < R x \<longrightarrow> caches dev (bufs t) b x)"

lemma unlocked_cong: "held t = held s \<Longrightarrow> cpu_proc t = cpu_proc s \<Longrightarrow> unlocked p t = unlocked p s"
  by (simp add: unlocked_def)

lemma unat_incr: "unat x < 4294967295 \<Longrightarrow> unat ((x :: u32) + 1) = Suc (unat x)"
  by (simp add: unat_add_no_wrap)

lemma bread_hit:
  assumes c: "cache dev p s V R L" and b: "caches dev (bufs s) b bno" and "bno \<notin> L" and "R bno < 4294967295"
  obtains t where "bread dev bno s = Ret b t" and "cache dev p t V (R(bno := Suc (R bno))) (insert bno L)"
    and "caches dev (bufs t) b bno" and "bio_step dev R s t" and "disk_img t = disk_img s" and "wtrace t = wtrace s"
proof -
  obtain bs where bs: "lru s bs" "set bs = {..<NBUF}" using c by (auto simp: cache_def)
  let ?t = "s\<lparr>bufs := (bufs s)(b := (bufs s b)\<lparr>b_refcnt := b_refcnt (bufs s b) + 1\<rparr>),
     sleeplocks := (sleeplocks s)(BufLock b := (sleeplocks s (BufLock b))\<lparr>sl_locked := 1, sl_pid := p_pid (ptable s p)\<rparr>)\<rparr>"
  note q = cache_buf [OF c b]
  have "bget dev bno s = Ret b ?t"
    by (rule bget_cached [OF cache_D(1) [OF c] bs b cache_D(3) [OF c _ b] q(6) [OF assms(3)]])
  then have "bread dev bno s = Ret b ?t" using q(1) by (simp add: bread_def prog_simps get_buf_def)
  moreover have "cache dev p ?t V (R(bno := Suc (R bno))) (insert bno L)"
  proof (rule cache_update [OF c b])
    show "buf_ok dev (p_pid (ptable s p)) V (R(bno := Suc (R bno))) (insert bno L)
      ((bufs s b)\<lparr>b_refcnt := b_refcnt (bufs s b) + 1\<rparr>)
      ((sleeplocks s (BufLock b))\<lparr>sl_locked := 1, sl_pid := p_pid (ptable s p)\<rparr>)"
      using q assms(4) cache_D(2) [OF c] by (simp add: buf_ok_def unat_incr)
  qed (use q cache_D(1,6) [OF c] in \<open>auto simp: unlocked_def lru_def\<close>)
  moreover have "caches dev (bufs ?t) b bno" using b by (simp add: caches_def)
  moreover have "bio_step dev R s ?t" using b by (auto simp: bio_step_def caches_def)
  ultimately show ?thesis by (rule that) simp_all
qed

lemma bread_miss:
  assumes c: "cache dev p s V R L" and nb: "\<And>b. \<not> caches dev (bufs s) b bno" and few: "card {x. 0 < R x} < NBUF"
  obtains b t where "bread dev bno s = Ret b t" and "cache dev p t V (R(bno := Suc (R bno))) (insert bno L)"
    and "caches dev (bufs t) b bno" and "bio_step dev R s t" and "disk_img t = disk_img s" and "wtrace t = wtrace s"
proof -
  obtain bs where bs: "lru s bs" "set bs = {..<NBUF}" using c by (auto simp: cache_def)
  obtain b where b: "find (\<lambda>b. b_refcnt (bufs s b) = 0) (rev bs) = Some b" "b < NBUF" "b_refcnt (bufs s b) = 0"
    by (rule unused_buffer [OF c few bs])
  have okb: "buf_ok dev (p_pid (ptable s p)) V R L (bufs s b) (sleeplocks s (BufLock b))"
    using c b(2) by (simp add: cache_def)
  have free: "sl_locked (sleeplocks s (BufLock b)) = 0"
    using okb b(3) cache_D(4) [OF c] by (auto simp: buf_ok_def split: if_splits)
  have old: "\<not> 0 < R x" if "caches dev (bufs s) b x" for x
    using cache_buf(3) [OF c that] b(3) by simp
  have r0: "R bno = 0" using cache_D(5) [OF c] nb by blast
  let ?q = "(bufs s b)\<lparr>b_dev := dev, b_blockno := bno, b_refcnt := 1, b_data := disk_img s bno, b_valid := 1\<rparr>"
  let ?l = "(sleeplocks s (BufLock b))\<lparr>sl_locked := 1, sl_pid := p_pid (ptable s p)\<rparr>"
  let ?t = "s\<lparr>sleeplocks := (sleeplocks s)(BufLock b := ?l), bufs := (bufs s)(b := ?q)\<rparr>"
  let ?R = "R(bno := Suc (R bno))"
  have run: "bread dev bno s = Ret b ?t"
    using bget_recycle [OF cache_D(1) [OF c] bs nb b(1) free]
    by (simp add: bread_def disk_rw_def upd_buf_def prog_simps get_buf_def)
  have id: "caches dev (bufs ?t) d x \<longleftrightarrow> (if d = b then x = bno else caches dev (bufs s) d x)" for d x
    using b(2) by (auto simp: caches_def)
  have "buf_ok dev (p_pid (ptable s p)) V ?R (insert bno L) (bufs ?t d) (sleeplocks ?t (BufLock d))" if "d < NBUF" for d
  proof (cases "d = b")
    case True
    then show ?thesis using cache_D(2,4) [OF c] r0 by (simp add: buf_ok_def)
  next
    case False
    have "b_dev (bufs s d) = dev \<Longrightarrow> b_blockno (bufs s d) \<noteq> bno" using nb [of d] that by (auto simp: caches_def)
    moreover have "buf_ok dev (p_pid (ptable s p)) V R L (bufs s d) (sleeplocks s (BufLock d))"
      using c that by (simp add: cache_def)
    ultimately show ?thesis using False by (auto simp: buf_ok_def split: if_splits)
  qed
  moreover have "\<exists>d. caches dev (bufs ?t) d x" if "?R x > 0" for x
    using that cache_D(5) [OF c, of x] old [of x] unfolding id by (cases "x = bno") (auto, metis)
  moreover have "V x = disk_img s x \<and> x \<notin> insert bno L" if "?R x = 0" for x
    using that cache_D(4) [OF c, of x] by (cases "x = bno") auto
  moreover have "d = e" if "caches dev (bufs ?t) d x \<and> caches dev (bufs ?t) e x" for d e x
    using that cache_D(3) [OF c, of d x e] nb unfolding id by (auto split: if_splits)
  ultimately have "cache dev p ?t V ?R (insert bno L)"
    using cache_D(1,2) [OF c] bs unfolding cache_def by (auto simp: unlocked_def lru_def)
  moreover have "bio_step dev R s ?t" using old unfolding bio_step_def id by (auto simp: caches_def)
  moreover have "caches dev (bufs ?t) b bno" unfolding id by simp
  ultimately show ?thesis by (intro that [OF run]) simp_all
qed

lemma bread_cache:
  assumes c: "cache dev p s V R L" and "bno \<notin> L" and "R bno < 4294967295"
    and few: "R bno = 0 \<Longrightarrow> card {x. 0 < R x} < NBUF"
  obtains b t where "bread dev bno s = Ret b t" and "cache dev p t V (R(bno := Suc (R bno))) (insert bno L)"
    and "caches dev (bufs t) b bno" and "bio_step dev R s t" and "disk_img t = disk_img s" and "wtrace t = wtrace s"
proof (cases "\<exists>b. caches dev (bufs s) b bno")
  case True
  then show ?thesis using bread_hit [OF c _ assms(2,3)] that by metis
next
  case False
  then have "R bno = 0" using cache_D(5) [OF c] by blast
  then show ?thesis using bread_miss [OF c _ few] False that by metis
qed

lemma get_data_cache: "cache dev p s V R L \<Longrightarrow> caches dev (bufs s) b bno \<Longrightarrow> get_data b s = Ret (V bno) s"
  by (simp add: get_data_def prog_simps cache_buf(2))

lemma set_data_cache:
  assumes c: "cache dev p s V R L" and b: "caches dev (bufs s) b bno" and "0 < R bno"
  obtains t where "set_data b d s = Ret () t" and "cache dev p t (V(bno := d)) R L"
    and "bio_step dev R s t" and "disk_img t = disk_img s" and "wtrace t = wtrace s"
proof -
  let ?t = "s\<lparr>bufs := (bufs s)(b := (bufs s b)\<lparr>b_data := d\<rparr>)\<rparr>"
  note q = cache_buf [OF c b]
  have "set_data b d s = Ret () ?t" by (simp add: set_data_def upd_buf_def prog_simps)
  moreover have "cache dev p ?t (V(bno := d)) R L"
  proof (rule cache_update [OF c b, where q = "(bufs s b)\<lparr>b_data := d\<rparr>" and l = "sleeplocks s (BufLock b)"])
    show "buf_ok dev (p_pid (ptable s p)) (V(bno := d)) R L ((bufs s b)\<lparr>b_data := d\<rparr>) (sleeplocks s (BufLock b))"
      using q cache_D(2) [OF c] by (cases "bno \<in> L") (simp_all add: buf_ok_def)
  qed (use q cache_D(1,6) [OF c] assms(3) in \<open>auto simp: unlocked_def lru_def\<close>)
  moreover have "bio_step dev R s ?t" by (auto simp: bio_step_def caches_def)
  ultimately show ?thesis by (rule that) simp_all
qed

lemma bwrite_cache:
  assumes c: "cache dev p s V R L" and b: "caches dev (bufs s) b bno" and l: "bno \<in> L"
  obtains t where "bwrite b s = Ret () t" and "cache dev p t V R L" and "bio_step dev R s t"
    and "disk_img t = (disk_img s)(bno := V bno)" and "wtrace t = wtrace s @ [(bno, V bno)]"
proof -
  let ?t = "s\<lparr>disk_img := (disk_img s)(bno := V bno), wtrace := wtrace s @ [(bno, V bno)]\<rparr>"
  note q = cache_buf [OF c b]
  have "bwrite b s = Ret () ?t"
    using cache_D(1) [OF c] q(2,5) q(7) [OF l]
    by (simp add: bwrite_def disk_rw_def get_buf_def prog_simps unlocked_def holdingsleep_eq)
  moreover have "cache dev p ?t V R L"
  proof (rule cache_update [OF c b, where q = "bufs s b" and l = "sleeplocks s (BufLock b)"])
    show "buf_ok dev (p_pid (ptable s p)) V R L (bufs s b) (sleeplocks s (BufLock b))"
      using q cache_D(2) [OF c] by (cases "bno \<in> L") (simp_all add: buf_ok_def)
  qed (use q cache_D(1,6) [OF c] cache_D(4) [OF c] l in \<open>auto simp: unlocked_def lru_def\<close>)
  moreover have "bio_step dev R s ?t" by (auto simp: bio_step_def caches_def)
  ultimately show ?thesis by (rule that) simp_all
qed

lemma unat_decr: "0 < unat x \<Longrightarrow> unat ((x :: u32) - 1) = unat x - 1"
  by (metis unat_gt_0 unat_minus_one)

lemma brelse_cache:
  assumes c: "cache dev p s V R L" and b: "caches dev (bufs s) b bno" and l: "bno \<in> L"
    and clean: "R bno = 1 \<Longrightarrow> V bno = disk_img s bno"
  obtains t where "brelse b s = Ret () t" and "cache dev p t V (R(bno := R bno - 1)) (L - {bno})"
    and "bio_step dev (R(bno := R bno - 1)) s t" and "disk_img t = disk_img s" and "wtrace t = wtrace s"
proof -
  note q = cache_buf [OF c b]
  note u = cache_D(1) [OF c]
  have pos: "0 < R bno" using cache_D(4) [OF c] l by auto
  then have clean': "R bno \<le> Suc 0 \<Longrightarrow> V bno = disk_img s bno" using clean by simp
  obtain bs where bs: "lru s bs" "set bs = {..<NBUF}" using c by (auto simp: cache_def)
  then obtain xs ys where split: "bs = xs @ b # ys" using b by (metis caches_def lessThan_iff split_list)
  let ?l = "(sleeplocks s (BufLock b))\<lparr>sl_locked := 0, sl_pid := 0\<rparr>"
  let ?q = "(bufs s b)\<lparr>b_refcnt := b_refcnt (bufs s b) - 1\<rparr>"
  let ?s1 = "s\<lparr>sleeplocks := (sleeplocks s)(BufLock b := ?l),
    ptable := woken_table (ChanSleepLock (BufLock b)) (cpu_proc s) (ticks s) (ptable s),
    held := insert BcacheLock (held s), bufs := (bufs s)(b := ?q)\<rparr>"
  have "lru ?s1 (xs @ b # ys)" using bs(1) split by (simp add: lru_def)
  then obtain nx pv where re: "andthen (unlink b) (link_front b) ?s1 = Ret () (?s1\<lparr>b_next := nx, b_prev := pv\<rparr>)"
    "lru (?s1\<lparr>b_next := nx, b_prev := pv\<rparr>) (b # xs @ ys)" by (rule relink)
  define t where "t = (if b_refcnt (bufs s b) - 1 = 0 then ?s1\<lparr>b_next := nx, b_prev := pv\<rparr> else ?s1)\<lparr>held := held s\<rparr>"
  have "brelse b s = Ret () t"
  proof (cases "b_refcnt (bufs s b) = 1")
    case True
    then show ?thesis using u q(7) [OF l] re(1)
      by (simp add: brelse_def prog_simps unlocked_def holdingsleep_eq releasesleep_eq upd_buf_def get_buf_def t_def)
  next
    case False
    then show ?thesis using u q(7) [OF l]
      by (simp add: brelse_def prog_simps unlocked_def holdingsleep_eq releasesleep_eq upd_buf_def get_buf_def t_def)
  qed
  moreover have "cache dev p t V (R(bno := R bno - 1)) (L - {bno})"
  proof (rule cache_update [OF c b, where q = ?q and l = ?l])
    show "buf_ok dev (p_pid (ptable s p)) V (R(bno := R bno - 1)) (L - {bno}) ?q ?l"
      using q cache_D(2) [OF c] pos by (simp add: buf_ok_def unat_decr)
    have "lru t (b # xs @ ys) \<or> lru t bs" using re(2) bs(1) by (simp add: t_def lru_def)
    then show "\<exists>bs. lru t bs \<and> set bs = {..<NBUF}" using bs(2) split by auto
  qed (use q u clean' in \<open>auto simp: unlocked_def t_def\<close>)
  moreover have "bio_step dev (R(bno := R bno - 1)) s t" by (auto simp: bio_step_def caches_def t_def)
  ultimately show ?thesis by (rule that) (simp_all add: t_def)
qed

lemma bunpin_cache:
  assumes c: "cache dev p s V R L" and b: "caches dev (bufs s) b bno" and r: "1 < R bno"
  obtains t where "bunpin b s = Ret () t" and "cache dev p t V (R(bno := R bno - 1)) L"
    and "bio_step dev R s t" and "disk_img t = disk_img s" and "wtrace t = wtrace s"
proof -
  let ?q = "(bufs s b)\<lparr>b_refcnt := b_refcnt (bufs s b) - 1\<rparr>"
  let ?t = "s\<lparr>bufs := (bufs s)(b := ?q)\<rparr>"
  note q = cache_buf [OF c b]
  have "bunpin b s = Ret () ?t"
    using cache_D(1) [OF c] by (simp add: bunpin_def with_lock_apply upd_buf_def prog_simps unlocked_def)
  moreover have "cache dev p ?t V (R(bno := R bno - 1)) L"
  proof (rule cache_update [OF c b, where q = ?q and l = "sleeplocks s (BufLock b)"])
    show "buf_ok dev (p_pid (ptable s p)) V (R(bno := R bno - 1)) L ?q (sleeplocks s (BufLock b))"
      using q cache_D(2) [OF c] r by (cases "bno \<in> L") (simp_all add: buf_ok_def unat_decr)
  qed (use q cache_D(1,6) [OF c] r in \<open>auto simp: unlocked_def lru_def\<close>)
  moreover have "bio_step dev R s ?t" by (auto simp: bio_step_def caches_def)
  ultimately show ?thesis by (rule that) simp_all
qed

lemma bpin_cache:
  assumes c: "cache dev p s V R L" and b: "caches dev (bufs s) b bno" and r: "0 < R bno" "R bno < 4294967295"
  obtains t where "bpin b s = Ret () t" and "cache dev p t V (R(bno := Suc (R bno))) L"
    and "bio_step dev R s t" and "disk_img t = disk_img s" and "wtrace t = wtrace s"
proof -
  let ?q = "(bufs s b)\<lparr>b_refcnt := b_refcnt (bufs s b) + 1\<rparr>"
  let ?t = "s\<lparr>bufs := (bufs s)(b := ?q)\<rparr>"
  note q = cache_buf [OF c b]
  have "bpin b s = Ret () ?t"
    using cache_D(1) [OF c] by (simp add: bpin_def with_lock_apply upd_buf_def prog_simps unlocked_def)
  moreover have "cache dev p ?t V (R(bno := Suc (R bno))) L"
  proof (rule cache_update [OF c b, where q = ?q and l = "sleeplocks s (BufLock b)"])
    show "buf_ok dev (p_pid (ptable s p)) V (R(bno := Suc (R bno))) L ?q (sleeplocks s (BufLock b))"
      using q cache_D(2) [OF c] r by (cases "bno \<in> L") (simp_all add: buf_ok_def unat_incr)
  qed (use q cache_D(1,6) [OF c] r in \<open>auto simp: unlocked_def lru_def\<close>)
  moreover have "bio_step dev R s ?t" by (auto simp: bio_step_def caches_def)
  ultimately show ?thesis by (rule that) simp_all
qed

end
