(* ===== verification/Crash.thy ===== *)
theory Crash
  imports Bcache
begin

text \<open>
  Crash safety of the log of kernel/log.c. The writes of a commit and of a recovery are computed as
  lists; a crash leaves the disk with a prefix of them. The results are that recovery after a crash
  inside \<open>commit\<close> finds either the old or the new contents of all blocks, and that a crash inside the
  recovery itself does no harm.
\<close>

section \<open>Writes to the disk\<close>

primrec apply_writes :: "(u32 \<times> bytes) list \<Rightarrow> (u32 \<Rightarrow> bytes) \<Rightarrow> u32 \<Rightarrow> bytes" where
  "apply_writes [] d = d"
| "apply_writes (w # ws) d = apply_writes ws (d(fst w := snd w))"

lemma apply_writes_append [simp]: "apply_writes (xs @ ys) d = apply_writes ys (apply_writes xs d)"
  by (induction xs arbitrary: d) auto

lemma apply_writes_other: "x \<notin> fst ` set ws \<Longrightarrow> apply_writes ws d x = d x"
  by (induction ws arbitrary: d) auto

text \<open>Where every write to a block has the same contents.\<close>

lemma apply_writes_same:
  "x \<in> fst ` set ws \<Longrightarrow> (\<And>v. (x, v) \<in> set ws \<Longrightarrow> v = c) \<Longrightarrow> apply_writes ws d x = c"
proof (induction ws arbitrary: d)
  case Nil
  then show ?case by simp
next
  case (Cons w ws)
  show ?case
  proof (cases "x \<in> fst ` set ws")
    case True
    then show ?thesis using Cons by simp
  next
    case False
    then have "fst w = x" using Cons.prems(1) by simp
    then have "snd w = c" using Cons.prems(2) [of "snd w"] by (metis list.set_intros(1) prod.collapse)
    then show ?thesis using False \<open>fst w = x\<close> by (simp add: apply_writes_other)
  qed
qed

section \<open>The header\<close>

text \<open>The blocks of the log behind its header, and the header as a list of assignments.\<close>

definition log_blk :: "u32 \<Rightarrow> nat \<Rightarrow> u32" where
  "log_blk st i = st + of_nat i + 1"

definition head_bytes :: "nat \<Rightarrow> (nat \<Rightarrow> u32) \<Rightarrow> bytes \<Rightarrow> bytes" where
  "head_bytes n blk d = fold (\<lambda>i d. put32 d (4 + 4 * i) (blk i)) [0..<n] (put32 d 0 (of_nat n))"

definition head_n :: "bytes \<Rightarrow> nat" where
  "head_n h = nat (sint (get32 h 0))"

definition head_blk :: "bytes \<Rightarrow> nat \<Rightarrow> u32" where
  "head_blk h i = get32 h (4 + 4 * i)"

lemma head_bytes_Suc: 
  "fold (\<lambda>i d. put32 d (4 + 4 * i) (blk i)) [0..<Suc k] e =
   put32 (fold (\<lambda>i d. put32 d (4 + 4 * i) (blk i)) [0..<k] e) (4 + 4 * k) (blk k)"
  by simp

lemma get_head_n: "get32 (fold (\<lambda>i d. put32 d (4 + 4 * i) (blk i)) [0..<k] e) 0 = get32 e 0"
  by (induction k) (simp_all add: get_put_le_other del: upt_Suc add: head_bytes_Suc)

lemma nat_sint_of_nat: "n < 2147483648 \<Longrightarrow> nat (sint (of_nat n :: u32)) = n"
  by (simp add: signed_of_nat signed_take_bit_int_eq_self)

lemma head_n_bytes: "n < 2147483648 \<Longrightarrow> head_n (head_bytes n blk d) = n"
  by (simp add: head_n_def head_bytes_def get_head_n nat_sint_of_nat)

lemma head_blk_bytes: "i < n \<Longrightarrow> head_blk (head_bytes n blk d) i = blk i"
proof -
  have "i < k \<Longrightarrow> get32 (fold (\<lambda>i d. put32 d (4 + 4 * i) (blk i)) [0..<k] e) (4 + 4 * i) = blk i" for k e
  proof (induction k)
    case (Suc k)
    then show ?case
      by (cases "i = k") (simp_all add: head_bytes_Suc get_put_le_other del: upt_Suc)
  qed simp
  then show "i < n \<Longrightarrow> ?thesis" by (simp add: head_blk_def head_bytes_def)
qed

section \<open>The steps of a commit\<close>

text \<open>The in-memory log has \<open>n\<close> blocks \<open>blk 0\<close>, \<open>blk 1\<close>, ...; no operation of the cache changes it.\<close>

definition log_at :: "u32 \<Rightarrow> u32 \<Rightarrow> nat \<Rightarrow> (nat \<Rightarrow> u32) \<Rightarrow> 'z klog_scheme \<Rightarrow> bool" where
  "log_at dev st n blk s \<longleftrightarrow> log_dev s = dev \<and> log_start s = st \<and> n < 2147483648 \<and> lh_n s = of_nat n \<and>
     (\<forall>i < n. lh_block s i = blk i)"

lemma log_fields_more:
  fixes s t :: "'z klog_scheme"
  assumes "kbio.more t = kbio.more s"
  shows "log_dev t = log_dev s" "log_start t = log_start s" "lh_n t = lh_n s" "lh_block t = lh_block s"
  using assms by (cases s; cases t; simp)+

lemma log_at_more: "kbio.more t = kbio.more s \<Longrightarrow> log_at dev st n blk t = log_at dev st n blk s"
  using log_fields_more [of t s] by (simp add: log_at_def)

lemma bio_step_caches: "bio_step dev R s t \<Longrightarrow> caches dev (bufs s) b x \<Longrightarrow> 0 < R x \<Longrightarrow> caches dev (bufs t) b x"
  by (auto simp: bio_step_def)

lemma bio_step_more: "bio_step dev R s t \<Longrightarrow> kbio.more t = kbio.more s"
  by (simp add: bio_step_def)

text \<open>The first two lines of both loops: a block of the log and its home block are read.\<close>

lemma bread_two:
  fixes s :: "'z kbio_scheme"
  assumes c: "cache dev p s V R {}" and l: "R l = 0" and d: "R d < 4294967295" "d \<noteq> l"
    and few: "card {x. 0 < R x} + 1 < NBUF \<or> 0 < R d \<and> card {x. 0 < R x} < NBUF"
  obtains bl t1 bd t where "bread dev l s = Ret bl t1" and "bread dev d t1 = Ret bd t"
    and "cache dev p t V (R(l := 1, d := Suc (R d))) {l, d}"
    and "caches dev (bufs t) bl l" and "caches dev (bufs t) bd d"
    and "kbio.more t1 = kbio.more s" and "kbio.more t = kbio.more s"
    and "disk_img t = disk_img s" and "wtrace t = wtrace s"
proof -
  have few1: "card {x. 0 < R x} < NBUF" and r1: "R l < 4294967295" using few l by auto
  obtain bl t1 where 1: "bread dev l s = Ret bl t1" "cache dev p t1 V (R(l := Suc (R l))) {l}"
    "caches dev (bufs t1) bl l" "bio_step dev R s t1" "disk_img t1 = disk_img s" "wtrace t1 = wtrace s"
    by (rule bread_cache [OF c _ r1 few1]) blast+
  let ?R = "R(l := Suc (R l))"
  have "{x. 0 < ?R x} = insert l {x. 0 < R x}" by auto
  then have "card {x. 0 < ?R x} = Suc (card {x. 0 < R x})" using l by simp
  then have few2: "?R d = 0 \<Longrightarrow> card {x. 0 < ?R x} < NBUF" and d': "d \<notin> {l}" "?R d < 4294967295"
    using few d by auto
  obtain bd t where 2: "bread dev d t1 = Ret bd t" "cache dev p t V (?R(d := Suc (?R d))) (insert d {l})"
    "caches dev (bufs t) bd d" "bio_step dev ?R t1 t" "disk_img t = disk_img t1" "wtrace t = wtrace t1"
    by (rule bread_cache [OF 1(2) d' few2]) blast+
  have "caches dev (bufs t) bl l" using bio_step_caches [OF 2(4) 1(3)] by simp
  moreover have "cache dev p t V (R(l := 1, d := Suc (R d))) {l, d}"
    using 2(2) l d(2) by (simp add: insert_commute)
  ultimately show ?thesis
    using 1 2 bio_step_more [OF 1(4)] bio_step_more [OF 2(4)] by (intro that [OF 1(1) 2(1)]) simp_all
qed

text \<open>Storing and writing out a buffer, and releasing two buffers.\<close>

lemma set_bwrite_cache:
  assumes c: "cache dev p s V R L" and b: "caches dev (bufs s) b x" and x: "0 < R x" "x \<in> L"
  obtains s' t where "set_data b d s = Ret () s'" and "bwrite b s' = Ret () t" and "cache dev p t (V(x := d)) R L"
    and "bio_step dev R s t" and "disk_img t = (disk_img s)(x := d)" and "wtrace t = wtrace s @ [(x, d)]"
proof -
  obtain s' where 1: "set_data b d s = Ret () s'" "cache dev p s' (V(x := d)) R L"
    "bio_step dev R s s'" "disk_img s' = disk_img s" "wtrace s' = wtrace s"
    by (rule set_data_cache [OF c b x(1)])
  obtain t where "bwrite b s' = Ret () t" "cache dev p t (V(x := d)) R L" "bio_step dev R s' t"
    "disk_img t = (disk_img s')(x := (V(x := d)) x)" "wtrace t = wtrace s' @ [(x, (V(x := d)) x)]"
    by (rule bwrite_cache [OF 1(2) bio_step_caches [OF 1(3) b x(1)] x(2)])
  with 1 show ?thesis by (intro that [of s' t]) (auto simp: bio_step_def)
qed

lemma brelse_two:
  assumes c: "cache dev p s V R {x, y}" and b: "caches dev (bufs s) b x" "caches dev (bufs s) b' y" and ne: "x \<noteq> y"
    and clean: "R x = 1 \<Longrightarrow> V x = disk_img s x" "R y = 1 \<Longrightarrow> V y = disk_img s y"
  obtains s' t where "brelse b s = Ret () s'" and "brelse b' s' = Ret () t"
    and "cache dev p t V (R(x := R x - 1, y := R y - 1)) {}" and "kbio.more t = kbio.more s"
    and "disk_img t = disk_img s" and "wtrace t = wtrace s"
proof -
  obtain s' where 1: "brelse b s = Ret () s'" "cache dev p s' V (R(x := R x - 1)) ({x, y} - {x})"
    "bio_step dev (R(x := R x - 1)) s s'" "disk_img s' = disk_img s" "wtrace s' = wtrace s"
    by (rule brelse_cache [OF c b(1) _ clean(1)]) simp_all
  have ry: "0 < R y" using cache_D(4) [OF c, of y] by auto
  with ne have b': "caches dev (bufs s') b' y" using bio_step_caches [OF 1(3) b(2)] by simp
  obtain t where 2: "brelse b' s' = Ret () t"
    "cache dev p t V (R(x := R x - 1, y := (R(x := R x - 1)) y - 1)) ({x, y} - {x} - {y})"
    "bio_step dev (R(x := R x - 1, y := (R(x := R x - 1)) y - 1)) s' t" "disk_img t = disk_img s'" "wtrace t = wtrace s'"
    by (rule brelse_cache [OF 1(2) b']) (use ne clean 1(4) in simp_all)
  have "{x, y} - {x} - {y} = {}" by auto
  with 2(2) ne have "cache dev p t V (R(x := R x - 1, y := R y - 1)) {}" by simp
  then show ?thesis
    using 1 2 bio_step_more [OF 1(3)] bio_step_more [OF 2(3)] by (intro that [OF 1(1) 2(1)]) simp_all
qed

lemma write_log_block_cache:
  fixes s :: "'z klog_scheme"
  assumes c: "cache dev p s V R {}" and lg: "log_at dev st n blk s" and i: "i < n"
    and l: "R (log_blk st i) = 0" and d: "0 < R (blk i)" "R (blk i) < 4294967295"
    and few: "card {x. 0 < R x} < NBUF"
  obtains t where "write_log_block i s = Ret () t"
    and "cache dev p t (V(log_blk st i := V (blk i))) R {}" and "kbio.more t = kbio.more s"
    and "disk_img t = (disk_img s)(log_blk st i := V (blk i))" and "wtrace t = wtrace s @ [(log_blk st i, V (blk i))]"
proof -
  let ?l = "log_blk st i" and ?d = "blk i"
  have ne: "?d \<noteq> ?l" using l d by auto
  obtain bl t1 bd t2 where 1: "bread dev ?l s = Ret bl t1" "bread dev ?d t1 = Ret bd t2"
    "cache dev p t2 V (R(?l := 1, ?d := Suc (R ?d))) {?l, ?d}" "caches dev (bufs t2) bl ?l" "caches dev (bufs t2) bd ?d"
    "kbio.more t1 = kbio.more s" "kbio.more t2 = kbio.more s" "disk_img t2 = disk_img s" "wtrace t2 = wtrace s"
    by (rule bread_two [OF c l d(2) ne]) (use d few in blast)+
  let ?R2 = "R(?l := 1, ?d := Suc (R ?d))" and ?V = "V(?l := V ?d)"
  have pl: "0 < ?R2 ?l" "0 < ?R2 ?d" using ne by simp_all
  obtain t3 t4 where 4: "set_data bl (V ?d) t2 = Ret () t3" "bwrite bl t3 = Ret () t4" "cache dev p t4 ?V ?R2 {?l, ?d}"
    "bio_step dev ?R2 t2 t4" "disk_img t4 = (disk_img t2)(?l := V ?d)" "wtrace t4 = wtrace t2 @ [(?l, V ?d)]"
    by (rule set_bwrite_cache [OF 1(3,4) pl(1) insertI1])
  have "cache dev p t4 ?V ?R2 {?d, ?l}" using 4(3) by (simp add: insert_commute)
  then obtain t5 t6 where 6: "brelse bd t4 = Ret () t5" "brelse bl t5 = Ret () t6"
    "cache dev p t6 ?V (?R2(?d := ?R2 ?d - 1, ?l := ?R2 ?l - 1)) {}" "kbio.more t6 = kbio.more t4"
    "disk_img t6 = disk_img t4" "wtrace t6 = wtrace t4"
    by (rule brelse_two [OF _ bio_step_caches [OF 4(4) 1(5) pl(2)] bio_step_caches [OF 4(4) 1(4) pl(1)] ne])
      (use d 4(5) in simp_all)
  have "write_log_block i s = Ret () t6"
    using lg i 1(1,2) 4(1,2) 6(1,2) get_data_cache [OF 1(3,5)]
    by (simp add: write_log_block_def prog_simps log_at_def log_blk_def)
  moreover have "?R2(?d := ?R2 ?d - 1, ?l := ?R2 ?l - 1) = R" using l ne by (auto simp: fun_eq_iff)
  then have "cache dev p t6 ?V R {}" using 6(3) by (simp only:)
  ultimately show ?thesis
    using 1(7-9) 4(5,6) 6(4-6) bio_step_more [OF 4(4)] by (intro that [of t6]) simp_all
qed

text \<open>
  An iteration of \<open>install_trans\<close>. Outside of recovery the reference is dropped by which \<open>log_write\<close>
  has pinned the home block.
\<close>

lemma install_block_cache:
  fixes s :: "'z klog_scheme"
  assumes c: "cache dev p s V R {}" and lg: "log_at dev st n blk s" and i: "i < n"
    and l: "R (log_blk st i) = 0" and d: "blk i \<noteq> log_blk st i" "R (blk i) < 4294967295" "rec \<or> 0 < R (blk i)"
    and few: "card {x. 0 < R x} + 1 < NBUF \<or> 0 < R (blk i) \<and> card {x. 0 < R x} < NBUF"
  obtains t where "install_block rec i s = Ret () t"
    and "cache dev p t (V(blk i := V (log_blk st i))) (R(blk i := if rec then R (blk i) else R (blk i) - 1)) {}"
    and "kbio.more t = kbio.more s" and "disk_img t = (disk_img s)(blk i := V (log_blk st i))"
    and "wtrace t = wtrace s @ [(blk i, V (log_blk st i))]"
proof -
  let ?l = "log_blk st i" and ?d = "blk i"
  obtain bl t1 bd t2 where 1: "bread dev ?l s = Ret bl t1" "bread dev ?d t1 = Ret bd t2"
    "cache dev p t2 V (R(?l := 1, ?d := Suc (R ?d))) {?l, ?d}" "caches dev (bufs t2) bl ?l" "caches dev (bufs t2) bd ?d"
    "kbio.more t1 = kbio.more s" "kbio.more t2 = kbio.more s" "disk_img t2 = disk_img s" "wtrace t2 = wtrace s"
    by (rule bread_two [OF c l d(2,1) few])
  let ?R2 = "R(?l := 1, ?d := Suc (R ?d))" and ?V = "V(?d := V ?l)"
  have pl: "0 < ?R2 ?l" "0 < ?R2 ?d" using d(1) by simp_all
  obtain t3 t4 where 4: "set_data bd (V ?l) t2 = Ret () t3" "bwrite bd t3 = Ret () t4" "cache dev p t4 ?V ?R2 {?l, ?d}"
    "bio_step dev ?R2 t2 t4" "disk_img t4 = (disk_img t2)(?d := V ?l)" "wtrace t4 = wtrace t2 @ [(?d, V ?l)]"
    by (rule set_bwrite_cache [OF 1(3,5) pl(2) insertI2 [OF singletonI]])
  note c4 = bio_step_caches [OF 4(4) 1(4) pl(1)] bio_step_caches [OF 4(4) 1(5) pl(2)]
  let ?R5 = "if rec then ?R2 else ?R2(?d := ?R2 ?d - 1)"
  obtain t5 where 5: "onlyif (\<not> rec) (bunpin bd) t4 = Ret () t5" "cache dev p t5 ?V ?R5 {?l, ?d}"
    "bio_step dev ?R2 t4 t5" "disk_img t5 = disk_img t4" "wtrace t5 = wtrace t4"
  proof (cases rec)
    case True
    then show ?thesis using 4(3) by (intro that [of t4]) (simp_all add: prog_simps bio_step_def)
  next
    case False
    then show ?thesis using bunpin_cache [OF 4(3) c4(2)] d(3) that by (auto simp: prog_simps)
  qed
  obtain t6 t7 where 7: "brelse bl t5 = Ret () t6" "brelse bd t6 = Ret () t7"
    "cache dev p t7 ?V (?R5(?l := ?R5 ?l - 1, ?d := ?R5 ?d - 1)) {}" "kbio.more t7 = kbio.more t5"
    "disk_img t7 = disk_img t5" "wtrace t7 = wtrace t5"
    by (rule brelse_two [OF 5(2) bio_step_caches [OF 5(3) c4(1) pl(1)] bio_step_caches [OF 5(3) c4(2) pl(2)] d(1) [symmetric]])
      (use d 1(8) 4(5) 5(4) cache_D(4) [OF c l] in simp_all)
  have "install_block rec i s = Ret () t7"
    using lg i 1(1,2) 4(1,2) 5(1) 7(1,2) get_data_cache [OF 1(3,4)]
    by (simp add: install_block_def bind_apply gets_apply log_at_def log_blk_def)
  moreover have "?R5(?l := ?R5 ?l - 1, ?d := ?R5 ?d - 1) = R(?d := if rec then R ?d else R ?d - 1)"
    using l d(1) by (auto simp: fun_eq_iff)
  then have "cache dev p t7 ?V (R(?d := if rec then R ?d else R ?d - 1)) {}" using 7(3) by (simp only:)
  ultimately show ?thesis
    using 1(7-9) 4(5,6) 5(4,5) 7(4-6) bio_step_more [OF 4(4)] bio_step_more [OF 5(3)]
    by (intro that [of t7]) simp_all
qed

text \<open>The writes of the two loops.\<close>

definition log_writes :: "u32 \<Rightarrow> (nat \<Rightarrow> u32) \<Rightarrow> (u32 \<Rightarrow> bytes) \<Rightarrow> nat \<Rightarrow> (u32 \<times> bytes) list" where
  "log_writes st blk V k = map (\<lambda>i. (log_blk st i, V (blk i))) [0..<k]"

definition home_writes :: "u32 \<Rightarrow> (nat \<Rightarrow> u32) \<Rightarrow> (u32 \<Rightarrow> bytes) \<Rightarrow> nat \<Rightarrow> (u32 \<times> bytes) list" where
  "home_writes st blk V k = map (\<lambda>i. (blk i, V (log_blk st i))) [0..<k]"

lemma for_each_Suc: "for_each [0..<Suc k] f = andthen (for_each [0..<k] f) (f k)"
  using for_each_append [of "[0..<k]" "[k]" f] by simp

lemma for_each_step:
  "for_each [0..<k] f s = Ret () t \<Longrightarrow> f k t = Ret () u \<Longrightarrow> for_each [0..<Suc k] f s = Ret () u"
  by (simp add: for_each_Suc bind_apply del: upt_Suc)

lemma writes_Suc:
  "log_writes st blk V (Suc k) = log_writes st blk V k @ [(log_blk st k, V (blk k))]"
  "home_writes st blk V (Suc k) = home_writes st blk V k @ [(blk k, V (log_blk st k))]"
  by (simp_all add: log_writes_def home_writes_def)

lemma write_log_loop:
  fixes s :: "'z klog_scheme"
  assumes c: "cache dev p s V R {}" and lg: "log_at dev st n blk s"
    and l: "\<And>i. i < n \<Longrightarrow> R (log_blk st i) = 0" and d: "\<And>i. i < n \<Longrightarrow> 0 < R (blk i) \<and> R (blk i) < 4294967295"
    and few: "card {x. 0 < R x} < NBUF"
  shows "k \<le> n \<Longrightarrow> \<exists>t. for_each [0..<k] write_log_block s = Ret () t \<and>
    cache dev p t (apply_writes (log_writes st blk V k) V) R {} \<and> kbio.more t = kbio.more s \<and>
    disk_img t = apply_writes (log_writes st blk V k) (disk_img s) \<and> wtrace t = wtrace s @ log_writes st blk V k"
proof (induction k)
  case 0
  then show ?case using c by (simp add: log_writes_def prog_simps)
next
  case (Suc k)
  then obtain t where t: "for_each [0..<k] write_log_block s = Ret () t"
    "cache dev p t (apply_writes (log_writes st blk V k) V) R {}" "kbio.more t = kbio.more s"
    "disk_img t = apply_writes (log_writes st blk V k) (disk_img s)" "wtrace t = wtrace s @ log_writes st blk V k"
    by auto
  have k: "k < n" and lg': "log_at dev st n blk t" using Suc.prems lg log_at_more [OF t(3)] by auto
  obtain u where u: "write_log_block k t = Ret () u" "kbio.more u = kbio.more t"
    "cache dev p u ((apply_writes (log_writes st blk V k) V)(log_blk st k := apply_writes (log_writes st blk V k) V (blk k))) R {}"
    "disk_img u = (disk_img t)(log_blk st k := apply_writes (log_writes st blk V k) V (blk k))"
    "wtrace u = wtrace t @ [(log_blk st k, apply_writes (log_writes st blk V k) V (blk k))]"
    using write_log_block_cache [OF t(2) lg' k l [OF k] d [OF k, THEN conjunct1] d [OF k, THEN conjunct2] few] by blast
  have "log_blk st i \<noteq> blk k" if "i < k" for i using l [of i] d [OF k] that k by auto
  then have "apply_writes (log_writes st blk V k) V (blk k) = V (blk k)"
    by (intro apply_writes_other) (force simp: log_writes_def)
  then show ?case using t u by (simp add: for_each_Suc writes_Suc bind_apply fun_upd_def del: upt_Suc)
qed

lemma install_loop:
  fixes s :: "'z klog_scheme"
  assumes c: "cache dev p s V R {}" and lg: "log_at dev st n blk s"
    and l: "\<And>i. i < n \<Longrightarrow> R (log_blk st i) = 0" and ne: "\<And>i j. i < n \<Longrightarrow> j < n \<Longrightarrow> blk i \<noteq> log_blk st j"
    and d: "\<And>i. i < n \<Longrightarrow> R (blk i) < 4294967295"
    and r: "if rec then card {x. 0 < R x} + 1 < NBUF
      else inj_on blk {..<n} \<and> (\<forall>i < n. 0 < R (blk i)) \<and> card {x. 0 < R x} < NBUF"
  shows "k \<le> n \<Longrightarrow> \<exists>t. for_each [0..<k] (install_block rec) s = Ret () t \<and>
    cache dev p t (apply_writes (home_writes st blk V k) V) (\<lambda>x. if \<not> rec \<and> x \<in> blk ` {..<k} then R x - 1 else R x) {} \<and>
    kbio.more t = kbio.more s \<and>
    disk_img t = apply_writes (home_writes st blk V k) (disk_img s) \<and> wtrace t = wtrace s @ home_writes st blk V k"
proof (induction k)
  case 0
  then show ?case using c by (simp add: home_writes_def prog_simps)
next
  case (Suc k)
  let ?R = "\<lambda>x. if \<not> rec \<and> x \<in> blk ` {..<k} then R x - 1 else R x"
  let ?V = "apply_writes (home_writes st blk V k) V"
  obtain t where t: "for_each [0..<k] (install_block rec) s = Ret () t" "cache dev p t ?V ?R {}" "kbio.more t = kbio.more s"
    "disk_img t = apply_writes (home_writes st blk V k) (disk_img s)" "wtrace t = wtrace s @ home_writes st blk V k"
    using Suc by auto
  have k: "k < n" and lg': "log_at dev st n blk t" using Suc.prems lg log_at_more [OF t(3)] by auto
  have "blk k \<notin> blk ` {..<k}" if "\<not> rec" using r that k by (auto dest: inj_onD)
  then have Rk: "?R (blk k) = R (blk k)" by auto
  have "{x. 0 < ?R x} \<subseteq> {x. 0 < R x}" by auto
  then have "card {x. 0 < ?R x} \<le> card {x. 0 < R x}" by (intro card_mono) simp_all
  then have few: "card {x. 0 < ?R x} + 1 < NBUF \<or> 0 < ?R (blk k) \<and> card {x. 0 < ?R x} < NBUF"
    using r k unfolding Rk by (cases rec) auto
  have rk: "rec \<or> 0 < ?R (blk k)" "?R (blk k) < 4294967295" "?R (log_blk st k) = 0"
    using r k d [OF k] l [OF k] unfolding Rk by (auto split: if_splits)
  obtain u where u: "install_block rec k t = Ret () u" "kbio.more u = kbio.more t"
    "cache dev p u (?V(blk k := ?V (log_blk st k))) (?R(blk k := if rec then ?R (blk k) else ?R (blk k) - 1)) {}"
    "disk_img u = (disk_img t)(blk k := ?V (log_blk st k))" "wtrace u = wtrace t @ [(blk k, ?V (log_blk st k))]"
    using install_block_cache [OF t(2) lg' k rk(3) ne [OF k k] rk(2,1) few] by blast
  have "log_blk st k \<noteq> blk i" if "i < k" for i using ne [of i k] that k by auto
  then have "?V (log_blk st k) = V (log_blk st k)"
    by (intro apply_writes_other) (force simp: home_writes_def)
  moreover have "?R(blk k := if rec then ?R (blk k) else ?R (blk k) - 1) =
    (\<lambda>x. if \<not> rec \<and> x \<in> blk ` {..<Suc k} then R x - 1 else R x)"
    unfolding Rk by (auto simp: fun_eq_iff lessThan_Suc)
  ultimately show ?case using t u by (simp add: for_each_Suc writes_Suc bind_apply fun_upd_def del: upt_Suc)
qed

section \<open>Writing and reading the header\<close>

lemma bio_step_trans: "bio_step dev R s t \<Longrightarrow> bio_step dev R t u \<Longrightarrow> bio_step dev R s u"
  by (auto simp: bio_step_def)

lemma head_loop:
  fixes s :: "'z klog_scheme"
  assumes "cache dev p s V R L" and "caches dev (bufs s) b st" and "0 < R st" and "\<And>i. i \<in> set xs \<Longrightarrow> lh_block s i = blk i"
  shows "\<exists>t. for_each xs (\<lambda>i. bind (gets (\<lambda>s. lh_block s i)) (\<lambda>v. bind (get_data b) (\<lambda>d. set_data b (put32 d (4 + 4 * i) v)))) s = Ret () t \<and>
    cache dev p t (V(st := fold (\<lambda>i d. put32 d (4 + 4 * i) (blk i)) xs (V st))) R L \<and> bio_step dev R s t \<and>
    disk_img t = disk_img s \<and> wtrace t = wtrace s"
  using assms
proof (induction xs arbitrary: s V)
  case Nil
  then show ?case by (simp add: prog_simps bio_step_def)
next
  case (Cons i xs)
  let ?V = "V(st := put32 (V st) (4 + 4 * i) (blk i))"
  obtain t where t: "set_data b (put32 (V st) (4 + 4 * i) (blk i)) s = Ret () t" "cache dev p t ?V R L"
    "bio_step dev R s t" "disk_img t = disk_img s" "wtrace t = wtrace s"
    by (rule set_data_cache [OF Cons.prems(1-3)])
  have b: "caches dev (bufs t) b st" by (rule bio_step_caches [OF t(3) Cons.prems(2,3)])
  have blk: "\<And>j. j \<in> set xs \<Longrightarrow> lh_block t j = blk j"
    using Cons.prems(4) log_fields_more(4) [OF bio_step_more [OF t(3)]] by simp
  have "?V(st := fold (\<lambda>i d. put32 d (4 + 4 * i) (blk i)) xs (?V st)) =
    V(st := fold (\<lambda>i d. put32 d (4 + 4 * i) (blk i)) (i # xs) (V st))" by simp
  from Cons.IH [OF t(2) b Cons.prems(3) blk, unfolded this] show ?case
    using t bio_step_trans [OF t(3)] Cons.prems(4) get_data_cache [OF Cons.prems(1,2)]
    by (auto simp: bind_apply gets_apply)
qed

lemma write_head_cache:
  fixes s :: "'z klog_scheme"
  assumes c: "cache dev p s V R {}" and lg: "log_at dev st n blk s" and st: "R st = 0" and few: "card {x. 0 < R x} < NBUF"
  obtains t where "write_head s = Ret () t" and "cache dev p t (V(st := head_bytes n blk (V st))) R {}"
    and "kbio.more t = kbio.more s" and "disk_img t = (disk_img s)(st := head_bytes n blk (V st))"
    and "wtrace t = wtrace s @ [(st, head_bytes n blk (V st))]"
proof -
  have r: "R st < 4294967295" using st by simp
  let ?R = "R(st := Suc (R st))" and ?V = "V(st := put32 (V st) 0 (of_nat n))"
  obtain b t1 where 1: "bread dev st s = Ret b t1" "cache dev p t1 V ?R {st}"
    "caches dev (bufs t1) b st" "bio_step dev R s t1" "disk_img t1 = disk_img s" "wtrace t1 = wtrace s"
    by (rule bread_cache [OF c _ r few]) blast+
  have pos: "0 < ?R st" by simp
  obtain t2 where 2: "set_data b (put32 (V st) 0 (of_nat n)) t1 = Ret () t2" "cache dev p t2 ?V ?R {st}"
    "bio_step dev ?R t1 t2" "disk_img t2 = disk_img t1" "wtrace t2 = wtrace t1"
    by (rule set_data_cache [OF 1(2,3) pos])
  have m2: "kbio.more t2 = kbio.more s" using bio_step_more [OF 1(4)] bio_step_more [OF 2(3)] by simp
  note c2 = bio_step_caches [OF 2(3) 1(3) pos]
  have blk: "\<And>i. i \<in> set [0..<n] \<Longrightarrow> lh_block t2 i = blk i"
    using lg log_fields_more(4) [OF m2] by (simp add: log_at_def)
  have "?V(st := fold (\<lambda>i d. put32 d (4 + 4 * i) (blk i)) [0..<n] (?V st)) = V(st := head_bytes n blk (V st))"
    by (simp add: head_bytes_def)
  from head_loop [where b = b and xs = "[0..<n]" and blk = blk, OF 2(2) c2 pos blk, unfolded this]
  obtain t3 where 3: "for_each [0..<n] (\<lambda>i. bind (gets (\<lambda>s. lh_block s i)) (\<lambda>v. bind (get_data b) (\<lambda>d. set_data b (put32 d (4 + 4 * i) v)))) t2 = Ret () t3"
    "cache dev p t3 (V(st := head_bytes n blk (V st))) ?R {st}" "bio_step dev ?R t2 t3"
    "disk_img t3 = disk_img t2" "wtrace t3 = wtrace t2" by blast
  note c3 = bio_step_caches [OF 3(3) c2 pos]
  obtain t4 where 4: "bwrite b t3 = Ret () t4" "cache dev p t4 (V(st := head_bytes n blk (V st))) ?R {st}" "bio_step dev ?R t3 t4"
    "disk_img t4 = (disk_img t3)(st := (V(st := head_bytes n blk (V st))) st)"
    "wtrace t4 = wtrace t3 @ [(st, (V(st := head_bytes n blk (V st))) st)]"
    by (rule bwrite_cache [OF 3(2) c3 singletonI])
  obtain t5 where 5: "brelse b t4 = Ret () t5" "cache dev p t5 (V(st := head_bytes n blk (V st))) (?R(st := ?R st - 1)) ({st} - {st})"
    "bio_step dev (?R(st := ?R st - 1)) t4 t5" "disk_img t5 = disk_img t4" "wtrace t5 = wtrace t4"
    by (rule brelse_cache [OF 4(2) bio_step_caches [OF 4(3) c3 pos] singletonI]) (use 4(4) in simp_all)
  have lf: "log_dev s = dev" "log_start s = st" "lh_n t1 = of_nat n" "lh_range t2 = [0..<n]"
    using lg log_fields_more(3) [OF bio_step_more [OF 1(4)]] log_fields_more(3) [OF m2]
    by (simp_all add: log_at_def lh_range_def nat_sint_of_nat)
  have "write_head s = Ret () t5"
    using 1(1) 2(1) 3(1) 4(1) 5(1) lf get_data_cache [OF 1(2,3)] by (simp add: write_head_def bind_apply gets_apply)
  moreover have "cache dev p t5 (V(st := head_bytes n blk (V st))) R {}" using 5(2) st by (simp add: fun_upd_idem)
  ultimately show ?thesis
    using 1(5,6) 2(4,5) 3(4,5) 4(4,5) 5(4,5) m2 bio_step_more [OF 3(3)] bio_step_more [OF 4(3)] bio_step_more [OF 5(3)]
    by (intro that [of t5]) simp_all
qed

lemma cache_log_fields [simp]:
  "cache dev p (s\<lparr>lh_n := x\<rparr>) V R L = cache dev p s V R L" "cache dev p (s\<lparr>lh_block := y\<rparr>) V R L = cache dev p s V R L"
  "cache dev p (s\<lparr>log_start := x\<rparr>) V R L = cache dev p s V R L" "cache dev p (s\<lparr>log_size := x\<rparr>) V R L = cache dev p s V R L"
  "cache dev p (s\<lparr>log_dev := x\<rparr>) V R L = cache dev p s V R L"
  by (simp_all add: cache_def unlocked_def lru_def)

lemma read_blocks_loop:
  "for_each xs (\<lambda>i. modify (\<lambda>s. s\<lparr>lh_block := (lh_block s)(i := f i)\<rparr>)) s =
   Ret () (s\<lparr>lh_block := \<lambda>i. if i \<in> set xs then f i else lh_block s i\<rparr>)"
  by (induction xs arbitrary: s) (auto simp: prog_simps fun_eq_iff intro!: arg_cong [where f = "\<lambda>g. _\<lparr>lh_block := g\<rparr>"])

lemma read_head_cache:
  fixes s :: "'z klog_scheme"
  assumes c: "cache dev p s V R {}" and lf: "log_dev s = dev" "log_start s = st" and st: "R st = 0"
    and few: "card {x. 0 < R x} < NBUF" and n: "get32 (V st) 0 = of_nat n" "n < 2147483648"
  obtains t where "read_head s = Ret () t" and "cache dev p t V R {}" and "log_at dev st n (head_blk (V st)) t"
    and "disk_img t = disk_img s" and "wtrace t = wtrace s"
proof -
  have r: "R st < 4294967295" using st by simp
  let ?R = "R(st := Suc (R st))"
  obtain b t1 where 1: "bread dev st s = Ret b t1" "cache dev p t1 V ?R {st}"
    "caches dev (bufs t1) b st" "bio_step dev R s t1" "disk_img t1 = disk_img s" "wtrace t1 = wtrace s"
    by (rule bread_cache [OF c _ r few]) blast+
  let ?t2 = "t1\<lparr>lh_n := of_nat n, lh_block := \<lambda>i. if i \<in> set [0..<n] then get32 (V st) (4 + 4 * i) else lh_block t1 i\<rparr>"
  have "cache dev p ?t2 V ?R {st}" using 1(2) by simp
  moreover have "caches dev (bufs ?t2) b st" using 1(3) by simp
  ultimately obtain t3 where 3: "brelse b ?t2 = Ret () t3" "cache dev p t3 V (?R(st := ?R st - 1)) ({st} - {st})"
    "bio_step dev (?R(st := ?R st - 1)) ?t2 t3" "disk_img t3 = disk_img ?t2" "wtrace t3 = wtrace ?t2"
    by (rule brelse_cache [OF _ _ singletonI]) (use cache_D(4) [OF c st] 1(5) in simp_all)
  have "read_head s = Ret () t3"
    using 1(1) 3(1) lf get_data_cache [OF 1(2,3)] n
    by (simp add: read_head_def bind_apply gets_apply modify_apply read_blocks_loop lh_range_def nat_sint_of_nat cong: if_cong)
  moreover have "cache dev p t3 V R {}" using 3(2) st by (simp add: fun_upd_idem)
  moreover have "log_at dev st n (head_blk (V st)) t3"
    using log_fields_more [OF bio_step_more [OF 3(3)]] log_fields_more(1,2) [OF bio_step_more [OF 1(4)]] lf n
    by (simp add: log_at_def head_blk_def)
  ultimately show ?thesis using 1(5,6) 3(4,5) by (intro that [of t3]) simp_all
qed

section \<open>Commit and recovery\<close>

definition commit_writes :: "u32 \<Rightarrow> nat \<Rightarrow> (nat \<Rightarrow> u32) \<Rightarrow> (u32 \<Rightarrow> bytes) \<Rightarrow> (u32 \<times> bytes) list" where
  "commit_writes st n blk V =
     log_writes st blk V n @ [(st, head_bytes n blk (V st))] @
     map (\<lambda>i. (blk i, V (blk i))) [0..<n] @ [(st, head_bytes 0 blk (head_bytes n blk (V st)))]"

definition recover_writes :: "u32 \<Rightarrow> (u32 \<Rightarrow> bytes) \<Rightarrow> (u32 \<times> bytes) list" where
  "recover_writes st d =
     home_writes st (head_blk (d st)) d (head_n (d st)) @ [(st, head_bytes 0 (head_blk (d st)) (d st))]"

text \<open>
  The blocks of a transaction: different blocks outside the log, which does not wrap around.
\<close>

definition log_ok :: "u32 \<Rightarrow> nat \<Rightarrow> (nat \<Rightarrow> u32) \<Rightarrow> bool" where
  "log_ok st n blk \<longleftrightarrow> n \<le> LOGSIZE \<and> unat st + n < 4294967295 \<and>
     (\<forall>i < n. blk i \<noteq> st \<and> (\<forall>j < n. blk i \<noteq> log_blk st j))"

lemma unat_log_blk: "unat st + i < 4294967295 \<Longrightarrow> unat (log_blk st i) = unat st + i + 1"
proof -
  assume a: "unat st + i < 4294967295"
  then have "unat (of_nat (i + 1) :: u32) = i + 1" by (simp add: unat_of_nat del: of_nat_add of_nat_Suc)
  moreover have "log_blk st i = st + of_nat (i + 1)" by (simp add: log_blk_def)
  ultimately show ?thesis using a unat_add_no_wrap [of st "of_nat (i + 1)"] by (simp del: of_nat_add of_nat_Suc)
qed

lemma log_blk_ne: "unat st + i < 4294967295 \<Longrightarrow> log_blk st i \<noteq> st"
proof
  assume a: "unat st + i < 4294967295" and e: "log_blk st i = st"
  show False using unat_log_blk [OF a] unfolding e by linarith
qed

lemma log_blk_inj:
  assumes "unat st + i < 4294967295" and "unat st + j < 4294967295" and "log_blk st i = log_blk st j"
  shows "i = j"
  using unat_log_blk [OF assms(1)] unat_log_blk [OF assms(2)] unfolding assms(3) by linarith

lemma log_okD:
  assumes "log_ok st n blk"
  shows "i < n \<Longrightarrow> blk i \<noteq> st" "i < n \<Longrightarrow> j < n \<Longrightarrow> blk i \<noteq> log_blk st j" "i < n \<Longrightarrow> log_blk st i \<noteq> st"
    "i < n \<Longrightarrow> j < n \<Longrightarrow> log_blk st i = log_blk st j \<Longrightarrow> i = j" "n \<le> LOGSIZE"
  using assms log_blk_ne [of st i] log_blk_inj [of st i j] by (simp_all add: log_ok_def)

lemma log_writes_head:
  assumes ok: "log_ok st n blk"
  shows "apply_writes (take k (log_writes st blk V n)) d st = d st"
    and "x \<notin> log_blk st ` {..<n} \<Longrightarrow> apply_writes (take k (log_writes st blk V n)) d x = d x"
proof -
  have "fst ` set (take k (log_writes st blk V n)) \<subseteq> log_blk st ` {..<n}"
    by (auto simp: log_writes_def take_map dest: in_set_takeD)
  then show "x \<notin> log_blk st ` {..<n} \<Longrightarrow> apply_writes (take k (log_writes st blk V n)) d x = d x"
    and "apply_writes (take k (log_writes st blk V n)) d st = d st"
    using log_okD(3) [OF ok, THEN not_sym] by (auto intro!: apply_writes_other)
qed

lemma log_writes_log:
  assumes ok: "log_ok st n blk" and "i < n"
  shows "apply_writes (log_writes st blk V n) d (log_blk st i) = V (blk i)"
  using assms(2) by (intro apply_writes_same) (auto simp: log_writes_def image_image dest: log_okD(4) [OF ok])

lemma commit_run:
  fixes s :: "'z klog_scheme"
  assumes c: "cache dev p s V R {}" and lg: "log_at dev st n blk s" and ok: "log_ok st n blk" and n: "0 < n"
    and inj: "inj_on blk {..<n}" and d: "\<And>i. i < n \<Longrightarrow> 0 < R (blk i) \<and> R (blk i) < 4294967295"
    and l: "\<And>i. i < n \<Longrightarrow> R (log_blk st i) = 0" and st: "R st = 0" and few: "card {x. 0 < R x} < NBUF"
  obtains t where "commit s = Ret () t" and "wtrace t = wtrace s @ commit_writes st n blk V"
    and "disk_img t = apply_writes (commit_writes st n blk V) (disk_img s)" and "lh_n t = 0"
proof -
  let ?V1 = "apply_writes (log_writes st blk V n) V"
  obtain t1 where 1: "for_each [0..<n] write_log_block s = Ret () t1" "cache dev p t1 ?V1 R {}" "kbio.more t1 = kbio.more s"
    "disk_img t1 = apply_writes (log_writes st blk V n) (disk_img s)" "wtrace t1 = wtrace s @ log_writes st blk V n"
    using write_log_loop [OF c lg l d few order.refl] by blast
  have st1: "?V1 st = V st" using log_writes_head(1) [OF ok, of n V V] by (simp add: log_writes_def)
  have lg1: "log_at dev st n blk t1" using lg log_at_more [OF 1(3)] by simp
  let ?h = "head_bytes n blk (V st)" and ?V2 = "?V1(st := head_bytes n blk (?V1 st))"
  obtain t2 where 2: "write_head t1 = Ret () t2" "cache dev p t2 ?V2 R {}" "kbio.more t2 = kbio.more t1"
    "disk_img t2 = (disk_img t1)(st := head_bytes n blk (?V1 st))" "wtrace t2 = wtrace t1 @ [(st, head_bytes n blk (?V1 st))]"
    by (rule write_head_cache [OF 1(2) lg1 st few])
  have lg2: "log_at dev st n blk t2" using lg1 log_at_more [OF 2(3)] by simp
  have lb2: "?V2 (log_blk st i) = V (blk i)" if "i < n" for i
    using log_writes_log [OF ok that] log_okD(3) [OF ok that] by simp
  have hw: "home_writes st blk ?V2 n = map (\<lambda>i. (blk i, V (blk i))) [0..<n]"
    using lb2 by (simp add: home_writes_def)
  let ?V3 = "apply_writes (home_writes st blk ?V2 n) ?V2"
  let ?R3 = "\<lambda>x. if \<not> False \<and> x \<in> blk ` {..<n} then R x - 1 else R x"
  have "\<exists>t3. for_each [0..<n] (install_block False) t2 = Ret () t3 \<and> cache dev p t3 ?V3 ?R3 {} \<and>
    kbio.more t3 = kbio.more t2 \<and> disk_img t3 = apply_writes (home_writes st blk ?V2 n) (disk_img t2) \<and>
    wtrace t3 = wtrace t2 @ home_writes st blk ?V2 n"
    by (rule install_loop [OF 2(2) lg2 l]) (use log_okD(2) [OF ok] inj d few in auto)
  then obtain t3 where 3: "for_each [0..<n] (install_block False) t2 = Ret () t3" "cache dev p t3 ?V3 ?R3 {}"
    "kbio.more t3 = kbio.more t2" "disk_img t3 = apply_writes (home_writes st blk ?V2 n) (disk_img t2)"
    "wtrace t3 = wtrace t2 @ home_writes st blk ?V2 n"
    by blast
  have st3: "?V3 st = ?h"
    using st1 by (subst apply_writes_other) (auto simp: home_writes_def dest: log_okD(1) [OF ok, THEN not_sym])
  have lg3: "log_at dev st 0 blk (t3\<lparr>lh_n := 0\<rparr>)"
    using lg2 log_fields_more [OF 3(3)] by (simp add: log_at_def)
  have c3: "cache dev p (t3\<lparr>lh_n := 0\<rparr>) ?V3 ?R3 {}" using 3(2) by simp
  have "{x. 0 < ?R3 x} \<subseteq> {x. 0 < R x}" by auto
  then have few3: "card {x. 0 < ?R3 x} < NBUF" using few card_mono [of "{x. 0 < R x}" "{x. 0 < ?R3 x}"] by simp
  obtain t4 where 4: "write_head (t3\<lparr>lh_n := 0\<rparr>) = Ret () t4" "kbio.more t4 = kbio.more (t3\<lparr>lh_n := 0\<rparr>)"
    "disk_img t4 = (disk_img (t3\<lparr>lh_n := 0\<rparr>))(st := head_bytes 0 blk (?V3 st))"
    "wtrace t4 = wtrace (t3\<lparr>lh_n := 0\<rparr>) @ [(st, head_bytes 0 blk (?V3 st))]"
    by (rule write_head_cache [OF c3 lg3 _ few3]) (use st in simp_all)
  have sn: "nat (sint (lh_n s)) = n" "lh_n t2 = lh_n s"
    using lg lg2 by (simp_all add: log_at_def nat_sint_of_nat)
  then have "0 < sint (lh_n s)" using n by linarith
  then have "commit s = Ret () t4"
    using 1(1) 2(1) 3(1) 4(1) sn
    by (simp add: commit_def write_log_def install_trans_def lh_range_def bind_apply gets_apply modify_apply onlyif_def)
  then show ?thesis
    using 1(4,5) 2(4,5) [unfolded st1] 3(4,5) [unfolded hw] 4(3,4) [unfolded st3] log_fields_more(3) [OF 4(2)]
    by (intro that [of t4]) (simp_all add: commit_writes_def)
qed

section \<open>Reboot\<close>

lemma binit_loop:
  fixes s :: "'z kbio_scheme"
  assumes "lru s []"
  shows "\<exists>t. for_each [0..<k] (\<lambda>b. andthen (initsleeplock (BufLock b) ''buffer'') (link_front b)) s = Ret () t \<and>
    lru t (rev [0..<k]) \<and> bufs t = bufs s \<and> disk_img t = disk_img s \<and> wtrace t = wtrace s \<and> kbio.more t = kbio.more s \<and>
    cpu_proc t = cpu_proc s \<and> held t = held s \<and> (\<forall>b < k. sl_locked (sleeplocks t (BufLock b)) = 0)"
proof (induction k)
  case 0
  then show ?case using assms by (simp add: prog_simps)
next
  case (Suc k)
  then obtain t where t: "for_each [0..<k] (\<lambda>b. andthen (initsleeplock (BufLock b) ''buffer'') (link_front b)) s = Ret () t"
    "lru t (rev [0..<k])" "bufs t = bufs s" "disk_img t = disk_img s" "wtrace t = wtrace s" "kbio.more t = kbio.more s"
    "cpu_proc t = cpu_proc s" "held t = held s" "\<forall>b < k. sl_locked (sleeplocks t (BufLock b)) = 0"
    by blast
  obtain u where u: "initsleeplock (BufLock k) ''buffer'' t = Ret () u" "b_next u = b_next t" "b_prev u = b_prev t"
    "bufs u = bufs t" "disk_img u = disk_img t" "wtrace u = wtrace t" "kbio.more u = kbio.more t" "cpu_proc u = cpu_proc t"
    "held u = held t" "\<forall>b \<le> k. sl_locked (sleeplocks u (BufLock b)) = 0"
    using t(9) by (simp add: initsleeplock_def upd_slk_def modify_apply)
  have "lru u (rev [0..<k])" using t(2) u(2,3) by (simp add: lru_def)
  then have "lru (u\<lparr>b_next := (b_next u)(Node k := b_next u Head, Head := Node k),
     b_prev := (b_prev u)(Node k := Head, b_next u Head := Node k)\<rparr>) (k # rev [0..<k])"
    by (rule lru_link_front) simp
  moreover note for_each_step [OF t(1)]
  moreover have "andthen (initsleeplock (BufLock k) ''buffer'') (link_front k) t =
    Ret () (u\<lparr>b_next := (b_next u)(Node k := b_next u Head, Head := Node k),
      b_prev := (b_prev u)(Node k := Head, b_next u Head := Node k)\<rparr>)"
    using u(1) by (simp add: bind_apply link_front_eq)
  ultimately show ?case
    using t(3-8) u(4-10) by (intro exI conjI, blast) (simp_all add: less_Suc_eq_le)
qed

lemma binit_cache:
  fixes s :: "'z kbio_scheme"
  assumes "dev \<noteq> 0" and u: "unlocked p s" and z: "\<And>b. b < NBUF \<Longrightarrow> b_dev (bufs s b) = 0 \<and> b_refcnt (bufs s b) = 0"
  obtains t where "binit s = Ret () t" and "cache dev p t (disk_img s) (\<lambda>_. 0) {}" and "disk_img t = disk_img s"
    and "wtrace t = wtrace s" and "kbio.more t = kbio.more s"
proof -
  let ?s = "s\<lparr>b_prev := (b_prev s)(Head := Head), b_next := (b_next s)(Head := Head)\<rparr>"
  have "lru ?s []" by (simp add: lru_def)
  then obtain t where t: "for_each [0..<NBUF] (\<lambda>b. andthen (initsleeplock (BufLock b) ''buffer'') (link_front b)) ?s = Ret () t"
    "lru t (rev [0..<NBUF])" "bufs t = bufs ?s" "disk_img t = disk_img ?s" "wtrace t = wtrace ?s" "kbio.more t = kbio.more ?s"
    "cpu_proc t = cpu_proc ?s" "held t = held ?s" "\<forall>b < NBUF. sl_locked (sleeplocks t (BufLock b)) = 0"
    using binit_loop by blast
  have "binit s = Ret () t" using t(1) by (simp add: binit_def bind_apply modify_apply)
  moreover have "\<exists>bs. lru t bs \<and> set bs = {..<NBUF}" using t(2) by (intro exI [of _ "rev [0..<NBUF]"]) auto
  then have "cache dev p t (disk_img s) (\<lambda>_. 0) {}"
    using assms t(3-9) by (auto simp: cache_def unlocked_def buf_ok_def caches_def)
  ultimately show ?thesis using t by (intro that [of t]) simp_all
qed

lemma recover_run:
  fixes s :: "'z klog_scheme"
  assumes c: "cache dev p s (disk_img s) (\<lambda>_. 0) {}" and lf: "log_dev s = dev" "log_start s = st"
    and n: "get32 (disk_img s st) 0 = of_nat n" and ok: "log_ok st n (head_blk (disk_img s st))"
  obtains t where "recover_from_log s = Ret () t" and "wtrace t = wtrace s @ recover_writes st (disk_img s)"
    and "disk_img t = apply_writes (recover_writes st (disk_img s)) (disk_img s)" and "lh_n t = 0"
    and "cache dev p t (disk_img t) (\<lambda>_. 0) {}"
proof -
  let ?d = "disk_img s" and ?blk = "head_blk (disk_img s st)"
  have few: "card {x. 0 < (\<lambda>_ :: u32. 0 :: nat) x} < NBUF" by simp
  have n': "n < 2147483648" using log_okD(5) [OF ok] by simp
  obtain t1 where 1: "read_head s = Ret () t1" "cache dev p t1 ?d (\<lambda>_. 0) {}" "log_at dev st n ?blk t1"
    "disk_img t1 = ?d" "wtrace t1 = wtrace s"
    by (rule read_head_cache [OF c lf refl few n n'])
  let ?V = "apply_writes (home_writes st ?blk ?d n) ?d"
  have "\<exists>t2. for_each [0..<n] (install_block True) t1 = Ret () t2 \<and>
    cache dev p t2 ?V (\<lambda>x. if \<not> True \<and> x \<in> ?blk ` {..<n} then 0 - 1 else 0) {} \<and> kbio.more t2 = kbio.more t1 \<and>
    disk_img t2 = apply_writes (home_writes st ?blk ?d n) (disk_img t1) \<and> wtrace t2 = wtrace t1 @ home_writes st ?blk ?d n"
    by (rule install_loop [OF 1(2,3)]) (use log_okD(2) [OF ok] in auto)
  then obtain t2 where 2: "for_each [0..<n] (install_block True) t1 = Ret () t2" "cache dev p t2 ?V (\<lambda>_. 0) {}"
    "kbio.more t2 = kbio.more t1" "disk_img t2 = ?V" "wtrace t2 = wtrace t1 @ home_writes st ?blk ?d n"
    using 1(4) by auto
  have "?V st = ?d st"
    by (rule apply_writes_other) (auto simp: home_writes_def dest: log_okD(1) [OF ok, THEN not_sym])
  moreover have c2: "cache dev p (t2\<lparr>lh_n := 0\<rparr>) ?V (\<lambda>_. 0) {}" using 2(2) by simp
  moreover have l2: "log_at dev st 0 ?blk (t2\<lparr>lh_n := 0\<rparr>)"
    using 1(3) log_fields_more [OF 2(3)] by (simp add: log_at_def)
  ultimately obtain t3 where 3: "write_head (t2\<lparr>lh_n := 0\<rparr>) = Ret () t3"
    "cache dev p t3 (?V(st := head_bytes 0 ?blk (?d st))) (\<lambda>_. 0) {}" "kbio.more t3 = kbio.more (t2\<lparr>lh_n := 0\<rparr>)"
    "disk_img t3 = ?V(st := head_bytes 0 ?blk (?d st))" "wtrace t3 = wtrace t2 @ [(st, head_bytes 0 ?blk (?d st))]"
    using write_head_cache [OF c2 l2 refl few] 2(4) by auto
  have "lh_range t1 = [0..<n]" "head_n (?d st) = n"
    using 1(3) n n' by (simp_all add: lh_range_def log_at_def head_n_def nat_sint_of_nat)
  then show ?thesis
    using 1 2 3 log_fields_more(3) [OF 3(3)]
    by (intro that [of t3])
      (simp_all add: recover_from_log_def install_trans_def recover_writes_def bind_apply gets_apply modify_apply)
qed

section \<open>What a disk holds\<close>

text \<open>
  \<open>represents st n blk V d\<close>: once its log is replayed, the disk \<open>d\<close> has the contents \<open>V\<close>. Either its
  log is empty, or the log has the new contents of the blocks \<open>blk 0\<close>, ... of a transaction.
\<close>

definition log_region :: "u32 \<Rightarrow> nat \<Rightarrow> u32 set" where
  "log_region st n = insert st (log_blk st ` {..<n})"

definition represents :: "u32 \<Rightarrow> nat \<Rightarrow> (nat \<Rightarrow> u32) \<Rightarrow> (u32 \<Rightarrow> bytes) \<Rightarrow> (u32 \<Rightarrow> bytes) \<Rightarrow> bool" where
  "represents st n blk V d \<longleftrightarrow>
     (if get32 (d st) 0 = 0 then \<forall>x. x \<notin> log_region st n \<longrightarrow> d x = V x
      else get32 (d st) 0 = of_nat n \<and> (\<forall>i < n. head_blk (d st) i = blk i \<and> d (log_blk st i) = V (blk i)) \<and>
        (\<forall>x. x \<notin> log_region st n \<longrightarrow> x \<notin> blk ` {..<n} \<longrightarrow> d x = V x))"

lemma get_head_bytes: "get32 (head_bytes n blk h) 0 = of_nat n"
  by (simp add: head_bytes_def get_head_n)

definition new_writes :: "nat \<Rightarrow> (nat \<Rightarrow> u32) \<Rightarrow> (u32 \<Rightarrow> bytes) \<Rightarrow> (u32 \<times> bytes) list" where
  "new_writes n blk V = map (\<lambda>i. (blk i, V (blk i))) [0..<n]"

lemma new_writes_other: "x \<notin> blk ` {..<n} \<Longrightarrow> apply_writes (take j (new_writes n blk V)) d x = d x"
  by (rule apply_writes_other) (auto simp: new_writes_def take_map dest: in_set_takeD)

lemma new_writes_same: "x \<in> blk ` {..<n} \<Longrightarrow> apply_writes (new_writes n blk V) d x = V x"
  by (rule apply_writes_same) (auto simp: new_writes_def image_image)

lemma new_writes_log:
  assumes "log_ok st n blk" and "x \<in> log_region st n"
  shows "apply_writes (take j (new_writes n blk V)) d x = d x"
  using assms by (intro new_writes_other) (auto simp: log_region_def log_ok_def)

lemma new_writes_all: "(x \<notin> blk ` {..<n} \<Longrightarrow> d x = V x) \<Longrightarrow> apply_writes (new_writes n blk V) d x = V x"
  using new_writes_same [of x blk n V d] new_writes_other [of x blk n n V d] by (cases "x \<in> blk ` {..<n}") (simp_all add: new_writes_def)

lemma take_snoc: "take j (xs @ [y]) = (if j \<le> length xs then take j xs else xs @ [y])"
  by simp

lemma recover_writes_full:
  assumes "log_ok st n blk" and "get32 (d st) 0 = of_nat n"
    and "\<And>i. i < n \<Longrightarrow> head_blk (d st) i = blk i \<and> d (log_blk st i) = V (blk i)"
  shows "recover_writes st d = new_writes n blk V @ [(st, head_bytes 0 (head_blk (d st)) (d st))]"
  using assms(2,3) log_okD(5) [OF assms(1)]
  by (simp add: recover_writes_def head_n_def nat_sint_of_nat home_writes_def new_writes_def)

lemma replay_contents:
  assumes ok: "log_ok st n blk" and r: "represents st n blk V d"
  shows "represents st n blk V (apply_writes (take j (recover_writes st d)) d)"
    and "x \<notin> log_region st n \<Longrightarrow> apply_writes (recover_writes st d) d x = V x"
proof -
  have st: "st \<in> log_region st n" by (simp add: log_region_def)
  have *: "represents st n blk V (apply_writes (take j (recover_writes st d)) d) \<and>
    (x \<notin> log_region st n \<longrightarrow> apply_writes (recover_writes st d) d x = V x)"
  proof (cases "get32 (d st) 0 = 0")
    case True
    then have "recover_writes st d = [(st, head_bytes 0 (head_blk (d st)) (d st))]"
      by (simp add: recover_writes_def home_writes_def head_n_def)
    then show ?thesis
      using r True st by (cases j) (auto simp: represents_def get_head_bytes log_region_def)
  next
    case False
    then have f: "get32 (d st) 0 = of_nat n" "\<And>i. i < n \<Longrightarrow> head_blk (d st) i = blk i \<and> d (log_blk st i) = V (blk i)"
      "\<And>x. x \<notin> log_region st n \<Longrightarrow> x \<notin> blk ` {..<n} \<Longrightarrow> d x = V x"
      using r by (simp_all add: represents_def)
    note w = recover_writes_full [where V = V and d = d, OF ok f(1,2)]
    have all: "apply_writes (new_writes n blk V) d x = V x" if "x \<notin> log_region st n" for x
      using f(3) [OF that] by (rule new_writes_all)
    show ?thesis
    proof (cases "j \<le> n")
      case True
      have "apply_writes (take j (new_writes n blk V)) d x = d x" if "x \<in> log_region st n" for x
        by (rule new_writes_log [OF ok that])
      then show ?thesis
        using True False f all st new_writes_other [of _ blk n j V d]
        by (auto simp: w represents_def new_writes_def log_region_def)
    next
      case False
      then show ?thesis using all st by (auto simp: w represents_def take_snoc get_head_bytes new_writes_def)
    qed
  qed
  show "represents st n blk V (apply_writes (take j (recover_writes st d)) d)" using * by blast
  show "x \<notin> log_region st n \<Longrightarrow> apply_writes (recover_writes st d) d x = V x" using * by blast
qed

lemma take_commit_writes:
  "take k (commit_writes st n blk V) =
    (if k \<le> n then take k (log_writes st blk V n)
     else log_writes st blk V n @ (st, head_bytes n blk (V st)) #
       (if k \<le> 2 * n + 1 then take (k - n - 1) (new_writes n blk V)
        else new_writes n blk V @ [(st, head_bytes 0 blk (head_bytes n blk (V st)))]))"
proof -
  have "length (log_writes st blk V n) = n" "length (new_writes n blk V) = n"
    by (simp_all add: log_writes_def new_writes_def)
  moreover have "k - n = Suc (k - n - 1)" if "n < k" using that by simp
  ultimately show ?thesis by (simp add: commit_writes_def flip: new_writes_def)
qed

lemma commit_prefix:
  assumes ok: "log_ok st n blk" and "0 < n" and c: "get32 (d st) 0 = 0"
    and o: "\<And>x. x \<notin> blk ` {..<n} \<Longrightarrow> V x = d x"
  shows "represents st n blk (if k \<le> n then d else V) (apply_writes (take k (commit_writes st n blk V)) d)"
proof -
  let ?L = "log_writes st blk V n" and ?h = "head_bytes n blk (V st)"
  let ?d1 = "(apply_writes ?L d)(st := ?h)"
  have tl: "take n ?L = ?L" by (simp add: log_writes_def)
  have d1: "?d1 x = d x" if "x \<notin> log_region st n" for x
    using log_writes_head(2) [OF ok, of x n V d] that by (simp add: tl log_region_def)
  have l1: "?d1 (log_blk st i) = V (blk i)" if "i < n" for i
    using log_writes_log [OF ok that] log_okD(3) [OF ok that] by simp
  have reg: "st \<in> log_region st n" "\<And>i. i < n \<Longrightarrow> log_blk st i \<in> log_region st n" by (simp_all add: log_region_def)
  have "n < 2147483648" using log_okD(5) [OF ok] by simp
  then have nz: "(of_nat n :: u32) \<noteq> 0" using \<open>0 < n\<close> nat_sint_of_nat [of n] by auto
  consider "k \<le> n" | "n < k" "k \<le> 2 * n + 1" | "2 * n + 1 < k" by linarith
  then show ?thesis
  proof cases
    case 1
    then show ?thesis
      using log_writes_head [OF ok, where k = k and V = V and d = d] c by (simp add: take_commit_writes represents_def log_region_def)
  next
    case 2
    let ?e = "apply_writes (take (k - n - 1) (new_writes n blk V)) ?d1"
    have "?e x = ?d1 x" if "x \<in> log_region st n" for x by (rule new_writes_log [OF ok that])
    moreover have "?e x = V x" if "x \<notin> log_region st n" "x \<notin> blk ` {..<n}" for x
      using new_writes_other [OF that(2)] d1 [OF that(1)] o [OF that(2)] by simp
    ultimately show ?thesis
      using 2 nz reg l1 by (simp add: take_commit_writes represents_def get_head_bytes head_blk_bytes)
  next
    case 3
    have "apply_writes (new_writes n blk V) ?d1 x = V x" if "x \<notin> log_region st n" for x
      using d1 [OF that] o [of x] by (intro new_writes_all) simp
    then show ?thesis
      using 3 reg by (auto simp: take_commit_writes represents_def get_head_bytes)
  qed
qed

text \<open>The disks that a machine may find after it started again any number of times and crashed while it replayed the log.\<close>

inductive crashes :: "u32 \<Rightarrow> (u32 \<Rightarrow> bytes) \<Rightarrow> (u32 \<Rightarrow> bytes) \<Rightarrow> bool" for st d where
  none: "crashes st d d"
| again: "crashes st d e \<Longrightarrow> crashes st d (apply_writes (take j (recover_writes st e)) e)"

lemma crashes_represents:
  assumes "crashes st d e" and "log_ok st n blk" and "represents st n blk V d"
  shows "represents st n blk V e"
  using assms by (induction rule: crashes.induct) (simp_all add: replay_contents(1))

lemma initlog_run:
  fixes s :: "'z klog_scheme"
  assumes c: "cache dev p s (disk_img s) (\<lambda>_. 0) {}" and st: "sb_logstart sb = st"
    and ok: "log_ok st n blk" and r: "represents st n blk V (disk_img s)"
  obtains t where "initlog dev sb s = Ret () t" and "wtrace t = wtrace s @ recover_writes st (disk_img s)"
    and "lh_n t = 0" and "cache dev p t (disk_img t) (\<lambda>_. 0) {}" and "get32 (disk_img t st) 0 = 0"
    and "\<And>x. x \<notin> log_region st n \<Longrightarrow> disk_img t x = V x"
proof -
  let ?s = "s\<lparr>log_start := sb_logstart sb, log_size := sb_nlog sb, log_dev := dev\<rparr>"
  obtain m where m: "get32 (disk_img ?s st) 0 = of_nat m" "log_ok st m (head_blk (disk_img ?s st))"
  proof (cases "get32 (disk_img s st) 0 = 0")
    case True
    with ok show ?thesis by (intro that [of 0]) (simp_all add: log_ok_def)
  next
    case False
    with r ok show ?thesis by (intro that [of n]) (simp_all add: represents_def log_ok_def)
  qed
  have "cache dev p ?s (disk_img ?s) (\<lambda>_. 0) {}" using c by simp
  then obtain t where t: "recover_from_log ?s = Ret () t" "wtrace t = wtrace ?s @ recover_writes st (disk_img ?s)"
    "disk_img t = apply_writes (recover_writes st (disk_img ?s)) (disk_img ?s)" "lh_n t = 0"
    "cache dev p t (disk_img t) (\<lambda>_. 0) {}"
    by (rule recover_run [OF _ _ _ m]) (simp_all add: st)
  have "get32 (disk_img t st) 0 = 0" by (simp add: t(3) recover_writes_def get_head_bytes)
  moreover have "initlog dev sb s = Ret () t" using t(1) by (simp add: initlog_def bind_apply modify_apply panic_if_def return_def)
  ultimately show ?thesis using t replay_contents(2) [OF ok r] by (intro that [of t]) simp_all
qed

text \<open>
  C1: a commit is atomic with respect to crashes. Whatever number \<open>k\<close> of the disk writes of
  \<open>commit\<close> the machine performs before it crashes, and however often it crashes again while it
  replays the log, the start of the file system that finally gets through leaves every block outside
  the log as it was before the transaction, when the header had not been written, and as
  the transaction made it otherwise; the log is empty then. Without a crash \<open>commit\<close> returns after
  exactly these writes.
\<close>

theorem commit_crash_atomic:
  fixes s r :: "'z klog_scheme"
  assumes c: "cache dev p s V R {}" and lg: "log_at dev st n blk s" and ok: "log_ok st n blk" and n: "0 < n"
    and inj: "inj_on blk {..<n}" and d: "\<And>i. i < n \<Longrightarrow> 0 < R (blk i) \<and> R (blk i) < 4294967295"
    and l: "\<And>i. i < n \<Longrightarrow> R (log_blk st i) = 0" and st: "R st = 0" and few: "card {x. 0 < R x} < NBUF"
    and clean: "get32 (disk_img s st) 0 = 0" and logged: "\<And>x. x \<notin> blk ` {..<n} \<Longrightarrow> V x = disk_img s x"
    and crash: "crashes st (apply_writes (take k (commit_writes st n blk V)) (disk_img s)) (disk_img r)"
    and boot: "cache dev q r (disk_img r) (\<lambda>_. 0) {}" "sb_logstart sb = st"
  shows "\<exists>t u. commit s = Ret () t \<and> wtrace t = wtrace s @ commit_writes st n blk V \<and> lh_n t = 0 \<and>
    initlog dev sb r = Ret () u \<and> wtrace u = wtrace r @ recover_writes st (disk_img r) \<and> lh_n u = 0 \<and>
    get32 (disk_img u st) 0 = 0 \<and>
    (\<forall>x. x \<notin> log_region st n \<longrightarrow> disk_img u x = (if k \<le> n then disk_img s x else V x))"
proof -
  obtain t where t: "commit s = Ret () t" "wtrace t = wtrace s @ commit_writes st n blk V" "lh_n t = 0"
    by (rule commit_run [OF c lg ok n inj d l st few]) blast
  let ?V = "if k \<le> n then disk_img s else V"
  from ok n clean have "represents st n blk ?V (apply_writes (take k (commit_writes st n blk V)) (disk_img s))"
    using logged by (rule commit_prefix)
  with crash ok have rep: "represents st n blk ?V (disk_img r)" by (rule crashes_represents)
  obtain u where u: "initlog dev sb r = Ret () u" "wtrace u = wtrace r @ recover_writes st (disk_img r)"
    "lh_n u = 0" "get32 (disk_img u st) 0 = 0" "\<And>x. x \<notin> log_region st n \<Longrightarrow> disk_img u x = ?V x"
    by (rule initlog_run [OF boot ok rep]) blast
  then show ?thesis using t by auto
qed

text \<open>
  A file system whose log starts at block 2: block 50 is cached and has been changed by a transaction
  that is about to commit; the same machine after a crash in the middle of the commit.
\<close>

definition changed_disk :: "u32 \<Rightarrow> bytes" where
  "changed_disk = clean_disk(50 := (\<lambda>_. 7))"

definition one_buf :: "nat \<Rightarrow> buf" where
  "one_buf = empty_bufs(0 := \<lparr>b_valid = 1, b_dev = 1, b_blockno = 50, b_refcnt = 1, b_data = (\<lambda>_. 7)\<rparr>)"

lemma log_demo_lru: "lru (log_demo bs d) [0..<30]"
proof -
  have "b_next (log_demo bs d) = (\<lambda>x. case x of Head \<Rightarrow> Node 0 | Node i \<Rightarrow> if i = 29 then Head else Node (i + 1))"
    "b_prev (log_demo bs d) = (\<lambda>x. case x of Head \<Rightarrow> Node 29 | Node i \<Rightarrow> if i = 0 then Head else Node (i - 1))"
    by (simp_all add: log_demo_def bio_demo_def kdisk.extend_def kbio.extend_def kcons.extend_def)
  then show ?thesis by (simp add: lru_def upt_conv_Cons)
qed

lemma log_demo_commit: "cache 1 5 (log_demo one_buf clean_disk) changed_disk ((\<lambda>_. 0)(50 := 1)) {}"
  using log_demo_lru [of one_buf clean_disk]
  by (auto simp: cache_def unlocked_def log_demo_simps buf_ok_def caches_def one_buf_def empty_bufs_def changed_disk_def
      intro!: exI [of _ "[0..<30]"])

lemma log_demo_boot: "cache 1 5 (log_demo empty_bufs d) (disk_img (log_demo empty_bufs d)) (\<lambda>_. 0) {}"
  using log_demo_lru [of empty_bufs d]
  by (auto simp: cache_def unlocked_def log_demo_simps buf_ok_def caches_def empty_bufs_def intro!: exI [of _ "[0..<30]"])

theorem commit_crash_atomic_witness:
  "\<exists>t u. commit (log_demo one_buf clean_disk) = Ret () t \<and>
    initlog 1 \<lparr>sb_magic = 0x10203040, sb_size = 1000, sb_nblocks = 954, sb_ninodes = 200, sb_nlog = 30,
        sb_logstart = 2, sb_inodestart = 32, sb_bmapstart = 45\<rparr>
      (log_demo empty_bufs (apply_writes (take 2 (commit_writes 2 1 (\<lambda>_. 50) changed_disk)) clean_disk)) = Ret () u \<and>
    disk_img u 50 0 = 7"
proof -
  let ?d = "apply_writes (take 2 (commit_writes 2 1 (\<lambda>_. 50) changed_disk)) clean_disk"
  let ?sb = "\<lparr>sb_magic = 0x10203040, sb_size = 1000, sb_nblocks = 954, sb_ninodes = 200, sb_nlog = 30,
        sb_logstart = 2, sb_inodestart = 32, sb_bmapstart = 45\<rparr>"
  have log: "log_at 1 2 1 (\<lambda>_. 50) (log_demo one_buf clean_disk)" "log_ok 2 1 (\<lambda>_. 50)"
    by (simp_all add: log_at_def log_demo_simps log_ok_def log_blk_def)
  have zero: "get32 (\<lambda>_. 0) 0 = 0" by (simp add: get_le_def upt_conv_Cons)
  have "{x. 0 < ((\<lambda>_ :: u32. 0 :: nat)(50 := 1)) x} = {50}" by auto
  then have few: "card {x. 0 < ((\<lambda>_ :: u32. 0 :: nat)(50 := 1)) x} < NBUF" by simp
  have out: "50 \<notin> log_region 2 1" by (auto simp: log_region_def log_blk_def)
  have "\<exists>t u. commit (log_demo one_buf clean_disk) = Ret () t \<and> wtrace t = wtrace (log_demo one_buf clean_disk) @ commit_writes 2 1 (\<lambda>_. 50) changed_disk \<and> lh_n t = 0 \<and>
    initlog 1 ?sb (log_demo empty_bufs ?d) = Ret () u \<and> wtrace u = wtrace (log_demo empty_bufs ?d) @ recover_writes 2 (disk_img (log_demo empty_bufs ?d)) \<and> lh_n u = 0 \<and>
    get32 (disk_img u 2) 0 = 0 \<and>
    (\<forall>x. x \<notin> log_region 2 1 \<longrightarrow> disk_img u x = (if 2 \<le> (1 :: nat) then disk_img (log_demo one_buf clean_disk) x else changed_disk x))"
    by (rule commit_crash_atomic [OF log_demo_commit log _ _ _ _ _ few _ _ _ log_demo_boot])
      (auto simp: log_demo_simps log_blk_def clean_disk_def changed_disk_def zero inj_on_def intro: crashes.none)
  then show ?thesis using out by (auto simp: changed_disk_def)
qed

text \<open>
  C6: the buffer cache is a faithful and coherent copy of the disk. For a block that the process has
  not locked, \<open>bread\<close> returns a locked buffer with the contents \<open>V bno\<close> of the block, whether it was
  cached or not and whether or not its contents have reached the disk, and changes no contents;
  the process may then change the data, write the buffer and release it, which makes exactly this
  change to the contents and to the disk and restores the references and the locks.
\<close>

theorem block_cache_refines:
  assumes "cache dev p s V R L" and "bno \<notin> L" and "R bno < 4294967295" and "card {x. 0 < R x} < NBUF"
  shows "\<exists>b t u. bread dev bno s = Ret b t \<and> get_data b t = Ret (V bno) t \<and>
    cache dev p t V (R(bno := Suc (R bno))) (insert bno L) \<and> disk_img t = disk_img s \<and>
    andthen (set_data b d) (andthen (bwrite b) (brelse b)) t = Ret () u \<and>
    cache dev p u (V(bno := d)) R L \<and> disk_img u = (disk_img s)(bno := d) \<and> wtrace u = wtrace s @ [(bno, d)]"
proof -
  let ?R = "R(bno := Suc (R bno))"
  obtain b t where t: "bread dev bno s = Ret b t" "cache dev p t V ?R (insert bno L)" "caches dev (bufs t) b bno"
    "bio_step dev R s t" "disk_img t = disk_img s" "wtrace t = wtrace s"
    by (rule bread_cache [OF assms])
  obtain s' v where v: "set_data b d t = Ret () s'" "bwrite b s' = Ret () v" "cache dev p v (V(bno := d)) ?R (insert bno L)"
    "bio_step dev ?R t v" "disk_img v = (disk_img t)(bno := d)" "wtrace v = wtrace t @ [(bno, d)]"
    by (rule set_bwrite_cache [OF t(2,3)]) simp_all
  have b: "caches dev (bufs v) b bno" by (rule bio_step_caches [OF v(4) t(3)]) simp
  obtain u where u: "brelse b v = Ret () u" "cache dev p u (V(bno := d)) (?R(bno := ?R bno - 1)) (insert bno L - {bno})"
    "disk_img u = disk_img v" "wtrace u = wtrace v"
    by (rule brelse_cache [OF v(3) b]) (use v(5) in simp_all)
  have "insert bno L - {bno} = L" using assms(2) by simp
  then show ?thesis
    using t v u get_data_cache [OF t(2,3)] by (intro exI [of _ b] exI [of _ t] exI [of _ u]) (simp add: bind_apply)
qed

theorem block_cache_refines_witness:
  "\<exists>b t u. bread 1 50 (log_demo one_buf clean_disk) = Ret b t \<and> b_data (bufs t b) 3 = 7 \<and>
    andthen (set_data b (\<lambda>_. 9)) (andthen (bwrite b) (brelse b)) t = Ret () u \<and> disk_img u 50 3 = 9"
proof -
  have "{x. 0 < ((\<lambda>_ :: u32. 0 :: nat)(50 := 1)) x} = {50}" by auto
  then have few: "card {x. 0 < ((\<lambda>_ :: u32. 0 :: nat)(50 := 1)) x} < NBUF" by simp
  show ?thesis
    using block_cache_refines [OF log_demo_commit _ _ few, where bno = 50 and d = "\<lambda>_. 9"]
    by (auto simp: get_data_def gets_apply changed_disk_def) 
qed

end
