(* ===== verification/Transaction.thy ===== *)
theory Transaction
  imports Crash
begin

text \<open>
  The space of the log (kernel/log.c): \<open>begin_op\<close> lets an operation start only if the log has room
  for MAXOPBLOCKS = 10 blocks of every operation that is under way, \<open>log_write\<close> takes the room, and
  \<open>end_op\<close> gives it back and commits when the last operation ends. \<open>tx\<close> is the step relation of
  these calls, \<open>log_reserved\<close> its invariant.
\<close>

section \<open>The log while the block layer works\<close>

text \<open>No operation of the buffer cache changes the fields of the log, its lock or the locks of the inodes.\<close>

named_theorems bio_frame \<open>operations that leave the log and the inode locks alone\<close>

definition fs_locks :: "lock set" where
  "fs_locks = insert LogLock (range (\<lambda>i. SleepLk (InodeLock i)))"

lemma fs_locks_simps [simp]:
  "LogLock \<in> fs_locks" "SleepLk (InodeLock i) \<in> fs_locks" "BcacheLock \<notin> fs_locks" "ProcLock p \<notin> fs_locks"
  "SleepLk (BufLock b) \<notin> fs_locks"
  by (auto simp: fs_locks_def)

abbreviation above_bio :: "'z \<Rightarrow> (nat \<Rightarrow> sleeplock) \<times> lock set \<Rightarrow> 'z kbio_scheme \<Rightarrow> bool" where
  "above_bio x l \<equiv> \<lambda>s. kbio.more s = x \<and> (\<lambda>i. sleeplocks s (InodeLock i), held s \<inter> fs_locks) = l"

lemma bio_frame_locks [bio_frame]:
  fixes x :: 'z
  shows "lk \<notin> fs_locks \<Longrightarrow> keeps (above_bio x l) (acquire lk)" "lk \<notin> fs_locks \<Longrightarrow> keeps (above_bio x l) (release lk)"
proof -
  have "(held s - {lk}) \<inter> fs_locks = held s \<inter> fs_locks" if "lk \<notin> fs_locks" for s :: "'z kbio_scheme" using that by auto
  then show "lk \<notin> fs_locks \<Longrightarrow> keeps (above_bio x l) (acquire lk)" "lk \<notin> fs_locks \<Longrightarrow> keeps (above_bio x l) (release lk)"
    by (simp_all add: keeps_def acquire_def release_def)
qed

lemma bio_frame_upd [bio_frame]:
  "keeps (above_bio x l) (upd p f)" "keeps (above_bio x l) (upd_slk (BufLock b) g)" "keeps (above_bio x l) (upd_buf b h)"
  "keeps (above_bio x l) (get_proc p)" "keeps (above_bio x l) (get_buf b)" "keeps (above_bio x l) curproc"
  "keeps (above_bio x l) myproc" "keeps (above_bio x l) (\<lambda>s. Blocked s)"
  by (simp_all add: keeps_def upd_def upd_slk_def upd_buf_def get_proc_def get_buf_def curproc_def myproc_def prog_simps
      split: option.splits)

lemma bio_frame_sched [bio_frame]:
  "keeps (above_bio x l) sched" "lk \<notin> fs_locks \<Longrightarrow> keeps (above_bio x l) (sleep c lk)" "keeps (above_bio x l) (wakeup c)"
  unfolding sched_def sleep_def wakeup_def wakeup1_def
  by (auto intro!: keeps_intros bio_frame split: prod.splits)

lemma bio_frame_sleeplock [bio_frame]:
  "keeps (above_bio x l) (acquiresleep (BufLock b))" "keeps (above_bio x l) (releasesleep (BufLock b))"
  "keeps (above_bio x l) (holdingsleep (BufLock b))"
  unfolding acquiresleep_def acquiresleep_loop_def releasesleep_def holdingsleep_def
  by (auto intro!: keeps_intros bio_frame)

lemma bio_frame_list [bio_frame]: "keeps (above_bio x l) (link_front b)" "keeps (above_bio x l) (unlink b)"
  unfolding link_front_def unlink_def by (auto intro!: keeps_intros keeps_modify)

lemma bio_frame_ops [bio_frame]:
  "keeps (above_bio x l) (bget dev bno)" "keeps (above_bio x l) (disk_rw b wr)"
  unfolding bget_def disk_rw_def
  by (auto intro!: keeps_intros bio_frame keeps_modify split: option.splits)

lemma bio_frame_bio [bio_frame]:
  "keeps (above_bio x l) (bread dev bno)" "keeps (above_bio x l) (bwrite b)" "keeps (above_bio x l) (brelse b)"
  "keeps (above_bio x l) (set_data b d)" "keeps (above_bio x l) (get_data b)"
  unfolding bread_def bwrite_def brelse_def set_data_def get_data_def
  by (auto intro!: keeps_intros bio_frame)

lemma keeps_above:
  assumes "\<And>x l. keeps (above_bio x l) f" and "f s = Ret y t"
  shows "kbio.more t = kbio.more s" and "sleeplocks t (InodeLock i) = sleeplocks s (InodeLock i)"
    and "lk \<in> fs_locks \<Longrightarrow> lk \<in> held t \<longleftrightarrow> lk \<in> held s"
  using keepsD_Ret [OF assms(1) _ assms(2), of "kbio.more s" "(\<lambda>i. sleeplocks s (InodeLock i), held s \<inter> fs_locks)"]
  by (auto simp: fun_eq_iff)

lemma write_head_frame: "write_head s = Ret () t \<Longrightarrow> kbio.more t = kbio.more s"
  by (rule keeps_above(1) [of write_head])
    (auto simp: write_head_def intro!: keeps_intros bio_frame split: prod.splits)

lemma wakeup_frame: "wakeup c s = Ret () t \<Longrightarrow> kbio.more t = kbio.more (s :: 'z kbio_scheme)"
  by (rule keeps_above(1) [of "wakeup c"]) (auto intro: bio_frame)

lemma commit_empty:
  assumes "commit s = Ret () t" and "0 \<le> sint (lh_n s)"
  shows "lh_n t = 0"
proof (cases "sint (lh_n s) > 0")
  case True
  with assms(1) obtain u where "write_head (u\<lparr>lh_n := 0\<rparr>) = Ret () t"
    by (auto simp: commit_def prog_simps elim!: bind_RetE split: outcome.splits)
  from log_fields_more(3) [OF write_head_frame [OF this]] show ?thesis by simp
next
  case False
  with assms have "sint (lh_n s) = 0" "t = s" by (auto simp: commit_def prog_simps)
  then show ?thesis by (simp add: signed_eq_0_iff)
qed

section \<open>Reservations\<close>

text \<open>
  \<open>us\<close> has, for every operation under way, the number of its calls of \<open>log_write\<close> so far. What the
  log holds and what the operations may still write fit into the log.
\<close>

definition log_reserved :: "'z klog_scheme \<Rightarrow> nat list \<Rightarrow> bool" where
  "log_reserved s us \<longleftrightarrow> length us \<le> 3 \<and> (\<forall>u \<in> set us. u \<le> 10) \<and> log_outstanding s = of_nat (length us) \<and>
     (us = [] \<longrightarrow> lh_n s = 0) \<and> (\<exists>n. lh_n s = of_nat n \<and> n + (\<Sum>u \<leftarrow> us. 10 - u) \<le> LOGSIZE)"

inductive tx :: "'z klog_scheme \<times> nat list \<Rightarrow> 'z klog_scheme \<times> nat list \<Rightarrow> bool" where
  tx_begin: "begin_op s = Ret () t \<Longrightarrow> tx (s, us) (t, 0 # us)"
| tx_resume: "begin_op_resume p s = Ret () t \<Longrightarrow> tx (s, us) (t, 0 # us)"
| tx_write: "i < length us \<Longrightarrow> us ! i < 10 \<Longrightarrow> log_write b s = Ret () t \<Longrightarrow> tx (s, us) (t, us[i := Suc (us ! i)])"
| tx_end: "end_op s = Ret () t \<Longrightarrow> tx (s, us @ [u] @ vs) (t, us @ vs)"

inductive_cases tx_E: "tx c c'"

lemma small_sint: "n < 2147483648 \<Longrightarrow> sint (of_nat n :: u32) = int n"
  by (simp add: signed_of_nat signed_take_bit_int_eq_self)

lemma sleep_no_Ret: "sleep c lk s \<noteq> Ret x t"
  by (simp add: sleep_def sched_def prog_simps split: outcome.splits)

lemma begin_op_round_eq:
  fixes s :: "'z klog_scheme"
  assumes "lh_n s = of_nat n" and "n \<le> 30" and "log_outstanding s = of_nat m" and "m \<le> 3"
  shows "begin_op_round s = (if log_committing s \<noteq> 0 \<or> n + (m + 1) * 10 > LOGSIZE then sleep ChanLog LogLock s
     else release LogLock (s\<lparr>log_outstanding := of_nat (Suc m)\<rparr>))"
proof -
  have need: "lh_n s + (log_outstanding s + 1) * 10 = of_nat (n + (m + 1) * 10)" by (simp add: assms)
  have "sint (of_nat (n + (m + 1) * 10) :: u32) = int (n + (m + 1) * 10)"
    using assms by (intro small_sint) simp
  moreover have "log_outstanding s + 1 = of_nat (Suc m)" using assms by simp
  ultimately show ?thesis unfolding begin_op_round_def bind_apply gets_apply outcome.case prod.case need
    by (simp add: prog_simps del: of_nat_add of_nat_mult of_nat_Suc)
qed

lemma log_reservedE:
  assumes "log_reserved s us"
  obtains n where "lh_n s = of_nat n" "n \<le> 30" "n + (\<Sum>u \<leftarrow> us. 10 - u) \<le> 30" "length us \<le> 3"
    "log_outstanding s = of_nat (length us)" "\<forall>u \<in> set us. u \<le> 10" "us = [] \<longrightarrow> n = 0"
proof -
  from assms obtain n where n: "lh_n s = of_nat n" "n + (\<Sum>u \<leftarrow> us. 10 - u) \<le> 30"
    by (auto simp: log_reserved_def)
  have "n \<le> 30" by (rule add_leD1 [OF n(2)])
  moreover have "n = 0" if "us = []"
    using assms that n(1) small_sint [of n] \<open>n \<le> 30\<close> by (simp add: log_reserved_def)
  ultimately show ?thesis using assms n by (intro that [of n]) (auto simp: log_reserved_def)
qed

lemma reserved_room: "(\<Sum>u \<leftarrow> us. 10 - u) \<le> length us * (10 :: nat)"
  by (induction us) simp_all

lemma begin_round_reserved:
  fixes s :: "'z klog_scheme"
  assumes "begin_op_round s = Ret () t" and "log_reserved s us"
  shows "log_reserved t (0 # us)"
proof -
  from assms(2) obtain n where n: "lh_n s = of_nat n" "n \<le> 30" "n + (\<Sum>u \<leftarrow> us. 10 - u) \<le> 30" "length us \<le> 3"
    "log_outstanding s = of_nat (length us)" "\<forall>u \<in> set us. u \<le> 10" "us = [] \<longrightarrow> n = 0"
    by (rule log_reservedE)
  from assms(1) have r: "n + (length us + 1) * 10 \<le> 30" "release LogLock (s\<lparr>log_outstanding := of_nat (Suc (length us))\<rparr>) = Ret () t"
    unfolding begin_op_round_eq [OF n(1,2,5,4)] by (auto simp: sleep_no_Ret split: if_splits)
  from r(2) have "lh_n t = lh_n s" "log_outstanding t = of_nat (Suc (length us))"
    by (auto simp: release_def split: if_splits)
  moreover have "n + (\<Sum>u \<leftarrow> 0 # us. 10 - u) \<le> 30" using r(1) reserved_room [of us] by simp
  ultimately show ?thesis using n r(1) unfolding log_reserved_def by (intro conjI exI [of _ n]) auto
qed

lemma log_write_change:
  assumes "log_write b s = Ret () t"
  shows "log_outstanding t = log_outstanding s" and "lh_n t = lh_n s \<or> lh_n t = lh_n s + 1"
  using assms unfolding log_write_def bpin_def with_lock_def upd_buf_def
  by (auto simp: prog_simps get_buf_def acquire_def release_def split: if_splits)

lemma sum_list_spent: "i < length us \<Longrightarrow> us ! i < 10 \<Longrightarrow>
    (\<Sum>u \<leftarrow> us. 10 - u) = Suc (\<Sum>u \<leftarrow> us[i := Suc (us ! i)]. 10 - u :: nat)"
proof (induction us arbitrary: i)
  case (Cons u us)
  then show ?case by (cases i) auto
qed simp

lemma log_write_reserved_step:
  fixes s :: "'z klog_scheme"
  assumes "log_write b s = Ret () t" and "log_reserved s us" and i: "i < length us" "us ! i < 10"
  shows "log_reserved t (us[i := Suc (us ! i)])"
proof -
  from assms(2) obtain n where n: "lh_n s = of_nat n" "n \<le> 30" "n + (\<Sum>u \<leftarrow> us. 10 - u) \<le> 30" "length us \<le> 3"
    "log_outstanding s = of_nat (length us)" "\<forall>u \<in> set us. u \<le> 10" "us = [] \<longrightarrow> n = 0"
    by (rule log_reservedE)
  have "lh_n t = of_nat n \<or> lh_n t = of_nat (Suc n)" using log_write_change(2) [OF assms(1)] n(1) by (auto simp: add.commute)
  moreover have "Suc n + (\<Sum>u \<leftarrow> us[i := Suc (us ! i)]. 10 - u) \<le> 30"
    using n(3) sum_list_spent [OF i] by simp
  then have "n + (\<Sum>u \<leftarrow> us[i := Suc (us ! i)]. 10 - u) \<le> 30" by simp
  moreover have "\<forall>u \<in> set (us[i := Suc (us ! i)]). u \<le> 10"
    using n(6) i(2) set_update_subset_insert [of us i "Suc (us ! i)"] by auto
  ultimately show ?thesis
    using n i(1) log_write_change(1) [OF assms(1)] \<open>Suc n + _ \<le> 30\<close> unfolding log_reserved_def by fastforce
qed

lemma keeps_outstanding:
  fixes f :: "('z klog_scheme, 'a) prog"
  assumes "\<And>y l. keeps (above_bio y l) f"
  shows "keeps (\<lambda>s. log_outstanding s = x) f"
proof -
  have *: "log_outstanding u = log_outstanding v" if "kbio.more u = kbio.more v" for u v :: "'z klog_scheme"
    using that by (cases u; cases v) simp
  show ?thesis
  proof (rule keepsI)
    fix s y t
    assume "log_outstanding s = x" and "f s = Ret y t"
    then show "log_outstanding t = x" using * [of t s] keeps_above(1) [OF assms] by simp
  next
    fix s t
    assume "log_outstanding s = x" and "f s = Blocked t"
    then show "log_outstanding t = x"
      using * [of t s] keepsD_Blocked [OF assms, of s "kbio.more s" "(\<lambda>i. sleeplocks s (InodeLock i), held s \<inter> fs_locks)" t] by simp
  qed
qed

lemma commit_outstanding: "commit s = Ret () t \<Longrightarrow> log_outstanding t = log_outstanding s"
proof (rule keepsD_Ret [of "\<lambda>u. log_outstanding u = log_outstanding s" commit s "()" t])
  note frame = bio_frame [THEN keeps_outstanding]
  show "keeps (\<lambda>u. log_outstanding u = log_outstanding s) commit"
    unfolding commit_def write_log_def write_log_block_def write_head_def install_trans_def install_block_def bunpin_def with_lock_def
    by (auto intro!: keeps_intros frame keeps_modify split: prod.splits)
qed simp_all

lemma wakeup_outstanding: "wakeup c s = Ret () t \<Longrightarrow> log_outstanding t = log_outstanding s"
  by (rule keepsD_Ret [of "\<lambda>u. log_outstanding u = log_outstanding s" "wakeup c" s "()" t])
    (auto intro: bio_frame keeps_outstanding)

lemma end_op_change:
  fixes s :: "'z klog_scheme"
  assumes "end_op s = Ret () t" and "log_outstanding s = of_nat (Suc m)" and "m < 3" and "0 \<le> sint (lh_n s)"
  shows "log_outstanding t = of_nat m \<and> lh_n t = (if m = 0 then 0 else lh_n s)"
proof -
  have om: "log_outstanding s - 1 = of_nat m" using assms(2) by simp
  have mz: "(of_nat m :: i32) = 0 \<longleftrightarrow> m = 0" using assms(3) small_sint [of m] by auto
  show ?thesis
  proof (cases "m = 0")
    case True
    with assms(1,2) obtain v x where r: "commit (s\<lparr>log_outstanding := 0, log_committing := 1\<rparr>) = Ret () v"
      "wakeup ChanLog (v\<lparr>held := insert LogLock (held v), log_committing := 0\<rparr>) = Ret () x"
      "t = x\<lparr>held := held x - {LogLock}\<rparr>"
      by (auto simp: end_op_def prog_simps acquire_def release_def split: if_splits outcome.splits)
    from log_fields_more(3) [OF wakeup_frame [OF r(2)]] wakeup_outstanding [OF r(2)] r(3) commit_outstanding [OF r(1)]
      commit_empty [OF r(1)] assms(4) True
    show ?thesis by simp
  next
    case False
    with assms(1) om mz obtain x where
      r: "wakeup ChanLog (s\<lparr>held := insert LogLock (held s), log_outstanding := of_nat m\<rparr>) = Ret () x"
      "t = x\<lparr>held := held x - {LogLock}\<rparr>"
      by (auto simp: end_op_def prog_simps acquire_def release_def split: if_splits outcome.splits)
    from log_fields_more(3) [OF wakeup_frame [OF r(1)]] wakeup_outstanding [OF r(1)] r(2) False show ?thesis by simp
  qed
qed

lemma end_op_reserved:
  fixes s :: "'z klog_scheme"
  assumes "end_op s = Ret () t" and "log_reserved s (us @ [u] @ vs)"
  shows "log_reserved t (us @ vs)"
proof -
  let ?us = "us @ [u] @ vs"
  from assms(2) obtain n where n: "lh_n s = of_nat n" "n \<le> 30" "n + (\<Sum>u \<leftarrow> ?us. 10 - u) \<le> 30" "length ?us \<le> 3"
    "log_outstanding s = of_nat (length ?us)" "\<forall>u \<in> set ?us. u \<le> 10" "?us = [] \<longrightarrow> n = 0"
    by (rule log_reservedE)
  have "0 \<le> sint (lh_n s)" using n(1,2) small_sint [of n] by simp
  with assms(1) n(4,5) have "log_outstanding t = of_nat (length (us @ vs))" "lh_n t = (if length (us @ vs) = 0 then 0 else lh_n s)"
    using end_op_change [of s t "length (us @ vs)"] by (simp_all split: if_splits)
  then show ?thesis using n unfolding log_reserved_def
    by (intro conjI exI [of _ "if us @ vs = [] then 0 else n"]) auto
qed

lemma log_reserved_cong:
  "lh_n t = lh_n s \<Longrightarrow> log_outstanding t = log_outstanding s \<Longrightarrow> log_reserved t us = log_reserved s us"
  by (simp add: log_reserved_def)

lemma tx_reserved: "tx c c' \<Longrightarrow> log_reserved (fst c) (snd c) \<Longrightarrow> log_reserved (fst c') (snd c')"
proof (induction rule: tx.induct)
  case (tx_begin s t us)
  then obtain u where "acquire LogLock s = Ret () u" "begin_op_round u = Ret () t"
    by (auto simp: begin_op_def elim: bind_RetE)
  moreover from this(1) have "log_reserved u us = log_reserved s us"
    by (intro log_reserved_cong) (auto simp: acquire_def split: if_splits)
  ultimately show ?case using tx_begin begin_round_reserved [of u t us] by simp
next
  case (tx_resume p s t us)
  then obtain u where "sleep_resume p LogLock s = Ret () u" "begin_op_round u = Ret () t"
    by (auto simp: begin_op_resume_def elim: bind_RetE)
  moreover from this(1) have "log_reserved u us = log_reserved s us"
    by (intro log_reserved_cong) (auto simp: sleep_resume_def upd_def prog_simps acquire_def release_def split: if_splits)
  ultimately show ?case using tx_resume begin_round_reserved [of u t us] by simp
next
  case (tx_write i us b s t)
  then show ?case using log_write_reserved_step by simp
next
  case (tx_end s t us u vs)
  then show ?case using end_op_reserved by simp
qed



lemma log_index_found: "log_index n blk b i < i + n \<Longrightarrow> blk (log_index n blk b i) = b"
  by (induction n arbitrary: i) (auto split: if_splits)

lemma log_index_le: "log_index n blk b i \<le> i + n"
proof (induction n arbitrary: i)
  case (Suc n)
  then show ?case using Suc [of "Suc i"] by simp
qed simp

lemma log_index_absent: "log_index n blk b i = i + n \<longleftrightarrow> (\<forall>j. i \<le> j \<longrightarrow> j < i + n \<longrightarrow> blk j \<noteq> b)"
proof (induction n arbitrary: i)
  case (Suc n)
  have *: "i \<le> j \<longleftrightarrow> j = i \<or> Suc i \<le> j" for j by auto
  have "(\<forall>j. i \<le> j \<longrightarrow> j < i + Suc n \<longrightarrow> blk j \<noteq> b) \<longleftrightarrow> blk i \<noteq> b \<and> (\<forall>j. Suc i \<le> j \<longrightarrow> j < Suc i + n \<longrightarrow> blk j \<noteq> b)"
    unfolding * by auto
  then show ?case using Suc [of "Suc i"] by simp
qed simp

text \<open>
  C8: what \<open>log_write\<close> does for an operation that has not used up its reservation. A block that is
  already in the log is absorbed, and nothing changes; another block is appended to the header and
  pinned in the buffer cache. But with the log of LOGSIZE = 30 blocks that mkfs makes, whose first
  block is the header, the kernel panics once the log holds 29 blocks, although \<open>begin_op\<close> promised
  the operation room for one more.
\<close>

theorem log_write_room:
  assumes "log_reserved s us" and "i < length us" and "us ! i < 10" and "log_size s = 30"
    and "LogLock \<notin> held s" and "BcacheLock \<notin> held s"
  shows "log_write b s =
    (if lh_n s = 29 then Panic ''too big a transaction''
     else if \<exists>j < unat (lh_n s). lh_block s j = b_blockno (bufs s b) then Ret () s
     else Ret () (s\<lparr>bufs := (bufs s)(b := (bufs s b)\<lparr>b_refcnt := b_refcnt (bufs s b) + 1\<rparr>),
       lh_block := (lh_block s)(unat (lh_n s) := b_blockno (bufs s b)), lh_n := lh_n s + 1\<rparr>))"
proof -
  from assms(1) obtain n where n: "lh_n s = of_nat n" "n + (\<Sum>u \<leftarrow> us. 10 - u) \<le> 30" "length us \<le> 3"
    "log_outstanding s = of_nat (length us)"
    by (rule log_reservedE)
  have n29: "n \<le> 29" using n(2) sum_list_spent [OF assms(2,3)] by simp
  then have un: "unat (lh_n s) = n" "sint (lh_n s) = int n" "lh_n s = 29 \<longleftrightarrow> n = 29"
    using n(1) small_sint [of n] by (simp_all add: unat_of_nat) (auto dest: arg_cong [where f = sint])
  have os: "\<not> sint (log_outstanding s) < 1"
    using n(3,4) assms(2) small_sint [of "length us"] by auto
  let ?x = "b_blockno (bufs s b)" and ?i = "log_index n (lh_block s) (b_blockno (bufs s b)) 0"
  have ab: "(\<exists>j < n. lh_block s j = ?x) \<longleftrightarrow> ?i \<noteq> n" using log_index_absent [of n "lh_block s" ?x 0] by auto
  have idem: "(lh_block s)(?i := ?x) = lh_block s" if "?i \<noteq> n"
    using log_index_found [of n "lh_block s" ?x 0] log_index_le [of n "lh_block s" ?x 0] that by (simp add: fun_upd_idem)
  show ?thesis
    using n29 os idem assms(4-6)
    by (simp add: log_write_def prog_simps un get_buf_def bpin_def with_lock_def upd_buf_def ab)
qed

theorem log_write_room_witness:
  "log_reserved (log_demo empty_bufs clean_disk\<lparr>lh_n := 29, log_outstanding := 3\<rparr>) [10, 10, 9] \<and>
   log_write 0 (log_demo empty_bufs clean_disk\<lparr>lh_n := 29, log_outstanding := 3\<rparr>) = Panic ''too big a transaction''"
proof -
  let ?s = "log_demo empty_bufs clean_disk\<lparr>lh_n := 29, log_outstanding := 3\<rparr>"
  have r: "log_reserved ?s [10, 10, 9]" by (simp add: log_reserved_def) (rule exI [of _ 29], simp)
  have z: "log_size ?s = 30" by (simp add: log_demo_def kdisk.extend_def)
  show ?thesis using log_write_room [OF r, where i = 2 and b = 0] r z by (simp add: log_demo_simps)
qed

end
