(* ===== verification/Inode.thy ===== *)
theory Inode
  imports Transaction File
begin

text \<open>
  The file system above the log (kernel/fs.c): the change of a block inside a transaction, and what it
  makes of the inodes on the disk.
\<close>

section \<open>Changing a block in a transaction\<close>

text \<open>
  \<open>in_op dev p V R us s\<close>: process \<open>p\<close> holds no buffer; \<open>V\<close> has the contents of the blocks, \<open>R\<close> the
  references to them, and \<open>us\<close> the use of the log by the operations under way. The blocks of
  the log are pinned.
\<close>

definition logged :: "'z klog_scheme \<Rightarrow> u32 set" where
  "logged s = lh_block s ` {..<unat (lh_n s)}"

definition in_op :: "u32 \<Rightarrow> nat \<Rightarrow> (u32 \<Rightarrow> bytes) \<Rightarrow> (u32 \<Rightarrow> nat) \<Rightarrow> nat list \<Rightarrow> 'z klog_scheme \<Rightarrow> bool" where
  "in_op dev p V R us s \<longleftrightarrow> cache dev p s V R {} \<and> log_reserved s us \<and> log_size s = 30 \<and> held s \<inter> fs_locks = {} \<and>
     (\<forall>x \<in> logged s. 0 < R x)"

lemma unat_lh_n:
  assumes "log_reserved s us"
  shows "unat (lh_n s) \<le> 30" and "lh_n s \<noteq> 29 \<Longrightarrow> i < length us \<Longrightarrow> us ! i < 10 \<Longrightarrow> unat (lh_n s) < 29"
proof -
  from assms obtain n where n: "lh_n s = of_nat n" "n \<le> 30" "n + (\<Sum>u \<leftarrow> us. 10 - u) \<le> 30"
    by (rule log_reservedE)
  then have u: "unat (lh_n s) = n" by (simp add: unat_of_nat)
  then show "unat (lh_n s) \<le> 30" using n by simp
  assume "lh_n s \<noteq> 29" and "i < length us" and "us ! i < 10"
  then have "n \<noteq> 29" "n \<le> 29" using n sum_list_spent [of i us] by auto
  then show "unat (lh_n s) < 29" using u by simp
qed

lemma log_write_cache:
  fixes s :: "'z klog_scheme"
  assumes c: "cache dev p s V R L" and b: "caches dev (bufs s) b x" and r: "0 < R x" "R x < 4294967295"
    and lr: "log_reserved s us" and i: "i < length us" "us ! i < 10" and sz: "log_size s = 30" and lk: "LogLock \<notin> held s"
    and n: "lh_n s \<noteq> 29"
  obtains t where "log_write b s = Ret () t"
    and "cache dev p t V (if x \<in> logged s then R else R(x := Suc (R x))) L"
    and "caches dev (bufs t) b x" and "logged t = insert x (logged s)" and "log_reserved t (us[i := Suc (us ! i)])"
    and "log_size t = 30" and "held t = held s" and "disk_img t = disk_img s" and "klog.more t = klog.more s"
    and "sleeplocks t = sleeplocks s" and "unat (lh_n t) \<le> Suc (unat (lh_n s))"
proof -
  have "BcacheLock \<notin> held s" using cache_D(1) [OF c] by (simp add: unlocked_def)
  note w = log_write_room [OF lr i sz lk this, of b]
  have bx: "b_blockno (bufs s b) = x" by (rule cache_buf(5) [OF c b])
  have mem: "(\<exists>j < unat (lh_n s). lh_block s j = x) \<longleftrightarrow> x \<in> logged s" by (auto simp: logged_def)
  show ?thesis
  proof (cases "x \<in> logged s")
    case True
    then have "log_write b s = Ret () s" using w n by (simp add: bx mem)
    moreover from this have "log_reserved s (us[i := Suc (us ! i)])" using lr i by (rule log_write_reserved_step)
    ultimately show ?thesis using True c b sz by (intro that [of s]) auto
  next
    case False
    obtain u where u: "bpin b s = Ret () u" "cache dev p u V (R(x := Suc (R x))) L"
      by (rule bpin_cache [OF c b r])
    let ?t = "s\<lparr>bufs := (bufs s)(b := (bufs s b)\<lparr>b_refcnt := b_refcnt (bufs s b) + 1\<rparr>),
      lh_block := (lh_block s)(unat (lh_n s) := x), lh_n := lh_n s + 1\<rparr>"
    have "u = s\<lparr>bufs := (bufs s)(b := (bufs s b)\<lparr>b_refcnt := b_refcnt (bufs s b) + 1\<rparr>)\<rparr>"
      using u(1) \<open>BcacheLock \<notin> held s\<close> by (simp add: bpin_def with_lock_apply upd_buf_def prog_simps)
    then have "cache dev p ?t V (R(x := Suc (R x))) L" using u(2) by simp
    moreover have e: "log_write b s = Ret () ?t" using w n False by (simp add: bx mem)
    moreover have "caches dev (bufs ?t) b x" using b by (auto simp: caches_def)
    moreover have "logged ?t = insert x (logged s)"
      using unat_lh_n(1) [OF lr] by (auto simp: logged_def unat_incr lessThan_Suc image_iff)
    moreover have "log_reserved ?t (us[i := Suc (us ! i)])" using e lr i by (rule log_write_reserved_step)
    moreover have "unat (lh_n ?t) \<le> Suc (unat (lh_n s))" using unat_lh_n(1) [OF lr] by (simp add: unat_incr)
    ultimately show ?thesis using False sz by (intro that [of ?t]) simp_all
  qed
qed

lemma log_reserved_more:
  fixes s t :: "'z klog_scheme"
  assumes "kbio.more t = kbio.more s"
  shows "log_reserved t us = log_reserved s us" and "log_size t = log_size s" and "logged t = logged s" and "klog.more t = klog.more s"
  using assms by (cases s; cases t; simp add: log_reserved_def logged_def)+

text \<open>The three parts of the change of a block: the buffer is read, its data changed and logged, and it is released.\<close>

lemma open_block:
  fixes s :: "'z klog_scheme"
  assumes op: "in_op dev p V R us s" and r: "R x < 4294967294" and few: "R x = 0 \<Longrightarrow> card {x. 0 < R x} < NBUF"
  obtains b t where "bread dev x s = Ret b t" and "get_data b t = Ret (V x) t" and "caches dev (bufs t) b x"
    and "cache dev p t V (R(x := Suc (R x))) {x}" and "log_reserved t us" and "log_size t = 30" and "held t \<inter> fs_locks = {}"
    and "logged t = logged s" and "disk_img t = disk_img s" and "klog.more t = klog.more s"
    and "\<And>k. sleeplocks t (InodeLock k) = sleeplocks s (InodeLock k)" and "lh_n t = lh_n s"
proof -
  note o = op [unfolded in_op_def]
  have r': "R x < 4294967295" using r by simp
  obtain b t where t: "bread dev x s = Ret b t" "cache dev p t V (R(x := Suc (R x))) (insert x {})" "caches dev (bufs t) b x"
    "bio_step dev R s t" "disk_img t = disk_img s" "wtrace t = wtrace s"
    by (rule bread_cache [OF o [THEN conjunct1] _ r' few]) blast+
  note m = log_reserved_more [OF bio_step_more [OF t(4)]]
  note k = keeps_above(2,3) [OF bio_frame_bio(1) t(1)]
  have l: "held t \<inter> fs_locks = {}" using o k(2) by auto
  show ?thesis using that [OF t(1) get_data_cache [OF t(2,3)] t(3)] t(2,5) o m k(1)
      log_fields_more(3) [OF bio_step_more [OF t(4)]] l by simp
qed

lemma close_block:
  fixes s :: "'z klog_scheme"
  assumes c: "cache dev p s V (R(x := Suc (R x))) {x}" and b: "caches dev (bufs s) b x" and r: "R x < 4294967294"
    and lr: "log_reserved s us" and i: "i < length us" "us ! i < 10" and sz: "log_size s = 30" and lk: "held s \<inter> fs_locks = {}"
    and n: "lh_n s \<noteq> 29" and pin: "\<forall>x \<in> logged s. 0 < R x"
  obtains t where "andthen (set_data b d) (andthen (log_write b) (brelse b)) s = Ret () t"
    and "in_op dev p (V(x := d)) (if x \<in> logged s then R else R(x := Suc (R x))) (us[i := Suc (us ! i)]) t"
    and "logged t = insert x (logged s)" and "disk_img t = disk_img s" and "klog.more t = klog.more s"
    and "\<And>k. sleeplocks t (InodeLock k) = sleeplocks s (InodeLock k)" and "unat (lh_n t) \<le> Suc (unat (lh_n s))"
proof -
  let ?R = "R(x := Suc (R x))"
  obtain s1 where 1: "set_data b d s = Ret () s1" "cache dev p s1 (V(x := d)) ?R {x}" "bio_step dev ?R s s1" "disk_img s1 = disk_img s"
    by (rule set_data_cache [OF c b]) simp
  note m1 = log_reserved_more [OF bio_step_more [OF 1(3)]]
  have h1: "held s1 = held s" "sleeplocks s1 = sleeplocks s" using 1(1) by (auto simp: set_data_def upd_buf_def prog_simps)
  have b1: "caches dev (bufs s1) b x" by (rule bio_step_caches [OF 1(3) b]) simp
  have n1: "lh_n s1 \<noteq> 29" using n log_fields_more(3) [OF bio_step_more [OF 1(3)]] by simp
  have p1: "0 < ?R x" "?R x < 4294967295" "log_reserved s1 us" "log_size s1 = 30" "LogLock \<notin> held s1"
    using r m1 lr sz lk h1 by auto
  obtain s2 where 2: "log_write b s1 = Ret () s2" "cache dev p s2 (V(x := d)) (if x \<in> logged s1 then ?R else ?R(x := Suc (?R x))) {x}"
    "caches dev (bufs s2) b x" "logged s2 = insert x (logged s1)" "log_reserved s2 (us[i := Suc (us ! i)])"
    "log_size s2 = 30" "held s2 = held s1" "disk_img s2 = disk_img s1" "klog.more s2 = klog.more s1" "sleeplocks s2 = sleeplocks s1"
    "unat (lh_n s2) \<le> Suc (unat (lh_n s1))"
    by (rule log_write_cache [OF 1(2) b1 p1(1,2,3) i p1(4,5) n1])
  let ?R2 = "if x \<in> logged s1 then ?R else ?R(x := Suc (?R x))" and ?R3 = "if x \<in> logged s then R else R(x := Suc (R x))"
  have clean: "?R2 x = 1 \<Longrightarrow> (V(x := d)) x = disk_img s2 x" using pin m1(3) by (auto split: if_splits)
  obtain s3 where 3: "brelse b s2 = Ret () s3" "cache dev p s3 (V(x := d)) (?R2(x := ?R2 x - 1)) ({x} - {x})"
    "bio_step dev (?R2(x := ?R2 x - 1)) s2 s3" "disk_img s3 = disk_img s2" "wtrace s3 = wtrace s2"
    by (rule brelse_cache [OF 2(2,3) singletonI clean])
  note m3 = log_reserved_more [OF bio_step_more [OF 3(3)]]
  have R3: "?R2(x := ?R2 x - 1) = ?R3" using m1(3) by (auto simp: fun_eq_iff)
  note k = keeps_above(2,3) [OF bio_frame_bio(3) 3(1)]
  have "held s3 \<inter> fs_locks = {}" using k(2) 2(7) h1 lk by auto
  moreover have "\<forall>y \<in> logged s3. 0 < ?R3 y" using pin m1(3) m3(3) 2(4) by auto
  moreover have "cache dev p s3 (V(x := d)) ?R3 {}" using 3(2) unfolding R3 by simp
  ultimately have "in_op dev p (V(x := d)) ?R3 (us[i := Suc (us ! i)]) s3"
    using m3(1,2) 2(5,6) by (simp add: in_op_def)
  moreover have "sleeplocks s3 (InodeLock k) = sleeplocks s (InodeLock k)" for k
    using k(1) h1 2(10) by simp
  moreover have "unat (lh_n s3) \<le> Suc (unat (lh_n s))"
    using 2(11) log_fields_more(3) [OF bio_step_more [OF 1(3)]] log_fields_more(3) [OF bio_step_more [OF 3(3)]] by simp
  ultimately show ?thesis
    using 1 2 3 m1 m3 by (intro that [of s3]) (simp_all add: bind_apply)
qed

lemma release_block:
  fixes s :: "'z klog_scheme"
  assumes c: "cache dev p s V (R(x := Suc (R x))) {x}" and b: "caches dev (bufs s) b x"
    and clean: "R x = 0 \<Longrightarrow> V x = disk_img s x"
    and lr: "log_reserved s us" and sz: "log_size s = 30" and lk: "held s \<inter> fs_locks = {}" and pin: "\<forall>x \<in> logged s. 0 < R x"
  obtains t where "brelse b s = Ret () t" and "in_op dev p V R us t" and "klog.more t = klog.more s"
    and "\<And>k. sleeplocks t (InodeLock k) = sleeplocks s (InodeLock k)" and "disk_img t = disk_img s"
    and "logged t = logged s" and "lh_n t = lh_n s"
proof -
  let ?R = "R(x := Suc (R x))"
  have "?R x = 1 \<Longrightarrow> V x = disk_img s x" using clean by simp
  then obtain t where t: "brelse b s = Ret () t" "cache dev p t V (?R(x := ?R x - 1)) ({x} - {x})"
    "bio_step dev (?R(x := ?R x - 1)) s t" "disk_img t = disk_img s" "wtrace t = wtrace s"
    by (rule brelse_cache [OF c b singletonI])
  note m = log_reserved_more [OF bio_step_more [OF t(3)]]
  note k = keeps_above(2,3) [OF bio_frame_bio(3) t(1)]
  have "cache dev p t V R {}" using t(2) by simp
  moreover have "held t \<inter> fs_locks = {}" using k(2) lk by auto
  ultimately have "in_op dev p V R us t" using m lr sz pin by (simp add: in_op_def)
  then show ?thesis
    using t(1,4) m(3,4) k(1) log_fields_more(3) [OF bio_step_more [OF t(3)]] by (intro that [of t]) simp_all
qed

section \<open>Inodes\<close>

text \<open>The encoding of an inode in its block.\<close>

lemma get_put_addrs:
  "k < n \<Longrightarrow> get32 (put_addrs n d off a) (off + 4 * k) = a k"
  "m + w \<le> off \<or> off + 4 * n \<le> m \<Longrightarrow> (get_le w (put_addrs n d off a) m :: 'b::len word) = get_le w d m"
  by (induction n) (auto simp: less_Suc_eq get_put_le_other)

lemma dinode_read_write:
  assumes "unat (i_inum q) mod IPB = unat (i_inum j) mod IPB"
  shows "dinode_read (dinode_write d q) j = j\<lparr>i_type := i_type q, i_major := i_major q, i_minor := i_minor q,
    i_nlink := i_nlink q, i_size := i_size q, i_addrs := (\<lambda>k. if k < NDIRECT + 1 then i_addrs q k else i_addrs j k)\<rparr>"
proof -
  have "dinode_off (i_inum j) = dinode_off (i_inum q)" using assms by (simp add: dinode_off_def)
  then show ?thesis
    by (simp add: dinode_read_def dinode_write_def Let_def get_put_addrs get_put_le_other cong: if_cong)
qed

lemma put_addrs_other: "i < off \<or> off + 4 * n \<le> i \<Longrightarrow> put_addrs n d off a i = d i"
  by (induction n) (auto simp: put_le_other)

lemma dinode_write_other:
  "i < dinode_off (i_inum q) \<or> dinode_off (i_inum q) + 64 \<le> i \<Longrightarrow> dinode_write d q i = d i"
  by (auto simp: dinode_write_def Let_def put_addrs_other put_le_other)

lemma dinode_read_cong:
  assumes "\<And>i. dinode_off (i_inum j) \<le> i \<Longrightarrow> i < dinode_off (i_inum j) + 64 \<Longrightarrow> d i = d' i"
  shows "dinode_read d j = dinode_read d' j"
proof -
  let ?o = "dinode_off (i_inum j)"
  have 32: "get32 d (?o + k) = get32 d' (?o + k)" if "k + 4 \<le> 64" for k
    using that by (intro get_le_cong assms) auto
  have 16: "get16 d (?o + k) = get16 d' (?o + k)" if "k + 2 \<le> 64" for k
    using that by (intro get_le_cong assms) auto
  have "get32 d (?o + 12 + 4 * k) = get32 d' (?o + 12 + 4 * k)" if "k < 13" for k
    using 32 [of "12 + 4 * k"] that by (simp add: add.assoc)
  then show ?thesis using 16 [of 0] 16 [of 2] 16 [of 4] 16 [of 6] 32 [of 8]
    by (simp add: dinode_read_def Let_def cong: if_cong)
qed

lemma dinode_read_other:
  assumes "unat (i_inum q) mod IPB \<noteq> unat (i_inum j) mod IPB"
  shows "dinode_read (dinode_write d q) j = dinode_read d j"
proof (rule dinode_read_cong, rule dinode_write_other)
  fix i
  assume "dinode_off (i_inum j) \<le> i" and "i < dinode_off (i_inum j) + 64"
  moreover have "64 * a + 64 \<le> 64 * b \<or> 64 * b + 64 \<le> 64 * a" if "a \<noteq> b" for a b :: nat using that by linarith
  from this [OF assms] have "dinode_off (i_inum q) + 64 \<le> dinode_off (i_inum j) \<or> dinode_off (i_inum j) + 64 \<le> dinode_off (i_inum q)"
    by (simp add: dinode_off_def)
  ultimately show "i < dinode_off (i_inum q) \<or> dinode_off (i_inum q) + 64 \<le> i" by linarith
qed

lemma iupdate_run:
  fixes s :: "'z kfs_scheme"
  assumes op: "in_op dev p V R us s" and q: "q = inodes s ip" "i_dev q = dev" and x: "x = IBLOCK (i_inum q) (sb s)"
    and i: "i < length us" "us ! i < 10" and n: "lh_n s \<noteq> 29" and r: "R x < 4294967294" and few: "card {x. 0 < R x} < NBUF"
  obtains t where "iupdate ip s = Ret () t"
    and "in_op dev p (V(x := dinode_write (V x) q)) (if x \<in> logged s then R else R(x := Suc (R x))) (us[i := Suc (us ! i)]) t"
    and "inodes t = inodes s" and "sb t = sb s" and "\<And>k. sleeplocks t (InodeLock k) = sleeplocks s (InodeLock k)"
proof -
  obtain b s1 where 1: "bread dev x s = Ret b s1" "get_data b s1 = Ret (V x) s1" "caches dev (bufs s1) b x"
    "cache dev p s1 V (R(x := Suc (R x))) {x}" "log_reserved s1 us" "log_size s1 = 30" "held s1 \<inter> fs_locks = {}"
    "logged s1 = logged s" "disk_img s1 = disk_img s" "klog.more s1 = klog.more s"
    "\<And>k. sleeplocks s1 (InodeLock k) = sleeplocks s (InodeLock k)" "lh_n s1 = lh_n s"
    by (rule open_block [OF op r few]) blast+
  have n1: "lh_n s1 \<noteq> 29" and pin: "\<forall>x \<in> logged s1. 0 < R x" using n 1(8,12) op by (simp_all add: in_op_def)
  obtain t where t: "andthen (set_data b (dinode_write (V x) q)) (andthen (log_write b) (brelse b)) s1 = Ret () t"
    "in_op dev p (V(x := dinode_write (V x) q)) (if x \<in> logged s1 then R else R(x := Suc (R x))) (us[i := Suc (us ! i)]) t"
    "logged t = insert x (logged s1)" "disk_img t = disk_img s1" "klog.more t = klog.more s1"
    "\<And>k. sleeplocks t (InodeLock k) = sleeplocks s1 (InodeLock k)" "unat (lh_n t) \<le> Suc (unat (lh_n s1))"
    by (rule close_block [OF 1(4,3) r 1(5) i 1(6,7) n1 pin]) blast+
  have "iupdate ip s = Ret () t"
    using 1(1,2) t(1) q x by (simp add: iupdate_def bind_apply gets_apply get_ino_def)
  moreover have "inodes t = inodes s" "sb t = sb s" using 1(10) t(5) by (cases s; cases t; simp)+
  ultimately show ?thesis using t(2,6) 1(8,11) by (intro that [of t]) simp_all
qed

lemma cache_inode_lock: "cache dev p (s\<lparr>sleeplocks := (sleeplocks s)(InodeLock i := l)\<rparr>) V R L = cache dev p s V R L"
  by (simp add: cache_def unlocked_def lru_def)

lemma in_op_inode_lock: "in_op dev p V R us (s\<lparr>sleeplocks := (sleeplocks s)(InodeLock i := l)\<rparr>) = in_op dev p V R us s"
  by (simp add: in_op_def cache_inode_lock log_reserved_def logged_def)

lemma in_op_inodes: "in_op dev p V R us (s\<lparr>inodes := f\<rparr>) = in_op dev p V R us s"
  by (simp add: in_op_def cache_def unlocked_def lru_def log_reserved_def logged_def)

lemma ilock_run:
  fixes s :: "'z kfs_scheme"
  assumes op: "in_op dev p V R us s" and q: "q = inodes s ip" "i_dev q = dev" "i_valid q = 0" "1 \<le> sint (i_ref q)"
    and x: "x = IBLOCK (i_inum q) (sb s)" and ty: "i_type (dinode_read (V x) q) \<noteq> 0"
    and l: "sl_locked (sleeplocks s (InodeLock ip)) = 0"
    and r: "R x < 4294967294" and few: "card {x. 0 < R x} < NBUF"
  obtains t where "ilock ip s = Ret () t" and "in_op dev p V R us t"
    and "inodes t = (inodes s)(ip := (dinode_read (V x) q)\<lparr>i_valid := 1\<rparr>)"
proof -
  have c: "cache dev p s V R {}" and pin: "\<forall>x \<in> logged s. 0 < R x" and h: "SleepLk (InodeLock ip) \<notin> held s"
    using op by (auto simp: in_op_def)
  have cur: "cpu_proc s = Some p" and clean: "R x = 0 \<Longrightarrow> V x = disk_img s x"
    using cache_D(1,4) [OF c] by (auto simp: unlocked_def)
  let ?s = "s\<lparr>sleeplocks := (sleeplocks s)(InodeLock ip := (sleeplocks s (InodeLock ip))\<lparr>sl_locked := 1, sl_pid := p_pid (ptable s p)\<rparr>)\<rparr>"
  have a: "acquiresleep (InodeLock ip) s = Ret () ?s"
    by (rule acquiresleep_free [OF cur h l])
  have op1: "in_op dev p V R us ?s" using op by (simp only: in_op_inode_lock)
  obtain b s1 where 1: "bread dev x ?s = Ret b s1" "get_data b s1 = Ret (V x) s1" "caches dev (bufs s1) b x"
    "cache dev p s1 V (R(x := Suc (R x))) {x}" "log_reserved s1 us" "log_size s1 = 30" "held s1 \<inter> fs_locks = {}"
    "logged s1 = logged ?s" "disk_img s1 = disk_img ?s" "klog.more s1 = klog.more ?s"
    by (rule open_block [OF op1 r few]) blast+
  let ?s2 = "s1\<lparr>inodes := (inodes s)(ip := dinode_read (V x) q)\<rparr>"
  have i1: "inodes s1 = inodes s" using 1(10) by (cases s; cases s1; simp)
  have "logged s1 = logged s" using 1(8) by (simp add: logged_def)
  then have 2: "cache dev p ?s2 V (R(x := Suc (R x))) {x}" "caches dev (bufs ?s2) b x" "R x = 0 \<Longrightarrow> V x = disk_img ?s2 x"
    "log_reserved ?s2 us" "log_size ?s2 = 30" "held ?s2 \<inter> fs_locks = {}" "\<forall>x \<in> logged ?s2. 0 < R x"
    using 1 clean pin by (simp_all add: cache_def unlocked_def lru_def log_reserved_def logged_def)
  obtain s3 where 3: "brelse b ?s2 = Ret () s3" "in_op dev p V R us s3" "klog.more s3 = klog.more ?s2"
    by (rule release_block [OF 2]) blast
  have i3: "inodes s3 = (inodes s)(ip := dinode_read (V x) q)" using 3(3) by (cases s3; cases s1; simp)
  let ?t = "s3\<lparr>inodes := (inodes s)(ip := (dinode_read (V x) q)\<lparr>i_valid := 1\<rparr>)\<rparr>"
  have "ilock ip s = Ret () ?t"
    using a q x ty 1(1,2) 3(1) i1 i3 by (simp add: ilock_def upd_ino_def get_ino_def prog_simps)
  moreover have "in_op dev p V R us ?t" using 3(2) by (simp only: in_op_inodes)
  ultimately show ?thesis by (rule that) simp
qed

text \<open>
  C10: an inode survives its stay on the disk. After \<open>iupdate\<close> of an inode, \<open>ilock\<close> of any entry of the
  inode table for the same inode that is not yet loaded finds exactly the type, the device
  numbers, the link count, the size and the block addresses that were written; no other entry of the table
  changes, and no other inode that shares the block.
\<close>

theorem inode_roundtrip:
  fixes s :: "'z kfs_scheme"
  assumes op: "in_op dev p V R us s" and q: "q = inodes s ip" "i_dev q = dev" "i_type q \<noteq> 0"
    and j: "j = inodes s jp" "i_dev j = dev" "i_inum j = i_inum q" "i_valid j = 0" "1 \<le> sint (i_ref j)"
    and x: "x = IBLOCK (i_inum q) (sb s)" and l: "sl_locked (sleeplocks s (InodeLock jp)) = 0"
    and i: "i < length us" "us ! i < 10" and n: "lh_n s \<noteq> 29" and r: "R x < 4294967293" and few: "card {x. 0 < R x} + 1 < NBUF"
  shows "\<exists>t u d. iupdate ip s = Ret () t \<and> ilock jp t = Ret () u \<and>
    inodes u = (inodes s)(jp := j\<lparr>i_type := i_type q, i_major := i_major q, i_minor := i_minor q,
      i_nlink := i_nlink q, i_size := i_size q, i_addrs := (\<lambda>k. if k < NDIRECT + 1 then i_addrs q k else i_addrs j k), i_valid := 1\<rparr>) \<and>
    (\<exists>R us. in_op dev p (V(x := d)) R us u) \<and>
    (\<forall>o'. if unat (i_inum o') mod IPB = unat (i_inum q) mod IPB then True else dinode_read d o' = dinode_read (V x) o')"
proof -
  let ?d = "dinode_write (V x) q" and ?R = "if x \<in> logged s then R else R(x := Suc (R x))"
  have "R x < 4294967294" "card {x. 0 < R x} < NBUF" using r few by simp_all
  then obtain t where t: "iupdate ip s = Ret () t" "in_op dev p (V(x := ?d)) ?R (us[i := Suc (us ! i)]) t"
    "inodes t = inodes s" "sb t = sb s" "\<And>k. sleeplocks t (InodeLock k) = sleeplocks s (InodeLock k)"
    using iupdate_run [OF op q(1,2) x i n] by blast
  note rw = dinode_read_write [of q j "V x"]
  have "{y. 0 < ?R y} \<subseteq> insert x {y. 0 < R y}" by auto
  then have "card {y. 0 < ?R y} \<le> card (insert x {y. 0 < R y})" by (intro card_mono) simp_all
  moreover have "card (insert x {y. 0 < R y}) \<le> card {y. 0 < R y} + 1" by (subst card_insert_if) simp_all
  ultimately have few': "card {y. 0 < ?R y} < NBUF" using few by linarith
  obtain u where u: "ilock jp t = Ret () u" "in_op dev p (V(x := ?d)) ?R (us[i := Suc (us ! i)]) u"
    "inodes u = (inodes t)(jp := (dinode_read ((V(x := ?d)) x) j)\<lparr>i_valid := 1\<rparr>)"
    by (rule ilock_run [OF t(2), of j jp x]) (use j x q rw l r few' t(3-5) in simp_all)
  have "inodes u = (inodes s)(jp := j\<lparr>i_type := i_type q, i_major := i_major q, i_minor := i_minor q,
      i_nlink := i_nlink q, i_size := i_size q, i_addrs := (\<lambda>k. if k < NDIRECT + 1 then i_addrs q k else i_addrs j k), i_valid := 1\<rparr>)"
    using u(3) t(3) rw j(3) by simp
  moreover have "\<forall>o'. if unat (i_inum o') mod IPB = unat (i_inum q) mod IPB then True else dinode_read ?d o' = dinode_read (V x) o'"
    using dinode_read_other [of q] by auto
  ultimately show ?thesis using t(1) u(1,2) by blast
qed

text \<open>An operation is under way; inode 3 is loaded in entry 0 of the table and about to be loaded in entry 1.\<close>

definition inode_demo :: kfile where
  "inode_demo = file_demo\<lparr>log_outstanding := 1, inodes := (\<lambda>_. blank_inode)(
     0 := blank_inode\<lparr>i_dev := 1, i_inum := 3, i_ref := 1, i_valid := 1, i_type := 2, i_size := 100\<rparr>,
     1 := blank_inode\<lparr>i_dev := 1, i_inum := 3, i_ref := 1\<rparr>)\<rparr>"

lemma cache_fields:
  fixes s :: "'y kbio_scheme" and t :: "'z kbio_scheme"
  assumes "held t = held s" "cpu_proc t = cpu_proc s" "ptable t = ptable s" "sleeplocks t = sleeplocks s" "bufs t = bufs s"
    "b_next t = b_next s" "b_prev t = b_prev s" "disk_img t = disk_img s"
  shows "cache dev p t V R L = cache dev p s V R L"
  using assms by (simp add: cache_def unlocked_def lru_def)

lemma inode_demo_op: "in_op 1 5 clean_disk (\<lambda>_. 0) [0] inode_demo"
proof -
  let ?s = "log_demo empty_bufs clean_disk"
  have "cache 1 5 inode_demo clean_disk (\<lambda>_. 0) {} = cache 1 5 ?s clean_disk (\<lambda>_. 0) {}"
    by (rule cache_fields)
      (simp_all add: inode_demo_def file_demo_def kfs.extend_def klog.extend_def log_demo_def kdisk.extend_def kbio.extend_def)
  moreover have "cache 1 5 ?s clean_disk (\<lambda>_. 0) {}" using log_demo_boot [of clean_disk] by (simp add: log_demo_simps)
  moreover have "lh_n inode_demo = 0" "log_outstanding inode_demo = 1" "log_size inode_demo = 30" "held inode_demo = {}"
    by (simp_all add: inode_demo_def file_demo_def kfs.extend_def klog.extend_def log_demo_def kdisk.extend_def kbio.extend_def
        bio_demo_def kcons.extend_def cons_demo_def kprintf.extend_def kuart.extend_def uart_demo_def kpipe.extend_def pipe_demo_def
        kslk.extend_def lock_demo_def kproc.extend_def idle_kernel_def)
  ultimately show ?thesis by (auto simp: in_op_def log_reserved_def logged_def intro: exI [of _ 0])
qed

theorem inode_roundtrip_witness:
  "\<exists>t u. iupdate 0 inode_demo = Ret () t \<and> ilock 1 t = Ret () u \<and> i_size (inodes u 1) = 100 \<and> i_type (inodes u 1) = 2"
proof -
  have d: "inodes inode_demo 0 = blank_inode\<lparr>i_dev := 1, i_inum := 3, i_ref := 1, i_valid := 1, i_type := 2, i_size := 100\<rparr>"
    "inodes inode_demo 1 = blank_inode\<lparr>i_dev := 1, i_inum := 3, i_ref := 1\<rparr>" "lh_n inode_demo \<noteq> 29"
    "sl_locked (sleeplocks inode_demo (InodeLock 1)) = 0"
    by (simp_all add: inode_demo_def file_demo_def kfs.extend_def klog.extend_def log_demo_def kdisk.extend_def kbio.extend_def
        bio_demo_def)
  show ?thesis
    using inode_roundtrip [OF inode_demo_op refl _ _ refl _ _ _ _ refl d(4), of 0 0] d(1-3)
    by (fastforce simp: blank_inode_def)
qed

end
