(* ===== verification/Bitmap.thy ===== *)
theory Bitmap
  imports Inode
begin

text \<open>
  The allocation of disk blocks (\<open>balloc\<close>, \<open>bfree\<close> and \<open>bzero\<close> of kernel/fs.c) inside a transaction: what
  they make of the bitmap on the disk, as seen through the buffer cache and the log.
\<close>

section \<open>The bitmap\<close>

definition is_free :: "(u32 \<Rightarrow> bytes) \<Rightarrow> superblock \<Rightarrow> nat \<Rightarrow> bool" where
  "is_free V sblk b \<longleftrightarrow> bit_clear (V (BBLOCK (of_nat b) sblk)) (b mod BPB)"

definition mark_used :: "bytes \<Rightarrow> nat \<Rightarrow> bytes" where
  "mark_used d bi = d(bi div 8 := d (bi div 8) OR push_bit (bi mod 8) 1)"

definition mark_free :: "bytes \<Rightarrow> nat \<Rightarrow> bytes" where
  "mark_free d bi = d(bi div 8 := d (bi div 8) AND NOT (push_bit (bi mod 8) 1))"

lemma bit_clear_iff: "bit_clear d bi \<longleftrightarrow> \<not> bit (d (bi div 8)) (bi mod 8)"
proof -
  have "d (bi div 8) AND push_bit (bi mod 8) 1 = (if bit (d (bi div 8)) (bi mod 8) then push_bit (bi mod 8) 1 else 0)"
    by (rule bit_word_eqI) (auto simp: bit_simps)
  moreover have "push_bit (bi mod 8) (1 :: u8) \<noteq> 0"
  proof
    assume "push_bit (bi mod 8) (1 :: u8) = 0"
    then have "bit (push_bit (bi mod 8) (1 :: u8)) (bi mod 8) = False" by simp
    then show False by (simp add: bit_simps)
  qed
  ultimately show ?thesis by (simp add: bit_clear_def)
qed

lemma mark_clear:
  "bit_clear (mark_used d bi) bj \<longleftrightarrow> bi \<noteq> bj \<and> bit_clear d bj"
  "bit_clear (mark_free d bi) bj \<longleftrightarrow> bi = bj \<or> bit_clear d bj"
proof -
  have "bi = bj \<longleftrightarrow> bi div 8 = bj div 8 \<and> bi mod 8 = bj mod 8" by (metis div_mult_mod_eq)
  then show "bit_clear (mark_used d bi) bj \<longleftrightarrow> bi \<noteq> bj \<and> bit_clear d bj"
    "bit_clear (mark_free d bi) bj \<longleftrightarrow> bi = bj \<or> bit_clear d bj"
    unfolding bit_clear_iff mark_used_def mark_free_def by (auto simp: bit_simps)
qed

lemma find_clear_find: "find_clear k d bi = find (bit_clear d) [bi..<bi + k]"
  by (induction k arbitrary: bi) (simp_all add: upt_conv_Cons del: upt_Suc)

text \<open>A block and the first block of its group have their bits in the same bitmap block.\<close>

lemma BBLOCK_group:
  assumes "8192 * k + i < 2 ^ 32" and "i < 8192"
  shows "BBLOCK (of_nat (8192 * k + i)) sblk = BBLOCK (of_nat (8192 * k)) sblk"
proof -
  have u: "unat (of_nat n :: u32) = n" if "n < 2 ^ 32" for n
    using that by (simp add: unsigned_of_nat take_bit_eq_mod)
  have "unat ((of_nat (8192 * k + i) :: u32) div 8192) = (8192 * k + i) div unat (8192 :: u32)"
    unfolding unat_div u [OF assms(1)] ..
  also have "\<dots> = 8192 * k div unat (8192 :: u32)" using assms(2) by simp
  also have "\<dots> = unat ((of_nat (8192 * k) :: u32) div 8192)"
    using assms(1) unfolding unat_div by (subst u) simp_all
  finally show ?thesis unfolding BBLOCK_def word_unat_eq_iff [symmetric] by simp
qed

section \<open>Changing the bitmap\<close>

text \<open>Room for \<open>k\<close> more block changes: in the reservation of the operation, in the log and in the cache.\<close>

definition room :: "nat \<Rightarrow> nat \<Rightarrow> nat list \<Rightarrow> (u32 \<Rightarrow> nat) \<Rightarrow> 'z klog_scheme \<Rightarrow> bool" where
  "room k i us R s \<longleftrightarrow> i < length us \<and> us ! i + k \<le> 10 \<and> unat (lh_n s) + k \<le> 29 \<and>
     (\<forall>x. R x + k < 4294967295) \<and> card {x. 0 < R x} + k \<le> NBUF"

lemma room_Suc:
  assumes "room (Suc k) i us R s"
  shows "i < length us" and "us ! i < 10" and "lh_n s \<noteq> 29" and "R x < 4294967294" and "card {x. 0 < R x} < NBUF"
proof -
  show "lh_n s \<noteq> 29"
  proof
    assume "lh_n s = 29"
    then show False using assms by (simp add: room_def)
  qed
  have "R x + Suc k < 4294967295" using assms by (simp add: room_def)
  then show "R x < 4294967294" by simp
qed (use assms in \<open>simp_all add: room_def\<close>)

lemma room_used:
  assumes "room (Suc k) i us R s" and "unat (lh_n t) \<le> Suc (unat (lh_n s))" and "R' = R \<or> R' = R(x := Suc (R x))"
  shows "room k i (us[i := Suc (us ! i)]) R' t"
proof -
  have "{y. 0 < R' y} \<subseteq> insert x {y. 0 < R y}" using assms(3) by auto
  then have "card {y. 0 < R' y} \<le> card (insert x {y. 0 < R y})" by (intro card_mono) simp_all
  moreover have "card (insert x {y. 0 < R y}) \<le> card {y. 0 < R y} + 1" by (subst card_insert_if) simp_all
  moreover have "R' y + k < 4294967295" for y
  proof -
    have "R y + Suc k < 4294967295" using assms(1) by (simp add: room_def)
    moreover have "R' y \<le> Suc (R y)" using assms(3) by auto
    ultimately show ?thesis by linarith
  qed
  ultimately show ?thesis using assms(1,2) by (simp add: room_def)
qed

lemma change_block:
  fixes s :: "'z klog_scheme"
  assumes op: "in_op dev p V R us s" and rm: "room (Suc k) i us R s"
  obtains b s1 t R' where "bread dev x s = Ret b s1" and "get_data b s1 = Ret (V x) s1"
    and "andthen (set_data b d) (andthen (log_write b) (brelse b)) s1 = Ret () t"
    and "in_op dev p (V(x := d)) R' (us[i := Suc (us ! i)]) t" and "room k i (us[i := Suc (us ! i)]) R' t"
    and "klog.more s1 = klog.more s" and "klog.more t = klog.more s"
proof -
  note r = room_Suc [OF rm]
  obtain b s1 where 1: "bread dev x s = Ret b s1" "get_data b s1 = Ret (V x) s1" "caches dev (bufs s1) b x"
    "cache dev p s1 V (R(x := Suc (R x))) {x}" "log_reserved s1 us" "log_size s1 = 30" "held s1 \<inter> fs_locks = {}"
    "logged s1 = logged s" "disk_img s1 = disk_img s" "klog.more s1 = klog.more s"
    "\<And>k. sleeplocks s1 (InodeLock k) = sleeplocks s (InodeLock k)" "lh_n s1 = lh_n s"
    by (rule open_block [OF op r(4,5)]) blast+
  have n1: "lh_n s1 \<noteq> 29" and pin: "\<forall>x \<in> logged s1. 0 < R x" using r(3) 1(8,12) op by (simp_all add: in_op_def)
  obtain t where t: "andthen (set_data b d) (andthen (log_write b) (brelse b)) s1 = Ret () t"
    "in_op dev p (V(x := d)) (if x \<in> logged s1 then R else R(x := Suc (R x))) (us[i := Suc (us ! i)]) t"
    "logged t = insert x (logged s1)" "disk_img t = disk_img s1" "klog.more t = klog.more s1"
    "\<And>k. sleeplocks t (InodeLock k) = sleeplocks s1 (InodeLock k)" "unat (lh_n t) \<le> Suc (unat (lh_n s1))"
    by (rule close_block [OF 1(4,3) r(4) 1(5) r(1,2) 1(6,7) n1 pin]) blast+
  have "room k i (us[i := Suc (us ! i)]) (if x \<in> logged s1 then R else R(x := Suc (R x))) t"
    using t(7) 1(12) by (intro room_used [OF rm, where x = x]) simp_all
  then show ?thesis using 1(10) t(5) by (intro that [OF 1(1,2) t(1,2)]) simp_all
qed

lemma look_block:
  fixes s :: "'z klog_scheme"
  assumes op: "in_op dev p V R us s" and rm: "room (Suc k) i us R s"
  obtains b s1 t where "bread dev x s = Ret b s1" and "get_data b s1 = Ret (V x) s1" and "brelse b s1 = Ret () t"
    and "in_op dev p V R us t" and "room (Suc k) i us R t" and "klog.more s1 = klog.more s" and "klog.more t = klog.more s"
proof -
  note r = room_Suc [OF rm]
  obtain b s1 where 1: "bread dev x s = Ret b s1" "get_data b s1 = Ret (V x) s1" "caches dev (bufs s1) b x"
    "cache dev p s1 V (R(x := Suc (R x))) {x}" "log_reserved s1 us" "log_size s1 = 30" "held s1 \<inter> fs_locks = {}"
    "logged s1 = logged s" "disk_img s1 = disk_img s" "klog.more s1 = klog.more s" "lh_n s1 = lh_n s"
    by (rule open_block [OF op r(4,5)]) blast+
  have c: "cache dev p s V R {}" and pin: "\<forall>x \<in> logged s1. 0 < R x" using op 1(8) by (simp_all add: in_op_def)
  have clean: "R x = 0 \<Longrightarrow> V x = disk_img s1 x" using cache_D(4) [OF c] 1(9) by auto
  obtain t where t: "brelse b s1 = Ret () t" "in_op dev p V R us t" "klog.more t = klog.more s1" "lh_n t = lh_n s1"
    by (rule release_block [OF 1(4,3) clean 1(5,6,7) pin]) blast+
  have "room (Suc k) i us R t" using rm t(4) 1(11) by (simp add: room_def)
  then show ?thesis using 1(10) t(3) by (intro that [OF 1(1,2) t(1,2)]) simp_all
qed

lemma bzero_run:
  fixes s :: "'z kfs_scheme"
  assumes "in_op dev p V R us s" and "room (Suc k) i us R s"
  obtains t R' where "bzero dev x s = Ret () t" and "in_op dev p (V(x := \<lambda>_. 0)) R' (us[i := Suc (us ! i)]) t"
    and "sb t = sb s" and "inodes t = inodes s"
proof -
  obtain b s1 t R' where c: "bread dev x s = Ret b s1" "get_data b s1 = Ret (V x) s1"
    "andthen (set_data b (\<lambda>_. 0)) (andthen (log_write b) (brelse b)) s1 = Ret () t"
    "in_op dev p (V(x := \<lambda>_. 0)) R' (us[i := Suc (us ! i)]) t" "room k i (us[i := Suc (us ! i)]) R' t"
    "klog.more s1 = klog.more s" "klog.more t = klog.more s"
    by (rule change_block [OF assms])
  have "sb t = sb s" "inodes t = inodes s" using c(7) by (cases s; cases t; simp)+
  then show ?thesis using c(1,3,4) by (intro that [of t R']) (simp_all add: bzero_def bind_apply)
qed

text \<open>The first clear bit in the groups that the outer loop of \<open>balloc\<close> visits.\<close>

primrec first_free :: "(u32 \<Rightarrow> bytes) \<Rightarrow> superblock \<Rightarrow> nat list \<Rightarrow> (nat \<times> nat) option" where
  "first_free V sblk [] = None"
| "first_free V sblk (b # bs) =
     (case find_clear (min BPB (unat (sb_size sblk) - b)) (V (BBLOCK (of_nat b) sblk)) 0 of
        Some bi \<Rightarrow> Some (b, bi) | None \<Rightarrow> first_free V sblk bs)"

lemma balloc_loop_run:
  fixes s :: "'z kfs_scheme"
  assumes "in_op dev p V R us s" and "room 2 i us R s"
  shows "case first_free V (sb s) bs of
      None \<Rightarrow> balloc_loop dev bs s = Panic ''balloc: out of blocks''
    | Some (b, bi) \<Rightarrow> \<exists>t R' us'. balloc_loop dev bs s = Ret (of_nat (b + bi)) t \<and>
        in_op dev p ((V(BBLOCK (of_nat b) (sb s) := mark_used (V (BBLOCK (of_nat b) (sb s))) bi))(of_nat (b + bi) := \<lambda>_. 0)) R' us' t \<and>
        sb t = sb s \<and> inodes t = inodes s"
  using assms
proof (induction bs arbitrary: s)
  case Nil
  then show ?case by (simp add: prog_simps)
next
  case (Cons b bs)
  let ?x = "BBLOCK (of_nat b) (sb s)"
  have rm: "room (Suc (Suc 0)) i us R s" using Cons.prems(2) by (simp add: numeral_2_eq_2)
  show ?case
  proof (cases "find_clear (min BPB (unat (sb_size (sb s)) - b)) (V ?x) 0")
    case None
    obtain bp s1 t where c: "bread dev ?x s = Ret bp s1" "get_data bp s1 = Ret (V ?x) s1" "brelse bp s1 = Ret () t"
      "in_op dev p V R us t" "room (Suc (Suc 0)) i us R t" "klog.more s1 = klog.more s" "klog.more t = klog.more s"
      by (rule look_block [OF Cons.prems(1) rm])
    have f: "sb t = sb s" "inodes t = inodes s" using c(7) by (cases s; cases t; simp)+
    have step: "balloc_loop dev (b # bs) s = balloc_loop dev bs t"
      using c(1-3) None by (simp add: prog_simps)
    have ff: "first_free V (sb s) (b # bs) = first_free V (sb s) bs" using None by simp
    show ?thesis
      unfolding ff step using Cons.IH [OF c(4)] c(5) unfolding f numeral_2_eq_2 by blast
  next
    case (Some bi)
    obtain bp s1 t R' where c: "bread dev ?x s = Ret bp s1" "get_data bp s1 = Ret (V ?x) s1"
      "andthen (set_data bp (mark_used (V ?x) bi)) (andthen (log_write bp) (brelse bp)) s1 = Ret () t"
      "in_op dev p (V(?x := mark_used (V ?x) bi)) R' (us[i := Suc (us ! i)]) t" "room (Suc 0) i (us[i := Suc (us ! i)]) R' t"
      "klog.more s1 = klog.more s" "klog.more t = klog.more s"
      by (rule change_block [OF Cons.prems(1) rm])
    have f: "sb t = sb s" "inodes t = inodes s" using c(7) by (cases s; cases t; simp)+
    obtain u R'' where u: "bzero dev (of_nat (b + bi)) t = Ret () u"
      "in_op dev p ((V(?x := mark_used (V ?x) bi))(of_nat (b + bi) := \<lambda>_. 0)) R'' (us[i := Suc (us ! i), i := Suc (us[i := Suc (us ! i)] ! i)]) u"
      "sb u = sb t" "inodes u = inodes t"
      by (rule bzero_run [OF c(4,5), where x = "of_nat (b + bi)"])
    have "balloc_loop dev (b # bs) s = bind (andthen (set_data bp (mark_used (V ?x) bi)) (andthen (log_write bp) (brelse bp)))
        (\<lambda>_. andthen (bzero dev (of_nat (b + bi))) (return (of_nat (b + bi)))) s1"
      using c(1,2) Some by (simp add: bind_apply gets_apply bind_assoc mark_used_def)
    also have "\<dots> = Ret (of_nat (b + bi)) u" using c(3) u(1) by (simp add: bind_apply return_apply)
    finally show ?thesis using u f Some by auto
  qed
qed

lemma find_append: "find P (xs @ ys) = (case find P xs of None \<Rightarrow> find P ys | Some x \<Rightarrow> Some x)"
  by (induction xs) simp_all

lemma find_map: "find P (map f xs) = map_option f (find (\<lambda>x. P (f x)) xs)"
  by (induction xs) simp_all

text \<open>One group of the bitmap.\<close>

lemma find_group:
  assumes "8192 * g + m < 2 ^ 32" and "m \<le> 8192"
  shows "find (is_free V sblk) [8192 * g..<8192 * g + m] =
    map_option ((+) (8192 * g)) (find_clear m (V (BBLOCK (of_nat (8192 * g)) sblk)) 0)"
proof -
  have "is_free V sblk (8192 * g + i) = bit_clear (V (BBLOCK (of_nat (8192 * g)) sblk)) i" if "i < m" for i
  proof -
    have "8192 * g + i < 2 ^ 32" "i < 8192" using that assms by auto
    then show ?thesis using BBLOCK_group [of g i sblk] by (simp add: is_free_def)
  qed
  then have "find (\<lambda>i. is_free V sblk (8192 * g + i)) [0..<m] = find (bit_clear (V (BBLOCK (of_nat (8192 * g)) sblk))) [0..<m]"
    by (intro find_cong) simp_all
  moreover have "[8192 * g..<8192 * g + m] = map ((+) (8192 * g)) [0..<m]"
    by (rule nth_equalityI) simp_all
  ultimately show ?thesis by (simp add: find_map find_clear_find)
qed

lemma first_free_find:
  assumes "sz = unat (sb_size sblk)" and "G = (sz + 8191) div 8192" and "g \<le> G"
  shows "find (is_free V sblk) [8192 * g..<sz] =
    map_option (\<lambda>(b, bi). b + bi) (first_free V sblk (map (\<lambda>k. k * 8192) [g..<G]))"
  using assms(3)
proof (induction "G - g" arbitrary: g)
  case 0
  then have "g = G" by simp
  then have "sz \<le> 8192 * g" using assms(2) by simp
  then show ?case using \<open>g = G\<close> by simp
next
  case (Suc n)
  then have "g < G" by simp
  define m where "m = min 8192 (sz - 8192 * g)"
  have "sz < 2 ^ 32" using assms(1) unsigned_less [of "sb_size sblk"] by simp
  have lt: "8192 * g < sz" using \<open>g < G\<close> assms(2) by simp
  then have m: "8192 * g + m < 2 ^ 32" "m \<le> 8192" "8192 * g + m \<le> sz" "[8192 * g + m..<sz] = [8192 * Suc g..<sz]"
    using \<open>sz < 2 ^ 32\<close> by (auto simp: m_def min_def add.commute)
  obtain k where "sz = (8192 * g + m) + k" using m(3) le_Suc_ex by blast
  then have "[8192 * g..<sz] = [8192 * g..<8192 * g + m] @ [8192 * Suc g..<sz]"
    using upt_add_eq_append [of "8192 * g" "8192 * g + m" k] m(4) by simp
  moreover have "[g..<G] = g # [Suc g..<G]" using \<open>g < G\<close> by (rule upt_conv_Cons)
  moreover have "find (is_free V sblk) [8192 * Suc g..<sz] =
      map_option (\<lambda>(b, bi). b + bi) (first_free V sblk (map (\<lambda>k. k * 8192) [Suc g..<G]))"
    using Suc by (intro Suc.hyps(1)) auto
  ultimately show ?case
    using find_group [OF m(1,2), of V sblk]
    by (simp add: find_append m_def assms(1) mult.commute del: upt_Suc split: option.splits)
qed

lemma first_free_group:
  assumes "first_free V sblk (map (\<lambda>k. k * 8192) ks) = Some (b, bi)"
  shows "b mod 8192 = 0" and "bi < 8192"
  using assms
  by (induction ks) (auto simp: find_clear_find find_Some_iff split: option.splits)

lemma BBLOCK_inj:
  assumes "BBLOCK (of_nat b) sblk = BBLOCK (of_nat c) sblk" and "b mod 8192 = c mod 8192" and "b < 2 ^ 32" and "c < 2 ^ 32"
  shows "b = c"
proof -
  have u: "unat ((of_nat n :: u32) div 8192) = n div 8192" if "n < 2 ^ 32" for n
    using that unfolding unat_div by (simp add: unsigned_of_nat take_bit_eq_mod)
  have "(of_nat b :: u32) div 8192 = of_nat c div 8192" using assms(1) by (simp add: BBLOCK_def)
  then have "b div 8192 = c div 8192" using u [OF assms(3)] u [OF assms(4)] by simp
  then show ?thesis using assms(2) by (metis div_mult_mod_eq)
qed

text \<open>The free blocks after block \<open>b\<close> has been marked and zeroed.\<close>

lemma is_free_marked:
  assumes "b < 2 ^ 32" and "c < 2 ^ 32" and "(of_nat b :: u32) \<noteq> BBLOCK (of_nat c) sblk"
  defines "x \<equiv> BBLOCK (of_nat b) sblk"
  shows "is_free ((V(x := mark_used (V x) (b mod BPB)))(of_nat b := z)) sblk c \<longleftrightarrow> c \<noteq> b \<and> is_free V sblk c"
proof (cases "BBLOCK (of_nat c) sblk = x")
  case True
  then have "b mod 8192 = c mod 8192 \<longleftrightarrow> b = c"
    using BBLOCK_inj [of b sblk c] assms(1,2) by (auto simp: x_def)
  with True assms(3) show ?thesis by (auto simp: is_free_def mark_clear)
next
  case False
  then have "c \<noteq> b" by (auto simp: x_def)
  with False assms(3) show ?thesis by (auto simp: is_free_def)
qed

text \<open>
  C11: \<open>balloc\<close> returns the lowest free block of the disk: it marks this block, and no other, as used in
  the bitmap, fills it with zeros, and changes no other block; when no block is free it panics. So
  no block is handed out twice, as long as the blocks of the bitmap are themselves marked as used.
\<close>

theorem balloc_lowest:
  fixes s :: "'z kfs_scheme"
  assumes op: "in_op dev p V R us s" and rm: "room 2 i us R s"
    and bm: "\<And>b c. b < unat (sb_size (sb s)) \<Longrightarrow> c < unat (sb_size (sb s)) \<Longrightarrow> of_nat b = BBLOCK (of_nat c) (sb s) \<Longrightarrow>
      \<not> is_free V (sb s) b"
  shows "case find (is_free V (sb s)) [0..<unat (sb_size (sb s))] of
      None \<Rightarrow> balloc dev s = Panic ''balloc: out of blocks''
    | Some b \<Rightarrow> \<exists>t V' R' us'. balloc dev s = Ret (of_nat b) t \<and> in_op dev p V' R' us' t \<and> V' (of_nat b) = (\<lambda>_. 0) \<and>
        {y. V' y \<noteq> V y} \<subseteq> {of_nat b, BBLOCK (of_nat b) (sb s)} \<and>
        (\<forall>c < unat (sb_size (sb s)). is_free V' (sb s) c \<longleftrightarrow> c \<noteq> b \<and> is_free V (sb s) c) \<and>
        sb t = sb s \<and> inodes t = inodes s"
proof -
  let ?sz = "unat (sb_size (sb s))"
  let ?bs = "map (\<lambda>k. k * 8192) [0..<(?sz + 8191) div 8192]"
  have run: "balloc dev s = balloc_loop dev ?bs s" by (simp add: balloc_def prog_simps add.commute)
  have ff: "find (is_free V (sb s)) [0..<?sz] = map_option (\<lambda>(b, bi). b + bi) (first_free V (sb s) ?bs)"
    using first_free_find [of ?sz "sb s" _ 0 V] by simp
  note l = balloc_loop_run [OF op rm, of ?bs, folded run]
  show ?thesis
  proof (cases "first_free V (sb s) ?bs")
    case None
    with l ff show ?thesis by simp
  next
    case (Some w)
    then obtain b0 bi where w: "first_free V (sb s) ?bs = Some (b0, bi)" by (cases w) simp
    define b where "b = b0 + bi"
    have f: "find (is_free V (sb s)) [0..<?sz] = Some b" using ff w by (simp add: b_def)
    then have "b < ?sz" "is_free V (sb s) b" by (auto simp: find_Some_iff)
    have sz: "?sz < 2 ^ 32" by simp
    with \<open>b < ?sz\<close> have "b < 2 ^ 32" by (rule less_trans)
    note g = first_free_group [OF w]
    then obtain k where k: "b0 = 8192 * k" by (metis mod_0_imp_dvd dvdE)
    have x: "BBLOCK (of_nat b0) (sb s) = BBLOCK (of_nat b) (sb s)" "bi = b mod BPB"
      using BBLOCK_group [of k bi "sb s"] g(2) \<open>b < 2 ^ 32\<close> by (simp_all add: b_def k)
    let ?x = "BBLOCK (of_nat b) (sb s)"
    let ?V = "(V(?x := mark_used (V ?x) (b mod BPB)))(of_nat b := \<lambda>_. 0)"
    obtain t R' us' where t: "balloc dev s = Ret (of_nat b) t" "in_op dev p ?V R' us' t" "sb t = sb s" "inodes t = inodes s"
      using l unfolding w option.case prod.case b_def [symmetric] unfolding x by blast
    have "is_free ?V (sb s) c \<longleftrightarrow> c \<noteq> b \<and> is_free V (sb s) c" if "c < ?sz" for c
      using bm [OF \<open>b < ?sz\<close> that] \<open>is_free V (sb s) b\<close> \<open>b < 2 ^ 32\<close> less_trans [OF that sz]
      by (intro is_free_marked) auto
    moreover have "{y. ?V y \<noteq> V y} \<subseteq> {of_nat b, ?x}" by auto
    moreover have "?V (of_nat b) = (\<lambda>_. 0)" by simp
    ultimately have "\<exists>t V' R' us'. balloc dev s = Ret (of_nat b) t \<and> in_op dev p V' R' us' t \<and> V' (of_nat b) = (\<lambda>_. 0) \<and>
        {y. V' y \<noteq> V y} \<subseteq> {of_nat b, ?x} \<and>
        (\<forall>c < ?sz. is_free V' (sb s) c \<longleftrightarrow> c \<noteq> b \<and> is_free V (sb s) c) \<and> sb t = sb s \<and> inodes t = inodes s"
      using t by blast
    then show ?thesis unfolding f option.case .
  qed
qed

text \<open>
  \<open>bfree\<close> undoes it: the block is free again, and no other block changes its state; freeing a block that is
  free is a panic.
\<close>

theorem bfree_frees:
  fixes s :: "'z kfs_scheme"
  assumes op: "in_op dev p V R us s" and rm: "room (Suc k) i us R s" and b: "b < 2 ^ 32"
  shows "if is_free V (sb s) b then bfree dev (of_nat b) s = Panic ''freeing free block''
    else \<exists>t V' R' us'. bfree dev (of_nat b) s = Ret () t \<and> in_op dev p V' R' us' t \<and>
      {y. V' y \<noteq> V y} \<subseteq> {BBLOCK (of_nat b) (sb s)} \<and> sb t = sb s \<and>
      (\<forall>c < 2 ^ 32. is_free V' (sb s) c \<longleftrightarrow> c = b \<or> is_free V (sb s) c)"
proof -
  let ?x = "BBLOCK (of_nat b) (sb s)"
  have u: "unat (of_nat b mod 8192 :: u32) = b mod BPB"
    using b unfolding unat_mod by (simp add: unsigned_of_nat take_bit_eq_mod)
  obtain bp s1 t R' where c: "bread dev ?x s = Ret bp s1" "get_data bp s1 = Ret (V ?x) s1"
    "andthen (set_data bp (mark_free (V ?x) (b mod BPB))) (andthen (log_write bp) (brelse bp)) s1 = Ret () t"
    "in_op dev p (V(?x := mark_free (V ?x) (b mod BPB))) R' (us[i := Suc (us ! i)]) t" "room k i (us[i := Suc (us ! i)]) R' t"
    "klog.more s1 = klog.more s" "klog.more t = klog.more s"
    by (rule change_block [OF op rm])
  have e: "bfree dev (of_nat b) s = (if is_free V (sb s) b then Panic ''freeing free block'' else Ret () t)"
    using c(1-3) u by (simp add: bfree_def prog_simps Let_def is_free_def mark_free_def)
  have "is_free (V(?x := mark_free (V ?x) (b mod BPB))) (sb s) c \<longleftrightarrow> c = b \<or> is_free V (sb s) c" if "c < 2 ^ 32" for c
    using BBLOCK_inj [of b "sb s" c, OF _ _ b that]
    by (cases "BBLOCK (of_nat c) (sb s) = ?x") (auto simp: is_free_def mark_clear)
  moreover have "sb t = sb s" using c(7) by (cases s; cases t; simp)
  ultimately show ?thesis using e c(4) by fastforce
qed

text \<open>A disk of 1000 blocks whose first 48 blocks are in use; block 45 is the bitmap.\<close>

definition used_disk :: "u32 \<Rightarrow> bytes" where
  "used_disk = (\<lambda>x i. if x = 45 \<and> i < 6 then 255 else 0)"

definition bitmap_demo :: kfile where
  "bitmap_demo = inode_demo\<lparr>disk_img := used_disk\<rparr>"

lemma bitmap_demo_op: "in_op 1 5 used_disk (\<lambda>_. 0) [0] bitmap_demo"
proof -
  have "cache 1 5 bitmap_demo used_disk (\<lambda>_. 0) {} = cache 1 5 (log_demo empty_bufs used_disk) used_disk (\<lambda>_. 0) {}"
    by (rule cache_fields)
      (simp_all add: bitmap_demo_def inode_demo_def file_demo_def kfs.extend_def klog.extend_def log_demo_def
        kdisk.extend_def kbio.extend_def bio_demo_def kcons.extend_def)
  moreover have "cache 1 5 (log_demo empty_bufs used_disk) used_disk (\<lambda>_. 0) {}"
    using log_demo_boot [of used_disk] by (simp add: log_demo_simps)
  moreover have "log_reserved bitmap_demo us = log_reserved inode_demo us" "log_size bitmap_demo = log_size inode_demo"
    "held bitmap_demo = held inode_demo" "logged bitmap_demo = logged inode_demo" for us
    by (simp_all add: bitmap_demo_def log_reserved_def logged_def)
  ultimately show ?thesis using inode_demo_op by (simp add: in_op_def)
qed

lemma bitmap_demo_fields: "sb_size (sb bitmap_demo) = 1000" "sb_bmapstart (sb bitmap_demo) = 45" "lh_n bitmap_demo = 0"
  by (simp_all add: bitmap_demo_def inode_demo_def file_demo_def kfs.extend_def klog.extend_def log_demo_def
      kdisk.extend_def)

lemma bitmap_demo_block: "b < 8192 \<Longrightarrow> BBLOCK (of_nat b) (sb bitmap_demo) = 45"
  using BBLOCK_group [of 0 b "sb bitmap_demo"] by (simp add: BBLOCK_def bitmap_demo_fields)

lemma bitmap_demo_free: "b < 8192 \<Longrightarrow> is_free used_disk (sb bitmap_demo) b \<longleftrightarrow> 48 \<le> b"
proof -
  assume b: "b < 8192"
  have "(255 :: u8) = mask 8" by (simp add: mask_eq_exp_minus_1)
  then have "bit (255 :: u8) (b mod 8)" by (simp only: bit_mask_iff) simp
  moreover have "b div 8 < 6 \<longleftrightarrow> b < 48" by linarith
  ultimately show ?thesis using b by (auto simp: is_free_def bitmap_demo_block bit_clear_iff used_disk_def)
qed

theorem balloc_lowest_witness: "\<exists>t. balloc 1 bitmap_demo = Ret 48 t \<and> inodes t = inodes bitmap_demo"
proof -
  have rm: "room 2 0 [0] (\<lambda>_. 0) bitmap_demo" by (simp add: room_def bitmap_demo_fields)
  have "find (is_free used_disk (sb bitmap_demo)) [0..<unat (sb_size (sb bitmap_demo))] = Some 48"
    unfolding find_Some_iff bitmap_demo_fields by (intro exI [of _ 48]) (simp add: bitmap_demo_free)
  moreover have "\<not> is_free used_disk (sb bitmap_demo) b"
    if "b < unat (sb_size (sb bitmap_demo))" "c < unat (sb_size (sb bitmap_demo))" "of_nat b = BBLOCK (of_nat c) (sb bitmap_demo)" for b c
  proof -
    have "of_nat b = (45 :: u32)" "b < 1000" using that bitmap_demo_block [of c] by (simp_all add: bitmap_demo_fields)
    then have "unat (of_nat b :: u32) = 45" by simp
    then have "b = 45" using \<open>b < 1000\<close> by (simp add: unsigned_of_nat take_bit_eq_mod)
    then show ?thesis by (simp add: bitmap_demo_free)
  qed
  ultimately show ?thesis using balloc_lowest [OF bitmap_demo_op rm] by force
qed

end
