(* ===== verification/Mkfs.thy ===== *)
theory Mkfs
  imports Bitmap
begin

text \<open>
  mkfs/mkfs.c, which makes the disk image that the kernel starts with, and what the image holds. The
  state is the image file as its sectors with its length, and the two counters. A failed \<open>assert\<close> and
  \<open>die\<close>, which end the program, are panics. The conversions \<open>xint\<close> and \<open>xshort\<close> are in the accessors
  \<open>get32\<close>, \<open>put16\<close> and \<open>put32\<close> of Bytes.thy, which read and store little-endian bytes. The files to copy
  are given by their path names and contents; opening them and the image succeeds.
\<close>

section \<open>Definitions\<close>

abbreviation (input) FSSIZE :: nat where "FSSIZE \<equiv> 1000"
abbreviation (input) NINODES :: nat where "NINODES \<equiv> 200"

definition nbitmap :: nat where "nbitmap = FSSIZE div (BSIZE * 8) + 1"
definition ninodeblocks :: nat where "ninodeblocks = NINODES div IPB + 1"
definition nlog :: nat where "nlog = LOGSIZE"
definition nmeta :: nat where "nmeta = 2 + nlog + ninodeblocks + nbitmap"
definition nblocks :: nat where "nblocks = FSSIZE - nmeta"

record image =
  sectors :: "u32 \<Rightarrow> bytes"
  nsect :: nat
  freeinode :: u32
  freeblock :: u32

text \<open>The superblock, with the values that \<open>main\<close> stores into \<open>sb\<close>.\<close>

definition mk_sb :: superblock where
  "mk_sb = \<lparr>sb_magic = FSMAGIC, sb_size = of_nat FSSIZE, sb_nblocks = of_nat nblocks, sb_ninodes = of_nat NINODES,
     sb_nlog = of_nat nlog, sb_logstart = 2, sb_inodestart = of_nat (2 + nlog),
     sb_bmapstart = of_nat (2 + nlog + ninodeblocks)\<rparr>"

definition sb_bytes :: "superblock \<Rightarrow> bytes" where
  "sb_bytes b = put32 (put32 (put32 (put32 (put32 (put32 (put32 (put32 (\<lambda>_. 0) 0 (sb_magic b)) 4 (sb_size b))
     8 (sb_nblocks b)) 12 (sb_ninodes b)) 16 (sb_nlog b)) 20 (sb_logstart b)) 24 (sb_inodestart b)) 28 (sb_bmapstart b)"

text \<open>
  The sector at byte \<open>sec * BSIZE\<close> of the image file, which is computed in an unsigned integer. Writing
  past the end makes the file longer; reading there gets no bytes.
\<close>

definition seek :: "u32 \<Rightarrow> u32" where
  "seek sec = sec * 1024 div 1024"

definition wsect :: "u32 \<Rightarrow> bytes \<Rightarrow> (image, unit) prog" where
  "wsect sec buf =
     modify (\<lambda>s. s\<lparr>sectors := (sectors s)(seek sec := buf), nsect := max (nsect s) (unat (seek sec) + 1)\<rparr>)"

definition rsect :: "u32 \<Rightarrow> (image, bytes) prog" where
  "rsect sec =
     bind (gets nsect) (\<lambda>n.
     andthen (panic_if (n \<le> unat (seek sec)) ''read'')
     (gets (\<lambda>s. sectors s (seek sec))))"

text \<open>A \<open>struct dinode\<close> is its 64 bytes.\<close>

definition put_dinode :: "bytes \<Rightarrow> u32 \<Rightarrow> bytes \<Rightarrow> bytes" where
  "put_dinode buf inum din = (\<lambda>i. if dinode_off inum \<le> i \<and> i < dinode_off inum + 64 then din (i - dinode_off inum) else buf i)"

definition get_dinode :: "bytes \<Rightarrow> u32 \<Rightarrow> bytes" where
  "get_dinode buf inum = (\<lambda>i. if i < 64 then buf (dinode_off inum + i) else 0)"

definition winode :: "u32 \<Rightarrow> bytes \<Rightarrow> (image, unit) prog" where
  "winode inum din =
     (let bn = IBLOCK inum mk_sb in
      bind (rsect bn) (\<lambda>buf. wsect bn (put_dinode buf inum din)))"

definition rinode :: "u32 \<Rightarrow> (image, bytes) prog" where
  "rinode inum = bind (rsect (IBLOCK inum mk_sb)) (\<lambda>buf. return (get_dinode buf inum))"

definition mk_ialloc :: "u16 \<Rightarrow> (image, u32) prog" where
  "mk_ialloc ty =
     bind (gets freeinode) (\<lambda>inum.
     andthen (modify (\<lambda>s. s\<lparr>freeinode := inum + 1\<rparr>))
     (andthen (winode inum (put32 (put16 (put16 (\<lambda>_. 0) 0 ty) 6 1) 8 0))
     (return inum)))"

text \<open>The bitmap block of \<open>balloc\<close>: the bits of the blocks below \<open>used\<close>.\<close>

primrec set_bits :: "nat \<Rightarrow> bytes" where
  "set_bits 0 = (\<lambda>_. 0)"
| "set_bits (Suc i) = (let buf = set_bits i in buf(i div 8 := buf (i div 8) OR push_bit (i mod 8) 1))"

definition mk_balloc :: "nat \<Rightarrow> (image, unit) prog" where
  "mk_balloc used =
     andthen (panic_if (\<not> used < BSIZE * 8) ''assert'')
     (wsect (sb_bmapstart mk_sb) (set_bits used))"

text \<open>Address \<open>k\<close> of an inode, and \<open>freeblock++\<close>.\<close>

definition din_addr :: "bytes \<Rightarrow> nat \<Rightarrow> u32" where
  "din_addr din k = get32 din (12 + 4 * k)"

definition set_din_addr :: "bytes \<Rightarrow> nat \<Rightarrow> u32 \<Rightarrow> bytes" where
  "set_din_addr din k a = put32 din (12 + 4 * k) a"

definition next_block :: "(image, u32) prog" where
  "next_block = bind (gets freeblock) (\<lambda>b. andthen (modify (\<lambda>s. s\<lparr>freeblock := b + 1\<rparr>)) (return b))"

text \<open>
  The first part of a round of the loop of \<open>iappend\<close>: the block \<open>x\<close> for file block \<open>fbn\<close>, allocated if
  there is none yet, and the inode with its address.
\<close>

definition iappend_block :: "bytes \<Rightarrow> nat \<Rightarrow> (image, bytes \<times> u32) prog" where
  "iappend_block din fbn =
     (if fbn < NDIRECT then
        if din_addr din fbn = 0 then bind next_block (\<lambda>b. return (set_din_addr din fbn b, b))
        else return (din, din_addr din fbn)
      else
        bind (if din_addr din NDIRECT = 0 then bind next_block (\<lambda>b. return (set_din_addr din NDIRECT b))
              else return din) (\<lambda>din'.
        bind (rsect (din_addr din' NDIRECT)) (\<lambda>ind.
        let j = fbn - NDIRECT in
        if get32 ind (4 * j) = 0 then
          bind next_block (\<lambda>b.
          andthen (wsect (din_addr din' NDIRECT) (put32 ind (4 * j) b))
          (return (din', b)))
        else return (din', get32 ind (4 * j)))))"

text \<open>\<open>bcopy\<close> of \<open>xs\<close> into a buffer.\<close>

definition bcopy_to :: "bytes \<Rightarrow> nat \<Rightarrow> u8 list \<Rightarrow> bytes" where
  "bcopy_to buf k xs = (\<lambda>i. if k \<le> i \<and> i < k + length xs then xs ! (i - k) else buf i)"

text \<open>
  The loop of \<open>iappend\<close>: \<open>p\<close> is what is left of the data, so that \<open>n\<close> is its length. The assertion keeps
  \<open>off\<close> so small that its arithmetic does not wrap.
\<close>

function iappend_loop :: "nat \<Rightarrow> u8 list \<Rightarrow> bytes \<Rightarrow> (image, nat \<times> bytes) prog" where
  "iappend_loop off p din =
     (if p = [] then return (off, din)
      else
        let fbn = off div BSIZE; n1 = min (length p) ((fbn + 1) * BSIZE - off) in
        andthen (panic_if (\<not> fbn < MAXFILE) ''assert'')
        (bind (iappend_block din fbn) (\<lambda>(din, x).
         bind (rsect x) (\<lambda>buf.
         andthen (wsect x (bcopy_to buf (off - fbn * BSIZE) (take n1 p)))
         (iappend_loop (off + n1) (drop n1 p) din)))))"
  by auto
termination
proof (relation "measure (\<lambda>(off, p, din). length p)", goal_cases)
  case (2 off p din fbn n1)
  have "off < (off div 1024 + 1) * 1024" using dividend_less_div_times [of 1024 off] by simp
  then show ?case using 2 by (cases p) auto
qed simp

declare iappend_loop.simps [simp del]

definition iappend :: "u32 \<Rightarrow> u8 list \<Rightarrow> (image, unit) prog" where
  "iappend inum p =
     bind (rinode inum) (\<lambda>din.
     bind (iappend_loop (unat (get32 din 8)) p din) (\<lambda>(off, din).
     winode inum (put32 din 8 (of_nat off))))"

text \<open>A directory entry: the inode number and the name, cut off or padded with NULs to 14 bytes.\<close>

definition dirent_bytes :: "u32 \<Rightarrow> u8 list \<Rightarrow> u8 list" where
  "dirent_bytes inum name =
     map (put16 (\<lambda>_. 0) 0 (ucast inum)) [0..<2] @ take DIRSIZ (name @ replicate DIRSIZ 0)"

text \<open>\<open>while((cc = read(fd, buf, sizeof(buf))) > 0)\<close> reads a file block by block.\<close>

fun blocks_of :: "u8 list \<Rightarrow> u8 list list" where
  "blocks_of [] = []"
| "blocks_of (x # xs) = take BSIZE (x # xs) # blocks_of (drop (BSIZE - 1) xs)"

text \<open>The name of a file: without \<open>user/\<close> and without a leading underscore. An argument is a C string without its NUL.\<close>

definition skip_user :: "u8 list \<Rightarrow> u8 list" where
  "skip_user arg = (if take 5 arg = [117, 115, 101, 114, 47] then drop 5 arg else arg)"

definition skip_underscore :: "u8 list \<Rightarrow> u8 list" where
  "skip_underscore name = (if name \<noteq> [] \<and> hd name = 95 then tl name else name)"

definition shortname :: "u8 list \<Rightarrow> (image, u8 list) prog" where
  "shortname arg =
     andthen (panic_if (47 \<in> set (skip_user arg)) ''assert'')
     (return (skip_underscore (skip_user arg)))"

definition add_file :: "u32 \<Rightarrow> u8 list \<times> u8 list \<Rightarrow> (image, unit) prog" where
  "add_file rootino = (\<lambda>(arg, contents).
     bind (shortname arg) (\<lambda>name.
     bind (mk_ialloc T_FILE) (\<lambda>inum.
     andthen (iappend rootino (dirent_bytes inum name))
     (for_each (blocks_of contents) (iappend inum)))))"

text \<open>The end of \<open>main\<close>: the size of the root directory is rounded up, and the bitmap is written.\<close>

definition finish :: "u32 \<Rightarrow> (image, unit) prog" where
  "finish rootino =
     bind (rinode rootino) (\<lambda>din.
     let off = get32 din 8; off = (off div 1024 + 1) * 1024 in
     andthen (winode rootino (put32 din 8 off))
     (bind (gets (\<lambda>s. unat (freeblock s))) mk_balloc))"

definition mkfs_main :: "(u8 list \<times> u8 list) list \<Rightarrow> (image, unit) prog" where
  "mkfs_main argv =
     andthen (modify (\<lambda>s. s\<lparr>freeblock := of_nat nmeta\<rparr>))
     (andthen (for_each [0..<FSSIZE] (\<lambda>i. wsect (of_nat i) (\<lambda>_. 0)))
     (andthen (wsect 1 (sb_bytes mk_sb))
     (bind (mk_ialloc T_DIR) (\<lambda>rootino.
      andthen (panic_if (rootino \<noteq> ROOTINO) ''assert'')
      (andthen (iappend rootino (dirent_bytes rootino [46]))
      (andthen (iappend rootino (dirent_bytes rootino [46, 46]))
      (andthen (for_each argv (add_file rootino))
      (finish rootino))))))))"

text \<open>The truncated image file and the initial values of the counters.\<close>

definition new_image :: image where
  "new_image = \<lparr>sectors = (\<lambda>_ _. 0), nsect = 0, freeinode = 1, freeblock = 0\<rparr>"

section \<open>The image file\<close>

lemma unat_u32: "n < 4294967296 \<Longrightarrow> unat (of_nat n :: u32) = n"
  by (simp add: unsigned_of_nat take_bit_eq_mod)

lemma seek_small:
  assumes "unat x < 4194304"
  shows "seek x = x"
proof -
  have "unat (x * 1024) = unat x * 1024" using assms by (simp add: unat_word_ariths)
  then have "unat (seek x) = unat x" unfolding seek_def unat_div by simp
  then show ?thesis by (simp add: word_unat_eq_iff)
qed

text \<open>
  The image while files are put into it: it has all its sectors, the blocks from \<open>fb\<close> on are free, and
  the free ones are zero.
\<close>

definition img :: "nat \<Rightarrow> image \<Rightarrow> bool" where
  "img fb s \<longleftrightarrow> nsect s = FSSIZE \<and> freeblock s = of_nat fb \<and> 46 \<le> fb \<and> fb \<le> FSSIZE \<and>
     (\<forall>b. fb \<le> unat b \<longrightarrow> sectors s b = (\<lambda>_. 0))"

lemma rsect_run:
  assumes "nsect s = 1000" and "unat x < 1000"
  shows "rsect x s = Ret (sectors s x) s"
  using assms by (simp add: rsect_def prog_simps seek_small)

lemma wsect_run:
  assumes "nsect s = 1000" and "unat x < 1000"
  shows "wsect x d s = Ret () (s\<lparr>sectors := (sectors s)(x := d)\<rparr>)"
  using assms by (simp add: wsect_def prog_simps seek_small)

lemma next_block_run:
  assumes "img fb s"
  shows "next_block s = Ret (of_nat fb) (s\<lparr>freeblock := of_nat (Suc fb)\<rparr>)"
  using assms by (simp add: next_block_def prog_simps img_def add.commute)

section \<open>The blocks of a file\<close>

text \<open>
  The address of block \<open>k\<close> of the file whose inode has the addresses \<open>a\<close>; the kernel's \<open>bmap\<close> finds the
  same ones. A file with \<open>nb\<close> blocks owns these and, when it has one, the indirect block.
\<close>

definition file_block :: "(u32 \<Rightarrow> bytes) \<Rightarrow> (nat \<Rightarrow> u32) \<Rightarrow> nat \<Rightarrow> u32" where
  "file_block V a k = (if k < NDIRECT then a k else get32 (V (a NDIRECT)) (4 * (k - NDIRECT)))"

definition own :: "(u32 \<Rightarrow> bytes) \<Rightarrow> (nat \<Rightarrow> u32) \<Rightarrow> nat \<Rightarrow> u32 set" where
  "own V a nb = file_block V a ` {..<nb} \<union> (if NDIRECT < nb then {a NDIRECT} else {})"

definition blk_tree :: "(u32 \<Rightarrow> bytes) \<Rightarrow> (nat \<Rightarrow> u32) \<Rightarrow> nat \<Rightarrow> nat \<Rightarrow> bool" where
  "blk_tree V a nb fb \<longleftrightarrow> nb \<le> MAXFILE \<and>
     (\<forall>k<NDIRECT. a k = 0 \<longleftrightarrow> nb \<le> k) \<and> (a NDIRECT = 0 \<longleftrightarrow> nb \<le> NDIRECT) \<and>
     (NDIRECT < nb \<longrightarrow> (\<forall>k<MAXFILE. NDIRECT \<le> k \<longrightarrow> (file_block V a k = 0 \<longleftrightarrow> nb \<le> k))) \<and>
     inj_on (file_block V a) {..<nb} \<and> (NDIRECT < nb \<longrightarrow> a NDIRECT \<notin> file_block V a ` {..<nb}) \<and>
     (\<forall>b\<in>own V a nb. 46 \<le> unat b \<and> unat b < fb)"

text \<open>What the blocks hold: \<open>xs\<close>, and zeros after it.\<close>

definition blk_data :: "(u32 \<Rightarrow> bytes) \<Rightarrow> (nat \<Rightarrow> u32) \<Rightarrow> nat \<Rightarrow> u8 list \<Rightarrow> bool" where
  "blk_data V a nb xs \<longleftrightarrow>
     (\<forall>k<nb. \<forall>i<BSIZE. V (file_block V a k) i = (if BSIZE * k + i < length xs then xs ! (BSIZE * k + i) else 0))"

lemma file_block_cong:
  assumes "NDIRECT < nb \<Longrightarrow> V' (a NDIRECT) = V (a NDIRECT)" and "k < nb \<or> NDIRECT < nb"
  shows "file_block V' a k = file_block V a k"
  using assms by (auto simp: file_block_def)

lemma own_cong:
  assumes "NDIRECT < nb \<Longrightarrow> V' (a NDIRECT) = V (a NDIRECT)"
  shows "own V' a nb = own V a nb"
proof -
  have "file_block V' a ` {..<nb} = file_block V a ` {..<nb}"
    by (rule image_cong) (simp_all add: file_block_cong [of nb V' a V, OF assms])
  then show ?thesis by (simp add: own_def)
qed

lemma file_block_own: "k < nb \<Longrightarrow> file_block V a k \<in> own V a nb"
  by (simp add: own_def)

text \<open>The blocks of the file are the same when the indirect block is, and with a larger limit.\<close>

lemma blk_tree_cong:
  assumes "blk_tree V a nb fb" and V: "NDIRECT < nb \<Longrightarrow> V' (a NDIRECT) = V (a NDIRECT)" and "fb \<le> fb'"
  shows "blk_tree V' a nb fb'"
proof -
  have fbk: "file_block V' a k = file_block V a k" if "k < nb \<or> NDIRECT < nb" for k
    using file_block_cong [of nb V' a V, OF V that] by simp
  have inj: "inj_on (file_block V' a) {..<nb} = inj_on (file_block V a) {..<nb}"
    by (rule inj_on_cong) (simp add: fbk)
  have own: "own V' a nb = own V a nb" using own_cong [of nb V' a V, OF V] by simp
  have rng: "\<forall>b\<in>own V a nb. 46 \<le> unat b \<and> unat b < fb'" using assms(1,3) unfolding blk_tree_def by fastforce
  show ?thesis
  proof (cases "NDIRECT < nb")
    case True
    then have fba: "file_block V' a = file_block V a" using fbk by blast
    show ?thesis using assms(1) rng True unfolding blk_tree_def own inj fba by blast
  next
    case False
    then show ?thesis using assms(1) rng unfolding blk_tree_def own inj by simp
  qed
qed

lemma blk_data_cong:
  assumes "blk_data V a nb xs" and V: "\<And>b. b \<in> own V a nb \<Longrightarrow> V' b = V b"
  shows "blk_data V' a nb xs"
proof -
  have "file_block V' a k = file_block V a k" if "k < nb" for k
    using that by (intro file_block_cong [of nb] V) (simp_all add: own_def)
  then show ?thesis using assms(1) V [OF file_block_own] by (simp add: blk_data_def)
qed

text \<open>One more block: what has to hold of its address \<open>x\<close> and of the address \<open>y\<close> of the indirect block.\<close>

lemma own_Suc:
  assumes "\<And>k. k < nb \<Longrightarrow> file_block V' a' k = file_block V a k" and "NDIRECT < nb \<Longrightarrow> a' NDIRECT = a NDIRECT"
  shows "own V' a' (Suc nb) = own V a nb \<union> {file_block V' a' nb} \<union> (if nb = NDIRECT then {a' NDIRECT} else {})"
proof -
  have "file_block V' a' ` {..<nb} = file_block V a ` {..<nb}" by (rule image_cong) (simp_all add: assms(1))
  then show ?thesis using assms(2) by (auto simp: own_def lessThan_Suc less_Suc_eq)
qed

lemma blk_tree_grow:
  assumes t: "blk_tree V a nb fb" and nb: "nb < MAXFILE" and fb: "46 \<le> fb" "fb \<le> fb'"
    and old: "\<And>k. k < nb \<Longrightarrow> file_block V' a' k = file_block V a k"
    and x: "file_block V' a' nb = x" "fb \<le> unat x" "unat x < fb'"
    and a': "\<And>k. k < NDIRECT \<Longrightarrow> k \<noteq> nb \<Longrightarrow> a' k = a k"
    and y: "if nb = NDIRECT then a' NDIRECT \<noteq> x \<and> fb \<le> unat (a' NDIRECT) \<and> unat (a' NDIRECT) < fb' else a' NDIRECT = a NDIRECT"
    and rest: "\<And>k. NDIRECT \<le> nb \<Longrightarrow> nb < k \<Longrightarrow> k < MAXFILE \<Longrightarrow> file_block V' a' k = 0"
  shows "blk_tree V' a' (Suc nb) fb'"
proof -
  have own: "46 \<le> unat b \<and> unat b < fb" if "b \<in> own V a nb" for b using t that unfolding blk_tree_def by blast
  have o': "own V' a' (Suc nb) = own V a nb \<union> {x} \<union> (if nb = NDIRECT then {a' NDIRECT} else {})"
    using own_Suc [of nb V' a' V a, OF old] y x(1) by simp
  have new: "b \<notin> own V a nb" if "fb \<le> unat b" for b using own [of b] that by auto
  have im: "file_block V' a' ` {..<nb} = file_block V a ` {..<nb}" by (rule image_cong) (simp_all add: old)
  then have im': "file_block V' a' ` {..<Suc nb} = insert x (file_block V a ` {..<nb})" by (simp add: lessThan_Suc x(1))
  have sub: "file_block V a ` {..<nb} \<subseteq> own V a nb" by (auto simp: own_def)
  have x0: "x \<noteq> 0" using x(2) fb(1) by auto
  have y0: "a' NDIRECT \<noteq> 0" if "nb = NDIRECT" using y that fb(1) by auto
  have ne0: "file_block V a k \<noteq> 0" if "k < nb" for k using own [OF file_block_own [OF that]] by (auto simp: unat_eq_zero)
  have "inj_on (file_block V' a') {..<nb}" using t inj_on_cong [of "{..<nb}" "file_block V' a'" "file_block V a"] old
    by (auto simp: blk_tree_def)
  then have inj: "inj_on (file_block V' a') {..<Suc nb}" using new [OF x(2)] sub im x(1) by (auto simp: lessThan_Suc)
  have ind: "a' NDIRECT \<notin> file_block V' a' ` {..<Suc nb}" if "NDIRECT < Suc nb"
  proof (cases "nb = NDIRECT")
    case True
    then show ?thesis unfolding im' using y new [of "a' NDIRECT"] sub by auto
  next
    case False
    then have "NDIRECT < nb" "a' NDIRECT = a NDIRECT" using that y by auto
    moreover have "a NDIRECT \<in> own V a nb" using calculation by (simp add: own_def)
    ultimately show ?thesis unfolding im' using t new [OF x(2)] by (auto simp: blk_tree_def)
  qed
  have dir: "a' k = 0 \<longleftrightarrow> Suc nb \<le> k" if "k < NDIRECT" for k
    using t that a' [OF that] x(1) x0 by (cases "k = nb") (auto simp: blk_tree_def file_block_def)
  have iad: "a' NDIRECT = 0 \<longleftrightarrow> Suc nb \<le> NDIRECT"
    using t y y0 by (cases "nb = NDIRECT") (auto simp: blk_tree_def)
  have ent: "file_block V' a' k = 0 \<longleftrightarrow> Suc nb \<le> k" if "NDIRECT < Suc nb" "k < MAXFILE" "NDIRECT \<le> k" for k
    using that rest [of k] old [of k] ne0 [of k] x(1) x0 by (cases k nb rule: linorder_cases) auto
  have rng: "46 \<le> unat b \<and> unat b < fb'" if "b \<in> own V' a' (Suc nb)" for b
    using that own [of b] x y fb unfolding o' by (auto split: if_splits)
  show ?thesis unfolding blk_tree_def using nb dir iad ent inj ind rng by simp
qed

section \<open>Adding a block\<close>

lemma din_addr_set [simp]:
  "din_addr (set_din_addr din k b) j = (if j = k then b else din_addr din j)"
proof (cases "j = k")
  case False
  then have "12 + 4 * k + 4 \<le> 12 + 4 * j \<or> 12 + 4 * j + 4 \<le> 12 + 4 * k" by linarith
  then show ?thesis using False by (simp add: din_addr_def set_din_addr_def get_put_le_other)
qed (simp add: din_addr_def set_din_addr_def)

lemma set_din_addr_head: "i < 12 \<Longrightarrow> set_din_addr din k b i = din i"
  by (simp add: set_din_addr_def put_le_def)

lemma img_block: "blk_tree V a nb fb \<Longrightarrow> img fb s \<Longrightarrow> b \<in> own V a nb \<Longrightarrow> unat b < 1000"
  unfolding blk_tree_def img_def by (meson less_le_trans)

text \<open>A block that the file has is found.\<close>

lemma iappend_block_old:
  assumes "img fb s" and t: "blk_tree (sectors s) (din_addr din) nb fb" and k: "k < nb"
  shows "iappend_block din k s = Ret (din, file_block (sectors s) (din_addr din) k) s"
proof (cases "k < NDIRECT")
  case True
  then have "din_addr din k \<noteq> 0" using t k by (auto simp: blk_tree_def)
  then show ?thesis using True by (simp add: iappend_block_def prog_simps file_block_def)
next
  case False
  then have nb: "NDIRECT < nb" "k < MAXFILE" using t k by (auto simp: blk_tree_def)
  then have a: "din_addr din NDIRECT \<noteq> 0" using t by (auto simp: blk_tree_def)
  have "unat (din_addr din NDIRECT) < 1000" using img_block [OF t assms(1)] nb(1) by (simp add: own_def)
  then have r: "rsect (din_addr din NDIRECT) s = Ret (sectors s (din_addr din NDIRECT)) s"
    using assms(1) by (intro rsect_run) (simp_all add: img_def)
  have "file_block (sectors s) (din_addr din) k \<noteq> 0" using t nb k False by (auto simp: blk_tree_def)
  then show ?thesis using False a r by (simp add: iappend_block_def prog_simps file_block_def Let_def)
qed

text \<open>What is said of a new block: nothing but the file's own addresses and the blocks from \<open>fb\<close> on changes.\<close>

definition block_added :: "bytes \<Rightarrow> image \<Rightarrow> nat \<Rightarrow> nat \<Rightarrow> bytes \<Rightarrow> image \<Rightarrow> nat \<Rightarrow> u32 \<Rightarrow> bool" where
  "block_added din s nb fb din' s' fb' x \<longleftrightarrow>
     img fb' s' \<and> blk_tree (sectors s') (din_addr din') (Suc nb) fb' \<and> file_block (sectors s') (din_addr din') nb = x \<and>
     own (sectors s') (din_addr din') (Suc nb) \<subseteq> own (sectors s) (din_addr din) nb \<union> {b. fb \<le> unat b} \<and>
     (\<forall>k<nb. file_block (sectors s') (din_addr din') k = file_block (sectors s) (din_addr din) k \<and>
        sectors s' (file_block (sectors s) (din_addr din) k) = sectors s (file_block (sectors s) (din_addr din) k)) \<and>
     sectors s' x = (\<lambda>_. 0) \<and>
     (\<forall>b. unat b < fb \<longrightarrow> b \<notin> own (sectors s) (din_addr din) nb \<longrightarrow> sectors s' b = sectors s b) \<and>
     (\<forall>i<12. din' i = din i) \<and> freeinode s' = freeinode s"

lemma block_added_direct:
  assumes i: "img fb s" and t: "blk_tree (sectors s) (din_addr din) nb fb" and nb: "nb < NDIRECT" and fb: "fb < 1000"
  shows "block_added din s nb fb (set_din_addr din nb (of_nat fb)) (s\<lparr>freeblock := of_nat (Suc fb)\<rparr>) (Suc fb) (of_nat fb)"
proof -
  let ?a = "din_addr (set_din_addr din nb (of_nat fb))"
  have u: "unat (of_nat fb :: u32) = fb" using fb by (intro unat_u32) simp
  have old: "file_block (sectors s) ?a k = file_block (sectors s) (din_addr din) k" if "k < nb" for k
    using that nb by (simp add: file_block_def)
  have x: "file_block (sectors s) ?a nb = of_nat fb" using nb by (simp add: file_block_def)
  have "blk_tree (sectors s) ?a (Suc nb) (Suc fb)"
    by (rule blk_tree_grow [OF t _ _ _ old x]) (use nb u i in \<open>simp_all add: img_def\<close>)
  moreover have "own (sectors s) ?a (Suc nb) = own (sectors s) (din_addr din) nb \<union> {of_nat fb}"
    using own_Suc [of nb "sectors s" ?a "sectors s" "din_addr din", OF old] nb x by simp
  ultimately show ?thesis using i fb u old x unfolding block_added_def img_def by (simp add: set_din_addr_head)
qed

lemma entry_put: "get32 (put32 d (4 * j) b) (4 * k) = (if k = j then b else get32 d (4 * k))"
proof (cases "k = j")
  case False
  then have "4 * j + 4 \<le> 4 * k \<or> 4 * k + 4 \<le> 4 * j" by linarith
  then show ?thesis using False by (simp add: get_put_le_other)
qed simp

lemma get_zero: "get32 (\<lambda>_. 0) k = 0"
  by (rule bit_word_eqI) (simp add: bit_get_le)

lemma block_added_first:
  assumes i: "img fb s" and t: "blk_tree (sectors s) (din_addr din) NDIRECT fb" and fb: "fb + 1 < 1000"
  shows "block_added din s NDIRECT fb (set_din_addr din NDIRECT (of_nat fb))
    (s\<lparr>freeblock := of_nat (Suc (Suc fb)), sectors := (sectors s)(of_nat fb := put32 (\<lambda>_. 0) 0 (of_nat (Suc fb)))\<rparr>)
    (Suc (Suc fb)) (of_nat (Suc fb))"
proof -
  let ?a = "din_addr (set_din_addr din NDIRECT (of_nat fb))" and ?x = "of_nat fb :: u32" and ?y = "of_nat (Suc fb) :: u32"
  let ?V = "(sectors s)(?x := put32 (\<lambda>_. 0) 0 ?y)"
  have u: "unat ?x = fb" "unat ?y = Suc fb" using fb by (intro unat_u32, simp)+
  have own: "unat b < fb" if "b \<in> own (sectors s) (din_addr din) NDIRECT" for b using t that by (auto simp: blk_tree_def)
  have old: "file_block ?V ?a k = file_block (sectors s) (din_addr din) k" if "k < NDIRECT" for k
    using that by (simp add: file_block_def)
  have ent: "file_block ?V ?a k = (if k = NDIRECT then ?y else 0)" if "NDIRECT \<le> k" for k
    using that entry_put [of "\<lambda>_. 0" 0 ?y "k - NDIRECT"] by (simp add: file_block_def get_zero)
  have x: "file_block ?V ?a NDIRECT = ?y" using ent [of NDIRECT] by simp
  have ne: "?x \<noteq> ?y" using u by (metis n_not_Suc_n)
  have tr: "blk_tree ?V ?a (Suc NDIRECT) (Suc (Suc fb))"
    by (rule blk_tree_grow [OF t _ _ _ old x]) (use u i ent ne in \<open>simp_all add: img_def del: of_nat_Suc\<close>)
  have ow: "own ?V ?a (Suc NDIRECT) = own (sectors s) (din_addr din) NDIRECT \<union> {?y} \<union> {?x}"
    using own_Suc [of NDIRECT ?V ?a "sectors s" "din_addr din", OF old] x by simp
  have same: "?V b = sectors s b" if "unat b < fb" for b using that u by auto
  have kept: "?V (file_block (sectors s) (din_addr din) k) = sectors s (file_block (sectors s) (din_addr din) k)"
    if "k < NDIRECT" for k using same [OF own [OF file_block_own [OF that]]] .
  have im: "img (Suc (Suc fb)) (s\<lparr>freeblock := of_nat (Suc (Suc fb)), sectors := ?V\<rparr>)"
    using i fb u(1) unfolding img_def by auto
  have z: "?V ?y = (\<lambda>_. 0)" using i u ne unfolding img_def by simp
  show ?thesis using tr x ow old kept im z same u unfolding block_added_def by (auto simp: set_din_addr_head simp del: fun_upd_apply of_nat_Suc)
qed

lemma block_added_indirect:
  assumes i: "img fb s" and t: "blk_tree (sectors s) (din_addr din) nb fb" and nb: "NDIRECT < nb" "nb < MAXFILE" and fb: "fb < 1000"
  shows "block_added din s nb fb din
    (s\<lparr>freeblock := of_nat (Suc fb),
       sectors := (sectors s)(din_addr din NDIRECT := put32 (sectors s (din_addr din NDIRECT)) (4 * (nb - NDIRECT)) (of_nat fb))\<rparr>) (Suc fb) (of_nat fb)"
proof -
  let ?a = "din_addr din" and ?x = "of_nat fb :: u32"
  let ?y = "?a NDIRECT"
  let ?V = "(sectors s)(?y := put32 (sectors s ?y) (4 * (nb - NDIRECT)) ?x)"
  have u: "unat ?x = fb" using fb by (intro unat_u32) simp
  have y: "?y \<in> own (sectors s) ?a nb" using nb by (simp add: own_def)
  have own: "unat b < fb" if "b \<in> own (sectors s) ?a nb" for b using t that by (auto simp: blk_tree_def)
  have ent: "file_block ?V ?a k = (if k = nb then ?x else file_block (sectors s) ?a k)" for k
    using nb entry_put [of "sectors s ?y" "nb - NDIRECT" ?x "k - NDIRECT"] by (auto simp: file_block_def)
  have old: "file_block ?V ?a k = file_block (sectors s) ?a k" if "k < nb" for k using that by (simp add: ent)
  have x: "file_block ?V ?a nb = ?x" by (simp add: ent)
  have zero: "file_block (sectors s) ?a k = 0" if "nb < k" "k < MAXFILE" for k using t nb that by (auto simp: blk_tree_def)
  have tr: "blk_tree ?V ?a (Suc nb) (Suc fb)"
    by (rule blk_tree_grow [OF t _ _ _ old x]) (use u i ent zero nb in \<open>simp_all add: img_def del: fun_upd_apply\<close>)
  have ow: "own ?V ?a (Suc nb) = own (sectors s) ?a nb \<union> {?x}"
    using own_Suc [of nb ?V ?a "sectors s" ?a, OF old] x nb by simp
  have ind: "file_block (sectors s) ?a k \<noteq> ?y" if "k < nb" for k using t nb that unfolding blk_tree_def by (metis imageI lessThan_iff)
  have kept: "?V (file_block (sectors s) ?a k) = sectors s (file_block (sectors s) ?a k)" if "k < nb" for k
    using ind [OF that] by simp
  have same: "?V b = sectors s b" if "b \<notin> own (sectors s) ?a nb" for b using that y by auto
  have xn: "?x \<notin> own (sectors s) ?a nb" using own [of ?x] u by auto
  have im: "img (Suc fb) (s\<lparr>freeblock := of_nat (Suc fb), sectors := ?V\<rparr>)" using i fb own [OF y] unfolding img_def by auto
  have z: "?V ?x = (\<lambda>_. 0)" using same [OF xn] i u unfolding img_def by simp
  show ?thesis using tr x ow old kept im z same u unfolding block_added_def by (auto simp del: fun_upd_apply of_nat_Suc)
qed

lemma iappend_block_new:
  assumes i: "img fb s" and t: "blk_tree (sectors s) (din_addr din) nb fb" and nb: "nb < MAXFILE"
    and fb': "fb' = fb + (if nb = NDIRECT then 2 else 1)" "fb' \<le> 1000"
  shows "\<exists>din' s' x. iappend_block din nb s = Ret (din', x) s' \<and> block_added din s nb fb din' s' fb' x"
proof (cases nb "NDIRECT" rule: linorder_cases)
  case less
  then have "din_addr din nb = 0" using t by (simp add: blk_tree_def)
  then have "iappend_block din nb s = Ret (set_din_addr din nb (of_nat fb), of_nat fb) (s\<lparr>freeblock := of_nat (Suc fb)\<rparr>)"
    using less by (simp add: iappend_block_def prog_simps next_block_run [OF i])
  then show ?thesis using block_added_direct [OF i t less] fb' less by auto
next
  case equal
  let ?s = "s\<lparr>freeblock := of_nat (Suc fb)\<rparr>"
  have fb: "fb + 1 < 1000" using fb' equal by simp
  have u: "unat (of_nat fb :: u32) = fb" using fb by (intro unat_u32) simp
  have z: "din_addr din NDIRECT = 0" using t equal by (simp add: blk_tree_def)
  have i': "img (Suc fb) ?s" and f0: "sectors s (of_nat fb) = (\<lambda>_. 0)" using i fb u by (simp_all add: img_def)
  have r: "rsect (of_nat fb) ?s = Ret (\<lambda>_. 0) ?s" using i' fb u f0 by (subst rsect_run) (simp_all add: img_def)
  let ?t = "s\<lparr>freeblock := of_nat (Suc (Suc fb))\<rparr>"
  have w: "wsect (of_nat fb) d ?t = Ret () (?t\<lparr>sectors := (sectors s)(of_nat fb := d)\<rparr>)" for d
    using i' fb u by (subst wsect_run) (simp_all add: img_def)
  have "iappend_block din NDIRECT s = Ret (set_din_addr din NDIRECT (of_nat fb), of_nat (Suc fb))
      (?t\<lparr>sectors := (sectors s)(of_nat fb := put32 (\<lambda>_. 0) 0 (of_nat (Suc fb)))\<rparr>)"
    using z by (simp add: iappend_block_def bind_apply return_apply next_block_run [OF i] next_block_run [OF i'] r w get_zero Let_def del: of_nat_Suc)
  then show ?thesis using block_added_first [OF i _ fb, of din] t fb' equal by (auto simp del: of_nat_Suc)
next
  case greater
  let ?y = "din_addr din NDIRECT"
  have fb: "fb < 1000" using fb' greater by simp
  have y: "?y \<noteq> 0" "file_block (sectors s) (din_addr din) nb = 0" using t greater nb by (auto simp: blk_tree_def)
  have yr: "unat ?y < 1000" using img_block [OF t i] greater by (simp add: own_def)
  have n: "nsect s = 1000" using i by (simp add: img_def)
  have "get32 (sectors s ?y) (4 * (nb - NDIRECT)) = 0" using y(2) greater by (simp add: file_block_def)
  then have "iappend_block din nb s = Ret (din, of_nat fb)
      (s\<lparr>freeblock := of_nat (Suc fb), sectors := (sectors s)(?y := put32 (sectors s ?y) (4 * (nb - NDIRECT)) (of_nat fb))\<rparr>)"
    using y(1) greater n yr by (simp add: iappend_block_def bind_apply return_apply next_block_run [OF i] rsect_run wsect_run Let_def del: of_nat_Suc)
  then show ?thesis using block_added_indirect [OF i t greater nb fb] fb' greater by (auto simp del: of_nat_Suc)
qed

section \<open>Appending\<close>

text \<open>The number of blocks of a file of \<open>n\<close> bytes, and with its indirect block.\<close>

definition nblk :: "nat \<Rightarrow> nat" where
  "nblk n = (n + (BSIZE - 1)) div BSIZE"

definition blocks_for :: "nat \<Rightarrow> nat" where
  "blocks_for n = nblk n + (if NDIRECT < nblk n then 1 else 0)"

definition file_at :: "bytes \<Rightarrow> image \<Rightarrow> u8 list \<Rightarrow> nat \<Rightarrow> bool" where
  "file_at din s xs fb \<longleftrightarrow> blk_tree (sectors s) (din_addr din) (nblk (length xs)) fb \<and>
     blk_data (sectors s) (din_addr din) (nblk (length xs)) xs"

text \<open>\<open>xs\<close> has become \<open>zs\<close>, and only the blocks of the file and free blocks have changed.\<close>

definition appended :: "bytes \<Rightarrow> image \<Rightarrow> u8 list \<Rightarrow> nat \<Rightarrow> bytes \<Rightarrow> image \<Rightarrow> u8 list \<Rightarrow> nat \<Rightarrow> bool" where
  "appended din s xs fb din' s' zs fb' \<longleftrightarrow>
     img fb' s' \<and> file_at din' s' zs fb' \<and> fb' + blocks_for (length xs) = fb + blocks_for (length zs) \<and> fb \<le> fb' \<and>
     own (sectors s') (din_addr din') (nblk (length zs)) \<subseteq> own (sectors s) (din_addr din) (nblk (length xs)) \<union> {b. fb \<le> unat b} \<and>
     (\<forall>b. unat b < fb \<longrightarrow> b \<notin> own (sectors s) (din_addr din) (nblk (length xs)) \<longrightarrow> sectors s' b = sectors s b) \<and>
     (\<forall>i<12. din' i = din i) \<and> freeinode s' = freeinode s"

lemma appended_refl: "img fb s \<Longrightarrow> file_at din s xs fb \<Longrightarrow> appended din s xs fb din s xs fb"
  by (auto simp: appended_def)

lemma appended_trans:
  assumes "appended din s xs fb din' s' ys fb'" and "appended din' s' ys fb' din'' s'' zs fb''"
  shows "appended din s xs fb din'' s'' zs fb''"
proof -
  have "sectors s'' b = sectors s b"
    if b: "unat b < fb" "b \<notin> own (sectors s) (din_addr din) (nblk (length xs))" for b
  proof -
    have "b \<notin> own (sectors s') (din_addr din') (nblk (length ys))" using assms(1) b unfolding appended_def by fastforce
    moreover have "unat b < fb'" using assms(1) b(1) unfolding appended_def by simp
    ultimately show ?thesis using assms b unfolding appended_def by metis
  qed
  moreover have "own (sectors s'') (din_addr din'') (nblk (length zs)) \<subseteq> own (sectors s) (din_addr din) (nblk (length xs)) \<union> {b. fb \<le> unat b}"
    using assms unfolding appended_def by fastforce
  ultimately show ?thesis using assms unfolding appended_def by simp
qed

lemma blk_write:
  assumes t: "blk_tree V a nb fb" and d: "blk_data V a nb xs" and k: "k < nb" "BSIZE * k \<le> length xs" "length xs + length ys \<le> BSIZE * k + BSIZE"
    and V': "V' = V(file_block V a k := bcopy_to (V (file_block V a k)) (length xs - BSIZE * k) ys)"
  shows "blk_tree V' a nb fb" and "blk_data V' a nb (xs @ ys)" and "own V' a nb = own V a nb"
proof -
  have ind: "V' (a NDIRECT) = V (a NDIRECT)" if "NDIRECT < nb"
  proof -
    have "a NDIRECT \<noteq> file_block V a k" using t that k(1) unfolding blk_tree_def by (metis imageI lessThan_iff)
    then show ?thesis by (simp add: V')
  qed
  show "blk_tree V' a nb fb" using blk_tree_cong [OF t, of V' fb] ind by simp
  show "own V' a nb = own V a nb" using own_cong [of nb V' a V] ind by simp
  have old: "file_block V' a j = file_block V a j" if "j < nb" for j using file_block_cong [of nb V' a V] ind that by simp
  have ne: "file_block V a j \<noteq> file_block V a k" if "j < nb" "j \<noteq> k" for j
    using t that k(1) unfolding blk_tree_def by (metis inj_onD lessThan_iff)
  show "blk_data V' a nb (xs @ ys)" unfolding blk_data_def
  proof (intro allI impI)
    fix j i :: nat
    assume j: "j < nb" and i: "i < BSIZE"
    have dj: "V (file_block V a j) i = (if BSIZE * j + i < length xs then xs ! (BSIZE * j + i) else 0)"
      using d j i by (simp add: blk_data_def)
    have V'j: "V' (file_block V a j) i = (if j = k then bcopy_to (V (file_block V a k)) (length xs - BSIZE * k) ys i else V (file_block V a j) i)"
      using ne [OF j] by (auto simp: V')
    show "V' (file_block V' a j) i = (if BSIZE * j + i < length (xs @ ys) then (xs @ ys) ! (BSIZE * j + i) else 0)"
    proof (cases j k rule: linorder_cases)
      case less
      then have "BSIZE * j + BSIZE \<le> BSIZE * k" using mult_le_mono2 [of "Suc j" k BSIZE] by simp
      then show ?thesis using less dj i k(2) by (simp add: old [OF j] V'j nth_append)
    next
      case equal
      then show ?thesis unfolding old [OF j] V'j using dj i k by (auto simp: bcopy_to_def nth_append add.commute)
    next
      case greater
      then have "BSIZE * k + BSIZE \<le> BSIZE * j" using mult_le_mono2 [of "Suc k" j BSIZE] by simp
      then show ?thesis using greater dj i k(3) by (simp add: old [OF j] V'j nth_append)
    qed
  qed
qed

text \<open>One round of the loop: the block, and the bytes that fit into it.\<close>

lemma nblk_div:
  assumes "n div BSIZE = k"
  shows "nblk n = (if n = BSIZE * k then k else Suc k)"
proof -
  define r where "r = n mod BSIZE"
  have n: "n = BSIZE * k + r" "r < BSIZE" using assms by (auto simp: r_def)
  show ?thesis
  proof (cases "r = 0")
    case False
    then have "(n + 1023) div 1024 = Suc k" using n by (intro div_nat_eqI) auto
    then show ?thesis using False n(1) by (simp add: nblk_def)
  qed (use n(1) in \<open>simp add: nblk_def\<close>)
qed

lemma nblk_end:
  assumes "n div BSIZE = k" and "n < m" and "m \<le> BSIZE * k + BSIZE"
  shows "nblk m = Suc k"
proof -
  have "BSIZE * k < m" using assms(1,2) by (metis le_less_trans times_div_less_eq_dividend)
  then show ?thesis unfolding nblk_def using assms(3) by (intro div_nat_eqI) auto
qed

lemma blk_data_Suc:
  assumes "blk_data V a k xs" and "length xs = BSIZE * k" and "V' (file_block V' a' k) = (\<lambda>_. 0)"
    and "\<forall>j<k. file_block V' a' j = file_block V a j \<and> V' (file_block V a j) = V (file_block V a j)"
  shows "blk_data V' a' (Suc k) xs"
  using assms by (auto simp: blk_data_def less_Suc_eq)

lemma block_for_append:
  assumes i: "img fb s" and f: "file_at din s xs fb" and k: "length xs div BSIZE = k" "k < MAXFILE"
    and fb': "fb' + blocks_for (length xs) = fb + (Suc k + (if NDIRECT < Suc k then 1 else 0))" "fb' \<le> 1000"
  shows "\<exists>din' s' x. iappend_block din k s = Ret (din', x) s' \<and> img fb' s' \<and> fb \<le> fb' \<and>
    blk_tree (sectors s') (din_addr din') (Suc k) fb' \<and> file_block (sectors s') (din_addr din') k = x \<and>
    blk_data (sectors s') (din_addr din') (Suc k) xs \<and>
    own (sectors s') (din_addr din') (Suc k) \<subseteq> own (sectors s) (din_addr din) (nblk (length xs)) \<union> {b. fb \<le> unat b} \<and>
    (\<forall>b. unat b < fb \<longrightarrow> b \<notin> own (sectors s) (din_addr din) (nblk (length xs)) \<longrightarrow> sectors s' b = sectors s b) \<and>
    (\<forall>i<12. din' i = din i) \<and> freeinode s' = freeinode s"
proof (cases "length xs = BSIZE * k")
  case False
  then have nb: "nblk (length xs) = Suc k" using nblk_div [OF k(1)] by simp
  then have "fb' = fb" using fb'(1) by (simp add: blocks_for_def)
  moreover have "blk_tree (sectors s) (din_addr din) (Suc k) fb" "blk_data (sectors s) (din_addr din) (Suc k) xs"
    using f nb by (simp_all add: file_at_def)
  ultimately show ?thesis using iappend_block_old [OF i, of din "Suc k" k] i nb by auto
next
  case True
  then have nb: "nblk (length xs) = k" using nblk_div [OF k(1)] by simp
  then have fb: "fb' = fb + (if k = NDIRECT then 2 else 1)" using fb'(1) by (auto simp: blocks_for_def split: if_splits)
  have t: "blk_tree (sectors s) (din_addr din) k fb" and d: "blk_data (sectors s) (din_addr din) k xs"
    using f nb by (simp_all add: file_at_def)
  obtain din' s' x where r: "iappend_block din k s = Ret (din', x) s'" and b: "block_added din s k fb din' s' fb' x"
    using iappend_block_new [OF i t k(2) fb fb'(2)] by blast
  have "blk_data (sectors s') (din_addr din') (Suc k) xs"
    by (rule blk_data_Suc [OF d True]) (use b in \<open>simp_all add: block_added_def\<close>)
  then show ?thesis using r b fb unfolding block_added_def nb by simp
qed

lemma iappend_round:
  assumes i: "img fb s" and f: "file_at din s xs fb" and k: "length xs div BSIZE = k" "k < MAXFILE"
    and ys: "ys \<noteq> []" "length xs + length ys \<le> BSIZE * k + BSIZE"
    and fb': "fb' + blocks_for (length xs) = fb + blocks_for (length (xs @ ys))" "fb' \<le> 1000"
  shows "\<exists>din' s' t x. iappend_block din k s = Ret (din', x) s' \<and> rsect x s' = Ret (sectors s' x) s' \<and>
    wsect x (bcopy_to (sectors s' x) (length xs - k * BSIZE) ys) s' = Ret () t \<and> appended din s xs fb din' t (xs @ ys) fb'"
proof -
  have nb: "nblk (length (xs @ ys)) = Suc k" using nblk_end [OF k(1), of "length (xs @ ys)"] ys by simp
  have "fb' + blocks_for (length xs) = fb + (Suc k + (if NDIRECT < Suc k then 1 else 0))" using fb'(1) nb by (simp add: blocks_for_def)
  from block_for_append [OF i f k this fb'(2)] obtain din' s' x where r: "iappend_block din k s = Ret (din', x) s'"
    and i': "img fb' s'" "fb \<le> fb'" and t: "blk_tree (sectors s') (din_addr din') (Suc k) fb'"
    and x: "file_block (sectors s') (din_addr din') k = x" and d: "blk_data (sectors s') (din_addr din') (Suc k) xs"
    and o': "own (sectors s') (din_addr din') (Suc k) \<subseteq> own (sectors s) (din_addr din) (nblk (length xs)) \<union> {b. fb \<le> unat b}"
    and same: "\<forall>b. unat b < fb \<longrightarrow> b \<notin> own (sectors s) (din_addr din) (nblk (length xs)) \<longrightarrow> sectors s' b = sectors s b"
    and hd: "\<forall>i<12. din' i = din i" "freeinode s' = freeinode s" by blast
  have xo: "x \<in> own (sectors s') (din_addr din') (Suc k)" using x by (auto simp: own_def)
  then have xr: "unat x < 1000" "unat x < fb'" using img_block [OF t i'(1)] t by (auto simp: blk_tree_def)
  have n: "nsect s' = 1000" using i' by (simp add: img_def)
  let ?V = "(sectors s')(x := bcopy_to (sectors s' x) (length xs - k * BSIZE) ys)"
  have le: "BSIZE * k \<le> length xs" using k(1) by auto
  have w: "blk_tree ?V (din_addr din') (Suc k) fb'" "blk_data ?V (din_addr din') (Suc k) (xs @ ys)"
    "own ?V (din_addr din') (Suc k) = own (sectors s') (din_addr din') (Suc k)"
    using blk_write [OF t d lessI le ys(2), of ?V] x by (simp_all add: mult.commute)
  have im: "img fb' (s'\<lparr>sectors := ?V\<rparr>)" using i' xr(2) unfolding img_def by auto
  have "?V b = sectors s b" if "unat b < fb" "b \<notin> own (sectors s) (din_addr din) (nblk (length xs))" for b
    using same that xo o' by auto
  then have "appended din s xs fb din' (s'\<lparr>sectors := ?V\<rparr>) (xs @ ys) fb'"
    unfolding appended_def file_at_def nb using w im i'(2) fb'(1) o' hd by (simp del: fun_upd_apply)
  then show ?thesis using r rsect_run [OF n xr(1)] wsect_run [OF n xr(1)] by blast
qed

lemma blocks_for_mono: "m \<le> n \<Longrightarrow> blocks_for m \<le> blocks_for n"
proof -
  assume "m \<le> n"
  then have "nblk m \<le> nblk n" unfolding nblk_def by (intro div_le_mono) simp
  then show ?thesis by (auto simp: blocks_for_def)
qed

text \<open>The whole loop: the bytes are appended.\<close>

lemma iappend_loop_run:
  assumes "img fb s" and "file_at din s xs fb" and "length xs + length p \<le> MAXFILE * BSIZE"
    and "fb' + blocks_for (length xs) = fb + blocks_for (length (xs @ p))" and "fb' \<le> 1000"
  shows "\<exists>din' s'. iappend_loop (length xs) p din s = Ret (length (xs @ p), din') s' \<and> appended din s xs fb din' s' (xs @ p) fb'"
  using assms
proof (induction "length p" arbitrary: p xs din s fb rule: less_induct)
  case less
  show ?case
  proof (cases "p = []")
    case True
    then show ?thesis using less.prems appended_refl [of fb s din xs] by (simp add: iappend_loop.simps prog_simps)
  next
    case False
    define k where "k = length xs div BSIZE"
    define n1 where "n1 = min (length p) ((k + 1) * BSIZE - length xs)"
    have le: "BSIZE * k \<le> length xs" "length xs < BSIZE * k + BSIZE"
      using dividend_less_div_times [of BSIZE "length xs"] by (simp_all add: k_def)
    have lp: "0 < length p" using False by simp
    have n1: "0 < n1" "n1 \<le> length p" "length xs + n1 \<le> BSIZE * k + BSIZE" using le lp by (auto simp: n1_def)
    have kf: "k < MAXFILE" using less.prems(3) lp le by linarith
    let ?ys = "take n1 p"
    have ys: "?ys \<noteq> []" "length xs + length ?ys \<le> BSIZE * k + BSIZE" using n1 False by auto
    define fb1 where "fb1 = fb + blocks_for (length (xs @ ?ys)) - blocks_for (length xs)"
    have bm: "blocks_for (length xs) \<le> blocks_for (length (xs @ ?ys))" "blocks_for (length (xs @ ?ys)) \<le> blocks_for (length (xs @ p))"
      by (rule blocks_for_mono, simp)+
    have fb1: "fb1 + blocks_for (length xs) = fb + blocks_for (length (xs @ ?ys))"
      "fb' + blocks_for (length (xs @ ?ys)) = fb1 + blocks_for (length (xs @ p))" "fb1 \<le> 1000"
      using bm less.prems(4,5) by (simp_all add: fb1_def)
    from iappend_round [OF less.prems(1,2) k_def [symmetric] kf ys fb1(1,3)] obtain din1 s1 t x
      where r: "iappend_block din k s = Ret (din1, x) s1" "rsect x s1 = Ret (sectors s1 x) s1"
        "wsect x (bcopy_to (sectors s1 x) (length xs - k * BSIZE) ?ys) s1 = Ret () t"
        and g: "appended din s xs fb din1 t (xs @ ?ys) fb1" by blast
    have m: "min (length p) (BSIZE + k * BSIZE - length xs) = n1" by (simp add: n1_def)
    have "iappend_loop (length xs) p din s = iappend_loop (length (xs @ ?ys)) (drop n1 p) din1 t"
      using False kf r n1 by (subst iappend_loop.simps) (simp add: Let_def k_def [symmetric] m prog_simps)
    moreover from less.hyps [of "drop n1 p" fb1 t din1 "xs @ ?ys"] obtain din' s'
      where "iappend_loop (length (xs @ ?ys)) (drop n1 p) din1 t = Ret (length (xs @ p), din') s'"
        "appended din1 t (xs @ ?ys) fb1 din' s' (xs @ p) fb'"
      using g n1 lp fb1(2) less.prems(3,5) by (auto simp: appended_def)
    ultimately show ?thesis using appended_trans [OF g] by auto
  qed
qed

section \<open>Inodes\<close>

lemma mk_sb_simps:
  "sb_magic mk_sb = FSMAGIC" "sb_size mk_sb = 1000" "sb_nblocks mk_sb = 954" "sb_ninodes mk_sb = 200" "sb_nlog mk_sb = 30"
  "sb_logstart mk_sb = 2" "sb_inodestart mk_sb = 32" "sb_bmapstart mk_sb = 45"
  by (simp_all add: mk_sb_def nblocks_def nmeta_def nlog_def ninodeblocks_def nbitmap_def)

lemma nmeta_value: "nmeta = 46"
  by (simp add: nmeta_def nlog_def ninodeblocks_def nbitmap_def)

text \<open>The inode blocks are 32 to 44.\<close>

lemma unat_IBLOCK:
  assumes "unat i < 208"
  shows "unat (IBLOCK i mk_sb) = 32 + unat i div 16"
proof -
  have "unat (i div 16) = unat i div 16" by (simp add: unat_div)
  then show ?thesis using assms by (simp add: IBLOCK_def mk_sb_simps unat_word_ariths)
qed

definition dinode_at :: "image \<Rightarrow> u32 \<Rightarrow> bytes" where
  "dinode_at s i = get_dinode (sectors s (IBLOCK i mk_sb)) i"

lemma rinode_run:
  assumes "nsect s = 1000" and "unat i < 208"
  shows "rinode i s = Ret (dinode_at s i) s"
  using assms by (simp add: rinode_def dinode_at_def bind_apply return_apply rsect_run unat_IBLOCK)

lemma winode_run:
  assumes "nsect s = 1000" and "unat i < 208"
  shows "winode i din s = Ret () (s\<lparr>sectors := (sectors s)(IBLOCK i mk_sb := put_dinode (sectors s (IBLOCK i mk_sb)) i din)\<rparr>)"
  using assms by (simp add: winode_def Let_def bind_apply rsect_run wsect_run unat_IBLOCK)

lemma get_put_dinode:
  assumes "unat i div 16 = unat j div 16"
  shows "get_dinode (put_dinode d i din) j = (if i = j then (\<lambda>n. if n < 64 then din n else 0) else get_dinode d j)"
proof (cases "i = j")
  case True
  then show ?thesis by (auto simp: get_dinode_def put_dinode_def)
next
  case False
  then have "unat i mod 16 \<noteq> unat j mod 16" using assms by (metis div_mult_mod_eq word_unat_eq_iff)
  moreover have "64 * a + 64 \<le> 64 * b \<or> 64 * b + 64 \<le> 64 * a" if "a \<noteq> b" for a b :: nat using that by linarith
  ultimately have "dinode_off i + 64 \<le> dinode_off j \<or> dinode_off j + 64 \<le> dinode_off i" by (simp add: dinode_off_def)
  then show ?thesis using False by (auto simp: get_dinode_def put_dinode_def)
qed

text \<open>Writing an inode changes this inode alone, and no block from 46 on.\<close>

lemma winode_dinode_at:
  assumes "unat i < 208" and "unat j < 208"
  shows "dinode_at (s\<lparr>sectors := (sectors s)(IBLOCK i mk_sb := put_dinode (sectors s (IBLOCK i mk_sb)) i din)\<rparr>) j =
    (if i = j then (\<lambda>n. if n < 64 then din n else 0) else dinode_at s j)"
proof (cases "unat i div 16 = unat j div 16")
  case True
  then have "IBLOCK i mk_sb = IBLOCK j mk_sb" using unat_IBLOCK [OF assms(1)] unat_IBLOCK [OF assms(2)] by (simp add: word_unat_eq_iff)
  then show ?thesis using get_put_dinode [OF True] by (simp add: dinode_at_def)
next
  case False
  then have "IBLOCK i mk_sb \<noteq> IBLOCK j mk_sb" using unat_IBLOCK [OF assms(1)] unat_IBLOCK [OF assms(2)] by auto
  then show ?thesis using False by (auto simp: dinode_at_def)
qed

lemma din_addr_cong: "(\<And>n. n < 64 \<Longrightarrow> d n = d' n) \<Longrightarrow> k \<le> NDIRECT \<Longrightarrow> din_addr d k = din_addr d' k"
  unfolding din_addr_def by (rule get_le_cong) simp

lemma addrs_cong:
  assumes "\<And>k. k \<le> NDIRECT \<Longrightarrow> a' k = a k"
  shows "file_block V a' = file_block V a" and "own V a' nb = own V a nb" and "blk_tree V a' nb fb = blk_tree V a nb fb"
    and "blk_data V a' nb xs = blk_data V a nb xs"
proof -
  have f: "file_block V a' = file_block V a" using assms by (auto simp: file_block_def fun_eq_iff)
  then show "file_block V a' = file_block V a" .
  show o': "own V a' nb = own V a nb" using f assms by (simp add: own_def)
  show "blk_tree V a' nb fb = blk_tree V a nb fb" using assms unfolding blk_tree_def f o' by simp
  show "blk_data V a' nb xs = blk_data V a nb xs" unfolding blk_data_def f ..
qed

text \<open>A file does not change with blocks that are not its own.\<close>

lemma file_at_frame:
  assumes f: "file_at din s xs fb" and V: "\<And>b. b \<in> own (sectors s) (din_addr din) (nblk (length xs)) \<Longrightarrow> sectors s' b = sectors s b"
    and a: "\<And>k. k \<le> NDIRECT \<Longrightarrow> din_addr din' k = din_addr din k" and fb: "fb \<le> fb'"
  shows "file_at din' s' xs fb'" and "own (sectors s') (din_addr din') (nblk (length xs)) = own (sectors s) (din_addr din) (nblk (length xs))"
proof -
  have i: "sectors s' (din_addr din NDIRECT) = sectors s (din_addr din NDIRECT)" if "NDIRECT < nblk (length xs)"
    using V that by (simp add: own_def)
  have "blk_tree (sectors s') (din_addr din) (nblk (length xs)) fb'"
    by (rule blk_tree_cong [where V = "sectors s"]) (use f i fb in \<open>simp_all add: file_at_def\<close>)
  moreover have "blk_data (sectors s') (din_addr din) (nblk (length xs)) xs"
    by (rule blk_data_cong [where V = "sectors s"]) (use f V in \<open>simp_all add: file_at_def\<close>)
  moreover have "blk_tree (sectors s') (din_addr din') n fb' = blk_tree (sectors s') (din_addr din) n fb'"
    "blk_data (sectors s') (din_addr din') n xs = blk_data (sectors s') (din_addr din) n xs"
    "own (sectors s') (din_addr din') n = own (sectors s') (din_addr din) n" for n
    by (rule addrs_cong, rule a, assumption)+
  moreover have "own (sectors s') (din_addr din) (nblk (length xs)) = own (sectors s) (din_addr din) (nblk (length xs))"
    by (rule own_cong) (rule i)
  ultimately show "file_at din' s' xs fb'"
    and "own (sectors s') (din_addr din') (nblk (length xs)) = own (sectors s) (din_addr din) (nblk (length xs))"
    by (simp_all add: file_at_def)
qed

text \<open>The image with the files \<open>F\<close>, given by type and contents; the first has inode 1.\<close>

definition inum_at :: "nat \<Rightarrow> u32" where
  "inum_at i = of_nat (Suc i)"

definition iown :: "image \<Rightarrow> nat \<Rightarrow> u8 list \<Rightarrow> u32 set" where
  "iown s i xs = own (sectors s) (din_addr (dinode_at s (inum_at i))) (nblk (length xs))"

definition inode_ok :: "image \<Rightarrow> nat \<Rightarrow> nat \<Rightarrow> u16 \<times> u8 list \<Rightarrow> bool" where
  "inode_ok s fb i = (\<lambda>(ty, xs). get16 (dinode_at s (inum_at i)) 0 = ty \<and> get16 (dinode_at s (inum_at i)) 6 = 1 \<and>
     get32 (dinode_at s (inum_at i)) 8 = of_nat (length xs) \<and> length xs \<le> MAXFILE * BSIZE \<and>
     file_at (dinode_at s (inum_at i)) s xs fb)"

definition total_blocks :: "(u16 \<times> u8 list) list \<Rightarrow> nat" where
  "total_blocks F = sum_list (map (\<lambda>f. blocks_for (length (snd f))) F)"

definition disk :: "(u16 \<times> u8 list) list \<Rightarrow> image \<Rightarrow> bool" where
  "disk F s \<longleftrightarrow> img (46 + total_blocks F) s \<and> freeinode s = inum_at (length F) \<and> length F \<le> 199 \<and>
     sectors s 1 = sb_bytes mk_sb \<and> sectors s 2 = (\<lambda>_. 0) \<and>
     (\<forall>i<length F. inode_ok s (46 + total_blocks F) i (F ! i)) \<and>
     (\<forall>i<length F. \<forall>j<length F. i \<noteq> j \<longrightarrow> iown s i (snd (F ! i)) \<inter> iown s j (snd (F ! j)) = {})"

lemma unat_inum_at: "i < 4294967295 \<Longrightarrow> unat (inum_at i) = Suc i"
  unfolding inum_at_def by (rule unat_u32) simp

lemma inum_at_eq:
  assumes "i < 208" and "j < 208"
  shows "inum_at i = inum_at j \<longleftrightarrow> i = j"
proof -
  have "unat (inum_at i) = Suc i" "unat (inum_at j) = Suc j" using assms by (simp_all add: unat_inum_at)
  then show ?thesis by (metis nat.inject)
qed

lemma iown_range:
  assumes "disk F s" and "i < length F" and "b \<in> iown s i (snd (F ! i))"
  shows "46 \<le> unat b" and "unat b < 46 + total_blocks F"
proof -
  have "inode_ok s (46 + total_blocks F) i (F ! i)" using assms(1,2) by (simp add: disk_def)
  then show "46 \<le> unat b" and "unat b < 46 + total_blocks F" using assms(3)
    by (auto simp: inode_ok_def file_at_def blk_tree_def iown_def split: prod.splits)
qed

text \<open>The files that an operation leaves alone.\<close>

lemma inode_ok_frame:
  assumes ok: "inode_ok s fb j (ty, ys)" and d: "dinode_at s' (inum_at j) = dinode_at s (inum_at j)"
    and V: "\<And>b. b \<in> iown s j ys \<Longrightarrow> sectors s' b = sectors s b" and fb: "fb \<le> fb'"
  shows "inode_ok s' fb' j (ty, ys)" and "iown s' j ys = iown s j ys"
proof -
  have "file_at (dinode_at s (inum_at j)) s ys fb" using ok by (simp add: inode_ok_def)
  from file_at_frame [OF this, of s' "dinode_at s' (inum_at j)" fb'] V d fb
  show "inode_ok s' fb' j (ty, ys)" and "iown s' j ys = iown s j ys" using ok by (simp_all add: inode_ok_def iown_def)
qed

text \<open>The inode of the file that grew.\<close>

lemma inode_appended:
  assumes n: "i < 199" and ok: "inode_ok s fb i (ty, xs)" and g: "appended (dinode_at s (inum_at i)) s xs fb din' s1 zs fb'"
    and len: "length zs \<le> MAXFILE * BSIZE" and d: "dinode_at s2 (inum_at i) = (\<lambda>n. if n < 64 then put32 din' 8 (of_nat (length zs)) n else 0)"
    and V: "\<And>b. 46 \<le> unat b \<Longrightarrow> sectors s2 b = sectors s1 b"
  shows "inode_ok s2 fb' i (ty, zs)" and "iown s2 i zs = own (sectors s1) (din_addr din') (nblk (length zs))"
proof -
  let ?d = "put32 din' 8 (of_nat (length zs))"
  have f: "file_at din' s1 zs fb'" and h: "\<forall>n<12. din' n = dinode_at s (inum_at i) n"
    using g by (simp_all add: appended_def)
  have "din_addr ?d k = din_addr din' k" for k by (simp add: din_addr_def get_put_le_other)
  moreover have "din_addr (dinode_at s2 (inum_at i)) k = din_addr ?d k" if "k \<le> NDIRECT" for k
    by (rule din_addr_cong) (use d that in simp_all)
  ultimately have a: "din_addr (dinode_at s2 (inum_at i)) k = din_addr din' k" if "k \<le> NDIRECT" for k using that by simp
  have own: "sectors s2 b = sectors s1 b" if "b \<in> own (sectors s1) (din_addr din') (nblk (length zs))" for b
    using f that V [of b] by (auto simp: file_at_def blk_tree_def)
  from file_at_frame [OF f own a order_refl]
  have fa: "file_at (dinode_at s2 (inum_at i)) s2 zs fb'" and "iown s2 i zs = own (sectors s1) (din_addr din') (nblk (length zs))"
    by (simp_all add: iown_def)
  then show "iown s2 i zs = own (sectors s1) (din_addr din') (nblk (length zs))" by simp
  have "get16 (dinode_at s2 (inum_at i)) 0 = get16 (dinode_at s (inum_at i)) 0"
    "get16 (dinode_at s2 (inum_at i)) 6 = get16 (dinode_at s (inum_at i)) 6"
    by (rule get_le_cong, use h in \<open>auto simp: d put_le_def\<close>)+
  moreover have "get32 (dinode_at s2 (inum_at i)) 8 = get32 ?d 8" by (rule get_le_cong) (simp add: d)
  ultimately show "inode_ok s2 fb' i (ty, zs)" using ok len fa by (simp add: inode_ok_def)
qed

lemma total_blocks_update:
  assumes "i < length F" and "snd (F ! i) = xs"
  shows "total_blocks (F[i := (ty, zs)]) + blocks_for (length xs) = total_blocks F + blocks_for (length zs)"
proof -
  let ?B = "map (\<lambda>f. blocks_for (length (snd f))) F"
  have "?B ! i \<le> sum_list ?B" using assms(1) by (intro elem_le_sum_list) simp
  then show ?thesis using assms by (simp add: total_blocks_def map_update sum_list_update)
qed

lemma disk_inum:
  assumes "disk F s" and "j < length F"
  shows "unat (inum_at j) < 208" and "unat (IBLOCK (inum_at j) mk_sb) < 46" and "2 < unat (IBLOCK (inum_at j) mk_sb)"
proof -
  show u: "unat (inum_at j) < 208" using assms by (simp add: unat_inum_at disk_def)
  show "unat (IBLOCK (inum_at j) mk_sb) < 46" and "2 < unat (IBLOCK (inum_at j) mk_sb)" using unat_IBLOCK [OF u] u by auto
qed

text \<open>The run of \<open>iappend\<close>: first the blocks of the file change, which gives \<open>s1\<close>, then its inode.\<close>

lemma iappend_run:
  assumes D: "disk F s" and i: "i < length F" "F ! i = (ty, xs)" and len: "length xs + length p \<le> MAXFILE * BSIZE"
    and room: "46 + total_blocks (F[i := (ty, xs @ p)]) \<le> 1000"
  shows "\<exists>s2 din' s1. iappend (inum_at i) p s = Ret () s2 \<and>
    appended (dinode_at s (inum_at i)) s xs (46 + total_blocks F) din' s1 (xs @ p) (46 + total_blocks (F[i := (ty, xs @ p)])) \<and>
    (\<forall>b. unat b < 46 \<longrightarrow> sectors s1 b = sectors s b) \<and> (\<forall>b. 46 \<le> unat b \<or> unat b \<le> 2 \<longrightarrow> sectors s2 b = sectors s1 b) \<and>
    (\<forall>j<length F. dinode_at s2 (inum_at j) =
      (if j = i then (\<lambda>n. if n < 64 then put32 din' 8 (of_nat (length (xs @ p))) n else 0) else dinode_at s (inum_at j))) \<and>
    nsect s2 = nsect s1 \<and> freeblock s2 = freeblock s1 \<and> freeinode s2 = freeinode s1"
proof -
  let ?fb = "46 + total_blocks F" and ?din = "dinode_at s (inum_at i)" and ?fb' = "46 + total_blocks (F[i := (ty, xs @ p)])"
  let ?I = "IBLOCK (inum_at i) mk_sb"
  have I: "img ?fb s" and n: "nsect s = 1000" and lF: "length F \<le> 199" using D by (simp_all add: disk_def img_def)
  have "inode_ok s ?fb i (F ! i)" using D i(1) by (simp add: disk_def)
  then have "length xs \<le> 274432" and sz: "get32 ?din 8 = of_nat (length xs)" and f: "file_at ?din s xs ?fb" using i(2) by (auto simp: inode_ok_def)
  then have off: "unat (get32 ?din 8) = length xs" by (simp add: unat_u32)
  have "?fb' + blocks_for (length xs) = ?fb + blocks_for (length (xs @ p))"
    using total_blocks_update [of i F xs ty "xs @ p"] i by simp
  from iappend_loop_run [OF I f len this room] obtain din' s1
    where r: "iappend_loop (length xs) p ?din s = Ret (length (xs @ p), din') s1" and g: "appended ?din s xs ?fb din' s1 (xs @ p) ?fb'" by blast
  have n1: "nsect s1 = 1000" using g by (simp add: appended_def img_def)
  have low: "sectors s1 b = sectors s b" if "unat b < 46" for b
  proof -
    have "b \<notin> iown s i xs" using iown_range(1) [OF D i(1), of b] that i(2) by auto
    then show ?thesis using g that by (simp add: appended_def iown_def)
  qed
  define s2 where "s2 = s1\<lparr>sectors := (sectors s1)(?I := put_dinode (sectors s1 ?I) (inum_at i) (put32 din' 8 (of_nat (length (xs @ p)))))\<rparr>"
  have ui: "unat (inum_at i) < 208" using disk_inum(1) [OF D i(1)] .
  have run: "iappend (inum_at i) p s = Ret () s2"
    using winode_run [OF n1 ui] r by (simp add: iappend_def bind_apply rinode_run [OF n ui] off s2_def)
  have high: "sectors s2 b = sectors s1 b" if "46 \<le> unat b \<or> unat b \<le> 2" for b using that disk_inum [OF D i(1)] by (auto simp: s2_def)
  have d2: "dinode_at s2 (inum_at j) = (if j = i then (\<lambda>n. if n < 64 then put32 din' 8 (of_nat (length (xs @ p))) n else 0) else dinode_at s (inum_at j))"
    if "j < length F" for j
  proof -
    have "dinode_at s1 (inum_at j) = dinode_at s (inum_at j)" using low disk_inum(2) [OF D that] by (simp add: dinode_at_def)
    then show ?thesis unfolding s2_def winode_dinode_at [OF ui disk_inum(1) [OF D that]]
      using inum_at_eq [of i j] i(1) that lF by auto
  qed
  show ?thesis
    by (intro exI [of _ s2] exI [of _ din'] exI [of _ s1] conjI allI impI run g low high d2) (simp_all add: s2_def)
qed

text \<open>\<open>iappend\<close> appends to its file and leaves the others alone.\<close>

lemma disk_iappend:
  assumes D: "disk F s" and i: "i < length F" "F ! i = (ty, xs)" and len: "length xs + length p \<le> MAXFILE * BSIZE"
    and room: "46 + total_blocks (F[i := (ty, xs @ p)]) \<le> 1000"
  shows "\<exists>s'. iappend (inum_at i) p s = Ret () s' \<and> disk (F[i := (ty, xs @ p)]) s'"
proof -
  let ?fb = "46 + total_blocks F" and ?F = "F[i := (ty, xs @ p)]"
  let ?fb' = "46 + total_blocks ?F"
  from iappend_run [OF assms] obtain s2 din' s1 where run: "iappend (inum_at i) p s = Ret () s2"
    and g: "appended (dinode_at s (inum_at i)) s xs ?fb din' s1 (xs @ p) ?fb'"
    and l: "\<forall>b. unat b < 46 \<longrightarrow> sectors s1 b = sectors s b" and h: "\<forall>b. 46 \<le> unat b \<or> unat b \<le> 2 \<longrightarrow> sectors s2 b = sectors s1 b"
    and d: "\<forall>j<length F. dinode_at s2 (inum_at j) =
      (if j = i then (\<lambda>n. if n < 64 then put32 din' 8 (of_nat (length (xs @ p))) n else 0) else dinode_at s (inum_at j))"
    and cnt: "nsect s2 = nsect s1" "freeblock s2 = freeblock s1" "freeinode s2 = freeinode s1" by (elim exE conjE)
  note low = l [rule_format] and high = h [rule_format] and d2 = d [rule_format]
  have lF: "length F \<le> 199" using D by (simp add: disk_def)
  have ok: "inode_ok s ?fb j (F ! j)" if "j < length F" for j using D that by (simp add: disk_def)
  have dis: "iown s j (snd (F ! j)) \<inter> iown s k (snd (F ! k)) = {}" if "j < length F" "k < length F" "j \<noteq> k" for j k
    using D that by (simp add: disk_def)
  have gi: "inode_ok s2 ?fb' i (ty, xs @ p)" "iown s2 i (xs @ p) \<subseteq> iown s i xs \<union> {b. ?fb \<le> unat b}"
    using inode_appended [OF _ _ g, of ty s2] ok [OF i(1)] len d2 [OF i(1)] high i lF g by (auto simp: appended_def iown_def)
  have others: "inode_ok s2 ?fb' j (F ! j)" "iown s2 j (snd (F ! j)) = iown s j (snd (F ! j))" if j: "j < length F" "j \<noteq> i" for j
  proof -
    have V: "sectors s2 b = sectors s b" if b: "b \<in> iown s j (snd (F ! j))" for b
    proof -
      have "b \<notin> iown s i xs" using dis [OF j(1) i(1) j(2)] b i(2) by auto
      then have "sectors s1 b = sectors s b" using g iown_range(2) [OF D j(1) b] by (simp add: appended_def iown_def)
      then show ?thesis using high [of b] iown_range(1) [OF D j(1) b] by simp
    qed
    show "inode_ok s2 ?fb' j (F ! j)" "iown s2 j (snd (F ! j)) = iown s j (snd (F ! j))"
      using inode_ok_frame [of s ?fb j "fst (F ! j)" "snd (F ! j)" s2 ?fb'] V ok [OF j(1)] d2 [OF j(1)] j(2) g by (simp_all add: appended_def)
  qed
  have new: "iown s2 i (xs @ p) \<inter> iown s2 j (snd (F ! j)) = {}" if j: "j < length F" "j \<noteq> i" for j
    using gi(2) dis [OF i(1) j(1)] j iown_range(2) [OF D j(1)] unfolding others(2) [OF j] i(2) by fastforce
  have "\<forall>j<length ?F. inode_ok s2 ?fb' j (?F ! j)" using others(1) gi(1) by (simp add: nth_list_update i(1))
  moreover have "\<forall>j<length ?F. \<forall>k<length ?F. j \<noteq> k \<longrightarrow> iown s2 j (snd (?F ! j)) \<inter> iown s2 k (snd (?F ! k)) = {}"
    using new dis others(2) by (simp add: nth_list_update i(1) Int_commute)
  moreover have "img ?fb' s2" using g cnt high unfolding appended_def img_def by auto
  moreover have "sectors s2 1 = sectors s 1" "sectors s2 2 = sectors s 2" using high [of 1] low [of 1] high [of 2] low [of 2] by simp_all
  moreover have "freeinode s2 = freeinode s" using g cnt by (simp add: appended_def)
  ultimately have "disk ?F s2" using D unfolding disk_def by simp
  then show ?thesis using run by blast
qed

lemma total_blocks_simps [simp]:
  "total_blocks [] = 0" "total_blocks (f # F) = blocks_for (length (snd f)) + total_blocks F"
  "total_blocks (F @ G) = total_blocks F + total_blocks G"
  by (simp_all add: total_blocks_def)

lemma blocks_for_0 [simp]: "blocks_for 0 = 0"
  by (simp add: blocks_for_def nblk_def)

lemma new_dinode:
  fixes ty :: u16
  defines "d \<equiv> \<lambda>n. if n < 64 then put32 (put16 (put16 (\<lambda>_. 0) 0 ty) 6 1) 8 0 n else 0"
  shows "k \<le> NDIRECT \<Longrightarrow> din_addr d k = 0" and "get16 d 0 = ty" and "get16 d 6 = 1" and "get32 d 8 = 0"
proof -
  let ?din = "put32 (put16 (put16 (\<lambda>_. 0) 0 ty) 6 1) 8 0"
  show "din_addr d k = 0" if "k \<le> NDIRECT"
  proof -
    have "din_addr d k = get32 (\<lambda>_. 0) (12 + 4 * k)"
      unfolding din_addr_def using that by (intro get_le_cong) (auto simp: d_def put_le_def)
    then show ?thesis by (simp add: get_zero)
  qed
  have "get16 d 0 = get16 ?din 0" "get16 d 6 = get16 ?din 6" "get32 d 8 = get32 ?din 8"
    by (rule get_le_cong, simp add: d_def)+
  then show "get16 d 0 = ty" "get16 d 6 = 1" "get32 d 8 = 0" by (simp_all add: get_put_le_other)
qed

text \<open>\<open>ialloc\<close> makes an empty file.\<close>

lemma disk_ialloc:
  assumes D: "disk F s" and lF: "length F < 199"
  shows "\<exists>s'. mk_ialloc ty s = Ret (inum_at (length F)) s' \<and> disk (F @ [(ty, [])]) s'"
proof -
  let ?i = "inum_at (length F)" and ?fb = "46 + total_blocks F" and ?din = "put32 (put16 (put16 (\<lambda>_. 0) 0 ty) 6 1) 8 0" and ?F = "F @ [(ty, [])]"
  let ?s = "s\<lparr>freeinode := inum_at (length ?F)\<rparr>"
  have u: "unat ?i < 208" using lF by (simp add: unat_inum_at)
  have ib: "unat (IBLOCK ?i mk_sb) < 46" "2 < unat (IBLOCK ?i mk_sb)" using unat_IBLOCK [OF u] u by auto
  have I: "img ?fb s" "freeinode s = ?i" using D by (simp_all add: disk_def)
  define s2 where "s2 = ?s\<lparr>sectors := (sectors s)(IBLOCK ?i mk_sb := put_dinode (sectors s (IBLOCK ?i mk_sb)) ?i ?din)\<rparr>"
  have "?i + 1 = inum_at (length ?F)" by (simp add: inum_at_def)
  then have run: "mk_ialloc ty s = Ret ?i s2"
    using I winode_run [of ?s ?i ?din] u by (simp add: mk_ialloc_def prog_simps s2_def img_def)
  have high: "sectors s2 b = sectors s b" if "46 \<le> unat b \<or> unat b \<le> 2" for b using that ib by (auto simp: s2_def)
  have d2: "dinode_at s2 (inum_at j) = (if j = length F then (\<lambda>n. if n < 64 then ?din n else 0) else dinode_at s (inum_at j))"
    if "j \<le> length F" for j
  proof -
    have "unat (inum_at j) < 208" using that lF by (simp add: unat_inum_at)
    from winode_dinode_at [OF u this, of ?s ?din] show ?thesis using inum_at_eq [of "length F" j] that lF by (auto simp: s2_def dinode_at_def)
  qed
  have old: "inode_ok s2 ?fb j (F ! j)" "iown s2 j (snd (F ! j)) = iown s j (snd (F ! j))" if j: "j < length F" for j
  proof -
    have "inode_ok s ?fb j (F ! j)" using D j by (simp add: disk_def)
    then show "inode_ok s2 ?fb j (F ! j)" "iown s2 j (snd (F ! j)) = iown s j (snd (F ! j))"
      using inode_ok_frame [of s ?fb j "fst (F ! j)" "snd (F ! j)" s2 ?fb] iown_range(1) [OF D j] high d2 [of j] j by simp_all
  qed
  have new: "inode_ok s2 ?fb (length F) (ty, [])" "iown s2 (length F) [] = {}"
    using new_dinode [where ty = ty] d2 [of "length F"] by (simp_all add: inode_ok_def file_at_def blk_tree_def blk_data_def nblk_def own_def iown_def)
  have "\<forall>j<length ?F. inode_ok s2 ?fb j (?F ! j)" using old(1) new(1) by (simp add: nth_append less_Suc_eq)
  moreover have "\<forall>j<length ?F. \<forall>k<length ?F. j \<noteq> k \<longrightarrow> iown s2 j (snd (?F ! j)) \<inter> iown s2 k (snd (?F ! k)) = {}"
    using D old(2) new(2) by (auto simp: nth_append less_Suc_eq disk_def)
  moreover have "img ?fb s2" using I high unfolding img_def by (auto simp: s2_def)
  moreover have "sectors s2 1 = sectors s 1" "sectors s2 2 = sectors s 2" using high [of 1] high [of 2] by simp_all
  moreover have "freeinode s2 = inum_at (length ?F)" by (simp add: s2_def)
  ultimately have "disk ?F s2" using D lF unfolding disk_def by simp
  then show ?thesis using run by blast
qed

section \<open>The files\<close>

text \<open>A file is copied block by block.\<close>

lemma concat_blocks_of: "concat (blocks_of xs) = xs"
proof (induction xs rule: blocks_of.induct)
  case (2 x xs)
  then have "concat (blocks_of (drop 1023 xs)) = drop 1023 xs" by simp
  then show ?case by (simp add: take_Cons' append_take_drop_id [of 1023 xs] del: append_take_drop_id)
qed simp

lemma total_blocks_mono:
  assumes "i < length F" and "length xs \<le> length zs"
  shows "total_blocks (F[i := (ty, xs)]) \<le> total_blocks (F[i := (ty, zs)])"
  using total_blocks_update [of i "F[i := (ty, xs)]" xs ty zs] assms blocks_for_mono [OF assms(2)] by simp

lemma disk_appends:
  assumes "disk F s" and "i < length F" and "F ! i = (ty, xs)" and "length xs + length (concat ps) \<le> MAXFILE * BSIZE"
    and "46 + total_blocks (F[i := (ty, xs @ concat ps)]) \<le> 1000"
  shows "\<exists>s'. for_each ps (iappend (inum_at i)) s = Ret () s' \<and> disk (F[i := (ty, xs @ concat ps)]) s'"
  using assms
proof (induction ps arbitrary: F xs s)
  case Nil
  then show ?case using list_update_id [of F i] by (simp add: return_apply)
next
  case (Cons p ps)
  let ?F = "F[i := (ty, xs @ p)]"
  have "total_blocks ?F \<le> total_blocks (F[i := (ty, xs @ concat (p # ps))])" using Cons.prems(2) by (intro total_blocks_mono) simp_all
  then obtain s1 where r: "iappend (inum_at i) p s = Ret () s1" and D: "disk ?F s1"
    using disk_iappend [OF Cons.prems(1-3), of p] Cons.prems(4,5) by auto
  have "\<exists>s'. for_each ps (iappend (inum_at i)) s1 = Ret () s' \<and> disk (?F[i := (ty, (xs @ p) @ concat ps)]) s'"
    by (rule Cons.IH [OF D]) (use Cons.prems in \<open>simp_all\<close>)
  then show ?case using r by (simp add: bind_apply)
qed

text \<open>The directory entries of the files, whose inodes have the numbers from \<open>k\<close> on.\<close>

fun entries :: "nat \<Rightarrow> (u8 list \<times> u8 list) list \<Rightarrow> u8 list" where
  "entries k [] = []"
| "entries k ((arg, c) # fs) = dirent_bytes (of_nat k) (skip_underscore (skip_user arg)) @ entries (Suc k) fs"

lemma length_dirent [simp]: "length (dirent_bytes i name) = 16"
  by (simp add: dirent_bytes_def)

lemma length_entries [simp]: "length (entries k fs) = 16 * length fs"
  by (induction k fs rule: entries.induct) simp_all

lemma disk_add_file:
  assumes D: "disk ((T_DIR, r) # G) s" and n: "length G < 198" and r: "length r + 16 \<le> MAXFILE * BSIZE"
    and f: "47 \<notin> set (skip_user arg)" "length c \<le> MAXFILE * BSIZE"
    and room: "46 + total_blocks ((T_DIR, r @ e) # G @ [(T_FILE, c)]) \<le> 1000"
    and e: "e = dirent_bytes (inum_at (Suc (length G))) (skip_underscore (skip_user arg))"
  shows "\<exists>s'. add_file (inum_at 0) (arg, c) s = Ret () s' \<and> disk ((T_DIR, r @ e) # G @ [(T_FILE, c)]) s'"
proof -
  let ?F = "(T_DIR, r) # G" and ?i = "Suc (length G)"
  obtain s1 where s1: "mk_ialloc T_FILE s = Ret (inum_at ?i) s1" and D1: "disk (?F @ [(T_FILE, [])]) s1"
    using disk_ialloc [OF D, of T_FILE] n by auto
  have le: "length e = 16" by (simp add: e)
  have "46 + total_blocks ((?F @ [(T_FILE, [])])[0 := (T_DIR, r @ e)]) \<le> 1000" using room by simp
  then obtain s2 where s2: "iappend (inum_at 0) e s1 = Ret () s2" and D2: "disk ((T_DIR, r @ e) # G @ [(T_FILE, [])]) s2"
    using disk_iappend [OF D1, of 0 T_DIR r e] r le by auto
  obtain s3 where "for_each (blocks_of c) (iappend (inum_at ?i)) s2 = Ret () s3" "disk ((T_DIR, r @ e) # G @ [(T_FILE, c)]) s3"
    using disk_appends [OF D2, of ?i T_FILE "[]" "blocks_of c"] f(2) room by (auto simp: concat_blocks_of)
  then show ?thesis using s1 s2 f(1) by (simp add: add_file_def shortname_def prog_simps e)
qed

lemma disk_add_files:
  assumes "disk ((T_DIR, r) # G) s" and "length G + length fs \<le> 198" and "length r + 16 * length fs \<le> MAXFILE * BSIZE"
    and "\<forall>(arg, c)\<in>set fs. 47 \<notin> set (skip_user arg) \<and> length c \<le> MAXFILE * BSIZE"
    and "46 + total_blocks ((T_DIR, r @ entries (2 + length G) fs) # G @ map (\<lambda>f. (T_FILE, snd f)) fs) \<le> 1000"
  shows "\<exists>s'. for_each fs (add_file (inum_at 0)) s = Ret () s' \<and>
    disk ((T_DIR, r @ entries (2 + length G) fs) # G @ map (\<lambda>f. (T_FILE, snd f)) fs) s'"
  using assms
proof (induction fs arbitrary: r G s)
  case Nil
  then show ?case by (simp add: return_apply)
next
  case (Cons f fs)
  obtain arg c where f: "f = (arg, c)" by fastforce
  let ?e = "dirent_bytes (inum_at (Suc (length G))) (skip_underscore (skip_user arg))" and ?G = "G @ [(T_FILE, c)]"
  have en: "entries (2 + length G) (f # fs) = ?e @ entries (2 + length ?G) fs" by (simp add: f inum_at_def)
  have "blocks_for (length (r @ ?e)) \<le> blocks_for (length (r @ entries (2 + length G) (f # fs)))"
    unfolding en by (rule blocks_for_mono) simp
  then have "46 + total_blocks ((T_DIR, r @ ?e) # ?G) \<le> 1000" using Cons.prems(5) by (simp add: f)
  then obtain s1 where s1: "add_file (inum_at 0) (arg, c) s = Ret () s1" and D: "disk ((T_DIR, r @ ?e) # ?G) s1"
    using disk_add_file [OF Cons.prems(1), of arg c ?e] Cons.prems(2-4) f by auto
  have "\<exists>s'. for_each fs (add_file (inum_at 0)) s1 = Ret () s' \<and>
    disk ((T_DIR, (r @ ?e) @ entries (2 + length ?G) fs) # ?G @ map (\<lambda>f. (T_FILE, snd f)) fs) s'"
    by (rule Cons.IH [OF D]) (use Cons.prems(2-5) in \<open>simp_all add: en f del: entries.simps\<close>)
  then show ?case using s1 by (simp add: f bind_apply inum_at_def)
qed

section \<open>The whole image\<close>

lemma zero_sectors:
  assumes "sectors s = (\<lambda>_ _. 0)" and "n \<le> 1000"
  shows "for_each [0..<n] (\<lambda>i. wsect (of_nat i) (\<lambda>_. 0)) s = Ret () (s\<lparr>nsect := max (nsect s) n\<rparr>)"
  using assms(2)
proof (induction n)
  case (Suc n)
  have "seek (of_nat n) = of_nat n" "unat (of_nat n :: u32) = n" using Suc.prems by (simp_all add: seek_small unat_u32)
  moreover have "(\<lambda>_ _. 0)(x := \<lambda>_. 0) = ((\<lambda>_ _. 0) :: u32 \<Rightarrow> bytes)" for x by auto
  ultimately show ?case using Suc assms(1) by (simp add: for_each_append prog_simps wsect_def del: fun_upd_apply)
qed (simp add: return_apply)

text \<open>The image before the first file, and with the root directory.\<close>

definition blank :: image where
  "blank = \<lparr>sectors = (\<lambda>_ _. 0)(1 := sb_bytes mk_sb), nsect = FSSIZE, freeinode = 1, freeblock = 46\<rparr>"

lemma disk_blank: "disk [] blank"
proof -
  have "sectors blank b = (\<lambda>_. 0)" if "46 \<le> unat b" for b using that by (auto simp: blank_def)
  then show ?thesis unfolding disk_def img_def by (simp add: blank_def inum_at_def)
qed

definition root_data :: "(u8 list \<times> u8 list) list \<Rightarrow> u8 list" where
  "root_data fs = dirent_bytes ROOTINO [46] @ dirent_bytes ROOTINO [46, 46] @ entries 2 fs"

definition all_files :: "(u8 list \<times> u8 list) list \<Rightarrow> (u16 \<times> u8 list) list" where
  "all_files fs = (T_DIR, root_data fs) # map (\<lambda>f. (T_FILE, snd f)) fs"

text \<open>The arguments that fit: the inodes, the blocks and each file.\<close>

definition fits :: "(u8 list \<times> u8 list) list \<Rightarrow> bool" where
  "fits fs \<longleftrightarrow> length fs \<le> 198 \<and> list_all (\<lambda>(arg, c). 47 \<notin> set (skip_user arg) \<and> length c \<le> MAXFILE * BSIZE) fs \<and>
     46 + total_blocks (all_files fs) \<le> 1000"

lemma disk_all_files:
  assumes "fits fs"
  shows "\<exists>s1 s2 s3 s4. mk_ialloc T_DIR blank = Ret ROOTINO s1 \<and> iappend ROOTINO (dirent_bytes ROOTINO [46]) s1 = Ret () s2 \<and>
    iappend ROOTINO (dirent_bytes ROOTINO [46, 46]) s2 = Ret () s3 \<and> for_each fs (add_file ROOTINO) s3 = Ret () s4 \<and> disk (all_files fs) s4"
proof -
  let ?d = "dirent_bytes ROOTINO [46]" and ?dd = "dirent_bytes ROOTINO [46, 46]"
  have r: "inum_at 0 = ROOTINO" by (simp add: inum_at_def)
  have nb: "blocks_for 16 = 1" "blocks_for 32 = 1" by (simp_all add: blocks_for_def nblk_def)
  have fs: "length fs \<le> 198" "\<forall>(arg, c)\<in>set fs. 47 \<notin> set (skip_user arg) \<and> length c \<le> MAXFILE * BSIZE"
    "46 + total_blocks (all_files fs) \<le> 1000" using assms by (auto simp: fits_def list_all_iff)
  obtain s1 where s1: "mk_ialloc T_DIR blank = Ret ROOTINO s1" "disk [(T_DIR, [])] s1" using disk_ialloc [OF disk_blank, of T_DIR] r by auto
  obtain s2 where s2: "iappend ROOTINO ?d s1 = Ret () s2" "disk [(T_DIR, ?d)] s2"
    using disk_iappend [OF s1(2), of 0 T_DIR "[]" ?d] nb r by auto
  obtain s3 where s3: "iappend ROOTINO ?dd s2 = Ret () s3" "disk [(T_DIR, ?d @ ?dd)] s3"
    using disk_iappend [OF s2(2), of 0 T_DIR ?d ?dd] nb r by auto
  have "\<exists>s'. for_each fs (add_file (inum_at 0)) s3 = Ret () s' \<and> disk (all_files fs) s'"
    using disk_add_files [OF s3(2), of fs] fs by (simp add: all_files_def root_data_def)
  then show ?thesis using s1 s2 s3 r by auto
qed

text \<open>The bitmap.\<close>

lemma set_bits_clear: "bit_clear (set_bits n) b \<longleftrightarrow> n \<le> b"
proof (induction n)
  case 0
  show ?case by (simp add: bit_clear_iff)
next
  case (Suc n)
  have "set_bits (Suc n) = mark_used (set_bits n) n" by (simp add: mark_used_def Let_def)
  then show ?case using Suc by (auto simp: mark_clear simp del: set_bits.simps)
qed

lemma is_free_bitmap:
  assumes "V 45 = set_bits n" and "b < 8192"
  shows "is_free V mk_sb b \<longleftrightarrow> n \<le> b"
proof -
  have "unat ((of_nat b :: u32) div 8192) = 0" using assms(2) by (simp add: unat_div unat_u32)
  then have "(of_nat b :: u32) div 8192 = 0" by (simp only: unat_eq_zero)
  then show ?thesis using assms by (simp add: is_free_def BBLOCK_def mk_sb_simps set_bits_clear)
qed

text \<open>The inode that the kernel's \<open>ilock\<close> loads from the image into a fresh entry of the inode table.\<close>

definition loaded :: "(u32 \<Rightarrow> bytes) \<Rightarrow> u32 \<Rightarrow> inode" where
  "loaded V inum = dinode_read (V (IBLOCK inum mk_sb))
     \<lparr>i_dev = 1, i_inum = inum, i_ref = 1, i_valid = 0, i_type = 0, i_major = 0, i_minor = 0, i_nlink = 0, i_size = 0, i_addrs = (\<lambda>_. 0)\<rparr>"

lemma get_le_get_dinode:
  assumes "k + w \<le> 64"
  shows "(get_le w (get_dinode d i) k :: 'a::len word) = get_le w d (dinode_off i + k)"
proof (rule bit_word_eqI)
  fix n
  have "n < 8 * w \<Longrightarrow> k + n div 8 < 64" using assms by (simp add: div_less_iff_less_mult mult.commute)
  then show "bit (get_le w (get_dinode d i) k :: 'a word) n = bit (get_le w d (dinode_off i + k) :: 'a word) n"
    by (auto simp: bit_get_le get_dinode_def add.assoc)
qed

lemma loaded_dinode:
  fixes s :: image and inum :: u32
  defines "q \<equiv> loaded (sectors s) inum" and "d \<equiv> dinode_at s inum"
  shows "i_type q = get16 d 0" and "i_nlink q = get16 d 6" and "i_size q = get32 d 8" and "k \<le> NDIRECT \<Longrightarrow> i_addrs q k = din_addr d k"
  by (simp_all add: q_def d_def loaded_def dinode_read_def Let_def dinode_at_def get_le_get_dinode din_addr_def add.assoc)

definition disk_file :: "(u32 \<Rightarrow> bytes) \<Rightarrow> u32 \<Rightarrow> u16 \<Rightarrow> nat \<Rightarrow> u8 list \<Rightarrow> bool" where
  "disk_file V inum ty n xs \<longleftrightarrow>
     (let q = loaded V inum in
      i_type q = ty \<and> i_nlink q = 1 \<and> i_size q = of_nat n \<and> blk_data V (i_addrs q) (nblk (length xs)) xs \<and>
      (\<forall>b\<in>own V (i_addrs q) (nblk (length xs)). 46 \<le> unat b \<and> \<not> is_free V mk_sb (unat b)))"

lemma disk_fileI:
  assumes d: "get16 (dinode_at t i) 0 = ty" "get16 (dinode_at t i) 6 = 1" "get32 (dinode_at t i) 8 = of_nat n"
    and f: "file_at (dinode_at t i) t xs fb" and V: "sectors t 45 = set_bits fb" and fb: "fb \<le> 1000"
  shows "disk_file (sectors t) i ty n xs"
    and "own (sectors t) (i_addrs (loaded (sectors t) i)) nb = own (sectors t) (din_addr (dinode_at t i)) nb"
proof -
  have a: "own (sectors t) (i_addrs (loaded (sectors t) i)) nb = own (sectors t) (din_addr (dinode_at t i)) nb"
    "blk_data (sectors t) (i_addrs (loaded (sectors t) i)) nb xs = blk_data (sectors t) (din_addr (dinode_at t i)) nb xs" for nb
    by (rule addrs_cong, rule loaded_dinode(4), assumption)+
  show "own (sectors t) (i_addrs (loaded (sectors t) i)) nb = own (sectors t) (din_addr (dinode_at t i)) nb" by (rule a(1))
  have "46 \<le> unat b \<and> \<not> is_free (sectors t) mk_sb (unat b)" if "b \<in> own (sectors t) (din_addr (dinode_at t i)) (nblk (length xs))" for b
    using that f fb is_free_bitmap [of "sectors t", OF V, of "unat b"] by (fastforce simp: file_at_def blk_tree_def)
  then show "disk_file (sectors t) i ty n xs" using f d unfolding disk_file_def Let_def a
    by (simp add: loaded_dinode file_at_def)
qed

text \<open>The end of \<open>main\<close> changes the root's inode and the bitmap alone.\<close>

lemma finish_run:
  assumes D: "disk F s" and F: "F ! 0 = (T_DIR, r)" "F \<noteq> []"
  shows "\<exists>t. finish ROOTINO s = Ret () t \<and> sectors t 45 = set_bits (46 + total_blocks F) \<and>
    (\<forall>b. 46 \<le> unat b \<or> unat b \<le> 2 \<longrightarrow> sectors t b = sectors s b) \<and>
    (\<forall>j<length F. dinode_at t (inum_at j) = (if j = 0 then (\<lambda>n. if n < 64 then put32 (dinode_at s ROOTINO) 8 (of_nat ((length r div BSIZE + 1) * BSIZE)) n else 0)
       else dinode_at s (inum_at j)))"
proof -
  have F0: "0 < length F" and r0: "inum_at 0 = ROOTINO" using F by (simp_all add: inum_at_def)
  have I: "img (46 + total_blocks F) s" and n: "nsect s = 1000" using D by (simp_all add: disk_def img_def)
  have "inode_ok s (46 + total_blocks F) 0 (F ! 0)" using D F0 by (simp add: disk_def)
  then have len: "length r \<le> 274432" and sz: "get32 (dinode_at s ROOTINO) 8 = of_nat (length r)" using F(1) r0 by (auto simp: inode_ok_def)
  let ?off = "(get32 (dinode_at s ROOTINO) 8 div 1024 + 1) * 1024" and ?n = "(length r div BSIZE + 1) * BSIZE"
  have "unat (of_nat (length r) div 1024 :: u32) = unat (of_nat (length r div 1024) :: u32)" using len by (simp add: unat_div unat_u32)
  then have "of_nat (length r) div 1024 = (of_nat (length r div 1024) :: u32)" by (simp only: word_unat_eq_iff)
  then have off: "?off = of_nat ?n" by (simp add: sz)
  let ?din = "put32 (dinode_at s ROOTINO) 8 (of_nat ?n)" and ?I = "IBLOCK ROOTINO mk_sb"
  have ui: "unat ROOTINO < 208" by simp
  have uI: "unat ?I = 32" using unat_IBLOCK [OF ui] by simp
  define s1 where "s1 = s\<lparr>sectors := (sectors s)(?I := put_dinode (sectors s ?I) ROOTINO ?din)\<rparr>"
  define t where "t = s1\<lparr>sectors := (sectors s1)(45 := set_bits (46 + total_blocks F))\<rparr>"
  have fb: "unat (freeblock s) = 46 + total_blocks F" "46 + total_blocks F \<le> 1000" using I by (simp_all add: img_def unat_u32 del: of_nat_add)
  have run: "finish ROOTINO s = Ret () t"
    unfolding finish_def Let_def bind_Ret [of "rinode ROOTINO", OF rinode_run [OF n ui]] off
      bind_Ret [of "winode ROOTINO ?din", OF winode_run [OF n ui]]
    using fb n by (simp add: prog_simps mk_balloc_def wsect_run mk_sb_simps s1_def t_def)
  have d: "dinode_at t (inum_at j) = dinode_at s1 (inum_at j)" if "j < length F" for j
  proof -
    have "IBLOCK (inum_at j) mk_sb \<noteq> 45" using unat_IBLOCK [OF disk_inum(1) [OF D that]] disk_inum(1) [OF D that] by auto
    then show ?thesis by (simp add: t_def dinode_at_def)
  qed
  have "dinode_at s1 (inum_at j) = (if j = 0 then (\<lambda>n. if n < 64 then ?din n else 0) else dinode_at s (inum_at j))" if "j < length F" for j
    unfolding s1_def winode_dinode_at [OF ui disk_inum(1) [OF D that]] using inum_at_eq [of 0 j] r0 that D by (auto simp: disk_def)
  moreover have "sectors t b = sectors s b" if "46 \<le> unat b \<or> unat b \<le> 2" for b using that uI by (auto simp: t_def s1_def)
  moreover have "sectors t 45 = set_bits (46 + total_blocks F)" by (simp add: t_def)
  ultimately show ?thesis using run d by auto
qed

lemma mkfs_main_run:
  assumes "fits fs"
  shows "\<exists>s. disk (all_files fs) s \<and> mkfs_main fs new_image = finish ROOTINO s"
proof -
  let ?s = "new_image\<lparr>freeblock := 46\<rparr>"
  have z: "for_each [0..<FSSIZE] (\<lambda>i. wsect (of_nat i) (\<lambda>_. 0)) ?s = Ret () (?s\<lparr>nsect := FSSIZE\<rparr>)"
    using zero_sectors [of ?s FSSIZE] by (simp add: new_image_def del: upt_rec_numeral)
  have "wsect 1 (sb_bytes mk_sb) (?s\<lparr>nsect := FSSIZE\<rparr>) = Ret () blank"
    by (simp add: wsect_run blank_def new_image_def)
  then have "mkfs_main fs new_image = bind (mk_ialloc T_DIR) (\<lambda>rootino.
      andthen (panic_if (rootino \<noteq> ROOTINO) ''assert'')
      (andthen (iappend rootino (dirent_bytes rootino [46]))
      (andthen (iappend rootino (dirent_bytes rootino [46, 46]))
      (andthen (for_each fs (add_file rootino)) (finish rootino))))) blank"
    using z by (simp add: mkfs_main_def bind_apply modify_apply nmeta_value del: upt_rec_numeral)
  then show ?thesis using disk_all_files [OF assms] by (auto simp: bind_apply panic_if_apply)
qed

lemma finished_file:
  assumes D: "disk F s" and high: "\<forall>b. 46 \<le> unat b \<or> unat b \<le> 2 \<longrightarrow> sectors t b = sectors s b" and j: "j < length F" "F ! j = (ty, xs)"
    and d: "\<forall>j<length F. dinode_at t (inum_at j) = (if j = 0 then (\<lambda>n. if n < 64 then put32 (dinode_at s ROOTINO) 8 (of_nat m) n else 0)
      else dinode_at s (inum_at j))"
  shows "get16 (dinode_at t (inum_at j)) 0 = ty" and "get16 (dinode_at t (inum_at j)) 6 = 1"
    and "get32 (dinode_at t (inum_at j)) 8 = of_nat (if j = 0 then m else length xs)"
    and "file_at (dinode_at t (inum_at j)) t xs (46 + total_blocks F)"
    and "own (sectors t) (din_addr (dinode_at t (inum_at j))) (nblk (length xs)) = iown s j xs"
proof -
  let ?d = "dinode_at s (inum_at j)" and ?e = "dinode_at t (inum_at j)"
  have "inode_ok s (46 + total_blocks F) j (F ! j)" using D j(1) by (simp add: disk_def)
  then have ok: "get16 ?d 0 = ty" "get16 ?d 6 = 1" "get32 ?d 8 = of_nat (length xs)" "file_at ?d s xs (46 + total_blocks F)"
    using j(2) by (simp_all add: inode_ok_def)
  have e: "?e n = ?d n" if "n < 64" "n < 8 \<or> 12 \<le> n" for n using d j(1) that by (auto simp: inum_at_def put_le_def)
  have "get16 ?e 0 = get16 ?d 0" "get16 ?e 6 = get16 ?d 6" by (rule get_le_cong, rule e, simp_all)+
  then show "get16 ?e 0 = ty" "get16 ?e 6 = 1" using ok by simp_all
  show "get32 ?e 8 = of_nat (if j = 0 then m else length xs)"
  proof (cases "j = 0")
    case True
    then have "get32 ?e 8 = get32 (put32 (dinode_at s ROOTINO) 8 (of_nat m)) 8" using d j(1) by (intro get_le_cong) simp
    then show ?thesis using True by simp
  qed (use ok d j(1) in simp)
  have a: "din_addr ?e k = din_addr ?d k" if "k \<le> NDIRECT" for k
    unfolding din_addr_def by (rule get_le_cong, rule e) (use that in simp_all)
  have V: "sectors t b = sectors s b" if "b \<in> own (sectors s) (din_addr ?d) (nblk (length xs))" for b
    using high iown_range(1) [OF D j(1), of b] that j(2) by (simp add: iown_def)
  show "file_at ?e t xs (46 + total_blocks F)" by (rule file_at_frame(1) [OF ok(4) V a order_refl])
  show "own (sectors t) (din_addr ?e) (nblk (length xs)) = iown s j xs"
    unfolding iown_def by (rule file_at_frame(2) [OF ok(4) V a order_refl])
qed

text \<open>
  C12: With arguments that fit (at most 198 files, of at most 268 blocks each, whose names have no slash
  besides that of \<open>user/\<close>, and not more blocks than the disk has), mkfs makes an image in which the
  superblock describes the layout, the log is empty, and the root directory and every file have an
  inode, as the kernel loads it, with the right type, link count and size, whose blocks are those of
  the data area that hold the contents (zeros fill the last block). The root directory has the entries
  of the files, with their inode numbers and short names. No block belongs to two files, and the blocks
  that the kernel takes for free are those after the last one in use.
\<close>

theorem mkfs_image:
  assumes "fits fs"
  shows "\<exists>t. mkfs_main fs new_image = Ret () t \<and> sectors t 1 = sb_bytes mk_sb \<and> sectors t 2 = (\<lambda>_. 0) \<and>
    disk_file (sectors t) ROOTINO T_DIR ((length (root_data fs) div BSIZE + 1) * BSIZE) (root_data fs) \<and>
    (\<forall>k<length fs. disk_file (sectors t) (of_nat (k + 2)) T_FILE (length (snd (fs ! k))) (snd (fs ! k))) \<and>
    (\<forall>j\<le>length fs. \<forall>k\<le>length fs. j \<noteq> k \<longrightarrow>
       own (sectors t) (i_addrs (loaded (sectors t) (of_nat (j + 1)))) (nblk (length (snd (all_files fs ! j)))) \<inter>
       own (sectors t) (i_addrs (loaded (sectors t) (of_nat (k + 1)))) (nblk (length (snd (all_files fs ! k)))) = {}) \<and>
    (\<forall>b<FSSIZE. is_free (sectors t) mk_sb b \<longleftrightarrow> 46 + total_blocks (all_files fs) \<le> b)"
proof -
  let ?F = "all_files fs"
  let ?fb = "46 + total_blocks ?F"
  obtain s where D: "disk ?F s" and main: "mkfs_main fs new_image = finish ROOTINO s" using mkfs_main_run [OF assms] by blast
  have F: "?F ! 0 = (T_DIR, root_data fs)" "?F \<noteq> []" "length ?F = Suc (length fs)"
    "\<And>k. k < length fs \<Longrightarrow> ?F ! Suc k = (T_FILE, snd (fs ! k))" by (simp_all add: all_files_def)
  obtain t where run: "finish ROOTINO s = Ret () t" and bm: "sectors t 45 = set_bits ?fb"
    and high: "\<forall>b. 46 \<le> unat b \<or> unat b \<le> 2 \<longrightarrow> sectors t b = sectors s b"
    and d: "\<forall>j<length ?F. dinode_at t (inum_at j) = (if j = 0 then (\<lambda>n. if n < 64 then
      put32 (dinode_at s ROOTINO) 8 (of_nat ((length (root_data fs) div BSIZE + 1) * BSIZE)) n else 0) else dinode_at s (inum_at j))"
    using finish_run [OF D F(1,2)] by blast
  have fb: "?fb \<le> 1000" using assms by (simp add: fits_def)
  note fin = finished_file [OF D high _ _ d]
  have files: "disk_file (sectors t) (inum_at j) ty (if j = 0 then (length (root_data fs) div BSIZE + 1) * BSIZE else length xs) xs"
    "own (sectors t) (i_addrs (loaded (sectors t) (inum_at j))) (nblk (length xs)) = iown s j xs"
    if "j < length ?F" "?F ! j = (ty, xs)" for j ty xs
    using disk_fileI [OF fin(1,2,3,4) [OF that] bm fb] fin(5) [OF that] by simp_all
  have root: "disk_file (sectors t) ROOTINO T_DIR ((length (root_data fs) div BSIZE + 1) * BSIZE) (root_data fs)"
    using files(1) [of 0, OF _ F(1)] F(3) by (simp add: inum_at_def)
  have rest: "disk_file (sectors t) (of_nat (k + 2)) T_FILE (length (snd (fs ! k))) (snd (fs ! k))" if "k < length fs" for k
    using files(1) [of "Suc k", OF _ F(4) [OF that]] F(3) that by (simp add: inum_at_def)
  have own: "own (sectors t) (i_addrs (loaded (sectors t) (of_nat (j + 1)))) (nblk (length (snd (?F ! j)))) = iown s j (snd (?F ! j))"
    if "j \<le> length fs" for j using files(2) [of j "fst (?F ! j)" "snd (?F ! j)"] F(3) that by (simp add: inum_at_def)
  have dis: "own (sectors t) (i_addrs (loaded (sectors t) (of_nat (j + 1)))) (nblk (length (snd (?F ! j)))) \<inter>
       own (sectors t) (i_addrs (loaded (sectors t) (of_nat (k + 1)))) (nblk (length (snd (?F ! k)))) = {}"
    if "j \<le> length fs" "k \<le> length fs" "j \<noteq> k" for j k
    unfolding own [OF that(1)] own [OF that(2)] using D F(3) that by (simp add: disk_def)
  have sup: "sectors t 1 = sb_bytes mk_sb" "sectors t 2 = (\<lambda>_. 0)" using D high by (simp_all add: disk_def)
  have free: "is_free (sectors t) mk_sb b \<longleftrightarrow> ?fb \<le> b" if "b < FSSIZE" for b
    using is_free_bitmap [of "sectors t", OF bm, of b] that by simp
  have "mkfs_main fs new_image = Ret () t" using main run by simp
  then show ?thesis by (intro exI [of _ t] conjI allI impI sup root rest dis free)
qed

theorem mkfs_image_witness:
  "\<exists>t. mkfs_main [([117, 115, 101, 114, 47, 95, 97], [1, 2, 3]), ([82], [])] new_image = Ret () t \<and>
    disk_file (sectors t) ROOTINO T_DIR 1024
      ([1, 0, 46, 0, 0, 0, 0, 0, 0, 0, 0, 0, 0, 0, 0, 0] @ [1, 0, 46, 46, 0, 0, 0, 0, 0, 0, 0, 0, 0, 0, 0, 0] @
       [2, 0, 97, 0, 0, 0, 0, 0, 0, 0, 0, 0, 0, 0, 0, 0] @ [3, 0, 82, 0, 0, 0, 0, 0, 0, 0, 0, 0, 0, 0, 0, 0]) \<and>
    disk_file (sectors t) 2 T_FILE 3 [1, 2, 3] \<and> \<not> is_free (sectors t) mk_sb 47 \<and> is_free (sectors t) mk_sb 48"
proof -
  let ?fs = "[([117, 115, 101, 114, 47, 95, 97], [1, 2, 3]), ([82], [])] :: (u8 list \<times> u8 list) list"
  have r: "root_data ?fs = [1, 0, 46, 0, 0, 0, 0, 0, 0, 0, 0, 0, 0, 0, 0, 0] @ [1, 0, 46, 46, 0, 0, 0, 0, 0, 0, 0, 0, 0, 0, 0, 0] @
    [2, 0, 97, 0, 0, 0, 0, 0, 0, 0, 0, 0, 0, 0, 0, 0] @ [3, 0, 82, 0, 0, 0, 0, 0, 0, 0, 0, 0, 0, 0, 0, 0]"
    by code_simp
  have tot: "total_blocks (all_files ?fs) = 2" by (simp add: all_files_def r blocks_for_def nblk_def)
  then have "fits ?fs" by (simp add: fits_def skip_user_def)
  from mkfs_image [OF this] obtain t where "mkfs_main ?fs new_image = Ret () t"
    and "disk_file (sectors t) ROOTINO T_DIR ((length (root_data ?fs) div BSIZE + 1) * BSIZE) (root_data ?fs)"
    and "\<forall>k<length ?fs. disk_file (sectors t) (of_nat (k + 2)) T_FILE (length (snd (?fs ! k))) (snd (?fs ! k))"
    and free: "\<forall>b<FSSIZE. is_free (sectors t) mk_sb b \<longleftrightarrow> 46 + total_blocks (all_files ?fs) \<le> b" by (elim exE conjE)
  moreover from this(3) [rule_format, of 0] have "disk_file (sectors t) 2 T_FILE 3 [1, 2, 3]" by (simp add: numeral_3_eq_3)
  moreover have "\<not> is_free (sectors t) mk_sb 47" "is_free (sectors t) mk_sb 48" using free tot by simp_all
  ultimately show ?thesis unfolding r by (intro exI [of _ t] conjI) simp_all
qed

end
