(* ===== verification/Path.thy ===== *)
theory Path
  imports Fs
begin

text \<open>
  Path names (\<open>skipelem\<close>, \<open>namex\<close> of kernel/fs.c): resolving a path is looking up its components one after
  the other, where the components are what is between the slashes, cut off after DIRSIZ = 14 bytes.
\<close>

section \<open>Components\<close>

fun slash_split :: "u8 list \<Rightarrow> u8 list list" where
  "slash_split [] = [[]]"
| "slash_split (c # cs) = (if c = 47 then [] # slash_split cs
     else case slash_split cs of [] \<Rightarrow> [[c]] | e # es \<Rightarrow> (c # e) # es)"

definition components :: "u8 list \<Rightarrow> u8 list list" where
  "components path = filter (\<lambda>e. e \<noteq> []) (slash_split path)"

lemma slash_split_nonempty [simp]: "slash_split p \<noteq> []"
  by (cases p) (auto split: list.splits)

lemma components_Nil [simp]: "components [] = []"
  by (simp add: components_def)

lemma components_slash [simp]: "components (47 # p) = components p"
  by (simp add: components_def)

lemma components_slashes: "components (dropWhile (\<lambda>c. c = 47) p) = components p"
  by (induction p) auto

lemma slash_split_elem: "slash_split p = takeWhile (\<lambda>c. c \<noteq> 47) p # 
    (case dropWhile (\<lambda>c. c \<noteq> 47) p of [] \<Rightarrow> [] | _ # r \<Rightarrow> slash_split r)"
  by (induction p) auto

lemma components_elem:
  assumes "p \<noteq> []" and "hd p \<noteq> 47"
  shows "components p = takeWhile (\<lambda>c. c \<noteq> 47) p # components (dropWhile (\<lambda>c. c \<noteq> 47) p)"
proof -
  have e: "takeWhile (\<lambda>c. c \<noteq> 47) p \<noteq> []" using assms by (cases p) auto
  show ?thesis
  proof (cases "dropWhile (\<lambda>c. c \<noteq> 47) p")
    case Nil
    then show ?thesis using e unfolding components_def slash_split_elem [of p] Nil by simp
  next
    case (Cons c r)
    then have "c = 47" using hd_dropWhile [of "\<lambda>c. c \<noteq> 47" p] by simp
    then show ?thesis using e unfolding components_def slash_split_elem [of p] Cons by simp
  qed
qed

text \<open>Two buffers hold the same name if \<open>namecmp\<close> does not tell them apart.\<close>

definition same_name :: "bytes \<Rightarrow> bytes \<Rightarrow> bool" where
  "same_name n m \<longleftrightarrow> (\<forall>q. namecmp n q = 0 \<longleftrightarrow> namecmp m q = 0)"

definition name_buf :: "u8 list \<Rightarrow> bytes" where
  "name_buf e = (\<lambda>i. if i < length e then e ! i else 0)"

lemma same_name_prefix:
  assumes "\<And>i. i < DIRSIZ \<Longrightarrow> i < length e \<Longrightarrow> n i = e ! i" and "0 \<notin> set e" and "length e < DIRSIZ \<Longrightarrow> n (length e) = 0"
  shows "same_name n (name_buf (take DIRSIZ e))"
proof -
  have nz: "e ! i \<noteq> 0" if "i < length e" for i using assms(2) that nth_mem by force
  let ?m = "name_buf (take DIRSIZ e)"
  have m: "?m i = (if i < length e then e ! i else 0)" if "i < DIRSIZ" for i using that by (simp add: name_buf_def)
  have eq: "n i = ?m i" if "i < DIRSIZ" "i \<le> length e" for i
    using that assms(1,3) m [OF that(1)] by (cases "i = length e") auto
  have stop: "i \<le> length e" if "\<forall>j < i. f j \<noteq> 0" "i < DIRSIZ" "length e < DIRSIZ \<Longrightarrow> f (length e) = 0" for i and f :: bytes
  proof (rule ccontr)
    assume "\<not> i \<le> length e"
    then have "length e < i" by simp
    then show False using that by auto
  qed
  have "(\<forall>j < i. n j \<noteq> 0) \<and> n i \<noteq> q i \<longleftrightarrow> (\<forall>j < i. ?m j \<noteq> 0) \<and> ?m i \<noteq> q i" if i: "i < DIRSIZ" for i q
  proof (cases "i \<le> length e")
    case True
    then have "n j = ?m j" if "j \<le> i" for j using eq [of j] that i by simp
    then show ?thesis by auto
  next
    case False
    then show ?thesis using stop [OF _ i, of n] stop [OF _ i, of ?m] assms(3) m [of "length e"] by auto
  qed
  then show ?thesis unfolding same_name_def namecmp_def strncmp_0_iff by blast
qed

lemma skipelem_None: "skipelem path name = None \<longleftrightarrow> components path = []"
proof (cases "dropWhile (\<lambda>c. c = 47) path")
  case Nil
  then show ?thesis using components_slashes [of path] by (simp add: skipelem_def del: dropWhile_eq_Nil_conv)
next
  case (Cons c r)
  then have "c \<noteq> 47" using hd_dropWhile [of "\<lambda>c. c = 47" path] by simp
  then have "components (c # r) \<noteq> []" by (simp add: components_elem)
  then show ?thesis using components_slashes [of path] unfolding Cons by (simp add: skipelem_def Let_def Cons)
qed

lemma skipelem_Some:
  assumes "skipelem path name = Some (path', name')" and "0 \<notin> set path"
  obtains e where "components path = e # components path'" and "same_name name' (name_buf (take DIRSIZ e))"
    and "path' = [] \<longleftrightarrow> components path' = []" and "0 \<notin> set path'"
proof -
  define p where "p = dropWhile (\<lambda>c. c = 47) path"
  define e where "e = takeWhile (\<lambda>c. c \<noteq> 47) p"
  have p: "p \<noteq> []" "path' = dropWhile (\<lambda>c. c = 47) (dropWhile (\<lambda>c. c \<noteq> 47) p)"
    and n: "name' = (if length e \<ge> DIRSIZ then (\<lambda>i. if i < DIRSIZ then e ! i else name i)
      else (\<lambda>i. if i < length e then e ! i else name i)(length e := 0))"
    using assms(1) by (auto simp: skipelem_def Let_def p_def e_def split: if_splits)
  then have "hd p \<noteq> 47" using hd_dropWhile [of "\<lambda>c. c = 47" path] by (simp add: p_def)
  then have "components path = e # components path'"
    using components_elem [OF p(1)] components_slashes [of path] by (simp add: p components_slashes flip: p_def e_def)
  moreover have z: "0 \<notin> set p" "0 \<notin> set e" "0 \<notin> set path'"
    using assms(2) unfolding p(2) e_def p_def by (auto dest: set_dropWhileD set_takeWhileD)
  moreover have "same_name name' (name_buf (take DIRSIZ e))"
    by (rule same_name_prefix) (use z(2) in \<open>simp_all add: n\<close>)
  moreover have "path' = [] \<longleftrightarrow> components path' = []"
  proof (cases path')
    case (Cons c r)
    then have "c \<noteq> 47" using hd_dropWhile [of "\<lambda>c. c = 47" "dropWhile (\<lambda>c. c \<noteq> 47) p"] p(2) by simp
    then show ?thesis using Cons by (simp add: components_elem)
  qed simp
  ultimately show ?thesis by (intro that [of e])
qed

section \<open>Resolution\<close>

lemma dirlookup_same:
  assumes "same_name n m"
  shows "(dirlookup dp n :: ('z kfs_scheme, (nat \<times> u32) option) prog) = dirlookup dp m"
proof -
  have "(dirlookup_loop dp n offs :: ('z kfs_scheme, (nat \<times> u32) option) prog) = dirlookup_loop dp m offs" for offs
    using assms by (induction offs) (simp_all add: same_name_def cong: if_cong)
  then show ?thesis by (simp add: dirlookup_def)
qed

text \<open>
  Going down from the directory \<open>ip\<close> along a list of names. With \<open>parent\<close> set the walk stops at the
  directory in which the last name would be looked up.
\<close>

primrec walk_names :: "bool \<Rightarrow> nat \<Rightarrow> u8 list list \<Rightarrow> ('z kfs_scheme, nat option) prog" where
  "walk_names parent ip [] = (if parent then andthen (iput ip) (return None) else return (Some ip))"
| "walk_names parent ip (e # es) =
     andthen (ilock ip)
     (bind (get_ino ip) (\<lambda>q.
      if i_type q \<noteq> T_DIR then andthen (iunlockput ip) (return None)
      else if parent \<and> es = [] then andthen (iunlock ip) (return (Some ip))
      else bind (dirlookup ip (name_buf e)) (\<lambda>r. case r of
          None \<Rightarrow> andthen (iunlockput ip) (return None)
        | Some (nxt, _) \<Rightarrow> andthen (iunlockput ip) (walk_names parent nxt es))))"

definition walk_start :: "u8 list \<Rightarrow> ('z kfs_scheme, nat) prog" where
  "walk_start path = (if path \<noteq> [] \<and> hd path = 47 then iget ROOTDEV ROOTINO
     else bind curproc (\<lambda>p. bind (get_proc p) (\<lambda>q. case p_cwd q of
       Some ip \<Rightarrow> idup ip | None \<Rightarrow> panic ''kerneltrap'')))"

abbreviation inode_of :: "('s, 'a \<times> 'b) prog \<Rightarrow> ('s, 'a) prog" where
  "inode_of f \<equiv> bind f (\<lambda>(r, _). return r)"

lemma inode_of_if: "inode_of (if c then f else g) = (if c then inode_of f else inode_of g)"
  by simp

lemma inode_of_option:
  "inode_of (case r of None \<Rightarrow> f | Some x \<Rightarrow> g x) = (case r of None \<Rightarrow> inode_of f | Some x \<Rightarrow> inode_of (g x))"
  by (cases r) simp_all

lemma inode_of_prod: "inode_of (case x of (a, b) \<Rightarrow> f a b) = (case x of (a, b) \<Rightarrow> inode_of (f a b))"
  by (cases x) simp

lemma namex_loop_walks:
  "0 \<notin> set path \<Longrightarrow> inode_of (namex_loop parent ip path name) = walk_names parent ip (map (take DIRSIZ) (components path))"
proof (induction parent ip path name rule: namex_loop.induct)
  case (1 parent ip path name)
  show ?case
  proof (cases "skipelem path name")
    case None
    then have "components path = []" by (simp add: skipelem_None)
    then show ?thesis by (simp add: namex_loop.simps None bind_assoc)
  next
    case (Some pn)
    obtain path' name' where pn: "pn = (path', name')" by (cases pn)
    obtain e where e: "components path = e # components path'" "same_name name' (name_buf (take DIRSIZ e))"
      "path' = [] \<longleftrightarrow> components path' = []" "0 \<notin> set path'"
      by (rule skipelem_Some [OF Some [unfolded pn] 1(2)])
    have "\<exists>q :: inode. \<not> i_type q \<noteq> 1" by (intro exI [of _ "undefined\<lparr>i_type := 1\<rparr>"]) simp
    then obtain q :: inode where q: "\<not> i_type q \<noteq> 1" by blast
    note IH = 1(1) [OF Some pn [symmetric] q _ e(4)]
    show ?thesis
      unfolding namex_loop.simps [of parent ip path name] Some pn
      using e(3) IH
      by (simp add: e(1) dirlookup_same [OF e(2)] bind_assoc inode_of_if inode_of_option inode_of_prod
          cong: if_cong option.case_cong)
  qed
qed

text \<open>
  C13: resolving a path (\<open>namei\<close>, and \<open>nameiparent\<close> with \<open>parent\<close> set) is looking up the components
  of the path one after the other, from the root or from the current directory. The components
  are the non-empty strings between the slashes, each cut off after 14 bytes; empty components,
  leading and trailing slashes do not count.
\<close>

theorem namex_walks:
  assumes "0 \<notin> set path"
  shows "inode_of (namex path parent name) =
    bind (walk_start path) (\<lambda>ip. walk_names parent ip (map (take DIRSIZ) (components path)))"
  unfolding namex_def walk_start_def [symmetric] by (simp add: namex_loop_walks [OF assms] bind_assoc)

theorem namex_walks_witness:
  "(inode_of (namex [47, 47, 97, 47, 98, 98, 47] False (\<lambda>_. 0)) :: (kfs, nat option) prog) =
     bind (iget ROOTDEV ROOTINO) (\<lambda>ip. walk_names False ip [[97], [98, 98]])"
  by (subst namex_walks) (simp_all add: walk_start_def components_def)

end
