(* ===== verification/Tracing.thy ===== *)
theory Tracing
  imports Syscall
begin

text \<open>
  The line that the kernel prints for a system call whose bit is set in the trace mask of the process
  (\<open>syscall\<close> in kernel/syscall.c, \<open>sys_trace\<close> in kernel/sysproc.c).
\<close>

section \<open>Printing\<close>

text \<open>
  \<open>says f s bs\<close>: in state \<open>s\<close>, on a device that is ready, \<open>f\<close> returns, has sent the characters \<open>bs\<close> and
  has changed nothing else.
\<close>

definition says :: "('z kprintf_scheme, unit) prog \<Rightarrow> 'z kprintf_scheme \<Rightarrow> u8 list \<Rightarrow> bool" where
  "says f s bs \<longleftrightarrow> (\<forall>k w. f (s\<lparr>uart_resp := replicate (length bs + k) LSR_TX_IDLE, uart_writes := w\<rparr>) =
     Ret () (s\<lparr>uart_resp := replicate k LSR_TX_IDLE, uart_writes := w @ map (Pair THR) bs\<rparr>))"

named_theorems says_intros \<open>what is printed\<close>

lemma says_andthen [says_intros]:
  assumes "says f s as" and "says g s bs"
  shows "says (andthen f g) s (as @ bs)"
  using assms by (auto simp: says_def bind_apply add.assoc)

lemma says_nothing [says_intros]: "says (return ()) s []"
  by (simp add: says_def return_apply)

lemma says_onlyif: "(c \<Longrightarrow> says f s bs) \<Longrightarrow> says (onlyif c f) s (if c then bs else [])"
  by (simp add: says_def onlyif_apply)

lemma says_get:
  "says (g (ptable s p)) s bs \<Longrightarrow> says (bind (get_proc p) g) s bs"
  "says (h (tframes s (p_trapframe (ptable s p)))) s bs \<Longrightarrow> says (bind (get_tf p) h) s bs"
  by (simp_all add: says_def bind_apply get_proc_def get_tf_def gets_apply)

lemma says_for_each: "(\<And>i. i \<in> set xs \<Longrightarrow> says (f i) s (g i)) \<Longrightarrow> says (for_each xs f) s (concat (map g xs))"
  by (induction xs) (auto intro: says_intros)

lemma says_printf:
  assumes "panicked s = 0" and "PrLock \<notin> held s"
  shows "says (printf fmt args) s (printf_text fmt args)"
  unfolding says_def
proof (intro allI)
  fix k w
  let ?r = "replicate (length (printf_text fmt args) + k) 32"
  let ?s = "s\<lparr>uart_resp := ?r, uart_writes := w\<rparr>" and ?h = "s\<lparr>uart_resp := ?r, uart_writes := w, held := insert PrLock (held s)\<rparr>"
  have e: "printf_loop fmt args ?s = Ret () (?s\<lparr>uart_resp := replicate k 32, uart_writes := uart_writes ?s @ map (Pair THR) (printf_text fmt args)\<rparr>)"
    "printf_loop fmt args ?h = Ret () (?h\<lparr>uart_resp := replicate k 32, uart_writes := uart_writes ?h @ map (Pair THR) (printf_text fmt args)\<rparr>)"
    using assms by (intro emitsD [OF emits_printf_loop]; simp)+
  then show "printf fmt args ?s = Ret () (s\<lparr>uart_resp := replicate k 32, uart_writes := w @ map (Pair THR) (printf_text fmt args)\<rparr>)"
    using assms by (cases "pr_locking s = 0") (simp_all add: printf_def prog_simps)
qed

section \<open>The traced line\<close>

definition dec :: "i32 \<Rightarrow> u8 list" where
  "dec x = rev (printint_buf x 10 True)"

fun join :: "u8 list list \<Rightarrow> u8 list" where
  "join [] = []"
| "join [x] = x"
| "join (x # xs) = x @ cstr '', '' @ join xs"

text \<open>\<open><pid>: syscall <name> (<arguments>) -> <result>\<close>, without parentheses when there is no argument.\<close>

definition trace_line :: "i32 \<Rightarrow> nat \<Rightarrow> i32 list \<Rightarrow> i32 \<Rightarrow> u8 list" where
  "trace_line pid num args r =
     dec pid @ cstr '': syscall '' @ cstr (sysCallName ! num) @ cstr '' '' @
     (if args = [] then [] else cstr ''('' @ join (map dec args) @ cstr '')'') @
     cstr '' -> '' @ dec r @ [10]"

lemma join_concat: "join xs = concat (map (\<lambda>i. (if i > 0 then cstr '', '' else []) @ xs ! i) [0..<length xs])"
proof (induction xs rule: join.induct)
  case (3 x y ys)
  then show ?case by (simp add: map_upt_Suc del: upt_Suc)
qed simp_all

lemma trace_texts:
  "printf_text (cstr ''%d: syscall %s '') [ArgInt x, ArgStr (Some name)] = dec x @ cstr '': syscall '' @ name @ cstr '' ''"
  "printf_text (cstr ''('') [] = cstr ''(''" "printf_text (cstr '')'') [] = cstr '')''" "printf_text (cstr '', '') [] = cstr '', ''"
  "printf_text (cstr '' -> %d'' @ [10]) [ArgInt x] = cstr '' -> '' @ dec x @ [10]" "printf_text pct_d [ArgInt x] = dec x"
  by (simp_all add: cstr_def arg_type_def arg_text_def dec_def)

lemma numOfArgs_le: "num < 25 \<Longrightarrow> numOfArgs ! num \<le> 3"
proof -
  assume "num < 25"
  moreover have "\<forall>n \<in> set numOfArgs. n \<le> 3" "length numOfArgs = 25" by (simp_all add: numOfArgs_def)
  ultimately show ?thesis by simp
qed

text \<open>What is printed as the arguments: the copy of a0 that was made before the call, and a1 and a2 as they are.\<close>

definition printed_args :: "nat \<Rightarrow> i32 \<Rightarrow> trapframe \<Rightarrow> i32 list" where
  "printed_args num a0 tf = take (numOfArgs ! num) [a0, ucast (tf_reg tf A1), ucast (tf_reg tf A2)]"

text \<open>
  The arguments of a call, by the prototypes of the system calls in user/user.h: as many of the
  argument registers as the prototype has parameters, as ints.
\<close>

definition user_arity :: "nat list" where
  "user_arity = [0, 0, 1, 1, 1, 3, 1, 2, 2, 1, 1, 0, 1, 1, 0, 2, 3, 3, 1, 2, 1, 1, 3, 1, 2]"

definition call_args :: "nat \<Rightarrow> trapframe \<Rightarrow> i32 list" where
  "call_args num tf = map (\<lambda>a. ucast (tf_reg tf a)) (take (user_arity ! num) [A0, A1, A2])"

lemma printed_call_args:
  assumes "num \<noteq> 17" and "tf_reg tf' A1 = tf_reg tf A1" and "tf_reg tf' A2 = tf_reg tf A2"
  shows "printed_args num (ucast (tf_reg tf A0)) tf' = call_args num tf"
proof -
  have "numOfArgs = user_arity[17 := 2]" by (simp add: numOfArgs_def user_arity_def)
  then have "numOfArgs ! num = user_arity ! num" using assms(1) by (metis nth_list_update_neq)
  then show ?thesis using assms(2,3) by (simp add: printed_args_def call_args_def flip: take_map)
qed

lemma says_trace_args:
  assumes ok: "panicked s = 0" "PrLock \<notin> held s" and "num < 25"
  shows "says (for_each [0..<numOfArgs ! num] (trace_arg p a0)) s
    (join (map dec (printed_args num a0 (tframes s (p_trapframe (ptable s p))))))"
proof -
  let ?tf = "tframes s (p_trapframe (ptable s p))"
  let ?as = "[a0, ucast (tf_reg ?tf A1), ucast (tf_reg ?tf A2)]"
  let ?g = "\<lambda>i. (if i > 0 then cstr '', '' else []) @ dec (?as ! i)"
  have "says (trace_arg p a0 i) s (?g i)" if "i < 3" for i
  proof -
    have c: "says (onlyif (i > 0) (printf (cstr '', '') [])) s (if i > 0 then cstr '', '' else [])"
      using says_printf [OF ok, of "cstr '', ''" "[]"] by (intro says_onlyif) (simp add: trace_texts)
    have d: "says (printf pct_d [ArgInt x]) s (dec x)" for x
      using says_printf [OF ok, of pct_d "[ArgInt x]"] by (simp only: trace_texts)
    have "i = 0 \<or> i = 1 \<or> i = 2" using that by auto
    then show ?thesis unfolding trace_arg_def by (intro says_andthen c says_get) (auto simp: d)
  qed
  moreover have le: "numOfArgs ! num \<le> 3" using assms(3) by (rule numOfArgs_le)
  ultimately have "says (for_each [0..<numOfArgs ! num] (trace_arg p a0)) s (concat (map ?g [0..<numOfArgs ! num]))"
    by (intro says_for_each) simp
  moreover have "join (map dec (printed_args num a0 ?tf)) = concat (map ?g [0..<numOfArgs ! num])"
    using le unfolding join_concat by (intro arg_cong [where f = concat]) (auto simp: printed_args_def)
  ultimately show ?thesis by simp
qed

lemma says_trace_print:
  assumes ok: "panicked s = 0" "PrLock \<notin> held s" and "num < 25"
  shows "says (trace_print p num a0) s (let tf = tframes s (p_trapframe (ptable s p)) in
    trace_line (p_pid (ptable s p)) num (printed_args num a0 tf) (ucast (tf_reg tf A0)))"
proof -
  let ?tf = "tframes s (p_trapframe (ptable s p))" and ?q = "ptable s p"
  have pf: "says (printf fmt args) s bs" if "printf_text fmt args = bs" for fmt args bs
    using says_printf [OF ok, of fmt args] that by simp
  have nz: "numOfArgs ! num > 0 \<longleftrightarrow> printed_args num a0 ?tf \<noteq> []" by (auto simp: printed_args_def)
  have 1: "says (printf (cstr ''%d: syscall %s '') [ArgInt (p_pid ?q), ArgStr (Some (cstr (sysCallName ! num)))]) s
    (dec (p_pid ?q) @ cstr '': syscall '' @ cstr (sysCallName ! num) @ cstr '' '')"
    by (rule pf, rule trace_texts)
  have 2: "says (onlyif (numOfArgs ! num > 0) (andthen (printf (cstr ''('') [])
      (andthen (for_each [0..<numOfArgs ! num] (trace_arg p a0)) (printf (cstr '')'') [])))) s
    (if numOfArgs ! num > 0 then cstr ''('' @ join (map dec (printed_args num a0 ?tf)) @ cstr '')'' else [])"
    by (intro says_onlyif says_andthen says_trace_args assms pf trace_texts)
  have 3: "says (bind (get_tf p) (\<lambda>tf. printf (cstr '' -> %d'' @ [10]) [ArgInt (ucast (tf_reg tf A0))])) s
    (cstr '' -> '' @ dec (ucast (tf_reg ?tf A0)) @ [10])"
    by (intro says_get(2) pf trace_texts)
  have "says (trace_print p num a0) s ((dec (p_pid ?q) @ cstr '': syscall '' @ cstr (sysCallName ! num) @ cstr '' '') @
    (if numOfArgs ! num > 0 then cstr ''('' @ join (map dec (printed_args num a0 ?tf)) @ cstr '')'' else []) @
    (cstr '' -> '' @ dec (ucast (tf_reg ?tf A0)) @ [10]))"
    unfolding trace_print_def by (rule says_get(1)) (intro says_andthen 1 2 3)
  then show ?thesis by (simp add: trace_line_def nz Let_def if_not_P split: if_splits)
qed


text \<open>Process 5, with pid 3 and the bit of fstat in its mask, calls \<open>fstat(99, 7)\<close>; 99 is no descriptor.\<close>

definition trace_demo :: kfile where
  "trace_demo = file_demo\<lparr>ptable := (\<lambda>_. blank_proc\<lparr>p_pid := 3, p_mask := 256\<rparr>),
     tframes := (\<lambda>a. (tframes file_demo a)\<lparr>tf_reg := (\<lambda>_. 0)(A7 := 8, A0 := 99, A1 := 7)\<rparr>)\<rparr>"

lemma trace_demo_simps:
  "cpu_proc trace_demo = Some 5" "held trace_demo = {}" "panicked trace_demo = 0" "uart_resp trace_demo = replicate 400 32"
  "uart_writes trace_demo = []" "p_pid (ptable trace_demo 5) = 3" "p_mask (ptable trace_demo 5) = 256"
  "tf_reg (tframes trace_demo a) A7 = 8" "tf_reg (tframes trace_demo a) A0 = 99" "tf_reg (tframes trace_demo a) A1 = 7"
  by (simp_all add: trace_demo_def blank_proc_def file_demo_def kfs.extend_def klog.extend_def log_demo_def bio_demo_def
      kdisk.extend_def kbio.extend_def kcons.extend_def cons_demo_def kprintf.extend_def kuart.extend_def uart_demo_def
      kpipe.extend_def pipe_demo_def kslk.extend_def lock_demo_def kproc.extend_def idle_kernel_def)

lemma trace_demo_fstat: "the (syscalls ! 8) trace_demo = Ret (-1) trace_demo"
  by (simp add: syscalls_def sys_fstat_def argfd_def argint_def argraw_def curproc_Some get_tf_def prog_simps trace_demo_simps)


end
