(* ===== verification/Assembly.thy ===== *)
theory Assembly
  imports Proc
begin

text \<open>
  The assembly files kernel/entry.S, kernel/swtch.S, kernel/trampoline.S and kernel/kernelvec.S, and
  kernel/start.c, on the registers of one hart. Each assembly routine is the list of its
  instructions; \<open>exec_code\<close> executes them in order, the last one being the jump that leaves the routine.
  Loads and stores use the address translation in force: none in machine mode or while \<open>satp\<close> is 0,
  otherwise the field \<open>mmu\<close>, the translation that the hardware does with the page table in \<open>satp\<close>
  (none of these routines changes a page table). A control and status register holds the value
  written last; \<open>sstatus\<close> is the same register as \<open>mstatus\<close>, and of \<open>sip\<close> only bit 1 can be written.

  The save areas in memory are described by lists of registers and offsets, and the lemmas about
  saving and restoring are proved once for such a list, in the locale \<open>save_area\<close>. They show that the
  record \<open>trapframe\<close> of Proc.thy, which the models of trap handling read and write, is what
  \<open>uservec\<close> leaves in memory and what \<open>userret\<close> loads.
\<close>

section \<open>The machine\<close>

datatype csr = MHARTID | MSTATUS | MEPC | SEPC | SATP | MEDELEG | MIDELEG | SIE | MIE | SIP
  | PMPADDR0 | PMPCFG0 | MSCRATCH | SSCRATCH | MTVEC

datatype privilege = Machine | Supervisor | User

record mach =
  regs :: "reg \<Rightarrow> u64"
  csrs :: "csr \<Rightarrow> u64"
  ram :: mem
  mpc :: u64
  priv :: privilege
  mmu :: "u64 \<Rightarrow> u64 \<Rightarrow> u64"

datatype instr =
    SD reg nat reg
  | LD reg nat reg
  | CSRR reg csr
  | CSRW csr reg
  | CSRRW reg csr reg
  | LI reg u64
  | ADDI reg reg u64
  | ADD reg reg reg
  | MUL reg reg reg
  | SFENCE_VMA
  | JR reg
  | SRET
  | MRET

definition translate :: "mach \<Rightarrow> u64 \<Rightarrow> u64" where
  "translate s va = (if priv s = Machine \<or> csrs s SATP = 0 then va else mmu s (csrs s SATP) va)"

definition set_reg :: "reg \<Rightarrow> u64 \<Rightarrow> mach \<Rightarrow> mach" where
  "set_reg r v s = s\<lparr>regs := (regs s)(r := v)\<rparr>"

definition set_csr :: "csr \<Rightarrow> u64 \<Rightarrow> mach \<Rightarrow> mach" where
  "set_csr c v s =
     s\<lparr>csrs := (csrs s)(c := if c = SIP then csrs s SIP AND NOT 2 OR v AND 2 else v)\<rparr>"

text \<open>
  \<open>sret\<close> and \<open>mret\<close> return to the mode in \<open>SPP\<close> (bit 8) and \<open>MPP\<close> (bits 11 and 12), restore the
  interrupt-enable bit from its saved copy, set the copy and leave the least privileged mode behind.
\<close>

definition sret :: "mach \<Rightarrow> mach" where
  "sret s = (let x = csrs s MSTATUS in
     s\<lparr>csrs := (csrs s)(MSTATUS :=
         ((if bit x 5 then set_bit 1 x else unset_bit 1 x) OR push_bit 5 1) AND NOT (push_bit 8 1)),
       mpc := csrs s SEPC, priv := (if bit x 8 then Supervisor else User)\<rparr>)"

definition mret :: "mach \<Rightarrow> mach" where
  "mret s = (let x = csrs s MSTATUS in
     s\<lparr>csrs := (csrs s)(MSTATUS :=
         ((if bit x 7 then set_bit 3 x else unset_bit 3 x) OR push_bit 7 1) AND NOT (push_bit 11 3)),
       mpc := csrs s MEPC,
       priv := (if bit x 12 then Machine else if bit x 11 then Supervisor else User)\<rparr>)"

primrec exec_instr :: "instr \<Rightarrow> mach \<Rightarrow> mach" where
  "exec_instr (SD r off b) s = s\<lparr>ram := store64 (ram s) (translate s (regs s b + of_nat off)) (regs s r)\<rparr>"
| "exec_instr (LD r off b) s = set_reg r (load64 (ram s) (translate s (regs s b + of_nat off))) s"
| "exec_instr (CSRR r c) s = set_reg r (csrs s c) s"
| "exec_instr (CSRW c r) s = set_csr c (regs s r) s"
| "exec_instr (CSRRW r c r') s = set_reg r (csrs s c) (set_csr c (regs s r') s)"
| "exec_instr (LI r v) s = set_reg r v s"
| "exec_instr (ADDI r r' v) s = set_reg r (regs s r' + v) s"
| "exec_instr (ADD r r1 r2) s = set_reg r (regs s r1 + regs s r2) s"
| "exec_instr (MUL r r1 r2) s = set_reg r (regs s r1 * regs s r2) s"
| "exec_instr SFENCE_VMA s = s"
| "exec_instr (JR r) s = s\<lparr>mpc := regs s r\<rparr>"
| "exec_instr SRET s = sret s"
| "exec_instr MRET s = mret s"

primrec exec_code :: "instr list \<Rightarrow> mach \<Rightarrow> mach" where
  "exec_code [] s = s"
| "exec_code (i # is) s = exec_code is (exec_instr i s)"

section \<open>The routines\<close>

text \<open>
  \<open>_entry\<close> calls \<open>start\<close>, given by its effect; the loop behind the call is reached only if it returns.
\<close>

definition entry_code :: "u64 \<Rightarrow> (mach \<Rightarrow> mach) \<Rightarrow> mach \<Rightarrow> mach" where
  "entry_code stack0 start_c s = start_c (exec_code
    [LI SP stack0, LI A0 (1024*4), CSRR A1 MHARTID, ADDI A1 A1 1, MUL A0 A0 A1, ADD SP SP A0] s)"

definition swtch :: "instr list" where
  "swtch =
    [SD RA 0 A0, SD SP 8 A0, SD S0 16 A0, SD S1 24 A0, SD S2 32 A0, SD S3 40 A0, SD S4 48 A0,
     SD S5 56 A0, SD S6 64 A0, SD S7 72 A0, SD S8 80 A0, SD S9 88 A0, SD S10 96 A0, SD S11 104 A0,
     LD RA 0 A1, LD SP 8 A1, LD S0 16 A1, LD S1 24 A1, LD S2 32 A1, LD S3 40 A1, LD S4 48 A1,
     LD S5 56 A1, LD S6 64 A1, LD S7 72 A1, LD S8 80 A1, LD S9 88 A1, LD S10 96 A1, LD S11 104 A1,
     JR RA]"

definition uservec :: "instr list" where
  "uservec =
    [CSRRW A0 SSCRATCH A0,
     SD RA 40 A0, SD SP 48 A0, SD GP 56 A0, SD TP 64 A0, SD T0 72 A0, SD T1 80 A0, SD T2 88 A0,
     SD S0 96 A0, SD S1 104 A0, SD A1 120 A0, SD A2 128 A0, SD A3 136 A0, SD A4 144 A0,
     SD A5 152 A0, SD A6 160 A0, SD A7 168 A0, SD S2 176 A0, SD S3 184 A0, SD S4 192 A0,
     SD S5 200 A0, SD S6 208 A0, SD S7 216 A0, SD S8 224 A0, SD S9 232 A0, SD S10 240 A0,
     SD S11 248 A0, SD T3 256 A0, SD T4 264 A0, SD T5 272 A0, SD T6 280 A0,
     CSRR T0 SSCRATCH, SD T0 112 A0, LD SP 8 A0, LD TP 32 A0, LD T0 16 A0, LD T1 0 A0,
     CSRW SATP T1, SFENCE_VMA, JR T0]"

definition userret :: "instr list" where
  "userret =
    [CSRW SATP A1, SFENCE_VMA, LD T0 112 A0, CSRW SSCRATCH T0,
     LD RA 40 A0, LD SP 48 A0, LD GP 56 A0, LD TP 64 A0, LD T0 72 A0, LD T1 80 A0, LD T2 88 A0,
     LD S0 96 A0, LD S1 104 A0, LD A1 120 A0, LD A2 128 A0, LD A3 136 A0, LD A4 144 A0,
     LD A5 152 A0, LD A6 160 A0, LD A7 168 A0, LD S2 176 A0, LD S3 184 A0, LD S4 192 A0,
     LD S5 200 A0, LD S6 208 A0, LD S7 216 A0, LD S8 224 A0, LD S9 232 A0, LD S10 240 A0,
     LD S11 248 A0, LD T3 256 A0, LD T4 264 A0, LD T5 272 A0, LD T6 280 A0,
     CSRRW A0 SSCRATCH A0, SRET]"

text \<open>
  \<open>kernelvec\<close> in two halves around the call of \<open>kerneltrap\<close>, whose effect on the machine, the link
  register included, is an argument.
\<close>

definition kernelvec_save :: "instr list" where
  "kernelvec_save =
    [ADDI SP SP (-256),
     SD RA 0 SP, SD SP 8 SP, SD GP 16 SP, SD TP 24 SP, SD T0 32 SP, SD T1 40 SP, SD T2 48 SP,
     SD S0 56 SP, SD S1 64 SP, SD A0 72 SP, SD A1 80 SP, SD A2 88 SP, SD A3 96 SP, SD A4 104 SP,
     SD A5 112 SP, SD A6 120 SP, SD A7 128 SP, SD S2 136 SP, SD S3 144 SP, SD S4 152 SP,
     SD S5 160 SP, SD S6 168 SP, SD S7 176 SP, SD S8 184 SP, SD S9 192 SP, SD S10 200 SP,
     SD S11 208 SP, SD T3 216 SP, SD T4 224 SP, SD T5 232 SP, SD T6 240 SP]"

definition kernelvec_restore :: "instr list" where
  "kernelvec_restore =
    [LD RA 0 SP, LD SP 8 SP, LD GP 16 SP, LD T0 32 SP, LD T1 40 SP, LD T2 48 SP, LD S0 56 SP,
     LD S1 64 SP, LD A0 72 SP, LD A1 80 SP, LD A2 88 SP, LD A3 96 SP, LD A4 104 SP, LD A5 112 SP,
     LD A6 120 SP, LD A7 128 SP, LD S2 136 SP, LD S3 144 SP, LD S4 152 SP, LD S5 160 SP,
     LD S6 168 SP, LD S7 176 SP, LD S8 184 SP, LD S9 192 SP, LD S10 200 SP, LD S11 208 SP,
     LD T3 216 SP, LD T4 224 SP, LD T5 232 SP, LD T6 240 SP,
     ADDI SP SP 256, SRET]"

definition kernelvec_code :: "(mach \<Rightarrow> mach) \<Rightarrow> mach \<Rightarrow> mach" where
  "kernelvec_code kerneltrap_c s = exec_code kernelvec_restore (kerneltrap_c (exec_code kernelvec_save s))"

definition timervec :: "instr list" where
  "timervec =
    [CSRRW A0 MSCRATCH A0, SD A1 0 A0, SD A2 8 A0, SD A3 16 A0,
     LD A1 24 A0, LD A2 32 A0, LD A3 0 A1, ADD A3 A3 A2, SD A3 0 A1,
     LI A1 2, CSRW SIP A1,
     LD A3 16 A0, LD A2 8 A0, LD A1 0 A0, CSRRW A0 MSCRATCH A0, MRET]"

section \<open>start.c\<close>

text \<open>
  The machine-mode code of start.c, with the accessors of riscv.h it uses. The clock of the CLINT and
  its compare registers are memory-mapped; the value at \<open>CLINT_MTIME\<close> is the time at which
  \<open>timerinit\<close> reads it. The addresses of \<open>timer_scratch\<close>, \<open>timervec\<close> and \<open>main\<close> are arguments.
\<close>

abbreviation (input) CLINT :: u64 where "CLINT \<equiv> 0x2000000"
abbreviation (input) CLINT_MTIME :: u64 where "CLINT_MTIME \<equiv> CLINT + 0xBFF8"

definition CLINT_MTIMECMP :: "i32 \<Rightarrow> u64" where
  "CLINT_MTIMECMP hartid = CLINT + 0x4000 + scast (8 * hartid)"

abbreviation (input) MSTATUS_MPP_MASK :: u64 where "MSTATUS_MPP_MASK \<equiv> push_bit 11 3"
abbreviation (input) MSTATUS_MPP_S :: u64 where "MSTATUS_MPP_S \<equiv> push_bit 11 1"
abbreviation (input) MSTATUS_MIE :: u64 where "MSTATUS_MIE \<equiv> push_bit 3 1"
abbreviation (input) SIE_SEIE :: u64 where "SIE_SEIE \<equiv> push_bit 9 1"
abbreviation (input) SIE_STIE :: u64 where "SIE_STIE \<equiv> push_bit 5 1"
abbreviation (input) SIE_SSIE :: u64 where "SIE_SSIE \<equiv> push_bit 1 1"
abbreviation (input) MIE_MTIE :: u64 where "MIE_MTIE \<equiv> push_bit 7 1"

definition r_mhartid :: "mach \<Rightarrow> u64" where "r_mhartid s = csrs s MHARTID"
definition r_mstatus :: "mach \<Rightarrow> u64" where "r_mstatus s = csrs s MSTATUS"
definition w_mstatus :: "u64 \<Rightarrow> mach \<Rightarrow> mach" where "w_mstatus = set_csr MSTATUS"
definition w_mepc :: "u64 \<Rightarrow> mach \<Rightarrow> mach" where "w_mepc = set_csr MEPC"
definition w_satp :: "u64 \<Rightarrow> mach \<Rightarrow> mach" where "w_satp = set_csr SATP"
definition w_medeleg :: "u64 \<Rightarrow> mach \<Rightarrow> mach" where "w_medeleg = set_csr MEDELEG"
definition w_mideleg :: "u64 \<Rightarrow> mach \<Rightarrow> mach" where "w_mideleg = set_csr MIDELEG"
definition r_sie :: "mach \<Rightarrow> u64" where "r_sie s = csrs s SIE"
definition w_sie :: "u64 \<Rightarrow> mach \<Rightarrow> mach" where "w_sie = set_csr SIE"
definition r_mie :: "mach \<Rightarrow> u64" where "r_mie s = csrs s MIE"
definition w_mie :: "u64 \<Rightarrow> mach \<Rightarrow> mach" where "w_mie = set_csr MIE"
definition w_pmpaddr0 :: "u64 \<Rightarrow> mach \<Rightarrow> mach" where "w_pmpaddr0 = set_csr PMPADDR0"
definition w_pmpcfg0 :: "u64 \<Rightarrow> mach \<Rightarrow> mach" where "w_pmpcfg0 = set_csr PMPCFG0"
definition w_mscratch :: "u64 \<Rightarrow> mach \<Rightarrow> mach" where "w_mscratch = set_csr MSCRATCH"
definition w_mtvec :: "u64 \<Rightarrow> mach \<Rightarrow> mach" where "w_mtvec = set_csr MTVEC"
definition w_tp :: "u64 \<Rightarrow> mach \<Rightarrow> mach" where "w_tp = set_reg TP"

definition timerinit :: "u64 \<Rightarrow> u64 \<Rightarrow> mach \<Rightarrow> mach" where
  "timerinit timer_scratch timervec_addr s0 =
     (let hid = ucast (r_mhartid s0) :: i32;
          interval = 1000000 :: i32;
          s1 = s0\<lparr>ram := store64 (ram s0) (CLINT_MTIMECMP hid) (load64 (ram s0) CLINT_MTIME + scast interval)\<rparr>;
          scratch = timer_scratch + 40 * scast hid;
          s2 = s1\<lparr>ram := store64 (ram s1) (scratch + 24) (CLINT_MTIMECMP hid)\<rparr>;
          s3 = s2\<lparr>ram := store64 (ram s2) (scratch + 32) (scast interval)\<rparr>;
          s4 = w_mscratch scratch s3;
          s5 = w_mtvec timervec_addr s4;
          s6 = w_mstatus (r_mstatus s5 OR MSTATUS_MIE) s5
      in w_mie (r_mie s6 OR MIE_MTIE) s6)"

definition start :: "u64 \<Rightarrow> u64 \<Rightarrow> u64 \<Rightarrow> mach \<Rightarrow> mach" where
  "start main_addr timer_scratch timervec_addr s0 =
     (let x = r_mstatus s0;
          x = x AND NOT MSTATUS_MPP_MASK;
          x = x OR MSTATUS_MPP_S;
          s1 = w_mstatus x s0;
          s2 = w_mepc main_addr s1;
          s3 = w_satp 0 s2;
          s4 = w_medeleg 0xffff s3;
          s5 = w_mideleg 0xffff s4;
          s6 = w_sie (r_sie s5 OR SIE_SEIE OR SIE_STIE OR SIE_SSIE) s5;
          s7 = w_pmpaddr0 0x3fffffffffffff s6;
          s8 = w_pmpcfg0 0xf s7;
          s9 = timerinit timer_scratch timervec_addr s8;
          hid = ucast (r_mhartid s9) :: i32
      in mret (w_tp (scast hid) s9))"

lemmas csr_access_defs = r_mhartid_def r_mstatus_def w_mstatus_def w_mepc_def w_satp_def w_medeleg_def
  w_mideleg_def r_sie_def w_sie_def r_mie_def w_mie_def w_pmpaddr0_def w_pmpcfg0_def w_mscratch_def
  w_mtvec_def w_tp_def set_csr_def set_reg_def

section \<open>Save areas\<close>

text \<open>The registers of a trap frame with their offsets, as \<open>struct trapframe\<close> declares them.\<close>

definition tf_layout :: "(reg \<times> nat) list" where
  "tf_layout =
    [(RA, 40), (SP, 48), (GP, 56), (TP, 64), (T0, 72), (T1, 80), (T2, 88), (S0, 96), (S1, 104),
     (A0, 112), (A1, 120), (A2, 128), (A3, 136), (A4, 144), (A5, 152), (A6, 160), (A7, 168),
     (S2, 176), (S3, 184), (S4, 192), (S5, 200), (S6, 208), (S7, 216), (S8, 224), (S9, 232),
     (S10, 240), (S11, 248), (T3, 256), (T4, 264), (T5, 272), (T6, 280)]"

text \<open>The registers of \<open>struct context\<close>.\<close>

definition ctx_layout :: "(reg \<times> nat) list" where
  "ctx_layout =
    [(RA, 0), (SP, 8), (S0, 16), (S1, 24), (S2, 32), (S3, 40), (S4, 48), (S5, 56), (S6, 64),
     (S7, 72), (S8, 80), (S9, 88), (S10, 96), (S11, 104)]"

text \<open>The frame that \<open>kernelvec\<close> builds on the kernel stack.\<close>

definition kv_layout :: "(reg \<times> nat) list" where
  "kv_layout =
    [(RA, 0), (SP, 8), (GP, 16), (TP, 24), (T0, 32), (T1, 40), (T2, 48), (S0, 56), (S1, 64),
     (A0, 72), (A1, 80), (A2, 88), (A3, 96), (A4, 104), (A5, 112), (A6, 120), (A7, 128), (S2, 136),
     (S3, 144), (S4, 152), (S5, 160), (S6, 168), (S7, 176), (S8, 184), (S9, 192), (S10, 200),
     (S11, 208), (T3, 216), (T4, 224), (T5, 232), (T6, 240)]"

text \<open>\<open>maps s va pa n\<close>: the \<open>n\<close> bytes from \<open>va\<close> on are those from the aligned address \<open>pa\<close> on.\<close>

definition maps :: "mach \<Rightarrow> u64 \<Rightarrow> u64 \<Rightarrow> nat \<Rightarrow> bool" where
  "maps s va pa n \<longleftrightarrow> unat pa mod 8 = 0 \<and> n \<le> 4096 \<and>
     (\<forall>i<n. translate s (va + of_nat i) = pa + of_nat i)"

text \<open>
  \<open>slot m pa i\<close> is the 64-bit word at offset \<open>i\<close> of the area at \<open>pa\<close>, and \<open>holds_regs xs m pa f\<close>: says
  that the area of layout \<open>xs\<close> at \<open>pa\<close> holds the register values \<open>f\<close>.
\<close>

definition slot :: "mem \<Rightarrow> u64 \<Rightarrow> nat \<Rightarrow> u64" where
  "slot m pa i = load64 m (pa + of_nat i)"

definition holds_regs :: "(reg \<times> nat) list \<Rightarrow> mem \<Rightarrow> u64 \<Rightarrow> (reg \<Rightarrow> u64) \<Rightarrow> bool" where
  "holds_regs xs m pa f \<longleftrightarrow> (\<forall>(r, i) \<in> set xs. slot m pa i = f r)"

definition saves :: "reg \<Rightarrow> (reg \<times> nat) list \<Rightarrow> instr list" where
  "saves b xs = map (\<lambda>(r, i). SD r i b) xs"

definition loads :: "reg \<Rightarrow> (reg \<times> nat) list \<Rightarrow> instr list" where
  "loads b xs = map (\<lambda>(r, i). LD r i b) xs"

primrec store_all :: "(reg \<times> nat) list \<Rightarrow> u64 \<Rightarrow> (reg \<Rightarrow> u64) \<Rightarrow> mem \<Rightarrow> mem" where
  "store_all [] pa f m = m"
| "store_all (x # xs) pa f m = store_all xs pa f (store64 m (pa + of_nat (snd x)) (f (fst x)))"

lemma exec_code_append: "exec_code (xs @ ys) s = exec_code ys (exec_code xs s)"
  by (induction xs arbitrary: s) simp_all

lemma translate_upd [simp]:
  "translate (s\<lparr>ram := m\<rparr>) = translate s" "translate (s\<lparr>regs := f\<rparr>) = translate s"
  "translate (s\<lparr>mpc := a\<rparr>) = translate s"
  by (simp_all add: translate_def fun_eq_iff)

lemma translate_csr: "c \<noteq> SATP \<Longrightarrow> translate (s\<lparr>csrs := (csrs s)(c := v)\<rparr>) = translate s"
  by (simp add: translate_def fun_eq_iff)

lemma maps_upd [simp]:
  "maps (s\<lparr>ram := m\<rparr>) = maps s" "maps (s\<lparr>regs := f\<rparr>) = maps s"
  by (simp_all add: maps_def fun_eq_iff)

lemma mapsD: "maps s va pa n \<Longrightarrow> i < n \<Longrightarrow> translate s (va + of_nat i) = pa + of_nat i"
  by (simp add: maps_def)

lemma exec_saves:
  assumes "maps s (regs s b) pa n" and "\<And>r i. (r, i) \<in> set xs \<Longrightarrow> i < n"
  shows "exec_code (saves b xs) s = s\<lparr>ram := store_all xs pa (regs s) (ram s)\<rparr>"
  using assms
proof (induction xs arbitrary: s)
  case Nil
  then show ?case by (simp add: saves_def)
next
  case (Cons x xs)
  obtain r i where x: "x = (r, i)" by (cases x)
  have "i < n" using Cons.prems(2) [of r i] by (simp add: x)
  let ?s = "s\<lparr>ram := store64 (ram s) (pa + of_nat i) (regs s r)\<rparr>"
  have "exec_code (saves b xs) ?s = ?s\<lparr>ram := store_all xs pa (regs ?s) (ram ?s)\<rparr>"
    using Cons.prems by (intro Cons.IH) (auto simp: x)
  then show ?case
    using mapsD [OF Cons.prems(1) \<open>i < n\<close>] by (simp add: saves_def x)
qed

lemma exec_loads:
  assumes "maps s (regs s b) pa n" and "\<And>r i. (r, i) \<in> set xs \<Longrightarrow> i < n"
    and "\<And>i. (b, i) \<in> set xs \<Longrightarrow> slot (ram s) pa i = regs s b"
    and "distinct (map fst xs)"
  shows "exec_code (loads b xs) s = s\<lparr>regs := \<lambda>r. case map_of xs r of None \<Rightarrow> regs s r
           | Some i \<Rightarrow> slot (ram s) pa i\<rparr>"
  using assms
proof (induction xs arbitrary: s)
  case Nil
  then show ?case by (simp add: loads_def)
next
  case (Cons x xs)
  obtain r i where x: "x = (r, i)" by (cases x)
  have "i < n" using Cons.prems(2) [of r i] by (simp add: x)
  let ?v = "slot (ram s) pa i"
  let ?s = "s\<lparr>regs := (regs s)(r := ?v)\<rparr>"
  have b: "regs ?s b = regs s b" using Cons.prems(3) [of i] by (auto simp: x)
  have "exec_code (loads b xs) ?s = ?s\<lparr>regs := \<lambda>r. case map_of xs r of None \<Rightarrow> regs ?s r
           | Some i \<Rightarrow> slot (ram ?s) pa i\<rparr>"
    using Cons.prems b by (intro Cons.IH) (auto simp: x)
  moreover have "map_of xs r = None" using Cons.prems(4) by (simp add: x map_of_eq_None_iff)
  ultimately show ?case
    using mapsD [OF Cons.prems(1) \<open>i < n\<close>]
    by (simp add: loads_def x set_reg_def slot_def [symmetric] fun_eq_iff cong: if_cong option.case_cong)
qed

lemma unat_offset_mod8:
  assumes "unat pa mod 8 = 0" and "i mod 8 = 0"
  shows "unat ((pa :: u64) + of_nat i) mod 8 = 0"
proof -
  have "unat (pa + of_nat i) = (unat pa + i mod 2 ^ 64) mod 2 ^ 64"
    by (simp only: unat_word_ariths unsigned_of_nat take_bit_eq_mod) simp
  also have "\<dots> = (unat pa + i) mod 2 ^ 64"
    by (rule mod_add_right_eq)
  finally have "unat (pa + of_nat i) mod 8 = (unat pa + i) mod 2 ^ 64 mod 8" by (rule arg_cong)
  also have "\<dots> = (unat pa + i) mod 8"
    by (rule mod_mod_cancel) simp
  also have "\<dots> = 0"
    using assms mod_add_eq [of "unat pa" 8 i] by simp
  finally show ?thesis .
qed

lemma slot_store:
  assumes "unat pa mod 8 = 0" and "i mod 8 = 0" and "j mod 8 = 0" and "i < 4096" and "j < 4096"
  shows "slot (store64 m (pa + of_nat i) v) pa j = (if i = j then v else slot m pa j)"
proof (cases "i = j")
  case False
  have "pa + of_nat i \<noteq> pa + of_nat j"
  proof
    assume "pa + of_nat i = pa + of_nat j"
    then have "unat (of_nat i :: u64) = unat (of_nat j :: u64)" by simp
    then have "i mod 2 ^ 64 = j mod 2 ^ 64" by (simp only: unsigned_of_nat take_bit_eq_mod) simp
    with False assms(4,5) show False by simp
  qed
  with False show ?thesis
    unfolding slot_def
    by (simp add: load64_store64_other aligned8_disjoint [OF unat_offset_mod8 unat_offset_mod8] assms)
qed (simp add: slot_def)

lemma slot_store_all:
  assumes "unat pa mod 8 = 0" and "\<And>r i. (r, i) \<in> set xs \<Longrightarrow> i mod 8 = 0 \<and> i < 4096"
    and "j mod 8 = 0" and "j < 4096" and "distinct (map snd xs)"
  shows "slot (store_all xs pa f m) pa j =
    (case map_of (map prod.swap xs) j of None \<Rightarrow> slot m pa j | Some r \<Rightarrow> f r)"
  using assms
proof (induction xs arbitrary: m)
  case (Cons x xs)
  obtain r i where x: "x = (r, i)" by (cases x)
  have i: "i mod 8 = 0" "i < 4096" using Cons.prems(2) [of r i] by (simp_all add: x)
  have "slot (store_all xs pa f (store64 m (pa + of_nat i) (f r))) pa j =
    (case map_of (map prod.swap xs) j of None \<Rightarrow> slot (store64 m (pa + of_nat i) (f r)) pa j | Some r \<Rightarrow> f r)"
    using Cons.prems by (intro Cons.IH) (auto simp: x)
  moreover have "i = j \<Longrightarrow> map_of (map prod.swap xs) j = None"
    using Cons.prems(5) by (auto simp: x map_of_eq_None_iff image_image)
  ultimately show ?case
    using Cons.prems i by (auto simp: x slot_store split: option.splits)
qed simp

lemma store_all_frame:
  assumes "\<And>r i. (r, i) \<in> set xs \<Longrightarrow> i + 8 \<le> n" and "n \<le> 4096" and "\<not> in_region a pa n"
  shows "store_all xs pa f m a = m a"
  using assms
proof (induction xs arbitrary: m)
  case (Cons x xs)
  obtain r i where x: "x = (r, i)" by (cases x)
  have i: "i + 8 \<le> n" using Cons.prems(1) [of r i] by (simp add: x)
  have "\<not> in_region a (pa + of_nat i) 8"
  proof
    assume "in_region a (pa + of_nat i) 8"
    then have lt: "unat (a - pa - of_nat i) < 8" by (simp add: in_region_def diff_diff_eq)
    have u: "unat (of_nat i :: u64) = i"
      using i Cons.prems(2) by (simp add: unsigned_of_nat take_bit_eq_mod)
    have "a - pa = (a - pa - of_nat i) + of_nat i" by simp
    then have "unat (a - pa) = unat ((a - pa - of_nat i) + of_nat i)" by simp
    also have "\<dots> = unat (a - pa - of_nat i) + i"
      using lt i Cons.prems(2) u by (subst unat_add_lem [THEN iffD1]) simp_all
    finally show False using lt i Cons.prems(3) by (simp add: in_region_def)
  qed
  then have "store64 m (pa + of_nat i) (f r) a = m a" by (simp add: store64_def)
  moreover have "store_all xs pa f m' a = m' a" for m'
    using Cons.prems by (intro Cons.IH) (auto simp: x)
  ultimately show ?case by (simp add: x)
qed simp

locale save_area =
  fixes layout :: "(reg \<times> nat) list" and n :: nat
  assumes regs_distinct: "distinct (map fst layout)"
    and offsets_distinct: "distinct (map snd layout)"
    and offsets: "(r, i) \<in> set layout \<Longrightarrow> i mod 8 = 0 \<and> i + 8 \<le> n"
    and area_bound: "n \<le> 4096"
begin

text \<open>Saving the registers of the layout, in whatever order, fills the area and changes no other byte.\<close>

lemma saved_holds:
  assumes "unat pa mod 8 = 0" and "set xs = set layout" and "distinct (map snd xs)"
  shows "holds_regs layout (store_all xs pa f m) pa f"
  unfolding holds_regs_def
proof clarify
  fix r i
  assume "(r, i) \<in> set layout"
  then have i: "i mod 8 = 0" "i < 4096" and "(i, r) \<in> set (map prod.swap xs)"
    using offsets [of r i] area_bound assms(2) by force+
  moreover have "map fst (map prod.swap xs) = map snd xs" by simp
  ultimately have "map_of (map prod.swap xs) i = Some r"
    using assms(3) by (metis map_of_is_SomeI)
  moreover have "(r', j) \<in> set xs \<Longrightarrow> j mod 8 = 0 \<and> j < 4096" for r' j
    using offsets [of r' j] area_bound assms(2) by auto
  ultimately show "slot (store_all xs pa f m) pa i = f r"
    using slot_store_all [OF assms(1) _ i assms(3), of f m] by simp
qed

lemma saved_other:
  assumes "unat pa mod 8 = 0" and "set xs \<subseteq> set layout" and "distinct (map snd xs)"
    and "j mod 8 = 0" and "j < 4096" and "j \<notin> snd ` set xs"
  shows "slot (store_all xs pa f m) pa j = slot m pa j"
proof -
  have "(r', k) \<in> set xs \<Longrightarrow> k mod 8 = 0 \<and> k < 4096" for r' k
    using offsets [of r' k] area_bound assms(2) by auto
  moreover have "map_of (map prod.swap xs) j = None"
    using assms(6) by (simp add: map_of_eq_None_iff image_image)
  ultimately show ?thesis
    using slot_store_all [OF assms(1) _ assms(4,5,3), of f m] by simp
qed

lemma saved_frame:
  "set xs \<subseteq> set layout \<Longrightarrow> \<not> in_region a pa n \<Longrightarrow> store_all xs pa f m a = m a"
  using offsets area_bound by (intro store_all_frame [where n = n]) auto

lemma save_run:
  assumes "maps s (regs s b) pa n" and "set xs \<subseteq> set layout"
  shows "exec_code (saves b xs) s = s\<lparr>ram := store_all xs pa (regs s) (ram s)\<rparr>"
proof (rule exec_saves [OF assms(1)])
  show "i < n" if "(r, i) \<in> set xs" for r i
    using offsets [of r i] assms(2) that by auto
qed

text \<open>Loading registers of the layout from an area gives them the values it holds.\<close>

lemma load_run:
  assumes "maps s (regs s b) pa n" and "set xs \<subseteq> set layout" and "distinct (map fst xs)"
    and "holds_regs layout (ram s) pa f" and "b \<in> fst ` set xs \<Longrightarrow> f b = regs s b"
  shows "exec_code (loads b xs) s = s\<lparr>regs := \<lambda>r. if r \<in> fst ` set xs then f r else regs s r\<rparr>"
proof -
  have h: "slot (ram s) pa i = f r" if "(r, i) \<in> set xs" for r i
    using assms(2,4) that by (auto simp: holds_regs_def)
  have "exec_code (loads b xs) s = s\<lparr>regs := \<lambda>r. case map_of xs r of None \<Rightarrow> regs s r
           | Some i \<Rightarrow> slot (ram s) pa i\<rparr>"
  proof (rule exec_loads [OF assms(1) _ _ assms(3)])
    show "i < n" if "(r, i) \<in> set xs" for r i
      using offsets [of r i] assms(2) that by auto
    show "slot (ram s) pa i = regs s b" if "(b, i) \<in> set xs" for i
      using h [OF that] assms(5) that by (metis fst_conv imageI)
  qed
  moreover have "(case map_of xs r of None \<Rightarrow> regs s r | Some i \<Rightarrow> slot (ram s) pa i) =
      (if r \<in> fst ` set xs then f r else regs s r)" for r
  proof (cases "map_of xs r")
    case (Some i)
    then have "(r, i) \<in> set xs" by (rule map_of_SomeD)
    with Some show ?thesis using h [of r i] by (auto simp: image_iff)
  next
    case None
    then have "r \<notin> fst ` set xs" by (simp add: map_of_eq_None_iff)
    with None show ?thesis by simp
  qed
  ultimately show ?thesis by simp
qed

end

interpretation tf_area: save_area tf_layout 288
  by unfold_locales (auto simp: tf_layout_def)

interpretation ctx_area: save_area ctx_layout 112
  by unfold_locales (auto simp: ctx_layout_def)

interpretation kv_area: save_area kv_layout 248
  by unfold_locales (auto simp: kv_layout_def)

section \<open>Traps from user space\<close>

text \<open>The trap frame \<open>tf\<close> as it lies in memory.\<close>

definition tf_at :: "mem \<Rightarrow> u64 \<Rightarrow> trapframe \<Rightarrow> bool" where
  "tf_at m pa tf \<longleftrightarrow> slot m pa 0 = kernel_satp tf \<and> slot m pa 8 = kernel_sp tf \<and>
     slot m pa 16 = kernel_trap tf \<and> slot m pa 24 = epc tf \<and> slot m pa 32 = kernel_hartid tf \<and>
     holds_regs tf_layout m pa (tf_reg tf)"

definition but_a0 :: "(reg \<times> nat) list" where
  "but_a0 = filter (\<lambda>x. fst x \<noteq> A0) tf_layout"

lemma tf_code:
  "uservec = CSRRW A0 SSCRATCH A0 # saves A0 but_a0 @
     [CSRR T0 SSCRATCH, SD T0 112 A0, LD SP 8 A0, LD TP 32 A0, LD T0 16 A0, LD T1 0 A0,
      CSRW SATP T1, SFENCE_VMA, JR T0]"
  "userret = [CSRW SATP A1, SFENCE_VMA, LD T0 112 A0, CSRW SSCRATCH T0] @ loads A0 but_a0 @
     [CSRRW A0 SSCRATCH A0, SRET]"
  by (simp_all add: uservec_def userret_def saves_def loads_def but_a0_def tf_layout_def)

lemma but_a0_facts:
  "set but_a0 \<subseteq> set tf_layout" "set (but_a0 @ [(A0, 112)]) = set tf_layout"
  "distinct (map snd (but_a0 @ [(A0, 112)]))" "distinct (map fst but_a0)"
  "r \<in> fst ` set but_a0 \<longleftrightarrow> r \<noteq> A0"
  by (auto simp: but_a0_def tf_layout_def) (cases r; simp)

lemma store_all_append:
  "store_all (xs @ ys) pa f m = store_all ys pa f (store_all xs pa f m)"
  by (induction xs arbitrary: m) simp_all

lemma store_all_cong:
  "(\<And>r i. (r, i) \<in> set xs \<Longrightarrow> f r = g r) \<Longrightarrow> store_all xs pa f m = store_all xs pa g m"
proof (induction xs arbitrary: m)
  case (Cons x xs)
  then have "f (fst x) = g (fst x)" by (cases x) auto
  moreover have "store_all xs pa f m' = store_all xs pa g m'" for m'
    using Cons.prems by (intro Cons.IH) auto
  ultimately show ?case by simp
qed simp

lemma uservec_run:
  assumes m: "maps s TRAPFRAME pa 288" and ss: "csrs s SSCRATCH = TRAPFRAME"
  defines "m' \<equiv> store_all (but_a0 @ [(A0, 112)]) pa (regs s) (ram s)"
  shows "exec_code uservec s =
    s\<lparr>regs := (regs s)(A0 := TRAPFRAME, SP := slot m' pa 8, TP := slot m' pa 32,
         T0 := slot m' pa 16, T1 := slot m' pa 0),
      csrs := (csrs s)(SSCRATCH := regs s A0, SATP := slot m' pa 0),
      ram := m', mpc := slot m' pa 16\<rparr>"
proof -
  define s1 where "s1 = exec_instr (CSRRW A0 SSCRATCH A0) s"
  have s1: "s1 = s\<lparr>regs := (regs s)(A0 := TRAPFRAME), csrs := (csrs s)(SSCRATCH := regs s A0)\<rparr>"
    by (simp add: s1_def set_csr_def set_reg_def ss)
  have t1: "translate s1 = translate s" by (simp add: s1 translate_def fun_eq_iff)
  have "maps s1 (regs s1 A0) pa 288" using m by (simp add: maps_def t1) (simp add: s1)
  then have "exec_code (saves A0 but_a0) s1 = s1\<lparr>ram := store_all but_a0 pa (regs s1) (ram s1)\<rparr>"
    by (rule tf_area.save_run [OF _ but_a0_facts(1)])
  also have "store_all but_a0 pa (regs s1) (ram s1) = store_all but_a0 pa (regs s) (ram s1)"
    using but_a0_facts(5) by (intro store_all_cong) (force simp: s1)
  finally have s2: "exec_code (saves A0 but_a0) s1 = s1\<lparr>ram := store_all but_a0 pa (regs s) (ram s)\<rparr>"
    by (simp add: s1)
  have m': "store64 (store_all but_a0 pa (regs s) (ram s)) (pa + 112) (regs s A0) = m'"
    by (simp add: m'_def store_all_append)
  have tr: "translate s (TRAPFRAME + of_nat i) = pa + of_nat i" if "i < 288" for i
    using mapsD [OF m that] .
  note tr' = tr [of 112, simplified] tr [of 8, simplified] tr [of 32, simplified] tr [of 16, simplified]
    tr [of 0, simplified]
  define tail where "tail = [CSRR T0 SSCRATCH, SD T0 112 A0, LD SP 8 A0, LD TP 32 A0, LD T0 16 A0,
    LD T1 0 A0, CSRW SATP T1, SFENCE_VMA, JR T0]"
  have "exec_code uservec s = exec_code tail (s1\<lparr>ram := store_all but_a0 pa (regs s) (ram s)\<rparr>)"
    by (simp only: tf_code exec_code.simps exec_code_append s1_def [symmetric] s2 tail_def append_Cons)
  also have "\<dots> = s\<lparr>regs := (regs s)(A0 := TRAPFRAME, SP := slot m' pa 8, TP := slot m' pa 32,
         T0 := slot m' pa 16, T1 := slot m' pa 0),
      csrs := (csrs s)(SSCRATCH := regs s A0, SATP := slot m' pa 0),
      ram := m', mpc := slot m' pa 16\<rparr>"
    unfolding tail_def
    by (simp add: s1 set_reg_def set_csr_def tr' m' slot_def translate_csr fun_upd_twist)
  finally show ?thesis .
qed

lemma uservec_tf_at:
  assumes "maps s TRAPFRAME pa 288" and "tf_at (ram s) pa tf"
  shows "tf_at (store_all (but_a0 @ [(A0, 112)]) pa (regs s) (ram s)) pa (tf\<lparr>tf_reg := regs s\<rparr>)"
proof -
  have pa: "unat pa mod 8 = 0" using assms(1) by (simp add: maps_def)
  have o: "slot (store_all (but_a0 @ [(A0, 112)]) pa (regs s) (ram s)) pa i = slot (ram s) pa i"
    if "i \<in> {0, 8, 16, 24, 32}" for i
  proof (rule tf_area.saved_other [OF pa _ but_a0_facts(3)])
    show "set (but_a0 @ [(A0, 112)]) \<subseteq> set tf_layout" using but_a0_facts(2) by simp
    show "i \<notin> snd ` set (but_a0 @ [(A0, 112)])"
      using that unfolding but_a0_facts(2) by (auto simp: tf_layout_def)
  qed (use that in auto)
  then show ?thesis
    using assms(2) tf_area.saved_holds [OF pa but_a0_facts(2,3)] by (simp add: tf_at_def)
qed

lemma userret_run:
  assumes a0: "regs s A0 = TRAPFRAME" and m: "maps (set_csr SATP (regs s A1) s) TRAPFRAME pa 288"
    and tf: "holds_regs tf_layout (ram s) pa f"
  shows "exec_code userret s =
    sret (s\<lparr>csrs := (csrs s)(SATP := regs s A1, SSCRATCH := TRAPFRAME), regs := f\<rparr>)"
proof -
  define s1 where "s1 = s\<lparr>csrs := (csrs s)(SATP := regs s A1)\<rparr>"
  define s2 where "s2 = s1\<lparr>regs := (regs s)(T0 := f A0), csrs := (csrs s1)(SSCRATCH := f A0)\<rparr>"
  have m1: "maps s1 TRAPFRAME pa 288" using m by (simp add: s1_def set_csr_def)
  have "slot (ram s) pa 112 = f A0" using tf by (auto simp: holds_regs_def tf_layout_def)
  then have s2: "exec_code [CSRW SATP A1, SFENCE_VMA, LD T0 112 A0, CSRW SSCRATCH T0] s = s2"
    using mapsD [OF m1, of 112] a0
    by (simp add: set_csr_def set_reg_def s1_def s2_def slot_def)
  have t2: "translate s2 = translate s1" by (simp add: s2_def translate_def fun_eq_iff)
  have "maps s2 (regs s2 A0) pa 288"
    using m1 a0 by (simp add: maps_def t2) (simp add: s2_def)
  moreover have "holds_regs tf_layout (ram s2) pa f" using tf by (simp add: s1_def s2_def)
  ultimately have "exec_code (loads A0 but_a0) s2 =
      s2\<lparr>regs := \<lambda>r. if r \<in> fst ` set but_a0 then f r else regs s2 r\<rparr>"
    by (intro tf_area.load_run) (simp_all add: but_a0_facts)
  also have "\<dots> = s2\<lparr>regs := f(A0 := TRAPFRAME)\<rparr>"
    using a0 by (simp add: but_a0_facts(5) fun_eq_iff fun_upd_def s2_def cong: if_cong)
  finally have "exec_code userret s = exec_code [CSRRW A0 SSCRATCH A0, SRET] (s2\<lparr>regs := f(A0 := TRAPFRAME)\<rparr>)"
    by (simp only: tf_code exec_code_append s2)
  then show ?thesis by (simp add: set_csr_def set_reg_def s1_def s2_def)
qed

text \<open>
  C2: a trap from user space saves every register of the process in its trap frame, touching no other
  memory, and enters the kernel at \<open>kernel_trap\<close> with the kernel's stack, hart number and page table
  from the trap frame; the return to user space gives every register the value the trap frame then
  has, so that a process whose trap frame was not changed in between notices nothing, and leaves
  \<open>sscratch\<close> and \<open>satp\<close> as the next trap needs them.
\<close>

theorem trap_roundtrip:
  assumes "maps s TRAPFRAME pa 288" and "csrs s SSCRATCH = TRAPFRAME" and "tf_at (ram s) pa tf"
    and "regs s' A0 = TRAPFRAME" and "maps (set_csr SATP (regs s' A1) s') TRAPFRAME pa 288"
    and "tf_at (ram s') pa tf'"
  shows "let k = exec_code uservec s; u = exec_code userret s' in
    tf_at (ram k) pa (tf\<lparr>tf_reg := regs s\<rparr>) \<and> mpc k = kernel_trap tf \<and> regs k SP = kernel_sp tf \<and>
    regs k TP = kernel_hartid tf \<and> csrs k SATP = kernel_satp tf \<and>
    {a. ram k a \<noteq> ram s a} \<subseteq> {a. in_region a pa 288} \<and>
    regs u = tf_reg tf' \<and> csrs u SSCRATCH = TRAPFRAME \<and> csrs u SATP = regs s' A1 \<and>
    mpc u = csrs s' SEPC \<and> priv u = (if bit (csrs s' MSTATUS) 8 then Supervisor else User) \<and>
    ram u = ram s'"
proof -
  let ?m = "store_all (but_a0 @ [(A0, 112)]) pa (regs s) (ram s)"
  have k: "tf_at ?m pa (tf\<lparr>tf_reg := regs s\<rparr>)" using assms(1,3) by (rule uservec_tf_at)
  have fr: "?m a = ram s a" if "\<not> in_region a pa 288" for a
    using but_a0_facts(2) that by (intro tf_area.saved_frame) simp_all
  have "holds_regs tf_layout (ram s') pa (tf_reg tf')" using assms(6) by (simp add: tf_at_def)
  note u = userret_run [OF assms(4,5) this]
  show ?thesis
    using k fr unfolding uservec_run [OF assms(1,2)] u Let_def
    by (auto simp: tf_at_def sret_def Let_def)
qed

text \<open>A process in user mode, with its trap frame at \<open>0x87000000\<close>, that makes a system call.\<close>

definition user_demo :: mach where
  "user_demo = \<lparr>regs = (\<lambda>_. 3)(A0 := 5, A7 := 1), csrs = (\<lambda>_. 0)(SSCRATCH := TRAPFRAME, SATP := 1),
     ram = (\<lambda>_. 0), mpc = TRAMPOLINE, priv = Supervisor, mmu = (\<lambda>_ va. va - TRAPFRAME + 0x87000000)\<rparr>"

definition kernel_demo :: mach where
  "kernel_demo = (exec_code uservec user_demo)\<lparr>regs := (\<lambda>_. 0)(A0 := TRAPFRAME, A1 := 1)\<rparr>"

definition zero_tf :: trapframe where
  "zero_tf = \<lparr>kernel_satp = 0, kernel_sp = 0, kernel_trap = 0, epc = 0, kernel_hartid = 0, tf_reg = \<lambda>_. 0\<rparr>"

lemma demo_maps:
  "maps user_demo TRAPFRAME 0x87000000 288"
  "maps (set_csr SATP 1 kernel_demo) TRAPFRAME 0x87000000 288"
proof -
  show m: "maps user_demo TRAPFRAME 0x87000000 288"
    by (simp add: maps_def user_demo_def translate_def)
  show "maps (set_csr SATP 1 kernel_demo) TRAPFRAME 0x87000000 288"
    using uservec_run [OF m]
    by (simp add: kernel_demo_def maps_def translate_def set_csr_def) (simp add: user_demo_def)
qed

lemma demo_tf:
  "tf_at (ram user_demo) 0x87000000 zero_tf"
  "tf_at (ram kernel_demo) 0x87000000 (zero_tf\<lparr>tf_reg := regs user_demo\<rparr>)"
proof -
  show t: "tf_at (ram user_demo) 0x87000000 zero_tf"
    by (simp add: tf_at_def user_demo_def zero_tf_def holds_regs_def slot_def load64_zero split_def)
  have "csrs user_demo SSCRATCH = TRAPFRAME" by (simp add: user_demo_def)
  then show "tf_at (ram kernel_demo) 0x87000000 (zero_tf\<lparr>tf_reg := regs user_demo\<rparr>)"
    using uservec_tf_at [OF demo_maps(1) t] uservec_run [OF demo_maps(1)] by (simp add: kernel_demo_def)
qed

theorem trap_roundtrip_witness:
  "regs (exec_code userret kernel_demo) = regs user_demo \<and>
   csrs (exec_code userret kernel_demo) SSCRATCH = TRAPFRAME"
proof -
  have "regs kernel_demo A0 = TRAPFRAME" "csrs user_demo SSCRATCH = TRAPFRAME" "regs kernel_demo A1 = 1"
    by (simp_all add: kernel_demo_def user_demo_def)
  then show ?thesis
    using trap_roundtrip [OF demo_maps(1) _ demo_tf(1) _ _ demo_tf(2)] demo_maps(2)
    by (simp add: Let_def)
qed

section \<open>Switching between kernel threads\<close>

text \<open>The register values that a saved context gives to the registers of its layout.\<close>

definition ctx_reg :: "ctxt \<Rightarrow> reg \<Rightarrow> u64" where
  "ctx_reg c r = (case r of RA \<Rightarrow> ctx_ra c | SP \<Rightarrow> ctx_sp c | S0 \<Rightarrow> ctx_s c 0 | S1 \<Rightarrow> ctx_s c 1
     | S2 \<Rightarrow> ctx_s c 2 | S3 \<Rightarrow> ctx_s c 3 | S4 \<Rightarrow> ctx_s c 4 | S5 \<Rightarrow> ctx_s c 5 | S6 \<Rightarrow> ctx_s c 6
     | S7 \<Rightarrow> ctx_s c 7 | S8 \<Rightarrow> ctx_s c 8 | S9 \<Rightarrow> ctx_s c 9 | S10 \<Rightarrow> ctx_s c 10 | S11 \<Rightarrow> ctx_s c 11
     | _ \<Rightarrow> 0)"

definition callee_saved :: "reg set" where
  "callee_saved = {RA, SP, S0, S1, S2, S3, S4, S5, S6, S7, S8, S9, S10, S11}"

lemma swtch_code: "swtch = saves A0 ctx_layout @ loads A1 ctx_layout @ [JR RA]"
  by (simp add: swtch_def saves_def loads_def ctx_layout_def)

lemma ctx_layout_regs: "fst ` set ctx_layout = callee_saved"
  by (auto simp: ctx_layout_def callee_saved_def)

lemma holds_regs_cong:
  "(\<And>r i. (r, i) \<in> set xs \<Longrightarrow> slot m pa i = slot m' pa i) \<Longrightarrow> holds_regs xs m pa f = holds_regs xs m' pa f"
  by (auto simp: holds_regs_def)

lemma swtch_run:
  assumes o: "maps s (regs s A0) old 112" and n: "maps s (regs s A1) new 112"
    and c: "holds_regs ctx_layout (ram s) new f"
    and d: "\<And>a. in_region a new 112 \<Longrightarrow> \<not> in_region a old 112"
  shows "exec_code swtch s = s\<lparr>ram := store_all ctx_layout old (regs s) (ram s),
    regs := \<lambda>r. if r \<in> callee_saved then f r else regs s r, mpc := f RA\<rparr>"
proof -
  let ?s = "s\<lparr>ram := store_all ctx_layout old (regs s) (ram s)\<rparr>"
  have s: "exec_code (saves A0 ctx_layout) s = ?s" by (rule ctx_area.save_run [OF o]) simp
  have "slot (ram ?s) new i = slot (ram s) new i" if "(r, i) \<in> set ctx_layout" for r i
    unfolding slot_def
  proof (rule load64_cong)
    fix j :: nat
    assume "j < 8"
    then have "i + j < 112" using ctx_area.offsets [OF that] by simp
    then have "in_region (new + of_nat i + of_nat j) new 112"
      by (simp add: in_region_def add.assoc unsigned_of_nat take_bit_eq_mod flip: of_nat_add)
    then show "ram ?s (new + of_nat i + of_nat j) = ram s (new + of_nat i + of_nat j)"
      using d by (simp add: ctx_area.saved_frame)
  qed
  then have "holds_regs ctx_layout (ram ?s) new f"
    using c holds_regs_cong [of ctx_layout "ram ?s" new "ram s" f] by blast
  then have "exec_code (loads A1 ctx_layout) ?s =
      ?s\<lparr>regs := \<lambda>r. if r \<in> fst ` set ctx_layout then f r else regs ?s r\<rparr>"
    using n by (intro ctx_area.load_run) (simp_all add: ctx_area.regs_distinct ctx_layout_regs callee_saved_def)
  then show ?thesis
    unfolding swtch_code exec_code_append s ctx_layout_regs
    by (simp add: callee_saved_def cong: if_cong)
qed

text \<open>
  C26: \<open>swtch(&old, &new)\<close> saves the thread in \<open>old\<close>, touching no other memory, and continues with the
  return address, stack and saved registers of the context in \<open>new\<close>; and a later \<open>swtch\<close> to \<open>old\<close>,
  from whatever thread and on whatever hart, while \<open>old\<close> is as it was left, returns to the caller of
  the first one with its stack pointer and its saved registers.
\<close>

theorem swtch_resumes:
  assumes "maps s (regs s A0) old 112" and "maps s (regs s A1) new 112"
    and "holds_regs ctx_layout (ram s) new (ctx_reg c)"
    and "\<And>a. in_region a new 112 \<Longrightarrow> \<not> in_region a old 112"
    and "maps t (regs t A0) other 112" and "maps t (regs t A1) old 112"
    and "\<And>r i. (r, i) \<in> set ctx_layout \<Longrightarrow> slot (ram t) old i = slot (ram (exec_code swtch s)) old i"
    and "\<And>a. in_region a old 112 \<Longrightarrow> \<not> in_region a other 112"
  shows "let k = exec_code swtch s; u = exec_code swtch t in
    mpc k = ctx_ra c \<and> regs k = (\<lambda>r. if r \<in> callee_saved then ctx_reg c r else regs s r) \<and>
    {a. ram k a \<noteq> ram s a} \<subseteq> {a. in_region a old 112} \<and>
    mpc u = regs s RA \<and> regs u = (\<lambda>r. if r \<in> callee_saved then regs s r else regs t r)"
proof -
  let ?m = "store_all ctx_layout old (regs s) (ram s)"
  have k: "exec_code swtch s = s\<lparr>ram := ?m,
      regs := \<lambda>r. if r \<in> callee_saved then ctx_reg c r else regs s r, mpc := ctx_reg c RA\<rparr>"
    using assms(1-4) by (rule swtch_run)
  have "unat old mod 8 = 0" using assms(1) by (simp add: maps_def)
  then have "holds_regs ctx_layout ?m old (regs s)"
    by (rule ctx_area.saved_holds) (simp_all add: ctx_area.offsets_distinct)
  moreover have "slot (ram t) old i = slot ?m old i" if "(r, i) \<in> set ctx_layout" for r i
    using assms(7) [OF that] by (simp add: k)
  ultimately have "holds_regs ctx_layout (ram t) old (regs s)"
    using holds_regs_cong [of ctx_layout "ram t" old ?m "regs s"] by blast
  with assms(5,6,8) have u: "exec_code swtch t = t\<lparr>ram := store_all ctx_layout other (regs t) (ram t),
      regs := \<lambda>r. if r \<in> callee_saved then regs s r else regs t r, mpc := regs s RA\<rparr>"
    by (intro swtch_run)
  have "?m a = ram s a" if "\<not> in_region a old 112" for a
    using that by (intro ctx_area.saved_frame) simp_all
  then show ?thesis unfolding k u Let_def by (auto simp: ctx_reg_def)
qed

text \<open>Two threads with their contexts in different pages, in the kernel's direct mapping.\<close>

definition thread_demo :: "u64 \<Rightarrow> u64 \<Rightarrow> mem \<Rightarrow> u64 \<Rightarrow> mach" where
  "thread_demo old new m v = \<lparr>regs = (\<lambda>_. v)(A0 := old, A1 := new), csrs = \<lambda>_. 0, ram = m, mpc = 0,
     priv = Supervisor, mmu = \<lambda>_ va. va\<rparr>"

lemma thread_demo_maps:
  "unat p mod 8 = 0 \<Longrightarrow> maps (thread_demo old new m v) p p 112"
  by (simp add: maps_def thread_demo_def translate_def)

lemma regions_apart:
  "in_region a 0x80001000 112 \<Longrightarrow> \<not> in_region a 0x80002000 112"
  "in_region a 0x80002000 112 \<Longrightarrow> \<not> in_region a 0x80001000 112"
  unfolding in_region_def word_less_nat_alt [symmetric] by (unat_arith; simp)+

theorem swtch_resumes_witness:
  "let s = thread_demo 0x80001000 0x80002000 (\<lambda>_. 0) 7;
       t = thread_demo 0x80002000 0x80001000 (ram (exec_code swtch s)) 9;
       u = exec_code swtch t
   in mpc u = 7 \<and> regs u SP = 7 \<and> regs u T0 = 9"
proof -
  define s where "s = thread_demo 0x80001000 0x80002000 (\<lambda>_. 0) 7"
  define t where "t = thread_demo 0x80002000 0x80001000 (ram (exec_code swtch s)) 9"
  have r: "regs s = (\<lambda>_. 7)(A0 := 0x80001000, A1 := 0x80002000)" "ram s = (\<lambda>_. 0)"
    "regs t = (\<lambda>_. 9)(A0 := 0x80002000, A1 := 0x80001000)" "ram t = ram (exec_code swtch s)"
    by (simp_all add: s_def t_def thread_demo_def)
  have m: "maps s 0x80001000 0x80001000 112" "maps s 0x80002000 0x80002000 112"
    "maps t 0x80001000 0x80001000 112" "maps t 0x80002000 0x80002000 112"
    by (simp_all add: s_def t_def thread_demo_maps)
  have "holds_regs ctx_layout (ram s) 0x80002000 (ctx_reg \<lparr>ctx_ra = 0, ctx_sp = 0, ctx_s = \<lambda>_. 0\<rparr>)"
    by (simp add: r holds_regs_def ctx_layout_def slot_def load64_zero ctx_reg_def)
  then show ?thesis
    using swtch_resumes [of s "0x80001000" "0x80002000" "\<lparr>ctx_ra = 0, ctx_sp = 0, ctx_s = \<lambda>_. 0\<rparr>" t
        "0x80002000"] m regions_apart
    unfolding s_def [symmetric] t_def [symmetric] Let_def
    by (simp add: r callee_saved_def)
qed

section \<open>Traps in the kernel\<close>

definition but_tp :: "(reg \<times> nat) list" where
  "but_tp = filter (\<lambda>x. fst x \<noteq> TP) kv_layout"

lemma kv_code:
  "kernelvec_save = ADDI SP SP (-256) # saves SP kv_layout"
  "kernelvec_restore = loads SP but_tp @ [ADDI SP SP 256, SRET]"
  by (simp_all add: kernelvec_save_def kernelvec_restore_def saves_def loads_def but_tp_def kv_layout_def)

lemma but_tp_facts:
  "set but_tp \<subseteq> set kv_layout" "distinct (map fst but_tp)" "r \<in> fst ` set but_tp \<longleftrightarrow> r \<noteq> TP"
  by (auto simp: but_tp_def kv_layout_def) (cases r; simp)

text \<open>
  An interrupt in the kernel leaves every register but \<open>tp\<close> as it was, if \<open>kerneltrap\<close> returns with
  the stack pointer it was called with and has not written to the frame above it; \<open>tp\<close> is that of the
  hart on which \<open>kerneltrap\<close> returns.
\<close>

theorem kernelvec_transparent:
  assumes "maps s (regs s SP - 256) pa 248"
  defines "k \<equiv> exec_code kernelvec_save s"
  assumes "regs (f k) SP = regs k SP" and "maps (f k) (regs k SP) pa 248"
    and "\<And>r i. (r, i) \<in> set kv_layout \<Longrightarrow> slot (ram (f k)) pa i = slot (ram k) pa i"
  shows "kernelvec_code f s = sret ((f k)\<lparr>regs := (regs s)(TP := regs (f k) TP)\<rparr>)"
proof -
  let ?g = "(regs s)(SP := regs s SP - 256)"
  have "maps (s\<lparr>regs := ?g\<rparr>) (regs (s\<lparr>regs := ?g\<rparr>) SP) pa 248" using assms(1) by simp
  then have "exec_code (saves SP kv_layout) (s\<lparr>regs := ?g\<rparr>) =
      s\<lparr>regs := ?g, ram := store_all kv_layout pa ?g (ram s)\<rparr>"
    using kv_area.save_run [of "s\<lparr>regs := ?g\<rparr>" SP pa kv_layout] by simp
  then have k: "k = s\<lparr>regs := ?g, ram := store_all kv_layout pa ?g (ram s)\<rparr>"
    unfolding k_def kv_code by (simp add: set_reg_def)
  have "unat pa mod 8 = 0" using assms(1) by (simp add: maps_def)
  then have "holds_regs kv_layout (store_all kv_layout pa ?g (ram s)) pa ?g"
    by (rule kv_area.saved_holds) (simp_all add: kv_area.offsets_distinct)
  then have h: "holds_regs kv_layout (ram (f k)) pa ?g"
    using holds_regs_cong [of kv_layout "ram (f k)" pa "ram k" ?g] assms(5) by (simp add: k)
  have sp: "regs (f k) SP = ?g SP" using assms(3) by (simp add: k)
  have "maps (f k) (regs (f k) SP) pa 248" using assms(3,4) by simp
  then have "exec_code (loads SP but_tp) (f k) =
      (f k)\<lparr>regs := \<lambda>r. if r \<in> fst ` set but_tp then ?g r else regs (f k) r\<rparr>"
    using sp by (rule kv_area.load_run [OF _ but_tp_facts(1,2) h sym])
  moreover define h where "h = (\<lambda>r. if r \<in> fst ` set but_tp then ?g r else regs (f k) r)"
  ultimately have "exec_code (loads SP but_tp) (f k) = (f k)\<lparr>regs := h\<rparr>" by simp
  moreover have "h(SP := h SP + 256) = (regs s)(TP := regs (f k) TP)"
    by (simp add: h_def but_tp_facts(3) fun_eq_iff)
  ultimately show ?thesis
    unfolding kernelvec_code_def k_def [symmetric] kv_code(2) exec_code_append
    by (simp add: set_reg_def)
qed

section \<open>The timer\<close>

text \<open>
  The scratch area at \<open>sc\<close> is set up for \<open>timervec\<close>: \<open>mscratch\<close> points to it, and it holds the address
  \<open>cmp\<close> of the compare register, outside the area, and the interval.
\<close>

definition timer_ready :: "u64 \<Rightarrow> u64 \<Rightarrow> u64 \<Rightarrow> mach \<Rightarrow> bool" where
  "timer_ready sc cmp interval s \<longleftrightarrow> csrs s MSCRATCH = sc \<and> unat sc mod 8 = 0 \<and> unat cmp mod 8 = 0 \<and>
     slot (ram s) sc 24 = cmp \<and> slot (ram s) sc 32 = interval \<and>
     (\<forall>i\<in>{0, 8, 16, 24, 32}. sc + of_nat i \<noteq> cmp)"

lemma slot_store_apart:
  assumes "unat sc mod 8 = 0" and "unat cmp mod 8 = 0" and "i mod 8 = 0" and "sc + of_nat i \<noteq> cmp"
  shows "slot (store64 m cmp v) sc i = slot m sc i"
    "load64 (store64 m (sc + of_nat i) v) cmp = load64 m cmp"
  using aligned8_disjoint [OF assms(2) unat_offset_mod8 [OF assms(1,3)]]
    aligned8_disjoint [OF unat_offset_mod8 [OF assms(1,3)] assms(2)] assms(4)
  by (simp_all add: slot_def load64_store64_other)

definition timer_slots :: "(reg \<times> nat) list" where
  "timer_slots = [(A1, 0), (A2, 8), (A3, 16)]"

interpretation timer_area: save_area timer_slots 24
  by unfold_locales (auto simp: timer_slots_def)

lemma timervec_run:
  assumes "timer_ready sc cmp interval s" and "priv s = Machine"
  defines "m \<equiv> store64 (store_all timer_slots sc (regs s) (ram s)) cmp (load64 (ram s) cmp + interval)"
  shows "exec_code timervec s = mret (s\<lparr>ram := m, csrs := (csrs s)(SIP := csrs s SIP AND NOT 2 OR 2)\<rparr>)"
    and "timer_ready sc cmp interval (s\<lparr>ram := m\<rparr>)" and "load64 m cmp = load64 (ram s) cmp + interval"
proof -
  let ?m = "store_all timer_slots sc (regs s) (ram s)"
  have r: "csrs s MSCRATCH = sc" "unat sc mod 8 = 0" "unat cmp mod 8 = 0"
    "slot (ram s) sc 24 = cmp" "slot (ram s) sc 32 = interval"
    and apart: "\<And>i. i \<in> {0, 8, 16, 24, 32} \<Longrightarrow> sc + of_nat i \<noteq> cmp"
    using assms(1) by (auto simp add: timer_ready_def)
  have o: "slot ?m sc 24 = cmp" "slot ?m sc 32 = interval"
    using timer_area.saved_other [OF r(2) order_refl timer_area.offsets_distinct, of _ "regs s" "ram s"] r
    by (simp_all add: timer_slots_def)
  have h: "slot ?m sc 0 = regs s A1" "slot ?m sc 8 = regs s A2" "slot ?m sc 16 = regs s A3"
    using timer_area.saved_holds [OF r(2) refl timer_area.offsets_distinct, of "regs s" "ram s"]
    by (simp_all add: timer_slots_def holds_regs_def)
  have c: "load64 ?m cmp = load64 (ram s) cmp"
    using slot_store_apart(2) [OF r(2,3), of 0] slot_store_apart(2) [OF r(2,3), of 8]
      slot_store_apart(2) [OF r(2,3), of 16] apart [of 0] apart [of 8] apart [of 16]
    by (simp add: timer_slots_def)
  have m: "slot m sc i = slot ?m sc i" if "i \<in> {0, 8, 16, 24, 32}" for i
    unfolding m_def using that apart [OF that] by (intro slot_store_apart [OF r(2,3)]) auto
  show "timer_ready sc cmp interval (s\<lparr>ram := m\<rparr>)"
    using assms(1) m o by (simp add: timer_ready_def)
  show "load64 m cmp = load64 (ram s) cmp + interval" by (simp add: m_def)
  have st: "store64 (store64 (store64 (ram s) sc (regs s A1)) (sc + 8) (regs s A2)) (sc + 16) (regs s A3) = ?m"
    by (simp add: timer_slots_def)
  have cs: "(csrs s)(SIP := x, MSCRATCH := sc) = (csrs s)(SIP := x)" for x
    using r(1) by (simp add: fun_eq_iff)
  have rs: "s\<lparr>ram := a, csrs := b, regs := regs s\<rparr> = s\<lparr>ram := a, csrs := b\<rparr>" for a b
    by (rule mach.equality) simp_all
  note h' = h [unfolded slot_def, simplified]
  note l = o [unfolded slot_def, simplified] c m [of 0, unfolded slot_def, simplified]
    m [of 8, unfolded slot_def, simplified] m [of 16, unfolded slot_def, simplified]
  show "exec_code timervec s = mret (s\<lparr>ram := m, csrs := (csrs s)(SIP := csrs s SIP AND NOT 2 OR 2)\<rparr>)"
    unfolding timervec_def
    by (simp add: set_csr_def set_reg_def translate_def assms(2) r(1) st l h' cs rs m_def [symmetric])
qed

text \<open>
  Every hart enters \<open>start\<close> at the upper end of its own part of \<open>stack0\<close>; a stack grows downwards, so
  the parts of two harts do not meet.
\<close>

lemma entry_stack:
  "entry_code stack0 start_c s = start_c (s\<lparr>regs := (regs s)(A1 := csrs s MHARTID + 1,
     A0 := 4096 * (csrs s MHARTID + 1), SP := stack0 + 4096 * (csrs s MHARTID + 1))\<rparr>)"
  by (simp add: entry_code_def set_reg_def fun_upd_twist)

text \<open>What \<open>start\<close> leaves behind, for the harts of the board.\<close>

lemma hart_number:
  assumes "h < 8"
  shows "scast (ucast (of_nat h :: u64) :: i32) = (of_nat h :: u64)"
    "CLINT_MTIMECMP (ucast (of_nat h :: u64)) = 0x2004000 + 8 * of_nat h"
proof -
  have "h = 0 \<or> h = 1 \<or> h = 2 \<or> h = 3 \<or> h = 4 \<or> h = 5 \<or> h = 6 \<or> h = 7"
    using assms by arith
  then show "scast (ucast (of_nat h :: u64) :: i32) = (of_nat h :: u64)"
    "CLINT_MTIMECMP (ucast (of_nat h :: u64)) = 0x2004000 + 8 * of_nat h"
    by (elim disjE; simp add: CLINT_MTIMECMP_def)+
qed

text \<open>
  \<open>timer_scratch\<close> lies in RAM, above the registers of the CLINT.
\<close>

lemma scratch_apart:
  assumes "0x80000000 \<le> unat ts" and "unat ts < 0x88000000" and "h < 8" and "i < 40"
  shows "(ts :: u64) + 40 * of_nat h + of_nat i \<noteq> 0x2004000 + 8 * of_nat h"
proof
  assume e: "ts + 40 * of_nat h + of_nat i = 0x2004000 + 8 * of_nat h"
  have "ts + 40 * of_nat h + of_nat i = of_nat (unat ts + 40 * h + i)" by simp
  then have "unat (ts + 40 * of_nat h + of_nat i) = unat ts + 40 * h + i"
    using assms by (simp only: unsigned_of_nat take_bit_eq_mod) simp
  moreover have "(0x2004000 + 8 * of_nat h :: u64) = of_nat (0x2004000 + 8 * h)" by simp
  then have "unat (0x2004000 + 8 * of_nat h :: u64) = 0x2004000 + 8 * h"
    using assms(3) by (simp only: unsigned_of_nat take_bit_eq_mod) simp
  ultimately have "unat ts + 40 * h + i = 0x2004000 + 8 * h" using e by simp
  with assms show False by linarith
qed

lemma timerinit_run:
  assumes h: "scast (ucast (csrs s MHARTID) :: i32) = (hid :: u64)"
    and c: "CLINT_MTIMECMP (ucast (csrs s MHARTID)) = cmp" and sc: "ts + 40 * hid = sc"
  shows "timerinit ts tv s = s\<lparr>ram :=
      store64 (store64 (store64 (ram s) cmp (load64 (ram s) CLINT_MTIME + 1000000)) (sc + 24) cmp) (sc + 32) 1000000,
    csrs := (csrs s)(MSCRATCH := sc, MTVEC := tv, MSTATUS := csrs s MSTATUS OR MSTATUS_MIE,
      MIE := csrs s MIE OR MIE_MTIE)\<rparr>"
  by (simp add: timerinit_def Let_def csr_access_defs h c sc)

text \<open>The machine just before the \<open>mret\<close> that ends \<open>start\<close>.\<close>

lemma start_run:
  assumes h: "scast (ucast (csrs s MHARTID) :: i32) = (hid :: u64)"
    and c: "CLINT_MTIMECMP (ucast (csrs s MHARTID)) = cmp" and sc: "ts + 40 * hid = sc"
  shows "start main_addr ts tv s = mret (s\<lparr>
    ram := store64 (store64 (store64 (ram s) cmp (load64 (ram s) CLINT_MTIME + 1000000)) (sc + 24) cmp) (sc + 32) 1000000,
    csrs := (csrs s)(MSTATUS := csrs s MSTATUS AND NOT MSTATUS_MPP_MASK OR MSTATUS_MPP_S OR MSTATUS_MIE,
      MEPC := main_addr, SATP := 0, MEDELEG := 0xffff, MIDELEG := 0xffff,
      SIE := csrs s SIE OR SIE_SEIE OR SIE_STIE OR SIE_SSIE, PMPADDR0 := 0x3fffffffffffff, PMPCFG0 := 0xf,
      MSCRATCH := sc, MTVEC := tv, MIE := csrs s MIE OR MIE_MTIE),
    regs := (regs s)(TP := hid)\<rparr>)"
proof -
  define f where "f = (csrs s)(MSTATUS := csrs s MSTATUS AND NOT MSTATUS_MPP_MASK OR MSTATUS_MPP_S,
      MEPC := main_addr, SATP := 0, MEDELEG := 0xffff, MIDELEG := 0xffff,
      SIE := csrs s SIE OR SIE_SEIE OR SIE_STIE OR SIE_SSIE, PMPADDR0 := 0x3fffffffffffff, PMPCFG0 := 0xf)"
  have hart: "f MHARTID = csrs s MHARTID" by (simp add: f_def)
  have "start main_addr ts tv s =
      (let s' = timerinit ts tv (s\<lparr>csrs := f\<rparr>) in mret (w_tp (scast (ucast (r_mhartid s') :: i32)) s'))"
    by (simp add: start_def Let_def csr_access_defs f_def)
  also have "\<dots> = mret (s\<lparr>ram := store64 (store64 (store64 (ram s) cmp (load64 (ram s) CLINT_MTIME + 1000000)) (sc + 24) cmp) (sc + 32) 1000000,
    csrs := f(MSCRATCH := sc, MTVEC := tv, MSTATUS := f MSTATUS OR MSTATUS_MIE, MIE := f MIE OR MIE_MTIE),
    regs := (regs s)(TP := hid)\<rparr>)"
    using timerinit_run [of "s\<lparr>csrs := f\<rparr>" hid cmp ts sc tv] h c sc
    by (simp add: Let_def hart r_mhartid_def w_tp_def set_reg_def)
  also have "f(MSCRATCH := sc, MTVEC := tv, MSTATUS := f MSTATUS OR MSTATUS_MIE, MIE := f MIE OR MIE_MTIE) =
     (csrs s)(MSTATUS := csrs s MSTATUS AND NOT MSTATUS_MPP_MASK OR MSTATUS_MPP_S OR MSTATUS_MIE,
      MEPC := main_addr, SATP := 0, MEDELEG := 0xffff, MIDELEG := 0xffff,
      SIE := csrs s SIE OR SIE_SEIE OR SIE_STIE OR SIE_SSIE, PMPADDR0 := 0x3fffffffffffff, PMPCFG0 := 0xf,
      MSCRATCH := sc, MTVEC := tv, MIE := csrs s MIE OR MIE_MTIE)"
    by (simp add: f_def fun_upd_twist or.assoc)
  finally show ?thesis .
qed

lemma start_mode:
  assumes "csrs s MHARTID = of_nat h" and "h < 8"
  shows "priv (start main_addr ts tv s) = Supervisor" and "mpc (start main_addr ts tv s) = main_addr"
    and "regs (start main_addr ts tv s) = (regs s)(TP := of_nat h)"
    and "csrs (start main_addr ts tv s) SATP = 0" and "csrs (start main_addr ts tv s) MTVEC = tv"
    and "bit (csrs (start main_addr ts tv s) MIE) 7" and "bit (csrs (start main_addr ts tv s) SIE) 1"
  unfolding start_run [OF hart_number [OF assms(2), folded assms(1)] refl]
  by (simp_all add: mret_def Let_def bit_simps assms(1))

lemma start_ready:
  assumes "csrs s MHARTID = of_nat h" and "h < 8"
    and "0x80000000 \<le> unat ts" and "unat ts < 0x88000000" and ts: "unat ts mod 8 = 0"
  shows "timer_ready (ts + 40 * of_nat h) (0x2004000 + 8 * of_nat h) 1000000 (start main_addr ts tv s)"
    and "load64 (ram (start main_addr ts tv s)) (0x2004000 + 8 * of_nat h) = load64 (ram s) CLINT_MTIME + 1000000"
proof -
  define sc where "sc = ts + 40 * of_nat h"
  define cmp :: u64 where "cmp = 0x2004000 + 8 * of_nat h"
  have "(40 * h) mod 8 = 0" "(8 * h) mod 8 = 0" by presburger+
  then have al: "unat sc mod 8 = 0" "unat cmp mod 8 = 0"
    using unat_offset_mod8 [OF ts, of "40 * h"] unat_offset_mod8 [of "0x2004000" "8 * h"]
    by (simp_all add: sc_def cmp_def)
  have apart: "sc + of_nat i \<noteq> cmp" if "i < 40" for i
    unfolding sc_def cmp_def using assms(3,4,2) that by (rule scratch_apart)
  have r: "ram (start main_addr ts tv s) =
      store64 (store64 (store64 (ram s) cmp (load64 (ram s) CLINT_MTIME + 1000000)) (sc + 24) cmp) (sc + 32) 1000000"
    "csrs (start main_addr ts tv s) MSCRATCH = sc"
    using start_run [OF hart_number [OF assms(2), folded assms(1)] refl, of main_addr ts tv]
    by (simp_all add: mret_def Let_def sc_def cmp_def assms(1))
  have "slot (ram (start main_addr ts tv s)) sc 24 = cmp" "slot (ram (start main_addr ts tv s)) sc 32 = 1000000"
    using slot_store [OF al(1), of 32 24] slot_store [OF al(1), of 24 24] slot_store [OF al(1), of 32 32]
    by (simp_all add: r)
  then show "timer_ready sc cmp 1000000 (start main_addr ts tv s)"
    using r(2) al apart [of 0] apart [of 8] apart [of 16] apart [of 24] apart [of 32]
    by (simp add: timer_ready_def)
  show "load64 (ram (start main_addr ts tv s)) cmp = load64 (ram s) CLINT_MTIME + 1000000"
    using slot_store_apart(2) [OF al, of 24] slot_store_apart(2) [OF al, of 32] apart [of 24] apart [of 32]
    by (simp add: r)
qed

text \<open>
  C27: \<open>start\<close> enters \<open>main\<close> in supervisor mode, without paging, with the hart number in \<open>tp\<close> and the
  timer armed; from then on every machine-mode timer interrupt, whatever the hart is doing, moves the
  hart's compare register on by the interval, raises a supervisor software interrupt, goes back to
  where the hart was with all its registers as they were, and leaves the timer ready for the next.
\<close>

theorem timer_interrupts:
  assumes "csrs s MHARTID = of_nat h" and "h < 8"
    and "0x80000000 \<le> unat ts" and "unat ts < 0x88000000" and "unat ts mod 8 = 0"
    and "timer_ready sc cmp interval t" and "priv t = Machine"
  shows "let u = start main_addr ts tv s; v = exec_code timervec t in
    priv u = Supervisor \<and> mpc u = main_addr \<and> csrs u SATP = 0 \<and> regs u TP = of_nat h \<and>
    csrs u MTVEC = tv \<and> bit (csrs u MIE) 7 \<and> bit (csrs u SIE) 1 \<and>
    timer_ready (ts + 40 * of_nat h) (0x2004000 + 8 * of_nat h) 1000000 u \<and>
    load64 (ram u) (0x2004000 + 8 * of_nat h) = load64 (ram s) 0x200BFF8 + 1000000 \<and>
    timer_ready sc cmp interval v \<and> load64 (ram v) cmp = load64 (ram t) cmp + interval \<and>
    regs v = regs t \<and> mpc v = csrs t MEPC \<and> bit (csrs v SIP) 1 \<and>
    {a. ram v a \<noteq> ram t a} \<subseteq> {a. in_region a sc 24 \<or> in_region a cmp 8}"
proof -
  let ?m = "store64 (store_all timer_slots sc (regs t) (ram t)) cmp (load64 (ram t) cmp + interval)"
  have "store_all timer_slots sc (regs t) (ram t) a = ram t a" if "\<not> in_region a sc 24" for a
    using that by (intro timer_area.saved_frame) simp_all
  then have "{a. ?m a \<noteq> ram t a} \<subseteq> {a. in_region a sc 24 \<or> in_region a cmp 8}"
    by (auto simp: store64_def)
  then show ?thesis
    using start_mode [OF assms(1,2)] start_ready [OF assms(1-5)] timervec_run [OF assms(6,7)]
    by (simp add: Let_def mret_def timer_ready_def bit_simps)
qed

definition boot_demo :: mach where
  "boot_demo = \<lparr>regs = \<lambda>_. 7, csrs = (\<lambda>_. 0)(MHARTID := 1), ram = (\<lambda>_. 0), mpc = 0x80000000,
     priv = Machine, mmu = \<lambda>_ va. va\<rparr>"

theorem timer_interrupts_witness:
  "let u = start 0x80000400 0x80009000 0x80005000 boot_demo;
       v = exec_code timervec (u\<lparr>priv := Machine\<rparr>)
   in regs v = regs u \<and> load64 (ram v) 0x2004008 = 2000000 \<and> bit (csrs v SIP) 1"
proof -
  define u where "u = start 0x80000400 0x80009000 0x80005000 boot_demo"
  have h: "csrs boot_demo MHARTID = of_nat 1" "1 < (8 :: nat)"
    "0x80000000 \<le> unat (0x80009000 :: u64)" "unat (0x80009000 :: u64) < 0x88000000"
    "unat (0x80009000 :: u64) mod 8 = 0"
    by (simp_all add: boot_demo_def)
  have "timer_ready 0x80009028 0x2004008 1000000 u"
    using start_ready(1) [OF h] by (simp add: u_def)
  then have "timer_ready 0x80009028 0x2004008 1000000 (u\<lparr>priv := Machine\<rparr>)"
    by (simp add: timer_ready_def)
  from timer_interrupts [OF h this, of "0x80000400" "0x80005000"] show ?thesis
    unfolding u_def [symmetric] Let_def
    by (simp add: boot_demo_def load64_zero)
qed

end
