(* ===== verification/Grep.thy ===== *)
theory Grep
  imports CString
begin

text \<open>
  user/grep.c, with \<open>strchr\<close> of user/ulib.c. A NUL-terminated string that is only read is the list of
  its bytes before the NUL, so reading at its end is reading the NUL. \<open>matchhere\<close> and \<open>matchstar\<close>
  are proved equivalent to the usual meaning of a regular expression as a set of strings, and \<open>grep\<close>
  to printing the matching lines of its input.
\<close>

section \<open>The matcher\<close>

text \<open>The bytes \<open>$ * . ^\<close> and newline.\<close>

abbreviation (input) DOLLAR :: u8 where "DOLLAR \<equiv> 36"
abbreviation (input) STAR :: u8 where "STAR \<equiv> 42"
abbreviation (input) DOT :: u8 where "DOT \<equiv> 46"
abbreviation (input) CARET :: u8 where "CARET \<equiv> 94"
abbreviation (input) NL :: u8 where "NL \<equiv> 10"

function (sequential) matchhere :: "u8 list \<Rightarrow> u8 list \<Rightarrow> bool"
  and matchstar :: "u8 \<Rightarrow> u8 list \<Rightarrow> u8 list \<Rightarrow> bool" where
  "matchhere [] text = True"
| "matchhere (c # re) text =
     (if re \<noteq> [] \<and> hd re = STAR then matchstar c (tl re) text
      else if c = DOLLAR \<and> re = [] then text = []
      else case text of
        [] \<Rightarrow> False
      | d # text' \<Rightarrow> (if c = DOT \<or> c = d then matchhere re text' else False))"
| "matchstar c re text =
     (if matchhere re text then True
      else case text of
        [] \<Rightarrow> False
      | d # text' \<Rightarrow> (if d = c \<or> c = DOT then matchstar c re text' else False))"
  by pat_completeness auto
termination
  by (relation "measures [case_sum (\<lambda>(re, t). length re) (\<lambda>(c, re, t). length re),
    case_sum (\<lambda>(re, t). length t) (\<lambda>(c, re, t). length t), case_sum (\<lambda>_. 0) (\<lambda>_. 1)]") auto

text \<open>The loop of \<open>match\<close> also looks at the empty string at the end of the text.\<close>

primrec match_from :: "u8 list \<Rightarrow> u8 list \<Rightarrow> bool" where
  "match_from re [] = matchhere re []"
| "match_from re (d # text) = (if matchhere re (d # text) then True else match_from re text)"

definition match :: "u8 list \<Rightarrow> u8 list \<Rightarrow> bool" where
  "match re text = (if re \<noteq> [] \<and> hd re = CARET then matchhere (tl re) text else match_from re text)"

section \<open>Searching a file\<close>

text \<open>\<open>strchr(s + i, c)\<close>: the offset of the first \<open>c\<close> before the NUL, if any.\<close>

partial_function (option) strchr :: "bytes \<Rightarrow> nat \<Rightarrow> u8 \<Rightarrow> nat option option" where
  "strchr s i c = (if s i = 0 then Some None else if s i = c then Some (Some i) else strchr s (Suc i) c)"

text \<open>
  The system call \<open>read\<close>: \<open>inp\<close> is what is still to be read, in the pieces in which it arrives; a call
  returns no more than \<open>n\<close> bytes of the next piece, and none at the end of the file.
\<close>

fun read_c :: "nat \<Rightarrow> u8 list list \<Rightarrow> u8 list \<times> u8 list list" where
  "read_c n [] = ([], [])"
| "read_c n (c # cs) = (if length c \<le> n then (c, cs) else (take n c, drop n c # cs))"

text \<open>
  The inner loop of \<open>grep\<close>, from the pointer \<open>p\<close> into \<open>buf\<close> on; \<open>outp\<close> is what has been written to
  file descriptor 1.
\<close>

partial_function (option) grep_lines ::
  "u8 list \<Rightarrow> bytes \<Rightarrow> nat \<Rightarrow> u8 list \<Rightarrow> (bytes \<times> nat \<times> u8 list) option" where
  "grep_lines pattern buf p outp =
     (case strchr buf p NL of
        None \<Rightarrow> None
      | Some None \<Rightarrow> Some (buf, p, outp)
      | Some (Some q) \<Rightarrow>
          let buf1 = buf(q := 0) in
          if match pattern (map buf1 [p..<q]) then
            let buf2 = buf1(q := NL) in grep_lines pattern buf2 (q + 1) (outp @ map buf2 [p..<q + 1])
          else grep_lines pattern buf1 (q + 1) outp)"

definition put_bytes :: "bytes \<Rightarrow> nat \<Rightarrow> u8 list \<Rightarrow> bytes" where
  "put_bytes b i xs = (\<lambda>k. if i \<le> k \<and> k < i + length xs then xs ! (k - i) else b k)"

partial_function (option) grep_loop ::
  "u8 list \<Rightarrow> u8 list list \<Rightarrow> bytes \<Rightarrow> nat \<Rightarrow> u8 list \<Rightarrow> u8 list option" where
  "grep_loop pattern inp buf m outp =
     (let (xs, inp') = read_c (1024 - m - 1) inp in
      if xs = [] then Some outp
      else
        let m1 = m + length xs;
            buf1 = (put_bytes buf m xs)(m1 := 0)
        in case grep_lines pattern buf1 0 outp of
             None \<Rightarrow> None
           | Some (buf2, p, outp') \<Rightarrow>
               if m1 > 0 then
                 let m2 = m1 - p
                 in grep_loop pattern inp' (put_bytes buf2 0 (map buf2 [p..<p + m2])) m2 outp'
               else grep_loop pattern inp' buf2 m1 outp')"

definition grep :: "u8 list \<Rightarrow> u8 list list \<Rightarrow> u8 list option" where
  "grep pattern inp = grep_loop pattern inp (\<lambda>_. 0) 0 []"

section \<open>What a pattern means\<close>

datatype item = One u8 | Star u8

definition accepts :: "u8 \<Rightarrow> u8 \<Rightarrow> bool" where
  "accepts c d \<longleftrightarrow> c = DOT \<or> c = d"

text \<open>The items of a pattern, and whether it ends in a \<open>$\<close> that stands for the end of the text.\<close>

fun items :: "u8 list \<Rightarrow> item list \<times> bool" where
  "items [] = ([], False)"
| "items [c] = (if c = DOLLAR then ([], True) else ([One c], False))"
| "items (c # d # re) =
     (if d = STAR then (let (is, e) = items re in (Star c # is, e))
      else (let (is, e) = items (d # re) in (One c # is, e)))"

primrec lang :: "item list \<Rightarrow> u8 list set" where
  "lang [] = {[]}"
| "lang (i # is) = (case i of
     One c \<Rightarrow> {d # w |d w. accepts c d \<and> w \<in> lang is}
   | Star c \<Rightarrow> {u @ w |u w. list_all (accepts c) u \<and> w \<in> lang is})"

text \<open>The texts of which a prefix, or all if \<open>e\<close> is set, is in the language.\<close>

definition begins :: "item list \<times> bool \<Rightarrow> u8 list set" where
  "begins p = {w @ post |w post. w \<in> lang (fst p) \<and> (post = [] \<or> \<not> snd p)}"

definition pattern_matches :: "u8 list \<Rightarrow> u8 list \<Rightarrow> bool" where
  "pattern_matches re text =
     (if re \<noteq> [] \<and> hd re = CARET then text \<in> begins (items (tl re))
      else \<exists>pre t. text = pre @ t \<and> t \<in> begins (items re))"

lemma begins_nil: "begins ([], e) = (if e then {[]} else UNIV)"
  by (auto simp: begins_def)

lemma beginsI: "w \<in> lang is \<Longrightarrow> post = [] \<or> \<not> e \<Longrightarrow> w @ post \<in> begins (is, e)"
  unfolding begins_def fst_conv snd_conv by blast

lemma beginsE:
  assumes "x \<in> begins (is, e)"
  obtains w post where "x = w @ post" and "w \<in> lang is" and "post = [] \<or> \<not> e"
  using assms unfolding begins_def fst_conv snd_conv by blast

lemma begins_One: "begins (One c # is, e) = {d # t |d t. accepts c d \<and> t \<in> begins (is, e)}"
proof (intro equalityI subsetI)
  fix x
  assume "x \<in> begins (One c # is, e)"
  then obtain w post where "x = w @ post" "w \<in> lang (One c # is)" and p: "post = [] \<or> \<not> e"
    by (rule beginsE)
  then obtain d v where "x = d # (v @ post)" "accepts c d" "v \<in> lang is" by auto
  moreover have "v @ post \<in> begins (is, e)" using \<open>v \<in> lang is\<close> p by (rule beginsI)
  ultimately show "x \<in> {d # t |d t. accepts c d \<and> t \<in> begins (is, e)}" by blast
next
  fix x
  assume "x \<in> {d # t |d t. accepts c d \<and> t \<in> begins (is, e)}"
  then obtain d t where t: "x = d # t" "accepts c d" "t \<in> begins (is, e)" by blast
  from t(3) obtain w post where "t = w @ post" "w \<in> lang is" and p: "post = [] \<or> \<not> e" by (rule beginsE)
  moreover have "d # w \<in> lang (One c # is)" using t(2) \<open>w \<in> lang is\<close> by simp
  ultimately show "x \<in> begins (One c # is, e)" using t(1) beginsI [of "d # w" "One c # is" post e] by simp
qed

lemma begins_Star: "begins (Star c # is, e) = {u @ t |u t. list_all (accepts c) u \<and> t \<in> begins (is, e)}"
proof (intro equalityI subsetI)
  fix x
  assume "x \<in> begins (Star c # is, e)"
  then obtain w post where "x = w @ post" "w \<in> lang (Star c # is)" and p: "post = [] \<or> \<not> e"
    by (rule beginsE)
  then obtain u v where "x = u @ (v @ post)" "list_all (accepts c) u" "v \<in> lang is" by auto
  moreover have "v @ post \<in> begins (is, e)" using \<open>v \<in> lang is\<close> p by (rule beginsI)
  ultimately show "x \<in> {u @ t |u t. list_all (accepts c) u \<and> t \<in> begins (is, e)}" by blast
next
  fix x
  assume "x \<in> {u @ t |u t. list_all (accepts c) u \<and> t \<in> begins (is, e)}"
  then obtain u t where t: "x = u @ t" "list_all (accepts c) u" "t \<in> begins (is, e)" by blast
  from t(3) obtain w post where "t = w @ post" "w \<in> lang is" and p: "post = [] \<or> \<not> e" by (rule beginsE)
  moreover have "u @ w \<in> lang (Star c # is)" using t(2) \<open>w \<in> lang is\<close> by auto
  ultimately show "x \<in> begins (Star c # is, e)" using t(1) beginsI [of "u @ w" "Star c # is" post e] by simp
qed

lemma items_Cons:
  "items (c # re) = (if re \<noteq> [] \<and> hd re = STAR then (Star c # fst (items (tl re)), snd (items (tl re)))
     else if c = DOLLAR \<and> re = [] then ([], True) else (One c # fst (items re), snd (items re)))"
  by (cases re) (auto simp: Let_def split_def)

lemma star_unfold:
  "text \<in> {u @ t |u t. list_all P u \<and> t \<in> A} \<longleftrightarrow>
     text \<in> A \<or> (\<exists>d text'. text = d # text' \<and> P d \<and> text' \<in> {u @ t |u t. list_all P u \<and> t \<in> A})"
  (is "?l \<longleftrightarrow> ?r")
proof
  assume ?l
  then obtain u t where "text = u @ t" "list_all P u" "t \<in> A" by auto
  then show ?r by (cases u) auto
next
  assume ?r
  then show ?l
  proof
    assume "text \<in> A"
    then have "text = [] @ text \<and> list_all P [] \<and> text \<in> A" by simp
    then show ?l by blast
  next
    assume "\<exists>d text'. text = d # text' \<and> P d \<and> text' \<in> {u @ t |u t. list_all P u \<and> t \<in> A}"
    then obtain d u t where "text = (d # u) @ t" "list_all P (d # u)" "t \<in> A" by auto
    then show ?l by blast
  qed
qed

lemma matcher_begins:
  "matchhere re text \<longleftrightarrow> text \<in> begins (items re)"
  "matchstar c re text \<longleftrightarrow> text \<in> begins (Star c # fst (items re), snd (items re))"
proof (induction re "text" and c re "text" rule: matchhere_matchstar.induct)
  case (1 x)
  then show ?case by (simp add: begins_nil)
next
  case (2 c re x)
  then show ?case
    by (cases x) (auto simp: items_Cons begins_nil begins_One accepts_def)
next
  case (3 c re x)
  show ?case
    unfolding begins_Star using 3 star_unfold [of x "accepts c" "begins (items re)"]
    by (cases x) (auto simp: begins_Star accepts_def)
qed

lemma match_from_iff: "match_from re text \<longleftrightarrow> (\<exists>pre t. text = pre @ t \<and> matchhere re t)"
  by (induction "text") (auto simp: Cons_eq_append_conv)

lemma match_pattern: "match = pattern_matches"
  by (simp add: fun_eq_iff match_def pattern_matches_def match_from_iff matcher_begins)

text \<open>
  \<open>match\<close> decides whether the text has a substring in the language of the pattern, beginning at the
  beginning of the text if the pattern starts with \<open>^\<close> and ending at its end if the pattern ends with
  \<open>$\<close>, where \<open>.\<close> stands for any byte and \<open>c*\<close> for any number of bytes that \<open>c\<close> stands for.
\<close>

theorem match_language: "match re x = pattern_matches re x"
  by (simp only: match_pattern)

section \<open>What grep prints\<close>

text \<open>The complete lines of a text, and the rest behind the last newline.\<close>

fun complete_lines :: "u8 list \<Rightarrow> u8 list list" and rest_line :: "u8 list \<Rightarrow> u8 list" where
  "complete_lines [] = []"
| "complete_lines (c # cs) = (if c = NL then [] # complete_lines cs else
     case complete_lines cs of [] \<Rightarrow> [] | l # ls \<Rightarrow> (c # l) # ls)"
| "rest_line [] = []"
| "rest_line (c # cs) = (if c = NL \<or> NL \<in> set cs then rest_line cs else c # cs)"

definition printed :: "u8 list \<Rightarrow> u8 list list \<Rightarrow> u8 list" where
  "printed re ls = concat (map (\<lambda>l. l @ [NL]) (filter (match re) ls))"

lemma strchr_finds:
  assumes "\<And>k. p \<le> k \<Longrightarrow> k < q \<Longrightarrow> buf k \<noteq> 0 \<and> buf k \<noteq> c" and "p \<le> q" and "buf q = 0 \<or> buf q = c"
  shows "strchr buf p c = Some (if buf q = 0 then None else Some q)"
  using assms
proof (induction "q - p" arbitrary: p)
  case 0
  then show ?case by (subst strchr.simps) auto
next
  case (Suc n)
  then have "p < q" by simp
  moreover have "strchr buf (Suc p) c = Some (if buf q = 0 then None else Some q)"
    using Suc by (intro Suc.hyps(1)) auto
  ultimately show ?case using Suc.prems(1) [of p] by (subst strchr.simps) simp
qed

lemma lines_none [simp]: "NL \<notin> set d \<Longrightarrow> complete_lines d = []" "NL \<notin> set d \<Longrightarrow> rest_line d = d"
  by (induction d) auto

lemma lines_split [simp]:
  "NL \<notin> set l \<Longrightarrow> complete_lines (l @ NL # d) = l # complete_lines d"
  "rest_line (l @ NL # d) = rest_line d"
  by (induction l) auto

lemma no_line_iff: "complete_lines d = [] \<longleftrightarrow> NL \<notin> set d"
proof
  assume "complete_lines d = []"
  show "NL \<notin> set d"
  proof
    assume "NL \<in> set d"
    then obtain l d' where "d = l @ NL # d'" "NL \<notin> set l" by (metis split_list_first)
    with \<open>complete_lines d = []\<close> show False by simp
  qed
qed simp

lemma rest_line_no_NL [simp]: "NL \<notin> set (rest_line d)"
  by (induction d) auto

lemma set_rest_line: "set (rest_line d) \<subseteq> set d"
  by (induction d) auto

text \<open>Splitting a text that arrives in two pieces: the rest of the first is put before the second.\<close>

lemma lines_append:
  "complete_lines (a @ b) = complete_lines a @ complete_lines (rest_line a @ b) \<and>
   rest_line (a @ b) = rest_line (rest_line a @ b)"
proof (induction a rule: length_induct)
  case (1 a)
  show ?case
  proof (cases "NL \<in> set a")
    case True
    then obtain l a' where a: "a = l @ NL # a'" "NL \<notin> set l" by (metis split_list_first)
    then have "complete_lines (a' @ b) = complete_lines a' @ complete_lines (rest_line a' @ b) \<and>
      rest_line (a' @ b) = rest_line (rest_line a' @ b)" using 1 by simp
    with a show ?thesis by simp
  qed simp
qed

lemma grep_lines_run:
  assumes "p \<le> m" and "map buf [p..<m] = d" and "0 \<notin> set d" and "buf m = 0"
  shows "\<exists>buf' p'. grep_lines re buf p outp = Some (buf', p', outp @ printed re (complete_lines d)) \<and>
    p' \<le> m \<and> map buf' [p'..<m] = rest_line d"
  using assms
proof (induction d arbitrary: p buf outp rule: length_induct)
  case (1 d)
  have at: "buf (p + k) = d ! k" if "k < length d" for k
    using that 1(3) by (auto simp: nth_map)
  have len: "p + length d = m" using 1(2,3) by auto
  have nz: "k < length d \<Longrightarrow> d ! k \<noteq> 0" for k using 1(4) by (metis nth_mem)
  show ?case
  proof (cases "NL \<in> set d")
    case False
    have "buf k \<noteq> 0 \<and> buf k \<noteq> NL" if "p \<le> k" "k < m" for k
      using at [of "k - p"] nz [of "k - p"] that len False by (metis add_diff_inverse_nat
          add_less_cancel_left not_less nth_mem)
    then have "strchr buf p NL = Some None"
      using strchr_finds [of p m buf NL] 1(2,5) by simp
    then show ?thesis using 1(2,3) False by (subst grep_lines.simps) (simp add: printed_def)
  next
    case True
    then obtain l d' where d: "d = l @ NL # d'" "NL \<notin> set l" by (metis split_list_first)
    define q where "q = p + length l"
    have q: "p \<le> q" "q < m" "buf q = NL" using len d(1) at [of "length l"] by (simp_all add: q_def)
    have l: "map buf [p..<q] = l"
      using at d(1) by (auto simp: q_def nth_append intro!: nth_equalityI)
    have d': "map buf [q + 1..<m] = d'"
    proof (rule nth_equalityI)
      show "length (map buf [q + 1..<m]) = length d'" using len d(1) by (simp add: q_def)
      show "map buf [q + 1..<m] ! k = d' ! k" if "k < length (map buf [q + 1..<m])" for k
        using that at [of "length l + Suc k"] len d(1) by (simp add: q_def nth_append add_ac)
    qed
    have "buf k \<noteq> 0 \<and> buf k \<noteq> NL" if "p \<le> k" "k < q" for k
    proof -
      have "buf k \<in> set (map buf [p..<q])" using that by simp
      then have "buf k \<in> set l" unfolding l .
      then show ?thesis using d 1(4) by auto
    qed
    then have c: "strchr buf p NL = Some (Some q)"
      using strchr_finds [of p q buf NL] q by simp
    have IH: "\<exists>buf' p'. grep_lines re b (q + 1) outp' =
        Some (buf', p', outp' @ printed re (complete_lines d')) \<and> p' \<le> m \<and> map buf' [p'..<m] = rest_line d'"
      if "b = buf(q := x)" for b x outp'
    proof -
      have "map b [q + 1..<m] = d'" using d' that by auto
      moreover have "b m = 0" using 1(5) q(2) that by simp
      ultimately show ?thesis using 1(1,4) d(1) q(2) by (simp add: Suc_leI)
    qed
    have m1: "map (buf(q := 0)) [p..<q] = l" "map (buf(q := NL)) [p..<q + 1] = l @ [NL]"
      using l q(1) by auto
    show ?thesis
      using IH [of "buf(q := NL)" NL "outp @ l @ [NL]"] IH [of "buf(q := 0)" 0 outp] d m1 c
      by (subst grep_lines.simps) (simp add: Let_def printed_def)
  qed
qed

lemma read_c_pieces:
  assumes "read_c n inp = (xs, inp')" and "[] \<notin> set inp" and "0 < n"
  shows "concat inp = xs @ concat inp'" and "[] \<notin> set inp'" and "length xs \<le> n"
    and "xs = [] \<longleftrightarrow> inp = []"
  using assms by (cases inp; auto split: if_splits)+

text \<open>No line, with its newline, is longer than the buffer.\<close>

definition short_lines :: "u8 list \<Rightarrow> bool" where
  "short_lines d \<longleftrightarrow> list_all (\<lambda>l. length l \<le> 1022) (complete_lines d @ [rest_line d])"

lemma short_lines_rest: "short_lines (a @ b) \<Longrightarrow> short_lines (rest_line a @ b)"
  using lines_append [of a b] by (simp add: short_lines_def)

lemma short_lines_begin:
  assumes "short_lines (r @ d)" and "NL \<notin> set r"
  shows "length r \<le> 1022"
proof (cases "NL \<in> set d")
  case True
  then obtain l d' where "d = l @ NL # d'" "NL \<notin> set l" by (metis split_list_first)
  then have "complete_lines (r @ d) = (r @ l) # complete_lines d'"
    using assms(2) lines_split(1) [of "r @ l" d'] by simp
  with assms(1) show ?thesis by (simp add: short_lines_def)
qed (use assms in \<open>simp add: short_lines_def\<close>)

lemma grep_loop_run:
  assumes "[] \<notin> set inp" and "0 \<notin> set (map buf [0..<m] @ concat inp)" and "NL \<notin> set (map buf [0..<m])"
    and "short_lines (map buf [0..<m] @ concat inp)"
  shows "grep_loop re inp buf m outp = Some (outp @ printed re (complete_lines (map buf [0..<m] @ concat inp)))"
  using assms
proof (induction "length (concat inp)" arbitrary: inp buf m outp rule: less_induct)
  case less
  let ?r = "map buf [0..<m]"
  have m: "m \<le> 1022" using short_lines_begin [OF less.prems(4,3)] by simp
  obtain xs inp' where rd: "read_c (1024 - m - 1) inp = (xs, inp')" by fastforce
  note rc = read_c_pieces [OF rd less.prems(1)]
  show ?case
  proof (cases "inp = []")
    case True
    with rd less.prems(3) show ?thesis by (subst grep_loop.simps) (auto simp: printed_def)
  next
    case False
    let ?m = "m + length xs"
    let ?b = "(put_bytes buf m xs)(?m := 0)"
    have "map ?b [0..<?m] = ?r @ xs"
      by (rule nth_equalityI) (auto simp: put_bytes_def nth_append)
    moreover have "0 \<notin> set (?r @ xs)" using less.prems(2) rc(1) m by auto
    ultimately obtain buf' p' where g: "grep_lines re ?b 0 outp =
        Some (buf', p', outp @ printed re (complete_lines (?r @ xs)))" "p' \<le> ?m"
        "map buf' [p'..<?m] = rest_line (?r @ xs)"
      using grep_lines_run [of 0 ?m ?b "?r @ xs" re outp] by auto
    let ?b2 = "put_bytes buf' 0 (map buf' [p'..<?m])"
    have b2: "map ?b2 [0..<?m - p'] = rest_line (?r @ xs)"
      using g(2) unfolding g(3) [symmetric] by (intro nth_equalityI) (auto simp: put_bytes_def)
    have c: "?r @ concat inp = (?r @ xs) @ concat inp'" using rc(1) m by simp
    have "xs \<noteq> []" using rc(4) m False by simp
    have "grep_loop re inp' ?b2 (?m - p') (outp @ printed re (complete_lines (?r @ xs))) =
      Some ((outp @ printed re (complete_lines (?r @ xs))) @
        printed re (complete_lines (map ?b2 [0..<?m - p'] @ concat inp')))"
    proof (rule less.hyps)
      show "length (concat inp') < length (concat inp)" using rc(1) m \<open>xs \<noteq> []\<close> by simp
      show "[] \<notin> set inp'" using rc(2) m by simp
      show "0 \<notin> set (map ?b2 [0..<?m - p'] @ concat inp')"
        using less.prems(2) set_rest_line [of "?r @ xs"] unfolding b2 c by auto
      show "NL \<notin> set (map ?b2 [0..<?m - p'])" unfolding b2 by simp
      show "short_lines (map ?b2 [0..<?m - p'] @ concat inp')"
        using less.prems(4) unfolding b2 c by (rule short_lines_rest)
    qed
    also have "\<dots> = Some (outp @ printed re (complete_lines (?r @ concat inp)))"
      unfolding b2 c using lines_append [of "?r @ xs" "concat inp'"] by (simp add: printed_def)
    finally show ?thesis
      using rd g \<open>xs \<noteq> []\<close> by (subst grep_loop.simps) (simp add: Let_def del: map_append)
  qed
qed

text \<open>
  C40: \<open>grep\<close> terminates and prints exactly the matching lines of its input, in order and each with its
  newline, in whatever pieces the input arrives, if it has no NUL byte and no line longer than 1022
  bytes; what comes after the last newline is never printed.
\<close>

theorem grep_prints:
  assumes "[] \<notin> set inp" and "0 \<notin> set (concat inp)" and "short_lines (concat inp)"
  shows "grep pattern inp = Some (concat (map (\<lambda>l. l @ [NL]) (filter (pattern_matches pattern) (complete_lines (concat inp)))))"
  using assms grep_loop_run [of inp "\<lambda>_. 0" 0 pattern "[]"] by (simp add: grep_def printed_def match_pattern)

text \<open>The pattern \<open>a.*c\<close> on the pieces \<open>xab\<close> and \<open>c\<close>, newline, \<open>ba\<close>, newline, \<open>abc\<close>.\<close>

theorem grep_prints_witness:
  "grep [97, 46, 42, 99] [[120, 97, 98], [99, 10, 98, 97, 10, 97, 98, 99]] = Some [120, 97, 98, 99, 10]"
proof -
  have "short_lines (concat [[120, 97, 98], [99, 10, 98, 97, 10, 97, 98, 99]])"
    by (simp add: short_lines_def)
  from grep_prints [OF _ _ this, of "[97, 46, 42, 99]"] show ?thesis
    by (simp add: match_pattern [symmetric] match_def)
qed

end
