(* ===== verification/Shell.thy ===== *)
theory Shell
  imports CString
begin

text \<open>
  The parser of user/sh.c. The buffer is the byte at each offset from its beginning, \<open>es\<close> the offset of
  the NUL that ends it, and the pointer \<open>*ps\<close> the state that the parsing functions advance. A pair of
  pointers \<open>q\<close>, \<open>eq\<close> to a word is the pair of their offsets. The parser is written in the program
  type of Prelude.thy: \<open>panic\<close>, which prints its message and exits, is \<open>Panic\<close>. The recursion of the
  parser is bounded by fuel, and running out of it is \<open>Blocked\<close>; \<open>parsecmd\<close> starts with an amount that
  is proved to be enough for every buffer.
\<close>

section \<open>Data\<close>

datatype 'w cmd =
    EXEC "'w list"
  | REDIR "'w cmd" 'w i32 i32
  | PIPE "'w cmd" "'w cmd"
  | LIST "'w cmd" "'w cmd"
  | BACK "'w cmd"

type_synonym word_ptr = "nat \<times> nat"

abbreviation (input) MAXARGS :: nat where "MAXARGS \<equiv> 10"

definition O_RDONLY :: i32 where "O_RDONLY = 0"
definition O_WRONLY :: i32 where "O_WRONLY = 1"
definition O_CREATE :: i32 where "O_CREATE = 0x200"
definition O_TRUNC :: i32 where "O_TRUNC = 0x400"

text \<open>The strings \<open>whitespace\<close> and \<open>symbols\<close>, and the symbols one by one.\<close>

definition whitespace :: "u8 list" where "whitespace = [32, 9, 13, 10, 11]"
definition symbols :: "u8 list" where "symbols = [60, 124, 62, 38, 59, 40, 41]"

abbreviation (input) LT :: u8 where "LT \<equiv> 60"
abbreviation (input) GT :: u8 where "GT \<equiv> 62"
abbreviation (input) BAR :: u8 where "BAR \<equiv> 124"
abbreviation (input) AMP :: u8 where "AMP \<equiv> 38"
abbreviation (input) SEMI :: u8 where "SEMI \<equiv> 59"
abbreviation (input) LPAR :: u8 where "LPAR \<equiv> 40"
abbreviation (input) RPAR :: u8 where "RPAR \<equiv> 41"

text \<open>What \<open>gettoken\<close> returns for \<open>>>\<close> and for a word.\<close>

abbreviation (input) PLUS :: u8 where "PLUS \<equiv> 43"
abbreviation (input) WORD :: u8 where "WORD \<equiv> 97"

section \<open>Tokens\<close>

text \<open>The loop \<open>while(s < es && P(*s)) s++\<close>.\<close>

function skip :: "(u8 \<Rightarrow> bool) \<Rightarrow> bytes \<Rightarrow> nat \<Rightarrow> nat \<Rightarrow> nat" where
  "skip P buf es s = (if s < es \<and> P (buf s) then skip P buf es (Suc s) else s)"
  by auto
termination
  by (relation "measure (\<lambda>(P, buf, es, s). es - s)") auto

declare skip.simps [simp del]

abbreviation is_space :: "u8 \<Rightarrow> bool" where "is_space c \<equiv> c \<in> set whitespace"
abbreviation is_symbol :: "u8 \<Rightarrow> bool" where "is_symbol c \<equiv> c \<in> set symbols"
abbreviation is_plain :: "u8 \<Rightarrow> bool" where "is_plain c \<equiv> \<not> is_space c \<and> \<not> is_symbol c"

definition gettoken :: "bytes \<Rightarrow> nat \<Rightarrow> (nat, u8 \<times> nat \<times> nat) prog" where
  "gettoken buf es = (\<lambda>ps.
     let q = skip is_space buf es ps;
         c = buf q;
         (ret, s) =
           (if c = 0 then (c, q)
            else if c \<in> {BAR, LPAR, RPAR, SEMI, AMP, LT} then (c, q + 1)
            else if c = GT then (if buf (q + 1) = GT then (PLUS, q + 2) else (c, q + 1))
            else (WORD, skip is_plain buf es q))
     in Ret (ret, q, s) (skip is_space buf es s))"

definition peek :: "bytes \<Rightarrow> nat \<Rightarrow> u8 list \<Rightarrow> (nat, bool) prog" where
  "peek buf es toks = (\<lambda>ps.
     let s = skip is_space buf es ps in Ret (buf s \<noteq> 0 \<and> buf s \<in> set toks) s)"

section \<open>The parser\<close>

definition out_of_fuel :: "(nat, 'a) prog" where
  "out_of_fuel = (\<lambda>s. Blocked s)"

definition wrap_redir :: "word_ptr cmd \<Rightarrow> u8 \<Rightarrow> word_ptr \<Rightarrow> word_ptr cmd" where
  "wrap_redir c tok f =
     (if tok = LT then REDIR c f O_RDONLY 0
      else if tok = GT then REDIR c f (O_WRONLY OR O_CREATE OR O_TRUNC) 1
      else if tok = PLUS then REDIR c f (O_WRONLY OR O_CREATE) 1
      else c)"

primrec parseredirs :: "nat \<Rightarrow> bytes \<Rightarrow> nat \<Rightarrow> word_ptr cmd \<Rightarrow> (nat, word_ptr cmd) prog" where
  "parseredirs 0 buf es c = out_of_fuel"
| "parseredirs (Suc n) buf es c =
     bind (peek buf es [LT, GT]) (\<lambda>more.
     if more then
       bind (gettoken buf es) (\<lambda>(tok, _, _).
       bind (gettoken buf es) (\<lambda>(tok', q, eq).
       if tok' \<noteq> WORD then panic ''missing file for redirection''
       else parseredirs n buf es (wrap_redir c tok (q, eq))))
     else return c)"

text \<open>
  \<open>parseexec\<close> stores into the \<open>execcmd\<close> it has allocated while \<open>ret\<close> is already wrapped in the
  redirections found so far: \<open>add_arg\<close> goes down to it. \<open>parse_args\<close> is the loop.
\<close>

primrec add_arg :: "'w cmd \<Rightarrow> 'w \<Rightarrow> 'w cmd" where
  "add_arg (EXEC ws) w = EXEC (ws @ [w])"
| "add_arg (REDIR c f m d) w = REDIR (add_arg c w) f m d"
| "add_arg (PIPE l r) w = PIPE l r"
| "add_arg (LIST l r) w = LIST l r"
| "add_arg (BACK c) w = BACK c"

primrec parse_args :: "nat \<Rightarrow> bytes \<Rightarrow> nat \<Rightarrow> nat \<Rightarrow> word_ptr cmd \<Rightarrow> (nat, word_ptr cmd) prog" where
  "parse_args 0 buf es argc ret = out_of_fuel"
| "parse_args (Suc n) buf es argc ret =
     bind (peek buf es [BAR, RPAR, AMP, SEMI]) (\<lambda>stop.
     if stop then return ret
     else
       bind (gettoken buf es) (\<lambda>(tok, q, eq).
       if tok = 0 then return ret
       else if tok \<noteq> WORD then panic ''syntax''
       else if argc + 1 \<ge> MAXARGS then panic ''too many args''
       else
         bind (parseredirs n buf es (add_arg ret (q, eq))) (\<lambda>ret'.
         parse_args n buf es (argc + 1) ret')))"

text \<open>The loop of \<open>parseline\<close> over \<open>&\<close>.\<close>

primrec parse_backs :: "nat \<Rightarrow> bytes \<Rightarrow> nat \<Rightarrow> word_ptr cmd \<Rightarrow> (nat, word_ptr cmd) prog" where
  "parse_backs 0 buf es c = out_of_fuel"
| "parse_backs (Suc n) buf es c =
     bind (peek buf es [AMP]) (\<lambda>more.
     if more then andthen (gettoken buf es) (parse_backs n buf es (BACK c))
     else return c)"

fun parseline :: "nat \<Rightarrow> bytes \<Rightarrow> nat \<Rightarrow> (nat, word_ptr cmd) prog"
  and parsepipe :: "nat \<Rightarrow> bytes \<Rightarrow> nat \<Rightarrow> (nat, word_ptr cmd) prog"
  and parseblock :: "nat \<Rightarrow> bytes \<Rightarrow> nat \<Rightarrow> (nat, word_ptr cmd) prog"
  and parseexec :: "nat \<Rightarrow> bytes \<Rightarrow> nat \<Rightarrow> (nat, word_ptr cmd) prog" where
  "parseline 0 buf es = out_of_fuel"
| "parseline (Suc n) buf es =
     bind (parsepipe n buf es) (\<lambda>c.
     bind (parse_backs n buf es c) (\<lambda>c'.
     bind (peek buf es [SEMI]) (\<lambda>more.
     if more then
       andthen (gettoken buf es)
       (bind (parseline n buf es) (\<lambda>r. return (LIST c' r)))
     else return c')))"
| "parsepipe 0 buf es = out_of_fuel"
| "parsepipe (Suc n) buf es =
     bind (parseexec n buf es) (\<lambda>c.
     bind (peek buf es [BAR]) (\<lambda>more.
     if more then
       andthen (gettoken buf es)
       (bind (parsepipe n buf es) (\<lambda>r. return (PIPE c r)))
     else return c))"
| "parseblock 0 buf es = out_of_fuel"
| "parseblock (Suc n) buf es =
     bind (peek buf es [LPAR]) (\<lambda>b.
     if \<not> b then panic ''parseblock''
     else
       andthen (gettoken buf es)
       (bind (parseline n buf es) (\<lambda>c.
        bind (peek buf es [RPAR]) (\<lambda>b'.
        if \<not> b' then panic ''syntax - missing )''
        else andthen (gettoken buf es) (parseredirs n buf es c)))))"
| "parseexec 0 buf es = out_of_fuel"
| "parseexec (Suc n) buf es =
     bind (peek buf es [LPAR]) (\<lambda>b.
     if b then parseblock n buf es
     else
       bind (parseredirs n buf es (EXEC [])) (\<lambda>ret.
       parse_args n buf es 0 ret))"

text \<open>The offsets at which \<open>nulterminate\<close> writes a NUL, in its order.\<close>

primrec nulterminate :: "word_ptr cmd \<Rightarrow> bytes \<Rightarrow> bytes" where
  "nulterminate (EXEC ws) buf = fold (\<lambda>(q, eq) b. b(eq := 0)) ws buf"
| "nulterminate (REDIR c f m d) buf = (nulterminate c buf)(snd f := 0)"
| "nulterminate (PIPE l r) buf = nulterminate r (nulterminate l buf)"
| "nulterminate (LIST l r) buf = nulterminate r (nulterminate l buf)"
| "nulterminate (BACK c) buf = nulterminate c buf"

text \<open>
  \<open>parsecmd\<close> on a buffer whose first NUL is at \<open>es\<close>, as \<open>strlen\<close> finds it: the command and the buffer
  with the NULs.
\<close>

definition parsecmd :: "bytes \<Rightarrow> nat \<Rightarrow> (nat, word_ptr cmd \<times> bytes) outcome" where
  "parsecmd buf es =
     bind (parseline (5 * es + 5) buf es) (\<lambda>c.
     bind (peek buf es []) (\<lambda>_.
     bind (gets (\<lambda>s. s)) (\<lambda>s.
     if s \<noteq> es then panic ''syntax''
     else return (c, nulterminate c buf)))) 0"

section \<open>What the tokens are\<close>

definition c_buffer :: "bytes \<Rightarrow> nat \<Rightarrow> bool" where
  "c_buffer buf es \<longleftrightarrow> buf es = 0 \<and> (\<forall>i<es. buf i \<noteq> 0)"

lemma skip_ge: "s \<le> skip P buf es s"
proof (induction P buf es s rule: skip.induct)
  case (1 P buf es s)
  then show ?case by (subst skip.simps) (auto intro: Suc_leD)
qed

lemma skip_le: "s \<le> es \<Longrightarrow> skip P buf es s \<le> es"
proof (induction P buf es s rule: skip.induct)
  case (1 P buf es s)
  then show ?case by (subst skip.simps) auto
qed

lemma skip_over: "s \<le> i \<Longrightarrow> i < skip P buf es s \<Longrightarrow> P (buf i)"
proof (induction P buf es s rule: skip.induct)
  case (1 P buf es s)
  then have "s < es \<and> P (buf s)" by (subst (asm) (2) skip.simps) (auto split: if_splits)
  then have "i < skip P buf es (Suc s)" using 1(3) by (subst (asm) skip.simps) simp
  then show ?case using 1 \<open>s < es \<and> P (buf s)\<close> by (cases "i = s") simp_all
qed

lemma skip_end: "s \<le> es \<Longrightarrow> skip P buf es s = es \<or> skip P buf es s < es \<and> \<not> P (buf (skip P buf es s))"
proof (induction P buf es s rule: skip.induct)
  case (1 P buf es s)
  show ?case
  proof (cases "s < es \<and> P (buf s)")
    case True
    then have "skip P buf es s = skip P buf es (Suc s)" by (subst skip.simps) simp
    with 1 True show ?thesis by simp
  next
    case False
    then have "skip P buf es s = s" by (subst skip.simps) auto
    with 1(2) False show ?thesis by auto
  qed
qed

text \<open>A word of the buffer: plain bytes, up to the end of the buffer or a byte that is not plain.\<close>

definition is_word :: "bytes \<Rightarrow> nat \<Rightarrow> word_ptr \<Rightarrow> bool" where
  "is_word buf es w \<longleftrightarrow> fst w < snd w \<and> snd w \<le> es \<and> (\<forall>i. fst w \<le> i \<and> i < snd w \<longrightarrow> is_plain (buf i)) \<and>
     (snd w = es \<or> \<not> is_plain (buf (snd w)))"

text \<open>\<open>gettoken\<close> step by step: \<open>q\<close> and \<open>e\<close> are the ends of the token.\<close>

lemma gettoken_cases:
  assumes "c_buffer buf es" and "s \<le> es"
  obtains tok q e where "gettoken buf es s = Ret (tok, q, e) (skip is_space buf es e)"
    and "s \<le> q" and "q \<le> e" and "e \<le> es" and "tok \<noteq> 0 \<Longrightarrow> q < e" and "tok = WORD \<Longrightarrow> is_word buf es (q, e)"
    and "q = skip is_space buf es s" and "tok = 0 \<Longrightarrow> q = es"
proof -
  define q where "q = skip is_space buf es s"
  have q: "s \<le> q" "q \<le> es" unfolding q_def using assms(2) by (simp_all add: skip_ge skip_le)
  have stop: "q = es \<or> q < es \<and> \<not> is_space (buf q)" unfolding q_def by (rule skip_end [OF assms(2)])
  have nul: "buf q = 0 \<longleftrightarrow> q = es" using assms(1) q(2) by (auto simp: c_buffer_def le_less)
  consider "buf q = 0" | "buf q \<in> {BAR, LPAR, RPAR, SEMI, AMP, LT}"
    | "buf q = GT" "buf (q + 1) = GT" | "buf q = GT" "buf (q + 1) \<noteq> GT"
    | "buf q \<noteq> 0" "\<not> is_symbol (buf q)" by (auto simp: symbols_def)
  then show ?thesis
  proof cases
    case 1
    then show ?thesis using q nul by (intro that [of 0 q q]) (simp_all add: gettoken_def q_def [symmetric])
  next
    case 2
    then have "q < es" "buf q \<noteq> 0" "buf q \<noteq> WORD" using nul q by auto
    with 2 q show ?thesis
      by (intro that [of "buf q" q "q + 1"]) (auto simp: gettoken_def q_def [symmetric])
  next
    case 3
    then have "q + 1 \<noteq> es" "q \<noteq> es" using assms(1) by (auto simp: c_buffer_def)
    with 3 q show ?thesis
      by (intro that [of PLUS q "q + 2"]) (auto simp: gettoken_def q_def [symmetric])
  next
    case 4
    then have "q < es" using nul q by auto
    with 4 q show ?thesis
      by (intro that [of GT q "q + 1"]) (auto simp: gettoken_def q_def [symmetric])
  next
    case 5
    define e where "e = skip is_plain buf es q"
    have "q < es" "is_plain (buf q)" using nul stop 5 q by auto
    then have "e = skip is_plain buf es (Suc q)" unfolding e_def by (subst skip.simps) simp
    then have e: "q < e" "e \<le> es" using skip_ge [of "Suc q" is_plain buf es] skip_le [of "Suc q" es is_plain buf] \<open>q < es\<close>
      by simp_all
    have "is_word buf es (q, e)"
      using e skip_over [of q _ is_plain buf es] skip_end [OF q(2), of is_plain buf]
      by (auto simp: is_word_def e_def)
    moreover have "buf q \<notin> {BAR, LPAR, RPAR, SEMI, AMP, LT}" "buf q \<noteq> GT"
      using 5(2) by (simp_all add: symbols_def)
    ultimately show ?thesis
      using 5(1) q e
      by (intro that [of WORD q e]) (simp_all add: gettoken_def q_def [symmetric] e_def [symmetric])
  qed
qed

lemma peek_cases:
  assumes "c_buffer buf es" and "s \<le> es"
  obtains b t where "peek buf es toks s = Ret b t" and "s \<le> t" and "t \<le> es" and "b \<Longrightarrow> t < es"
    and "b \<Longrightarrow> buf t \<in> set toks" and "t < es \<Longrightarrow> \<not> is_space (buf t)"
proof -
  define t where "t = skip is_space buf es s"
  have t: "s \<le> t" "t \<le> es" unfolding t_def using assms(2) by (simp_all add: skip_ge skip_le)
  have "t = es \<or> t < es \<and> \<not> is_space (buf t)" unfolding t_def by (rule skip_end [OF assms(2)])
  moreover have "buf t = 0 \<longleftrightarrow> t = es" using assms(1) t(2) by (auto simp: c_buffer_def le_less)
  ultimately show ?thesis
    using t by (intro that [of "buf t \<noteq> 0 \<and> buf t \<in> set toks" t]) (auto simp: peek_def t_def [symmetric] Let_def)
qed

section \<open>The parser ends, and every word it returns is a word\<close>

text \<open>
  \<open>parses es k Q f s\<close>: from \<open>s\<close> on, \<open>f\<close> does not run out of fuel, and if it returns it has advanced by
  at least \<open>k\<close> inside the buffer and its result satisfies \<open>Q\<close>.
\<close>

definition parses :: "nat \<Rightarrow> nat \<Rightarrow> ('a \<Rightarrow> bool) \<Rightarrow> (nat, 'a) prog \<Rightarrow> nat \<Rightarrow> bool" where
  "parses es k Q f s \<longleftrightarrow>
     (case f s of Ret x t \<Rightarrow> s + k \<le> t \<and> t \<le> es \<and> Q x | Panic m \<Rightarrow> True | Blocked t \<Rightarrow> False)"

lemma parses_bind:
  assumes "parses es k Q f s" and "\<And>x t. s + k \<le> t \<Longrightarrow> t \<le> es \<Longrightarrow> Q x \<Longrightarrow> parses es 0 R (g x) t"
  shows "parses es 0 R (bind f g) s"
proof (cases "f s")
  case (Ret x t)
  then have t: "s + k \<le> t" "t \<le> es" "Q x" using assms(1) by (simp_all add: parses_def)
  then have "parses es 0 R (g x) t" by (rule assms(2))
  then show ?thesis using t(1) Ret by (auto simp: parses_def bind_def split: outcome.splits)
next
  case (Panic m)
  then show ?thesis by (simp add: parses_def bind_def)
next
  case (Blocked t)
  then show ?thesis using assms(1) by (simp add: parses_def)
qed

lemma parses_return: "s \<le> es \<Longrightarrow> Q x \<Longrightarrow> parses es 0 Q (return x) s"
  by (simp add: parses_def return_def)

lemma parses_panic: "parses es k Q (panic m) s"
  by (simp add: parses_def panic_def)

lemma parses_peek:
  assumes "c_buffer buf es" and "s \<le> es"
    and "\<And>t. s \<le> t \<Longrightarrow> t < es \<Longrightarrow> \<not> is_space (buf t) \<Longrightarrow> parses es 0 R (g True) t"
    and "\<And>t. s \<le> t \<Longrightarrow> t \<le> es \<Longrightarrow> parses es 0 R (g False) t"
  shows "parses es 0 R (bind (peek buf es toks) g) s"
proof -
  obtain b t where t: "peek buf es toks s = Ret b t" "s \<le> t" "t \<le> es" "b \<Longrightarrow> t < es"
    "b \<Longrightarrow> buf t \<in> set toks" "t < es \<Longrightarrow> \<not> is_space (buf t)" using assms(1,2) by (rule peek_cases [where toks = toks]) blast
  then have "parses es 0 R (g b) t" using assms(3,4) by (cases b) simp_all
  then show ?thesis using t(1,2) by (auto simp: parses_def bind_def split: outcome.splits)
qed

lemma parses_gettoken:
  assumes "c_buffer buf es" and "s \<le> es"
    and "\<And>tok q e t. s \<le> t \<Longrightarrow> t \<le> es \<Longrightarrow> (tok \<noteq> 0 \<Longrightarrow> s < t) \<Longrightarrow> (tok = WORD \<Longrightarrow> is_word buf es (q, e)) \<Longrightarrow>
      (tok = 0 \<Longrightarrow> skip is_space buf es s = es) \<Longrightarrow> parses es 0 R (g (tok, q, e)) t"
  shows "parses es 0 R (bind (gettoken buf es) g) s"
proof -
  obtain tok q e where g: "gettoken buf es s = Ret (tok, q, e) (skip is_space buf es e)" "s \<le> q" "q \<le> e"
    "e \<le> es" "tok \<noteq> 0 \<Longrightarrow> q < e" "tok = WORD \<Longrightarrow> is_word buf es (q, e)" "q = skip is_space buf es s" "tok = 0 \<Longrightarrow> q = es"
    using assms(1,2) by (rule gettoken_cases) blast
  let ?t = "skip is_space buf es e"
  have t: "e \<le> ?t" "?t \<le> es" using skip_ge skip_le [OF g(4)] by auto
  have "parses es 0 R (g (tok, q, e)) ?t"
    using g t by (intro assms(3)) auto
  then show ?thesis using g(1,2,3) t by (auto simp: parses_def bind_def split: outcome.splits)
qed

text \<open>The token behind a successful \<open>peek\<close> is there.\<close>

lemma parses_gettoken_at:
  assumes "c_buffer buf es" and "s < es" and "\<not> is_space (buf s)"
    and "\<And>tok q e t. s < t \<Longrightarrow> t \<le> es \<Longrightarrow> (tok = WORD \<Longrightarrow> is_word buf es (q, e)) \<Longrightarrow> parses es 0 R (g (tok, q, e)) t"
  shows "parses es 0 R (bind (gettoken buf es) g) s"
proof (rule parses_gettoken [OF assms(1)])
  have "skip is_space buf es s = s" using assms(3) by (subst skip.simps) simp
  then show "parses es 0 R (g (tok, q, e)) t"
    if "s \<le> t" "t \<le> es" "tok \<noteq> 0 \<Longrightarrow> s < t" "tok = WORD \<Longrightarrow> is_word buf es (q, e)"
      "tok = 0 \<Longrightarrow> skip is_space buf es s = es" for tok q e t
    using that assms(2,4) by (metis less_irrefl)
qed (use assms(2) in simp)

definition good_words :: "bytes \<Rightarrow> nat \<Rightarrow> word_ptr cmd \<Rightarrow> bool" where
  "good_words buf es c \<longleftrightarrow> (\<forall>w\<in>set_cmd c. is_word buf es w)"

lemma good_words_simps [simp]:
  "good_words buf es (EXEC ws) \<longleftrightarrow> (\<forall>w\<in>set ws. is_word buf es w)"
  "good_words buf es (REDIR c f m d) \<longleftrightarrow> good_words buf es c \<and> is_word buf es f"
  "good_words buf es (PIPE l r) \<longleftrightarrow> good_words buf es l \<and> good_words buf es r"
  "good_words buf es (LIST l r) \<longleftrightarrow> good_words buf es l \<and> good_words buf es r"
  "good_words buf es (BACK c) \<longleftrightarrow> good_words buf es c"
  by (auto simp: good_words_def)

lemma good_words_add: "good_words buf es c \<Longrightarrow> is_word buf es w \<Longrightarrow> good_words buf es (add_arg c w)"
  by (induction c) auto

lemma good_words_wrap: "good_words buf es c \<Longrightarrow> is_word buf es w \<Longrightarrow> good_words buf es (wrap_redir c tok w)"
  by (simp add: wrap_redir_def)

lemma parseredirs_parses:
  assumes "c_buffer buf es"
  shows "s \<le> es \<Longrightarrow> es - s < n \<Longrightarrow> good_words buf es c \<Longrightarrow>
    parses es 0 (good_words buf es) (parseredirs n buf es c) s"
proof (induction n arbitrary: s c)
  case (Suc n)
  show ?case
    unfolding parseredirs.simps
  proof (rule parses_peek [OF assms Suc.prems(1)]; simp only: if_True if_False)
    fix t
    assume t: "s \<le> t" "t < es" "\<not> is_space (buf t)"
    show "parses es 0 (good_words buf es) (bind (gettoken buf es) (\<lambda>(tok, _, _).
       bind (gettoken buf es) (\<lambda>(tok', q, eq).
       if tok' \<noteq> WORD then panic ''missing file for redirection''
       else parseredirs n buf es (wrap_redir c tok (q, eq))))) t"
    proof (rule parses_gettoken_at [OF assms t(2,3)], unfold prod.case, rule parses_gettoken [OF assms], assumption, unfold prod.case)
      fix tok q e t1 tok' q' e' t2
      assume h: "t < t1" "t1 \<le> t2" "t2 \<le> es" "tok' = WORD \<Longrightarrow> is_word buf es (q', e')"
      then have "parses es 0 (good_words buf es) (parseredirs n buf es (wrap_redir c tok (q', e'))) t2" if "tok' = WORD"
        using that t Suc.prems by (intro Suc.IH good_words_wrap) auto
      then show "parses es 0 (good_words buf es) (if tok' \<noteq> WORD then panic ''missing file for redirection''
         else parseredirs n buf es (wrap_redir c tok (q', e'))) t2"
        by (simp add: parses_panic)
    qed
  qed (use Suc.prems in \<open>simp add: parses_return\<close>)
qed simp

lemma parse_args_parses:
  assumes "c_buffer buf es"
  shows "s \<le> es \<Longrightarrow> es - s < n \<Longrightarrow> good_words buf es c \<Longrightarrow>
    parses es 0 (good_words buf es) (parse_args n buf es argc c) s"
proof (induction n arbitrary: s c argc)
  case (Suc n)
  show ?case
    unfolding parse_args.simps
  proof (rule parses_peek [OF assms Suc.prems(1)]; simp only: if_True if_False)
    fix t
    assume t: "s \<le> t" "t \<le> es"
    show "parses es 0 (good_words buf es) (bind (gettoken buf es) (\<lambda>(tok, q, eq).
       if tok = 0 then return c
       else if tok \<noteq> WORD then panic ''syntax''
       else if argc + 1 \<ge> MAXARGS then panic ''too many args''
       else bind (parseredirs n buf es (add_arg c (q, eq))) (\<lambda>ret'. parse_args n buf es (argc + 1) ret'))) t"
    proof (rule parses_gettoken [OF assms t(2)], unfold prod.case)
      fix tok q e t1
      assume h: "t \<le> t1" "t1 \<le> es" "tok \<noteq> 0 \<Longrightarrow> t < t1" "tok = WORD \<Longrightarrow> is_word buf es (q, e)"
      have "parses es 0 (good_words buf es)
          (bind (parseredirs n buf es (add_arg c (q, e))) (\<lambda>ret'. parse_args n buf es (argc + 1) ret')) t1"
        if w: "tok = WORD"
      proof (rule parses_bind [OF parseredirs_parses [OF assms]])
        have "t < t1" using h(3) w by simp
        then show "t1 \<le> es" "es - t1 < n" using h(2) t Suc.prems by auto
        show "good_words buf es (add_arg c (q, e))" using h(4) [OF w] Suc.prems(3) by (intro good_words_add)
        show "parses es 0 (good_words buf es) (parse_args n buf es (argc + 1) x) t2"
          if "t1 + 0 \<le> t2" "t2 \<le> es" "good_words buf es x" for x t2
          using that \<open>t < t1\<close> t Suc.prems by (intro Suc.IH) auto
      qed
      then show "parses es 0 (good_words buf es) (if tok = 0 then return c
         else if tok \<noteq> WORD then panic ''syntax''
         else if argc + 1 \<ge> MAXARGS then panic ''too many args''
         else bind (parseredirs n buf es (add_arg c (q, e))) (\<lambda>ret'. parse_args n buf es (argc + 1) ret')) t1"
        using h(2) Suc.prems(3) by (simp add: parses_panic parses_return)
    qed
  qed (use Suc.prems in \<open>simp add: parses_return\<close>)
qed simp

lemma parse_backs_parses:
  assumes "c_buffer buf es"
  shows "s \<le> es \<Longrightarrow> es - s < n \<Longrightarrow> good_words buf es c \<Longrightarrow>
    parses es 0 (good_words buf es) (parse_backs n buf es c) s"
proof (induction n arbitrary: s c)
  case (Suc n)
  show ?case
    unfolding parse_backs.simps
  proof (rule parses_peek [OF assms Suc.prems(1)]; simp only: if_True if_False)
    fix t
    assume t: "s \<le> t" "t < es" "\<not> is_space (buf t)"
    show "parses es 0 (good_words buf es) (andthen (gettoken buf es) (parse_backs n buf es (BACK c))) t"
      using t Suc.prems by (intro parses_gettoken_at [OF assms t(2,3)] Suc.IH) auto
  qed (use Suc.prems in \<open>simp add: parses_return\<close>)
qed simp

text \<open>
  Every \<open>(\<close> takes one byte of the buffer and at most four calls, and the loops take a byte in every
  round: five times the bytes that are left is enough fuel. \<open>fuelled buf es k f\<close>: with five units for
  every byte and \<open>k\<close> more, \<open>f\<close> does not run out.
\<close>

definition fuelled :: "bytes \<Rightarrow> nat \<Rightarrow> nat \<Rightarrow> nat \<Rightarrow> (nat, word_ptr cmd) prog \<Rightarrow> bool" where
  "fuelled buf es k n f \<longleftrightarrow> (\<forall>s\<le>es. 5 * (es - s) + k \<le> n \<longrightarrow> parses es 0 (good_words buf es) f s)"

lemma fuelledD: "fuelled buf es k n f \<Longrightarrow> s \<le> es \<Longrightarrow> 5 * (es - s) + k \<le> n \<Longrightarrow> parses es 0 (good_words buf es) f s"
  by (simp add: fuelled_def)

text \<open>A token, another part and the two parts combined: the ends of \<open>parseline\<close> and \<open>parsepipe\<close>.\<close>

lemma parses_rest:
  assumes "c_buffer buf es" and "fuelled buf es k n f" and "t \<le> es" and "5 * (es - t) + k \<le> n + 5"
    and "good_words buf es c" and "\<And>r. good_words buf es r \<Longrightarrow> good_words buf es (g c r)"
  shows "parses es 0 (good_words buf es) (bind (peek buf es toks) (\<lambda>more.
    if more then andthen (gettoken buf es) (bind f (\<lambda>r. return (g c r))) else return c)) t"
proof (rule parses_peek [OF assms(1,3)]; simp only: if_True if_False)
  fix t1
  assume t1: "t \<le> t1" "t1 < es" "\<not> is_space (buf t1)"
  then show "parses es 0 (good_words buf es) (andthen (gettoken buf es) (bind f (\<lambda>r. return (g c r)))) t1"
    using assms(3-6)
    by (intro parses_gettoken_at [OF assms(1) t1(2,3)] parses_bind [OF fuelledD [OF assms(2)]] parses_return) auto
qed (use assms(5) in \<open>simp add: parses_return\<close>)

lemma parseline_step:
  assumes "c_buffer buf es" and "fuelled buf es 4 n (parsepipe n buf es)" and "fuelled buf es 5 n (parseline n buf es)"
  shows "fuelled buf es 5 (Suc n) (parseline (Suc n) buf es)"
  unfolding fuelled_def parseline.simps
proof (intro allI impI parses_bind [OF fuelledD [OF assms(2)]])
  fix s c t
  assume s: "s \<le> es" "5 * (es - s) + 5 \<le> Suc n" and t: "s + 0 \<le> t" "t \<le> es" "good_words buf es c"
  show "parses es 0 (good_words buf es) (bind (parse_backs n buf es c) (\<lambda>c'.
     bind (peek buf es [SEMI]) (\<lambda>more. if more then andthen (gettoken buf es)
       (bind (parseline n buf es) (\<lambda>r. return (LIST c' r))) else return c'))) t"
  proof (rule parses_bind [OF parse_backs_parses [OF assms(1) t(2) _ t(3)]])
    show "es - t < n" using s t by auto
    show "parses es 0 (good_words buf es) (bind (peek buf es [SEMI]) (\<lambda>more. if more then
        andthen (gettoken buf es) (bind (parseline n buf es) (\<lambda>r. return (LIST c' r))) else return c')) t1"
      if "t + 0 \<le> t1" "t1 \<le> es" "good_words buf es c'" for c' t1
      using that s t by (intro parses_rest [OF assms(1,3)]) auto
  qed
qed auto

lemma parsepipe_step:
  assumes "c_buffer buf es" and "fuelled buf es 3 n (parseexec n buf es)" and "fuelled buf es 4 n (parsepipe n buf es)"
  shows "fuelled buf es 4 (Suc n) (parsepipe (Suc n) buf es)"
  unfolding fuelled_def parsepipe.simps
proof (intro allI impI parses_bind [OF fuelledD [OF assms(2)]])
  fix s c t
  assume "s \<le> es" "5 * (es - s) + 4 \<le> Suc n" "s + 0 \<le> t" "t \<le> es" "good_words buf es c"
  then show "parses es 0 (good_words buf es) (bind (peek buf es [BAR]) (\<lambda>more. if more then
      andthen (gettoken buf es) (bind (parsepipe n buf es) (\<lambda>r. return (PIPE c r))) else return c)) t"
    by (intro parses_rest [OF assms(1,3)]) auto
qed auto

lemma parseblock_step:
  assumes "c_buffer buf es" and "fuelled buf es 5 n (parseline n buf es)"
  shows "fuelled buf es 2 (Suc n) (parseblock (Suc n) buf es)"
  unfolding fuelled_def parseblock.simps
proof (intro allI impI)
  fix s
  assume s: "s \<le> es" "5 * (es - s) + 2 \<le> Suc n"
  let ?fin = "\<lambda>c. bind (peek buf es [RPAR]) (\<lambda>b'. if \<not> b' then panic ''syntax - missing )''
        else andthen (gettoken buf es) (parseredirs n buf es c))"
  have rpar: "parses es 0 (good_words buf es) (?fin c) t" if t: "s < t" "t \<le> es" "good_words buf es c" for t c
  proof (rule parses_peek [OF assms(1) t(2)]; simp only: not_True_eq_False not_False_eq_True if_True if_False parses_panic)
    fix t1
    assume t1: "t \<le> t1" "t1 < es" "\<not> is_space (buf t1)"
    show "parses es 0 (good_words buf es) (andthen (gettoken buf es) (parseredirs n buf es c)) t1"
      using s t t1 by (intro parses_gettoken_at [OF assms(1) t1(2,3)] parseredirs_parses [OF assms(1)]) auto
  qed
  show "parses es 0 (good_words buf es) (bind (peek buf es [LPAR]) (\<lambda>b. if \<not> b then panic ''parseblock''
       else andthen (gettoken buf es) (bind (parseline n buf es) ?fin))) s"
  proof (rule parses_peek [OF assms(1) s(1)]; simp only: not_True_eq_False not_False_eq_True if_True if_False parses_panic)
    fix t
    assume t: "s \<le> t" "t < es" "\<not> is_space (buf t)"
    show "parses es 0 (good_words buf es) (andthen (gettoken buf es) (bind (parseline n buf es) ?fin)) t"
      using s t by (intro parses_gettoken_at [OF assms(1) t(2,3)] parses_bind [OF fuelledD [OF assms(2)]] rpar) auto
  qed
qed

lemma parseexec_step:
  assumes "c_buffer buf es" and "fuelled buf es 2 n (parseblock n buf es)"
  shows "fuelled buf es 3 (Suc n) (parseexec (Suc n) buf es)"
  unfolding fuelled_def parseexec.simps
proof (intro allI impI)
  fix s
  assume s: "s \<le> es" "5 * (es - s) + 3 \<le> Suc n"
  show "parses es 0 (good_words buf es) (bind (peek buf es [LPAR]) (\<lambda>b. if b then parseblock n buf es
     else bind (parseredirs n buf es (EXEC [])) (parse_args n buf es 0))) s"
  proof (rule parses_peek [OF assms(1) s(1)]; simp only: if_True if_False)
    show "parses es 0 (good_words buf es) (parseblock n buf es) t" if "s \<le> t" "t < es" for t
      using s that by (intro fuelledD [OF assms(2)]) auto
    show "parses es 0 (good_words buf es) (bind (parseredirs n buf es (EXEC [])) (parse_args n buf es 0)) t"
      if "s \<le> t" "t \<le> es" for t
      using s that by (intro parses_bind [OF parseredirs_parses [OF assms(1)]] parse_args_parses [OF assms(1)]) auto
  qed
qed

lemma parser_fuelled:
  assumes "c_buffer buf es"
  shows "fuelled buf es 5 n (parseline n buf es)" and "fuelled buf es 4 n (parsepipe n buf es)"
    and "fuelled buf es 2 n (parseblock n buf es)" and "fuelled buf es 3 n (parseexec n buf es)"
proof (induction n)
  case 0
  {
    case 1 then show ?case by (simp add: fuelled_def)
  next
    case 2 then show ?case by (simp add: fuelled_def)
  next
    case 3 then show ?case by (simp add: fuelled_def)
  next
    case 4 then show ?case by (simp add: fuelled_def)
  }
next
  case (Suc n)
  {
    case 1 then show ?case using Suc by (intro parseline_step [OF assms])
  next
    case 2 then show ?case using Suc by (intro parsepipe_step [OF assms])
  next
    case 3 then show ?case using Suc by (intro parseblock_step [OF assms])
  next
    case 4 then show ?case using Suc by (intro parseexec_step [OF assms])
  }
qed

lemma fold_nul: "fold (\<lambda>(q, eq) b. b(eq := 0)) ws buf i = (if i \<in> snd ` set ws then 0 else buf i)"
  by (induction ws arbitrary: buf) auto

lemma nulterminate_at: "nulterminate c buf i = (if i \<in> snd ` set_cmd c then 0 else buf i)"
proof (induction c arbitrary: buf)
  case (EXEC ws)
  then show ?case by (simp add: fold_nul)
qed auto

text \<open>No NUL falls into a word: a NUL is written only where a word has ended.\<close>

lemma nulterminate_word:
  assumes "c_buffer buf es" and "good_words buf es c" and "(q, e) \<in> set_cmd c"
  shows "q < e" and "nulterminate c buf e = 0"
    and "q \<le> i \<Longrightarrow> i < e \<Longrightarrow> nulterminate c buf i = buf i \<and> buf i \<noteq> 0"
proof -
  have w: "is_word buf es (q, e)" using assms(2,3) by (simp add: good_words_def)
  then show "q < e" by (simp add: is_word_def)
  show "nulterminate c buf e = 0" using assms(3) by (force simp: nulterminate_at)
  assume i: "q \<le> i" "i < e"
  then have "i < es" "is_plain (buf i)" using w by (auto simp: is_word_def)
  then have "i \<notin> snd ` set_cmd c"
    using assms(2) by (fastforce simp: good_words_def is_word_def)
  then show "nulterminate c buf i = buf i \<and> buf i \<noteq> 0"
    using \<open>i < es\<close> assms(1) by (simp add: nulterminate_at c_buffer_def)
qed

text \<open>
  C39: whatever line is typed, \<open>parsecmd\<close> comes to an end; if it accepts the line it has read all of it,
  and after \<open>nulterminate\<close> every argument and file name of the command is the string of bytes that
  stood between its two pointers, unchanged and ended by a NUL.
\<close>

theorem parsecmd_words:
  assumes "c_buffer buf es"
  shows "case parsecmd buf es of
      Ret (c, b) t \<Rightarrow> t = es \<and> (\<forall>(q, e)\<in>set_cmd c. q < e \<and> b e = 0 \<and> (\<forall>i\<in>{q..<e}. b i = buf i \<and> b i \<noteq> 0))
    | Panic m \<Rightarrow> True
    | Blocked t \<Rightarrow> False"
proof -
  have "parses es 0 (good_words buf es) (parseline (5 * es + 5) buf es) 0"
    using fuelledD [OF parser_fuelled(1) [OF assms]] by simp
  then consider (ok) c t where "parseline (5 * es + 5) buf es 0 = Ret c t" "good_words buf es c"
    | (bad) m where "parseline (5 * es + 5) buf es 0 = Panic m"
    by (auto simp: parses_def split: outcome.splits)
  then show ?thesis
  proof cases
    case (ok c t)
    have "q < e \<and> nulterminate c buf e = 0 \<and> (\<forall>i\<in>{q..<e}. nulterminate c buf i = buf i \<and> nulterminate c buf i \<noteq> 0)"
      if "(q, e) \<in> set_cmd c" for q e
      using nulterminate_word [OF assms ok(2) that] by simp
    then show ?thesis using ok(1) by (auto simp: parsecmd_def prog_simps peek_def Let_def)
  qed (simp add: parsecmd_def prog_simps)
qed

text \<open>The buffer that holds a line.\<close>

definition line_buf :: "u8 list \<Rightarrow> bytes" where
  "line_buf xs = (\<lambda>i. if i < length xs then xs ! i else 0)"

lemma map_line_buf: "map (line_buf xs) [0..<length xs] = xs"
  by (rule nth_equalityI) (simp_all add: line_buf_def)

theorem parsecmd_words_witness:
  "case parsecmd (line_buf [97, 60, 98]) 3 of
      Ret (c, b) t \<Rightarrow> c = REDIR (EXEC [(0, 1)]) (2, 3) 0 0 \<and> b 0 = 97 \<and> b 1 = 0 \<and> b 2 = 98 \<and> b 3 = 0
    | Panic m \<Rightarrow> False | Blocked t \<Rightarrow> False"
proof -
  have "c_buffer (line_buf [97, 60, 98]) 3"
    by (auto simp: c_buffer_def line_buf_def nth_Cons split: nat.splits)
  note p = parsecmd_words [OF this]
  have "case parsecmd (line_buf [97, 60, 98]) 3 of
      Ret (c, b) t \<Rightarrow> c = REDIR (EXEC [(0, 1)]) (2, 3) 0 0 | Panic m \<Rightarrow> False | Blocked t \<Rightarrow> False"
    by code_simp
  with p show ?thesis by (auto simp: line_buf_def split: outcome.splits)
qed

end
