(* ===== verification/Unparse.thy ===== *)
theory Unparse
  imports Shell
begin

text \<open>
  The parser of the shell as the inverse of printing: a command is printed as tokens, with parentheses
  where the grammar needs them, every token is followed by a blank, and \<open>parsecmd\<close> on this line gives the
  command back. So every command there is can be typed in, and the precedence of \<open>;\<close>, \<open>&\<close>, \<open>|\<close> and the
  redirections is the one that \<open>show_cmd\<close> shows.
\<close>

section \<open>Tokens and lines\<close>

datatype token = W "u8 list" | S u8 | APPEND

primrec code :: "token \<Rightarrow> u8" where
  "code (W w) = WORD"
| "code (S c) = c"
| "code APPEND = PLUS"

primrec tok_str :: "token \<Rightarrow> u8 list" where
  "tok_str (W w) = w"
| "tok_str (S c) = [c]"
| "tok_str APPEND = [GT, GT]"

primrec valid_tok :: "token \<Rightarrow> bool" where
  "valid_tok (W w) \<longleftrightarrow> w \<noteq> [] \<and> (\<forall>c\<in>set w. is_plain c \<and> c \<noteq> 0)"
| "valid_tok (S c) \<longleftrightarrow> is_symbol c"
| "valid_tok APPEND \<longleftrightarrow> True"

definition render :: "token list \<Rightarrow> u8 list" where
  "render ts = concat (map (\<lambda>t. tok_str t @ [32]) ts)"

text \<open>What is left of the buffer at \<open>s\<close> is the line with the tokens \<open>ts\<close>.\<close>

definition lexed :: "bytes \<Rightarrow> nat \<Rightarrow> nat \<Rightarrow> token list \<Rightarrow> bool" where
  "lexed buf es s ts \<longleftrightarrow> c_buffer buf es \<and> s \<le> es \<and> map buf [s..<es] = render ts \<and> list_all valid_tok ts"

lemma lexed_buffer: "lexed buf es s ts \<Longrightarrow> c_buffer buf es" "lexed buf es s ts \<Longrightarrow> s \<le> es"
  by (simp_all add: lexed_def)

lemma lexed_Nil: "lexed buf es s [] \<Longrightarrow> s = es"
  by (auto simp: lexed_def render_def)

lemma upt_map_split:
  assumes "map f [s..<e] = xs @ ys" and "s \<le> e"
  shows "map f [s..<s + length xs] = xs" and "map f [s + length xs..<e] = ys" and "s + length xs \<le> e"
proof -
  have l: "e - s = length xs + length ys" using arg_cong [OF assms(1), of length] by simp
  then show le: "s + length xs \<le> e" using assms(2) by simp
  obtain k where "e = s + length xs + k" using le le_Suc_ex by blast
  then have "[s..<e] = [s..<s + length xs] @ [s + length xs..<e]"
    using upt_add_eq_append [of s "s + length xs" k] by simp
  then have "map f [s..<s + length xs] @ map f [s + length xs..<e] = xs @ ys"
    using assms(1) by simp
  then show "map f [s..<s + length xs] = xs" "map f [s + length xs..<e] = ys" by simp_all
qed

lemma lexed_Cons:
  assumes "lexed buf es s (t # ts)"
  defines "e \<equiv> s + length (tok_str t)"
  shows "map buf [s..<e] = tok_str t" and "buf e = 32" and "e < es" and "lexed buf es (e + 1) ts" and "valid_tok t"
proof -
  have m: "map buf [s..<es] = tok_str t @ (32 # render ts)" and l: "s \<le> es" "c_buffer buf es" "list_all valid_tok ts"
    using assms(1) by (simp_all add: lexed_def render_def)
  note u = upt_map_split [OF m l(1), folded e_def]
  show "map buf [s..<e] = tok_str t" by (rule u(1))
  show "valid_tok t" using assms(1) by (simp add: lexed_def)
  show e: "e < es" using u(2,3) by (cases "e = es") auto
  then have "[e..<es] = e # [e + 1..<es]" by (simp add: upt_conv_Cons)
  then show "buf e = 32" "lexed buf es (e + 1) ts"
    using u(2) e l by (simp_all add: lexed_def)
qed

lemma tok_str_first:
  assumes "valid_tok t"
  shows "tok_str t \<noteq> []" and "\<not> is_space (hd (tok_str t))" and "hd (tok_str t) \<noteq> 0"
  using assms by (cases t; auto simp: symbols_def whitespace_def)+

lemma lexed_first:
  assumes "lexed buf es s (t # ts)"
  shows "buf s = hd (tok_str t)" and "s < es"
proof -
  note c = lexed_Cons [OF assms]
  have "tok_str t \<noteq> []" by (rule tok_str_first(1) [OF c(5)])
  then have "0 < length (tok_str t)" by simp
  then show "s < es" using c(3) by simp
  have "hd (map buf [s..<s + length (tok_str t)]) = buf s" using \<open>0 < length (tok_str t)\<close> by (simp add: upt_conv_Cons)
  then show "buf s = hd (tok_str t)" by (simp only: c(1))
qed

lemma lexed_skip: "lexed buf es s ts \<Longrightarrow> skip is_space buf es s = s"
proof (cases ts)
  case Nil
  assume "lexed buf es s ts"
  then have "s = es" using Nil lexed_Nil by simp
  then show ?thesis by (subst skip.simps) simp
next
  case (Cons t ts')
  assume "lexed buf es s ts"
  then have l: "lexed buf es s (t # ts')" using Cons by simp
  have "\<not> is_space (buf s)"
    using lexed_first(1) [OF l] tok_str_first(2) [OF lexed_Cons(5) [OF l]] by simp
  then show ?thesis by (subst skip.simps) simp
qed

text \<open>The first token begins with one of the bytes \<open>cs\<close>.\<close>

primrec starts :: "token list \<Rightarrow> u8 list \<Rightarrow> bool" where
  "starts [] cs = False"
| "starts (t # ts) cs = (hd (tok_str t) \<in> set cs)"

lemma peek_lexed:
  assumes "lexed buf es s ts"
  shows "peek buf es toks s = Ret (starts ts toks) s"
proof (cases ts)
  case Nil
  then have "s = es" using assms lexed_Nil by simp
  then have "buf s = 0" using lexed_buffer(1) [OF assms] by (simp add: c_buffer_def)
  then show ?thesis using Nil by (simp add: peek_def lexed_skip [OF assms])
next
  case (Cons t ts')
  then have l: "lexed buf es s (t # ts')" using assms by simp
  show ?thesis
    using Cons lexed_first(1) [OF l] tok_str_first(3) [OF lexed_Cons(5) [OF l]]
    by (simp add: peek_def lexed_skip [OF assms])
qed

lemma skip_plain_word:
  assumes "map buf [s..<s + length w] = w" and "\<forall>c\<in>set w. is_plain c" and "s + length w < es"
    and "buf (s + length w) = 32"
  shows "skip is_plain buf es s = s + length w"
  using assms
proof (induction w arbitrary: s)
  case Nil
  then show ?case by (subst skip.simps) (simp add: whitespace_def)
next
  case (Cons c w)
  have "[s..<s + length (c # w)] = s # [Suc s..<Suc s + length w]"
    by (simp add: upt_conv_Cons del: upt_Suc)
  then have "buf s = c" "map buf [Suc s..<Suc s + length w] = w"
    using Cons.prems(1) by (simp_all del: upt_Suc)
  moreover have "skip is_plain buf es (Suc s) = Suc s + length w"
    using Cons.prems calculation(2) by (intro Cons.IH) auto
  ultimately show ?case using Cons.prems by (subst skip.simps) simp
qed

lemma gettoken_lexed:
  assumes "lexed buf es s (t # ts)"
  defines "e \<equiv> s + length (tok_str t)"
  shows "gettoken buf es s = Ret (code t, s, e) (e + 1)"
proof -
  note c = lexed_Cons [OF assms(1), folded e_def]
  have "skip is_space buf es e = skip is_space buf es (Suc e)"
    using c(2,3) by (subst skip.simps) (simp add: whitespace_def)
  then have sp: "skip is_space buf es e = e + 1" using lexed_skip [OF c(4)] by simp
  note d = gettoken_def Let_def lexed_skip [OF assms(1)] lexed_first(1) [OF assms(1)]
  show ?thesis
  proof (cases t)
    case (W w)
    then have w: "w \<noteq> []" "\<forall>x\<in>set w. is_plain x \<and> x \<noteq> 0" using c(5) by simp_all
    then have "hd w \<in> set w" by simp
    then have h: "hd w \<noteq> 0" "hd w \<notin> {BAR, LPAR, RPAR, SEMI, AMP, LT}" "hd w \<noteq> GT"
      using w(2) by (auto simp: symbols_def)
    have "skip is_plain buf es s = e"
      using c(1-3) w(2) unfolding e_def W by (intro skip_plain_word) auto
    then show ?thesis using h sp by (simp add: d W)
  next
    case (S x)
    then have "x \<in> {BAR, LPAR, RPAR, SEMI, AMP, LT, GT}" using c(5) by (auto simp: symbols_def)
    moreover have "buf (s + 1) = 32" "skip is_space buf es (s + 1) = s + 2" using c(2) sp S by (simp_all add: e_def)
    ultimately show ?thesis by (auto simp: d S e_def)
  next
    case APPEND
    have "[s..<s + 2] = [s, s + 1]" by (simp add: upt_rec)
    then have "buf (s + 1) = GT" using c(1) by (simp add: e_def APPEND)
    then show ?thesis using sp by (simp add: d APPEND e_def)
  qed
qed

lemma gettoken_end: "lexed buf es s [] \<Longrightarrow> gettoken buf es s = Ret (0, s, s) s"
  using lexed_Nil [of buf es s] lexed_buffer(1) [of buf es s "[]"] lexed_skip [of buf es s "[]"]
  by (auto simp: gettoken_def Let_def c_buffer_def)

section \<open>Printing\<close>

type_synonym redirection = "u8 list \<times> i32 \<times> i32"

definition valid_mode :: "i32 \<Rightarrow> i32 \<Rightarrow> bool" where
  "valid_mode m d \<longleftrightarrow> m = O_RDONLY \<and> d = 0 \<or> m = O_WRONLY OR O_CREATE OR O_TRUNC \<and> d = 1 \<or>
     m = O_WRONLY OR O_CREATE \<and> d = 1"

definition show_redir :: "redirection \<Rightarrow> token list" where
  "show_redir = (\<lambda>(f, m, d).
     [if m = O_RDONLY then S LT else if m = O_WRONLY OR O_CREATE OR O_TRUNC then S GT else APPEND, W f])"

definition paren :: "bool \<Rightarrow> token list \<Rightarrow> token list" where
  "paren b ts = (if b then S LPAR # ts @ [S RPAR] else ts)"

text \<open>
  The tokens of a command where the grammar expects a line (level 0), the part of a line up to \<open>;\<close>
  (level 1), a pipeline (level 2) or a part of a pipeline (level 3).
\<close>

primrec show_cmd :: "u8 list cmd \<Rightarrow> nat \<Rightarrow> token list" where
  "show_cmd (EXEC ws) k = map W ws"
| "show_cmd (REDIR c f m d) k = show_cmd c 3 @ show_redir (f, m, d)"
| "show_cmd (PIPE l r) k = paren (k > 2) (show_cmd l 3 @ S BAR # show_cmd r 2)"
| "show_cmd (LIST l r) k = paren (k > 0) (show_cmd l 1 @ S SEMI # show_cmd r 0)"
| "show_cmd (BACK c) k = paren (k > 1) (show_cmd c 1 @ [S AMP])"

text \<open>
  The commands that can be typed: words of plain bytes, fewer than \<open>MAXARGS\<close> arguments and the three
  kinds of redirection.
\<close>

primrec typable :: "u8 list cmd \<Rightarrow> bool" where
  "typable (EXEC ws) \<longleftrightarrow> length ws < MAXARGS \<and> list_all (\<lambda>w. valid_tok (W w)) ws"
| "typable (REDIR c f m d) \<longleftrightarrow> typable c \<and> valid_tok (W f) \<and> valid_mode m d"
| "typable (PIPE l r) \<longleftrightarrow> typable l \<and> typable r"
| "typable (LIST l r) \<longleftrightarrow> typable l \<and> typable r"
| "typable (BACK c) \<longleftrightarrow> typable c"

definition word_at :: "bytes \<Rightarrow> word_ptr \<Rightarrow> u8 list" where
  "word_at buf w = map buf [fst w..<snd w]"

abbreviation read_cmd :: "bytes \<Rightarrow> word_ptr cmd \<Rightarrow> u8 list cmd" where
  "read_cmd buf \<equiv> map_cmd (word_at buf)"

definition wraps :: "u8 list cmd \<Rightarrow> redirection list \<Rightarrow> u8 list cmd" where
  "wraps c rs = foldl (\<lambda>c (f, m, d). REDIR c f m d) c rs"

abbreviation show_redirs :: "redirection list \<Rightarrow> token list" where
  "show_redirs rs \<equiv> concat (map show_redir rs)"

abbreviation valid_redirs :: "redirection list \<Rightarrow> bool" where
  "valid_redirs rs \<equiv> list_all (\<lambda>(f, m, d). valid_mode m d) rs"

text \<open>
  \<open>gives buf es f s c rest\<close>: the parsing function \<open>f\<close> returns, at \<open>s\<close>, pointers to the words of \<open>c\<close> and
  stops before the tokens \<open>rest\<close>.
\<close>

definition gives :: "bytes \<Rightarrow> nat \<Rightarrow> (nat, word_ptr cmd) prog \<Rightarrow> nat \<Rightarrow> u8 list cmd \<Rightarrow> token list \<Rightarrow> bool" where
  "gives buf es f s c rest \<longleftrightarrow> (\<exists>c' t. f s = Ret c' t \<and> read_cmd buf c' = c \<and> lexed buf es t rest \<and> s \<le> t)"

text \<open>The tokens before which a list of arguments ends.\<close>

definition stops :: "token list \<Rightarrow> bool" where
  "stops ts \<longleftrightarrow> ts = [] \<or> hd ts \<in> {S BAR, S RPAR, S AMP, S SEMI}"

lemma stops_starts: "stops ts \<Longrightarrow> \<not> starts ts [LT, GT]" "stops ts \<Longrightarrow> \<not> starts ts [LPAR]"
  "stops ts \<Longrightarrow> starts ts [BAR, RPAR, AMP, SEMI] \<or> ts = []"
  by (cases ts; auto simp: stops_def)+

lemma givesI: "f s = Ret c' t \<Longrightarrow> read_cmd buf c' = c \<Longrightarrow> lexed buf es t rest \<Longrightarrow> s \<le> t \<Longrightarrow> gives buf es f s c rest"
  by (auto simp: gives_def)

lemma givesE:
  assumes "gives buf es f s c rest"
  obtains c' t where "f s = Ret c' t" and "read_cmd buf c' = c" and "lexed buf es t rest" and "s \<le> t"
  using assms by (auto simp: gives_def)

section \<open>Redirections and arguments\<close>

lemma parseredirs_gives:
  assumes "lexed buf es s (show_redirs rs @ rest)" and "\<not> starts rest [LT, GT]" and "valid_redirs rs" and "es - s < n"
  shows "gives buf es (parseredirs n buf es c) s (wraps (read_cmd buf c) rs) rest"
  using assms
proof (induction rs arbitrary: s n c)
  case Nil
  then obtain n' where "n = Suc n'" by (cases n) auto
  then show ?case
    using Nil by (auto simp: prog_simps peek_lexed wraps_def intro!: givesI)
next
  case (Cons r rs)
  obtain f m d where r: "r = (f, m, d)" by (cases r)
  obtain n' where n: "n = Suc n'" using Cons.prems(4) by (cases n) auto
  define op where "op = (if m = O_RDONLY then S LT else if m = O_WRONLY OR O_CREATE OR O_TRUNC then S GT else APPEND)"
  have l: "lexed buf es s (op # W f # show_redirs rs @ rest)" using Cons.prems(1) by (simp add: r show_redir_def op_def)
  define e where "e = s + length (tok_str op) + 1"
  define e' where "e' = e + length f"
  have l1: "lexed buf es e (W f # show_redirs rs @ rest)" using lexed_Cons(4) [OF l] by (simp add: e_def)
  have l2: "lexed buf es (e' + 1) (show_redirs rs @ rest)" and w: "map buf [e..<e'] = f"
    using lexed_Cons(1,4) [OF l1] by (simp_all add: e'_def)
  have "starts (op # W f # show_redirs rs @ rest) [LT, GT]" by (simp add: op_def)
  then have "peek buf es [LT, GT] s = Ret True s" using peek_lexed [OF l] by simp
  moreover have "gettoken buf es s = Ret (code op, s, s + length (tok_str op)) e"
    using gettoken_lexed [OF l] by (simp add: e_def)
  moreover have "gettoken buf es e = Ret (WORD, e, e') (e' + 1)"
    using gettoken_lexed [OF l1] by (simp add: e'_def)
  ultimately have step: "parseredirs n buf es c s = parseredirs n' buf es (wrap_redir c (code op) (e, e')) (e' + 1)"
    by (simp add: n prog_simps)
  have "valid_mode m d" using Cons.prems(3) by (simp add: r)
  then have "wrap_redir c (code op) (e, e') = REDIR c (e, e') m d"
    by (auto simp: wrap_redir_def op_def valid_mode_def O_RDONLY_def O_WRONLY_def O_CREATE_def O_TRUNC_def)
  then have "read_cmd buf (wrap_redir c (code op) (e, e')) = REDIR (read_cmd buf c) f m d"
    using w by (simp add: word_at_def)
  moreover have "gives buf es (parseredirs n' buf es (wrap_redir c (code op) (e, e'))) (e' + 1)
      (wraps (read_cmd buf (wrap_redir c (code op) (e, e'))) rs) rest"
    using Cons.prems l2 lexed_first(2) [OF l] by (intro Cons.IH) (auto simp: n e_def e'_def)
  ultimately show ?case
    unfolding gives_def step by (auto simp: r wraps_def e_def e'_def)
qed

lemma parseredirs_none:
  assumes "lexed buf es s ts" and "\<not> starts ts [LT, GT]" and "0 < n"
  shows "parseredirs n buf es c s = Ret c s"
  using assms by (cases n) (simp_all add: prog_simps peek_lexed [OF assms(1)])

lemma word_starts: "lexed buf es s (W w # ts) \<Longrightarrow> set cs \<subseteq> set symbols \<Longrightarrow> \<not> starts (W w # ts) cs"
  using lexed_Cons(5) [of buf es s "W w" ts] by (cases w) auto

lemma parse_args_end:
  assumes "lexed buf es s rest" and "stops rest" and "0 < n"
  shows "parse_args n buf es argc c s = Ret c s"
proof -
  obtain n' where "n = Suc n'" using assms(3) by (cases n) auto
  then show ?thesis
    using stops_starts(3) [OF assms(2)] assms(1) peek_lexed [OF assms(1), of "[BAR, RPAR, AMP, SEMI]"]
    by (cases rest) (auto simp: prog_simps gettoken_end)
qed

lemma parse_args_gives:
  assumes "ws \<noteq> []" and "lexed buf es s (map W ws @ show_redirs rs @ rest)" and "stops rest" and "valid_redirs rs"
    and "argc + length ws < MAXARGS" and "es - s < n"
  shows "gives buf es (parse_args n buf es argc (EXEC qs)) s (wraps (EXEC (map (word_at buf) qs @ ws)) rs) rest"
  using assms
proof (induction ws arbitrary: s n qs argc)
  case (Cons w ws)
  obtain n' where n: "n = Suc n'" using Cons.prems(6) by (cases n) auto
  have l: "lexed buf es s (W w # map W ws @ show_redirs rs @ rest)" using Cons.prems(2) by simp
  define e where "e = s + length w"
  have l1: "lexed buf es (e + 1) (map W ws @ show_redirs rs @ rest)" and w: "map buf [s..<e] = w" "valid_tok (W w)" "e < es"
    using lexed_Cons [OF l] by (simp_all add: e_def)
  have "\<not> starts (W w # map W ws @ show_redirs rs @ rest) [BAR, RPAR, AMP, SEMI]"
    using l by (rule word_starts) (simp add: symbols_def)
  then have "peek buf es [BAR, RPAR, AMP, SEMI] s = Ret False s" using peek_lexed [OF l] by simp
  moreover have "gettoken buf es s = Ret (WORD, s, e) (e + 1)" using gettoken_lexed [OF l] by (simp add: e_def)
  ultimately have step: "parse_args n buf es argc (EXEC qs) s =
      bind (parseredirs n' buf es (EXEC (qs @ [(s, e)]))) (parse_args n' buf es (argc + 1)) (e + 1)"
    using Cons.prems(5) by (simp add: n prog_simps)
  have fuel: "es - (e + 1) < n'" using Cons.prems(6) w(3) by (auto simp: n e_def)
  have ws: "map (word_at buf) (qs @ [(s, e)]) @ ws = map (word_at buf) qs @ w # ws"
    using w(1) by (simp add: word_at_def)
  show ?case
  proof (cases "ws = []")
    case True
    then have "gives buf es (parseredirs n' buf es (EXEC (qs @ [(s, e)]))) (e + 1)
        (wraps (read_cmd buf (EXEC (qs @ [(s, e)]))) rs) rest"
      using l1 Cons.prems(3,4) fuel by (intro parseredirs_gives) (simp_all add: stops_starts)
    then obtain c' t where r: "parseredirs n' buf es (EXEC (qs @ [(s, e)])) (e + 1) = Ret c' t"
      "read_cmd buf c' = wraps (EXEC (map (word_at buf) qs @ [w])) rs" "lexed buf es t rest" "e + 1 \<le> t"
      using ws True by (auto elim!: givesE)
    have "parse_args n' buf es (argc + 1) c' t = Ret c' t"
      using r(3) Cons.prems(3) fuel by (intro parse_args_end) auto
    then show ?thesis using r True step by (auto simp: prog_simps e_def intro!: givesI)
  next
    case False
    then obtain v vs where v: "ws = v # vs" by (cases ws) auto
    then have "\<not> starts (W v # map W vs @ show_redirs rs @ rest) [LT, GT]"
      using l1 by (intro word_starts) (simp_all add: symbols_def)
    then have "parseredirs n' buf es (EXEC (qs @ [(s, e)])) (e + 1) = Ret (EXEC (qs @ [(s, e)])) (e + 1)"
      using fuel v by (intro parseredirs_none [OF l1]) simp_all
    moreover have "gives buf es (parse_args n' buf es (argc + 1) (EXEC (qs @ [(s, e)]))) (e + 1)
        (wraps (EXEC (map (word_at buf) (qs @ [(s, e)]) @ ws)) rs) rest"
      using False l1 Cons.prems fuel by (intro Cons.IH) simp_all
    ultimately show ?thesis unfolding gives_def step ws by (auto simp: prog_simps e_def)
  qed
qed simp

section \<open>The levels of the grammar\<close>

text \<open>
  What the parsing functions make of a printed command: \<open>parseexec\<close> of one at level 3, with redirections
  behind it, \<open>parsepipe\<close> of one at level 2, \<open>parseline\<close> of one at level 0. Level 1 is the part of
  \<open>parseline\<close> up to some round of the loop over \<open>&\<close>.
\<close>

definition reads_exec :: "bytes \<Rightarrow> nat \<Rightarrow> u8 list cmd \<Rightarrow> bool" where
  "reads_exec buf es c \<longleftrightarrow> (\<forall>n s rs rest. lexed buf es s (show_cmd c 3 @ show_redirs rs @ rest) \<longrightarrow> stops rest \<longrightarrow>
     valid_redirs rs \<longrightarrow> 5 * (es - s) + 3 \<le> n \<longrightarrow> gives buf es (parseexec n buf es) s (wraps c rs) rest)"

definition reads_pipe :: "bytes \<Rightarrow> nat \<Rightarrow> u8 list cmd \<Rightarrow> bool" where
  "reads_pipe buf es c \<longleftrightarrow> (\<forall>n s rest. lexed buf es s (show_cmd c 2 @ rest) \<longrightarrow> stops rest \<longrightarrow>
     \<not> starts rest [BAR] \<longrightarrow> 5 * (es - s) + 4 \<le> n \<longrightarrow> gives buf es (parsepipe n buf es) s c rest)"

definition reads_backs :: "bytes \<Rightarrow> nat \<Rightarrow> u8 list cmd \<Rightarrow> bool" where
  "reads_backs buf es c \<longleftrightarrow> (\<forall>n k s rest. lexed buf es s (show_cmd c 1 @ rest) \<longrightarrow> stops rest \<longrightarrow>
     \<not> starts rest [BAR] \<longrightarrow> 5 * (es - s) + 4 \<le> n \<longrightarrow> es - s < k \<longrightarrow>
     (\<exists>c' t k'. bind (parsepipe n buf es) (parse_backs k buf es) s = parse_backs k' buf es c' t \<and>
        read_cmd buf c' = c \<and> lexed buf es t rest \<and> s \<le> t \<and> es - t < k'))"

definition reads_line :: "bytes \<Rightarrow> nat \<Rightarrow> u8 list cmd \<Rightarrow> bool" where
  "reads_line buf es c \<longleftrightarrow> (\<forall>n s rest. lexed buf es s (show_cmd c 0 @ rest) \<longrightarrow>
     rest = [] \<or> hd rest = S RPAR \<longrightarrow> 5 * (es - s) + 5 \<le> n \<longrightarrow> gives buf es (parseline n buf es) s c rest)"

lemma symbol_first: "lexed buf es s (S x # ts) \<Longrightarrow> lexed buf es (s + 2) ts"
    "lexed buf es s (S x # ts) \<Longrightarrow> gettoken buf es s = Ret (x, s, s + 1) (s + 2)"
    "lexed buf es s (S x # ts) \<Longrightarrow> s + 2 \<le> es"
  using lexed_Cons(3,4) [of buf es s "S x" ts] gettoken_lexed [of buf es s "S x" ts] by simp_all

lemma reads_exec_EXEC:
  assumes "typable (EXEC ws)"
  shows "reads_exec buf es (EXEC ws)"
  unfolding reads_exec_def
proof (intro allI impI)
  fix n s rs rest
  assume l: "lexed buf es s (show_cmd (EXEC ws) 3 @ show_redirs rs @ rest)" and st: "stops rest"
    and v: "valid_redirs rs" and n: "5 * (es - s) + 3 \<le> n"
  obtain n' where n': "n = Suc n'" "es - s < n'" using n by (cases n) auto
  have l': "lexed buf es s (map W ws @ show_redirs rs @ rest)" using l by simp
  show "gives buf es (parseexec n buf es) s (wraps (EXEC ws) rs) rest"
  proof (cases ws)
    case Nil
    have "\<not> starts (show_redirs rs @ rest) [LPAR]"
      using stops_starts(2) [OF st] by (cases rs) (auto simp: show_redir_def split: prod.splits)
    then have "peek buf es [LPAR] s = Ret False s" using peek_lexed [OF l'] Nil by simp
    moreover obtain c' t where r: "parseredirs n' buf es (EXEC []) s = Ret c' t"
      "read_cmd buf c' = wraps (EXEC []) rs" "lexed buf es t rest" "s \<le> t"
      using parseredirs_gives [of buf es s rs rest n' "EXEC []"] l' Nil st v n'(2) stops_starts(1)
      by (auto elim!: givesE)
    moreover have "parse_args n' buf es 0 c' t = Ret c' t"
      using r(3) st n'(2) by (intro parse_args_end) auto
    ultimately show ?thesis using Nil by (auto simp: n' prog_simps intro!: givesI)
  next
    case (Cons w ws')
    then have l1: "lexed buf es s (W w # map W ws' @ show_redirs rs @ rest)" using l' by simp
    have "\<not> starts (map W ws @ show_redirs rs @ rest) [LPAR]" "\<not> starts (map W ws @ show_redirs rs @ rest) [LT, GT]"
      using word_starts [OF l1, of "[LPAR]"] word_starts [OF l1, of "[LT, GT]"] Cons by (simp_all add: symbols_def)
    then have "peek buf es [LPAR] s = Ret False s" "parseredirs n' buf es (EXEC []) s = Ret (EXEC []) s"
      using peek_lexed [OF l'] parseredirs_none [OF l'] n'(2) by simp_all
    then have "parseexec n buf es s = parse_args n' buf es 0 (EXEC []) s" by (simp add: n' prog_simps)
    moreover have "gives buf es (parse_args n' buf es 0 (EXEC [])) s (wraps (EXEC (map (word_at buf) [] @ ws)) rs) rest"
      using Cons l' st v n'(2) assms by (intro parse_args_gives) simp_all
    ultimately show ?thesis by (simp add: gives_def)
  qed
qed

lemma reads_exec_REDIR:
  assumes "reads_exec buf es c" and "valid_mode m d"
  shows "reads_exec buf es (REDIR c f m d)"
  unfolding reads_exec_def
proof (intro allI impI)
  fix n s rs rest
  assume "lexed buf es s (show_cmd (REDIR c f m d) 3 @ show_redirs rs @ rest)" "stops rest" "valid_redirs rs"
    "5 * (es - s) + 3 \<le> n"
  then have "gives buf es (parseexec n buf es) s (wraps c ((f, m, d) # rs)) rest"
    using assms unfolding reads_exec_def by simp
  then show "gives buf es (parseexec n buf es) s (wraps (REDIR c f m d) rs) rest" by (simp add: wraps_def)
qed

lemma reads_execD:
  "reads_exec buf es c \<Longrightarrow> lexed buf es s (show_cmd c 3 @ show_redirs rs @ rest) \<Longrightarrow> stops rest \<Longrightarrow> valid_redirs rs \<Longrightarrow>
   5 * (es - s) + 3 \<le> n \<Longrightarrow> gives buf es (parseexec n buf es) s (wraps c rs) rest"
  unfolding reads_exec_def by blast

lemma reads_pipeD:
  "reads_pipe buf es c \<Longrightarrow> lexed buf es s (show_cmd c 2 @ rest) \<Longrightarrow> stops rest \<Longrightarrow> \<not> starts rest [BAR] \<Longrightarrow>
   5 * (es - s) + 4 \<le> n \<Longrightarrow> gives buf es (parsepipe n buf es) s c rest"
  unfolding reads_pipe_def by blast

lemma reads_lineD:
  "reads_line buf es c \<Longrightarrow> lexed buf es s (show_cmd c 0 @ rest) \<Longrightarrow> rest = [] \<or> hd rest = S RPAR \<Longrightarrow>
   5 * (es - s) + 5 \<le> n \<Longrightarrow> gives buf es (parseline n buf es) s c rest"
  unfolding reads_line_def by blast

lemma reads_backsE:
  assumes "reads_backs buf es c" and "lexed buf es s (show_cmd c 1 @ rest)" and "stops rest" and "\<not> starts rest [BAR]"
    and "5 * (es - s) + 4 \<le> n" and "es - s < k"
  obtains c' t k' where "bind (parsepipe n buf es) (parse_backs k buf es) s = parse_backs k' buf es c' t"
    and "read_cmd buf c' = c" and "lexed buf es t rest" and "s \<le> t" and "es - t < k'"
  using assms unfolding reads_backs_def by blast

lemma reads_pipe_exec:
  assumes "reads_exec buf es c" and "show_cmd c 2 = show_cmd c 3"
  shows "reads_pipe buf es c"
  unfolding reads_pipe_def
proof (intro allI impI)
  fix n s rest
  assume l: "lexed buf es s (show_cmd c 2 @ rest)" and st: "stops rest" "\<not> starts rest [BAR]" and n: "5 * (es - s) + 4 \<le> n"
  obtain n' where n': "n = Suc n'" using n by (cases n) auto
  have "gives buf es (parseexec n' buf es) s (wraps c []) rest"
    using l st(1) n by (intro reads_execD [OF assms(1)]) (simp_all add: n' assms(2))
  then obtain c' t where "parseexec n' buf es s = Ret c' t" "read_cmd buf c' = c" "lexed buf es t rest" "s \<le> t"
    by (auto simp: wraps_def elim!: givesE)
  then show "gives buf es (parsepipe n buf es) s c rest"
    using st peek_lexed [of buf es t rest] by (auto simp: n' prog_simps intro!: givesI)
qed

lemma reads_pipe_PIPE:
  assumes "reads_exec buf es l" and "reads_pipe buf es r"
  shows "reads_pipe buf es (PIPE l r)"
  unfolding reads_pipe_def
proof (intro allI impI)
  fix n s rest
  assume l: "lexed buf es s (show_cmd (PIPE l r) 2 @ rest)" and st: "stops rest" "\<not> starts rest [BAR]" and n: "5 * (es - s) + 4 \<le> n"
  obtain n' where n': "n = Suc n'" using n by (cases n) auto
  have "gives buf es (parseexec n' buf es) s (wraps l []) (S BAR # show_cmd r 2 @ rest)"
    using l n by (intro reads_execD [OF assms(1)]) (simp_all add: n' paren_def stops_def)
  then obtain l' t where a: "parseexec n' buf es s = Ret l' t" "read_cmd buf l' = l" "lexed buf es t (S BAR # show_cmd r 2 @ rest)" "s \<le> t"
    by (auto simp: wraps_def elim!: givesE)
  note b = symbol_first [OF a(3)]
  have "gives buf es (parsepipe n' buf es) (t + 2) r rest"
    using b st n a(4) by (intro reads_pipeD [OF assms(2)]) (auto simp: n')
  then show "gives buf es (parsepipe n buf es) s (PIPE l r) rest"
    using a b peek_lexed [OF a(3), of "[BAR]"] by (auto simp: n' prog_simps intro!: givesI elim!: givesE)
qed

lemma reads_backs_pipe:
  assumes "reads_pipe buf es c" and "show_cmd c 1 = show_cmd c 2"
  shows "reads_backs buf es c"
  unfolding reads_backs_def
proof (intro allI impI)
  fix n k s rest
  assume h: "lexed buf es s (show_cmd c 1 @ rest)" "stops rest" "\<not> starts rest [BAR]" "5 * (es - s) + 4 \<le> n" "es - s < k"
  have "gives buf es (parsepipe n buf es) s c rest"
    using h(2-4) by (intro reads_pipeD [OF assms(1) h(1) [unfolded assms(2)]])
  then obtain c' t where "parsepipe n buf es s = Ret c' t" "read_cmd buf c' = c" "lexed buf es t rest" "s \<le> t" by (rule givesE)
  then show "\<exists>c' t k'. bind (parsepipe n buf es) (parse_backs k buf es) s = parse_backs k' buf es c' t \<and>
      read_cmd buf c' = c \<and> lexed buf es t rest \<and> s \<le> t \<and> es - t < k'"
    using h(5) by (intro exI [of _ c'] exI [of _ t] exI [of _ k]) (auto simp: bind_Ret)
qed

lemma reads_backs_BACK:
  assumes "reads_backs buf es c"
  shows "reads_backs buf es (BACK c)"
  unfolding reads_backs_def
proof (intro allI impI)
  fix n k s rest
  assume h: "lexed buf es s (show_cmd (BACK c) 1 @ rest)" "stops rest" "\<not> starts rest [BAR]" "5 * (es - s) + 4 \<le> n" "es - s < k"
  have "lexed buf es s (show_cmd c 1 @ S AMP # rest)" using h(1) by (simp add: paren_def)
  then obtain c' t k' where a: "bind (parsepipe n buf es) (parse_backs k buf es) s = parse_backs k' buf es c' t"
    "read_cmd buf c' = c" "lexed buf es t (S AMP # rest)" "s \<le> t" "es - t < k'"
    by (rule reads_backsE [OF assms]) (use h in \<open>simp_all add: stops_def\<close>)
  note b = symbol_first [OF a(3)]
  obtain k'' where k: "k' = Suc k''" using a(5) by (cases k') auto
  have "parse_backs k' buf es c' t = parse_backs k'' buf es (BACK c') (t + 2)"
    using b(2) peek_lexed [OF a(3), of "[AMP]"] by (simp add: k prog_simps)
  then show "\<exists>c' t k'. bind (parsepipe n buf es) (parse_backs k buf es) s = parse_backs k' buf es c' t \<and>
      read_cmd buf c' = BACK c \<and> lexed buf es t rest \<and> s \<le> t \<and> es - t < k'"
    using a b k by (intro exI [of _ "BACK c'"] exI [of _ "t + 2"] exI [of _ k'']) auto
qed

text \<open>The loop over \<open>&\<close> ends before any other token.\<close>

lemma parse_backs_end:
  "lexed buf es t rest \<Longrightarrow> \<not> starts rest [AMP] \<Longrightarrow> es - t < k \<Longrightarrow> parse_backs k buf es c t = Ret c t"
  using peek_lexed [of buf es t rest "[AMP]"] by (cases k) (simp_all add: prog_simps)

lemma parseline_assoc:
  "parseline (Suc n) buf es =
     bind (bind (parsepipe n buf es) (parse_backs n buf es)) (\<lambda>c'.
     bind (peek buf es [SEMI]) (\<lambda>more.
     if more then andthen (gettoken buf es) (bind (parseline n buf es) (\<lambda>r. return (LIST c' r)))
     else return c'))"
  by (simp add: bind_assoc)

lemma reads_line_backs:
  assumes "reads_backs buf es c" and "show_cmd c 0 = show_cmd c 1"
  shows "reads_line buf es c"
  unfolding reads_line_def
proof (intro allI impI)
  fix n s rest
  assume h: "lexed buf es s (show_cmd c 0 @ rest)" "rest = [] \<or> hd rest = S RPAR" "5 * (es - s) + 5 \<le> n"
  obtain n' where n': "n = Suc n'" using h(3) by (cases n) auto
  have r: "stops rest" "\<not> starts rest [BAR]" "\<not> starts rest [AMP]" "\<not> starts rest [SEMI]"
    using h(2) by (cases rest; auto simp: stops_def)+
  from h(1) obtain c' t k' where a: "bind (parsepipe n' buf es) (parse_backs n' buf es) s = parse_backs k' buf es c' t"
    "read_cmd buf c' = c" "lexed buf es t rest" "s \<le> t" "es - t < k'"
    unfolding assms(2) by (rule reads_backsE [OF assms(1), where n = n' and k = n']) (use h(3) r n' in auto)
  have "parse_backs k' buf es c' t = Ret c' t" using a(3,5) r(3) by (intro parse_backs_end)
  then show "gives buf es (parseline n buf es) s c rest"
    using a r(4) peek_lexed [OF a(3), of "[SEMI]"] unfolding n' parseline_assoc
    by (intro givesI [of _ _ c' t]) (simp_all add: bind_Ret prog_simps)
qed

lemma reads_line_LIST:
  assumes "reads_backs buf es l" and "reads_line buf es r"
  shows "reads_line buf es (LIST l r)"
  unfolding reads_line_def
proof (intro allI impI)
  fix n s rest
  assume h: "lexed buf es s (show_cmd (LIST l r) 0 @ rest)" "rest = [] \<or> hd rest = S RPAR" "5 * (es - s) + 5 \<le> n"
  obtain n' where n': "n = Suc n'" using h(3) by (cases n) auto
  have "lexed buf es s (show_cmd l 1 @ S SEMI # show_cmd r 0 @ rest)" using h(1) by (simp add: paren_def)
  then obtain l' t k' where a: "bind (parsepipe n' buf es) (parse_backs n' buf es) s = parse_backs k' buf es l' t"
    "read_cmd buf l' = l" "lexed buf es t (S SEMI # show_cmd r 0 @ rest)" "s \<le> t" "es - t < k'"
    by (rule reads_backsE [OF assms(1), where n = n' and k = n']) (use h(3) n' in \<open>auto simp: stops_def\<close>)
  note b = symbol_first [OF a(3)]
  have e: "parse_backs k' buf es l' t = Ret l' t" using a(5) by (intro parse_backs_end [OF a(3)]) simp_all
  have "gives buf es (parseline n' buf es) (t + 2) r rest"
    using b h a(4) by (intro reads_lineD [OF assms(2)]) (auto simp: n')
  then obtain r' u where "parseline n' buf es (t + 2) = Ret r' u" "read_cmd buf r' = r" "lexed buf es u rest" "t + 2 \<le> u"
    by (rule givesE)
  then show "gives buf es (parseline n buf es) s (LIST l r) rest"
    using a b e peek_lexed [OF a(3), of "[SEMI]"] unfolding n' parseline_assoc
    by (intro givesI [of _ _ "LIST l' r'" u]) (simp_all add: bind_Ret prog_simps)
qed

text \<open>A command in parentheses.\<close>

lemma reads_exec_paren:
  assumes "reads_line buf es c" and "show_cmd c 3 = S LPAR # show_cmd c 0 @ [S RPAR]"
  shows "reads_exec buf es c"
  unfolding reads_exec_def
proof (intro allI impI)
  fix n s rs rest
  assume h: "lexed buf es s (show_cmd c 3 @ show_redirs rs @ rest)" "stops rest" "valid_redirs rs" "5 * (es - s) + 3 \<le> n"
  define n' where "n' = n - 2"
  have n': "n = Suc (Suc n')" "5 * (es - s) + 1 \<le> n'" using h(4) by (auto simp: n'_def)
  have l: "lexed buf es s (S LPAR # show_cmd c 0 @ S RPAR # show_redirs rs @ rest)" using h(1) by (simp add: assms(2))
  note b = symbol_first [OF l]
  have "gives buf es (parseline n' buf es) (s + 2) c (S RPAR # show_redirs rs @ rest)"
    using b n'(2) by (intro reads_lineD [OF assms(1)]) auto
  then obtain c' t where a: "parseline n' buf es (s + 2) = Ret c' t" "read_cmd buf c' = c"
    "lexed buf es t (S RPAR # show_redirs rs @ rest)" "s + 2 \<le> t" by (rule givesE)
  note d = symbol_first [OF a(3)]
  have "gives buf es (parseredirs n' buf es c') (t + 2) (wraps (read_cmd buf c') rs) rest"
    using d h n' a(4) stops_starts(1) by (intro parseredirs_gives) auto
  then obtain c'' u where "parseredirs n' buf es c' (t + 2) = Ret c'' u" "read_cmd buf c'' = wraps c rs"
    "lexed buf es u rest" "t + 2 \<le> u" using a(2) by (auto elim!: givesE)
  then show "gives buf es (parseexec n buf es) s (wraps c rs) rest"
    using a b d peek_lexed [OF l, of "[LPAR]"] peek_lexed [OF a(3), of "[RPAR]"]
    by (intro givesI [of _ _ c'' u]) (simp_all add: n'(1) prog_simps)
qed

section \<open>The round trip\<close>

lemma reads_all:
  assumes "typable c"
  shows "reads_exec buf es c \<and> reads_pipe buf es c \<and> reads_backs buf es c \<and> reads_line buf es c"
  using assms
proof (induction c)
  case (EXEC ws)
  then have "reads_exec buf es (EXEC ws)" by (rule reads_exec_EXEC)
  then show ?case by (simp add: reads_pipe_exec reads_backs_pipe reads_line_backs)
next
  case (REDIR c f m d)
  then have "reads_exec buf es (REDIR c f m d)" by (simp add: reads_exec_REDIR)
  then show ?case by (simp add: reads_pipe_exec reads_backs_pipe reads_line_backs)
next
  case (PIPE l r)
  then have "reads_pipe buf es (PIPE l r)" by (simp add: reads_pipe_PIPE)
  then have "reads_backs buf es (PIPE l r)" by (rule reads_backs_pipe) (simp add: paren_def)
  moreover from this have "reads_line buf es (PIPE l r)" by (rule reads_line_backs) (simp add: paren_def)
  moreover from this have "reads_exec buf es (PIPE l r)" by (rule reads_exec_paren) (simp add: paren_def)
  ultimately show ?case using \<open>reads_pipe buf es (PIPE l r)\<close> by simp
next
  case (LIST l r)
  then have "reads_line buf es (LIST l r)" by (simp add: reads_line_LIST)
  then have "reads_exec buf es (LIST l r)" by (rule reads_exec_paren) (simp add: paren_def)
  moreover from this have "reads_pipe buf es (LIST l r)" by (rule reads_pipe_exec) (simp add: paren_def)
  moreover from this have "reads_backs buf es (LIST l r)" by (rule reads_backs_pipe) (simp add: paren_def)
  ultimately show ?case using \<open>reads_line buf es (LIST l r)\<close> by simp
next
  case (BACK c)
  then have "reads_backs buf es (BACK c)" by (simp add: reads_backs_BACK)
  moreover from this have "reads_line buf es (BACK c)" by (rule reads_line_backs) (simp add: paren_def)
  moreover from this have "reads_exec buf es (BACK c)" by (rule reads_exec_paren) (simp add: paren_def)
  moreover from this have "reads_pipe buf es (BACK c)" by (rule reads_pipe_exec) (simp add: paren_def)
  ultimately show ?case by simp
qed

lemma show_valid: "typable c \<Longrightarrow> list_all valid_tok (show_cmd c k)"
  by (induction c arbitrary: k) (auto simp: show_redir_def paren_def symbols_def list_all_iff)

lemma render_no_nul: "list_all valid_tok ts \<Longrightarrow> 0 \<notin> set (render ts)"
proof (induction ts)
  case (Cons t ts)
  then show ?case by (cases t) (auto simp: render_def symbols_def)
qed (simp add: render_def)

lemma line_lexed:
  assumes "list_all valid_tok ts"
  shows "lexed (line_buf (render ts)) (length (render ts)) 0 ts"
proof -
  have "line_buf (render ts) i \<noteq> 0" if "i < length (render ts)" for i
    using render_no_nul [OF assms] that by (auto simp: line_buf_def) (metis nth_mem)
  then show ?thesis using assms map_line_buf [of "render ts"]
    by (simp add: lexed_def c_buffer_def) (simp add: line_buf_def)
qed

text \<open>
  C38: for every command that can be typed, the shell's parser makes of the printed line this command
  again: it returns pointers to the words of the command, in the same arrangement of redirections,
  pipes, lists and background commands.
\<close>

theorem parse_print_roundtrip:
  assumes "typable c"
  shows "case parsecmd (line_buf (render (show_cmd c 0))) (length (render (show_cmd c 0))) of
      Ret (c', b) t \<Rightarrow> read_cmd (line_buf (render (show_cmd c 0))) c' = c
    | Panic m \<Rightarrow> False | Blocked t \<Rightarrow> False"
proof -
  let ?xs = "render (show_cmd c 0)"
  have "lexed (line_buf ?xs) (length ?xs) 0 (show_cmd c 0 @ [])"
    using line_lexed [OF show_valid [OF assms, of 0]] by simp
  then have "gives (line_buf ?xs) (length ?xs) (parseline (5 * length ?xs + 5) (line_buf ?xs) (length ?xs)) 0 c []"
    using reads_all [OF assms] by (intro reads_lineD) simp_all
  then obtain c' t where r: "parseline (5 * length ?xs + 5) (line_buf ?xs) (length ?xs) 0 = Ret c' t"
    "read_cmd (line_buf ?xs) c' = c" "lexed (line_buf ?xs) (length ?xs) t []" by (rule givesE)
  have "t = length ?xs" using lexed_Nil [OF r(3)] .
  then show ?thesis
    using r(1,2) peek_lexed [OF r(3), of "[]"] by (simp add: parsecmd_def prog_simps)
qed

text \<open>The line \<open>( a & ) | b > f ; c\<close>.\<close>

theorem parse_print_roundtrip_witness:
  "let c = LIST (PIPE (BACK (EXEC [[97]])) (REDIR (EXEC [[98]]) [102] 0x601 1)) (EXEC [[99]]);
       xs = render (show_cmd c 0)
   in xs = [40, 32, 97, 32, 38, 32, 41, 32, 124, 32, 98, 32, 62, 32, 102, 32, 59, 32, 99, 32] \<and>
      (case parsecmd (line_buf xs) (length xs) of
         Ret (c', b) t \<Rightarrow> read_cmd (line_buf xs) c' = c | Panic m \<Rightarrow> False | Blocked t \<Rightarrow> False)"
proof -
  let ?c = "LIST (PIPE (BACK (EXEC [[97]])) (REDIR (EXEC [[98]]) [102] 0x601 1)) (EXEC [[99]]) :: u8 list cmd"
  have "typable ?c"
    by (simp add: symbols_def whitespace_def valid_mode_def O_RDONLY_def O_WRONLY_def O_CREATE_def O_TRUNC_def)
  moreover have "render (show_cmd ?c 0) =
      [40, 32, 97, 32, 38, 32, 41, 32, 124, 32, 98, 32, 62, 32, 102, 32, 59, 32, 99, 32]"
    by (simp add: render_def paren_def show_redir_def O_RDONLY_def O_WRONLY_def O_CREATE_def O_TRUNC_def)
  ultimately show ?thesis
    unfolding Let_def using parse_print_roundtrip [of ?c] by metis
qed

end
