(* ===== verification/Spec2Isabelle.thy ===== *)
theory Spec2Isabelle
  imports Pagetable Spinlock Trap Driver Mkfs Path Tracing Assembly Grep Unparse
begin

text \<open>
  A verification development of the xv6 kernel for RISC-V with the system calls trace, waitx and
  setpriority and the schedulers RR, FCFS, PBS and MLFQ, of mkfs, and of the shell's parser and grep.
  File names below are relative to src/.

  \<^bold>\<open>The program and the model.\<close> User programs run on harts that share memory and devices. A system call,
  a fault or an interrupt enters the kernel through the trap vectors; the kernel's C code works on the
  process table, page tables, files and devices under spinlocks, sleeps and wakes processes, and goes
  back to user space. Files are on a disk behind a log, a buffer cache and a driver.

  C code is a function from a state to an outcome (Prelude): it returns a value and a state, panics, or
  is \<open>Blocked\<close>, which is to say that the calling thread has given its hart away in \<open>sleep\<close>, \<open>yield\<close> or
  \<open>exit\<close>, or waits for a device. What a blocked function does when it goes on is a definition of its own,
  with the suffix \<open>_resume\<close>. The kernel state is an extensible record to which every component adds its
  fields: kbase, kmem, vmem, kproc, kslk, kpipe, kuart, kprintf, kcons, kbio, kdisk, klog, kfs, kfile
  and ktrap, in this order. Integers are words of the width they have in C; physical memory, disk blocks
  and user buffers are bytes, so structures in them are read and written at their offsets. The state is
  seen from one hart; the interleaving of harts is modelled where the code depends on it, in the
  spinlocks, and the set of held locks that the other theories use is proved to be refined by them (C30).
  Everywhere else a function runs to its end or to the point where it blocks before another one runs: what
  the locks exclude is not a step of the model, and the order in which \<open>sleep\<close> takes one lock and gives
  up the other has no effect in it. Sequences of whole operations are lists of operations (C5, C34) or steps of
  a relation (C7), and C33 is an invariant that every whole operation keeps.

  \<^bold>\<open>Theories and sources.\<close>
  \<^item> Prelude, Layout (kernel/param.h, memlayout.h, riscv.h), CString (kernel/string.c), Bytes: programs,
    constants, byte memory. Ring: ring buffers, with the locale \<open>fifo\<close>.
  \<^item> Kalloc (kernel/kalloc.c), Vm and Pagetable (kernel/vm.c), Umem (its copies from user space): the
    free list and the page tables as they are linked in physical memory.
  \<^item> Proc and ProcFacts (kernel/proc.c, proc.h), Scheduler (\<open>scheduler\<close> in its four versions), Clock (the
    clock interrupt of kernel/trap.c).
  \<^item> Spinlock (kernel/spinlock.c), Sleeplock (kernel/sleeplock.c), Pipe (kernel/pipe.c).
  \<^item> Uart (kernel/uart.c), Printf (kernel/printf.c, \<open>procdump\<close>), Console (kernel/console.c).
  \<^item> Bio and Bcache (kernel/bio.c), Virtio and Driver (kernel/virtio_disk.c), Log, Crash and Transaction
    (kernel/log.c), Fs, Inode, Bitmap and Path (kernel/fs.c), Mkfs (mkfs/mkfs.c).
  \<^item> File (kernel/file.c, and \<open>fork\<close>, \<open>exit\<close> and \<open>userinit\<close> of kernel/proc.c), Exec (kernel/exec.c), Sysproc
    and Sysfile (kernel/sysproc.c, sysfile.c), Syscall and Tracing (kernel/syscall.c), Trap (kernel/trap.c,
    plic.c, main.c).
  \<^item> Assembly (kernel/entry.S, start.c, swtch.S, trampoline.S, kernelvec.S): lists of instructions
    executed on the registers of a hart.
  \<^item> Shell and Unparse (the parser of user/sh.c), Grep (user/grep.c).

  \<^bold>\<open>What is proved.\<close>
  \<^item> Memory: no page is handed out twice or lost (C5); \<open>mappages\<close> and \<open>walkaddr\<close> act on the map from
    addresses to entries that the tree of tables stands for (C3, C4); the copies page by page are
    copies byte by byte (C31, C32).
  \<^item> Entry and switch: no register is lost on the way into the kernel and back (C2), between threads
    (C26) and in timer interrupts (C27).
  \<^item> Processes: allocation, exit and wait on every branch (C23, C24, C25); the line that a traced system call
    prints (C14) and the times that the kernel's \<open>waitx\<close> reports (C15); the choice of FCFS, PBS and MLFQ
    and its order of preference (C16, C17, C18), the turns of a round of RR (C19), the dynamic priority
    (C20), queue numbers and time slices of MLFQ (C21, C22).
  \<^item> Locks: mutual exclusion, interrupts and refinement for spinlocks (C28, C29, C30); no lost wakeup of a
    sleep-lock (C33).
  \<^item> Streams: pipe, serial port and console keep the order of what passes through them (C34, C35, C37);
    numbers are printed as they are (C36).
  \<^item> Storage, from below: the driver transfers the block it is asked for (C9); the cache is a map from
    block numbers to contents (C6); the log has room for what was admitted (C7, C8) and a commit is
    atomic under crashes (C1); inodes are found as they were written (C10), blocks are allocated from
    the bitmap (C11), paths are resolved component by component (C13). The image that mkfs makes holds
    the files it was given, in inodes and a bitmap that the kernel's own accessors read (C12).
  \<^item> User programs: the shell's parser ends and inverts the printing of commands (C38, C39); grep prints
    the matching lines (C40).

  \<^bold>\<open>Interfaces.\<close> \<open>page_pool\<close> (Kalloc) is interpreted on \<open>kalloc\<close> and \<open>kfree\<close>, \<open>fifo\<close> (Ring) on the buffers of
  pipes and of the serial port, \<open>ranking\<close> (Scheduler) on the orders of FCFS, PBS and MLFQ, \<open>save_area\<close>
  (Assembly) on the trap frame, the context, the frame of \<open>kernelvec\<close> and the timer's scratch area.

  \<^bold>\<open>Bounds and fuel.\<close> Loops over arrays are recursions over the indices. The walks over the list of buffers
  take NBUF + 1 steps, which is the whole circular list (lemmas \<open>find_cached_list\<close>, \<open>find_unused_list\<close>);
  \<open>free_chain\<close> takes NUM + 1 steps, since every step frees one of NUM descriptors and freeing one that is
  free panics; \<open>freewalk\<close> goes three levels deep, which is the height of the tree. The parser of the
  shell has five units of fuel for each byte that is left and five more, enough for every line (C39). The
  loops of \<open>strlen\<close>, \<open>strchr\<close> and \<open>grep\<close> are partial functions, as they end only at a NUL or at the end of
  the input. The endless loop of \<open>scheduler\<close> is one pass, and any number of passes in \<open>scheduler_rounds\<close>.

  \<^bold>\<open>Parameters.\<close> Devices are outside the program: the registers they answer with are lists of the state
  (\<open>uart_resp\<close>, \<open>plic_resp\<close>, \<open>vio_resp\<close>), and the disk is a function that satisfies \<open>device_law\<close>. The
  translation of addresses by the hardware is the field \<open>mmu\<close> of the hart. What a process does while it
  runs is an argument of the scheduler's passes.

  \<^bold>\<open>Not modelled.\<close>
  \<^item> user/usertests.c and the other test drivers, and the small user programs (ls, cat, wc, init, strace,
    time and so on): they issue system calls and have no state of their own.
  \<^item> \<open>runcmd\<close> and \<open>main\<close> of user/sh.c and \<open>main\<close> of user/grep.c, for the same reason.
  \<^item> user/ulib.c apart from \<open>strchr\<close>, user/printf.c and user/umalloc.c: the first two repeat
    kernel/string.c and kernel/printf.c; the allocator is left out.
  \<^item> user/initcode.S and the stubs generated by user/usys.pl: a load of a7 and an ecall each. The bytes of
    initcode are in the model of \<open>userinit\<close>.
  \<^item> kernel/ramdisk.c, which is not part of the build, and the register accessors of kernel/riscv.h that
    start.c does not call, whose registers are fields of the state.
  \<^item> In mkfs, the opening of files and the usage message.
\<close>

end
